(* ===== verification/Prelude.thy ===== *)
theory Prelude
  imports Complex_Main "HOL-Library.Word" "HOL-Library.AList"
begin

text \<open>
  Shared ground of the development: the fact collections, the machine integers of the C and C++
  sources, C strings and a few list lemmas.

  \<^item> \<open>int32_t\<close> values are HOL integers; every C expression that can leave the 32-bit range is
    wrapped by \<open>s32\<close> (two's complement). Signed overflow is undefined in C; the wrap is what the
    compiled code does on the target, and the component invariants show where it cannot happen.
  \<^item> unsigned values that are masked, shifted or wrapped are words (\<open>u32\<close>, \<open>u64\<close>, \<open>u8\<close>).
  \<^item> a \<open>char\<close> array that holds a C string is its content up to the terminator.
\<close>

unbundle bit_operations_syntax

named_theorems inv_defs \<open>definitions of the component invariants\<close>

type_synonym u8 = "8 word"
type_synonym u16 = "16 word"
type_synonym u32 = "32 word"
type_synonym u64 = "64 word"

section \<open>Signed 32-bit arithmetic\<close>

definition s32 :: "int \<Rightarrow> int" where
  "s32 x = signed_take_bit 31 x"

definition in_s32 :: "int \<Rightarrow> bool" where
  "in_s32 x \<longleftrightarrow> - (2 ^ 31) \<le> x \<and> x < 2 ^ 31"

lemma s32_id: "- 2147483648 \<le> x \<Longrightarrow> x < 2147483648 \<Longrightarrow> s32 x = x"
  by (simp add: s32_def signed_take_bit_int_eq_self)

lemma s32_in_range [simp]: "in_s32 (s32 x)"
  using signed_take_bit_int_less_exp [of 31 x] signed_take_bit_int_greater_eq_minus_exp [of 31 x]
  by (simp add: s32_def in_s32_def)

lemma s32_in_s32: "in_s32 x \<Longrightarrow> s32 x = x"
  by (simp add: in_s32_def s32_id)

lemma s32_idem [simp]: "s32 (s32 x) = s32 x"
  by (simp add: s32_in_s32)

lemma s32_zero [simp]: "s32 0 = 0"
  by (simp add: s32_id)

lemma s32_add_left: "s32 (s32 x + y) = s32 (x + y)"
  unfolding s32_def by (metis signed_take_bit_add signed_take_bit_signed_take_bit min.idem)

section \<open>Unsigned words\<close>

lemma unat_u32_less [simp]: "unat (x :: u32) < 4294967296"
  using unsigned_less [of x, where ?'a = nat] by simp

lemma unat_u64_less [simp]: "unat (x :: u64) < 18446744073709551616"
  using unsigned_less [of x, where ?'a = nat] by simp

lemma unat_of_nat_u32: "n < 4294967296 \<Longrightarrow> unat (of_nat n :: u32) = n"
  by (simp add: unat_of_nat)

lemma unat_of_nat_u64: "n < 18446744073709551616 \<Longrightarrow> unat (of_nat n :: u64) = n"
  by (simp add: unat_of_nat)

lemma unat_ucast_u64: "unat (ucast (w :: u32) :: u64) = unat w"
proof -
  have "unat w < 18446744073709551616" using unat_u32_less [of w] by (rule less_trans) simp
  then show ?thesis by (simp add: unsigned_ucast_eq take_bit_eq_mod)
qed

lemma ucast_u64_of_nat: "ucast (w :: u32) = (of_nat (unat w) :: u64)"
proof -
  have "unat w < 18446744073709551616" using unat_u32_less [of w] by (rule less_trans) simp
  then show ?thesis unfolding word_unat_eq_iff by (simp only: unat_ucast_u64 unat_of_nat_u64)
qed

lemma ucast_of_nat_u32: "ucast (of_nat n :: u64) = (of_nat n :: u32)"
  by (simp add: word_unat_eq_iff unsigned_ucast_eq take_bit_eq_mod unat_of_nat mod_mod_cancel)

section \<open>C strings\<close>

definition NUL :: char where
  "NUL = CHR 0x00"

definition cstr :: "char list \<Rightarrow> string" where
  "cstr cs = takeWhile (\<lambda>c. c \<noteq> NUL) cs"

text \<open>The \<open>n\<close> bytes that \<open>strncpy (dst, src, n)\<close> stores: the string cut at \<open>n\<close>, padded with NULs.\<close>

definition strncpy :: "nat \<Rightarrow> string \<Rightarrow> char list" where
  "strncpy n s = take n s @ replicate (n - length s) NUL"

lemma length_strncpy [simp]: "length (strncpy n s) = n"
  by (simp add: strncpy_def)

lemma cstr_no_nul: "NUL \<notin> set s \<Longrightarrow> cstr s = s"
  unfolding cstr_def by (rule takeWhile_eq_all_conv [THEN iffD2]) auto

lemma cstr_append_nul: "NUL \<notin> set s \<Longrightarrow> cstr (s @ NUL # t) = s"
  by (auto simp: cstr_def takeWhile_append)

section \<open>Lists\<close>

lemma map_of_eq_Some_in: "map_of xs k = Some v \<Longrightarrow> (k, v) \<in> set xs"
  by (rule map_of_SomeD)

lemma sum_list_nonneg_int: "(\<And>x. x \<in> set xs \<Longrightarrow> (0::int) \<le> x) \<Longrightarrow> 0 \<le> sum_list xs"
  by (induction xs) auto

end
