(* ===== verification/Binary64.thy ===== *)
theory Binary64
  imports Prelude
begin

text \<open>
  The C type \<open>double\<close>: IEEE 754 binary64 under round-to-nearest-even, on bit patterns.

  A double is the 64-bit word that holds it, so a value that is copied into a record, an event or a
  journal payload is copied bit by bit. A finite double is an integer multiple of \<open>2\<^sup>-\<^sup>1\<^sup>0\<^sup>7\<^sup>4\<close>;
  \<open>d_int\<close> is that integer (an infinity gets the integer one step beyond the largest finite value, so
  that the order of the integers is the order of the doubles). Comparisons are comparisons of these
  integers, false when an operand is a NaN, and arithmetic is exact integer arithmetic followed by one
  rounding, \<open>d_round\<close>. The payload of a NaN result is not modelled: every operation that yields a NaN
  yields the same one. The source's expressions are taken as written (no fused multiply-add).
\<close>

type_synonym double = u64

section \<open>Bit patterns and the values they stand for\<close>

definition d_mag :: "double \<Rightarrow> nat" where
  "d_mag x = unat x mod 2 ^ 63"

definition d_sign :: "double \<Rightarrow> bool" where
  "d_sign x \<longleftrightarrow> 2 ^ 63 \<le> unat x"

definition d_mk :: "bool \<Rightarrow> nat \<Rightarrow> double" where
  "d_mk s m = of_nat (m + (if s then 2 ^ 63 else 0))"

definition inf_mag :: nat where
  "inf_mag = 2047 * 2 ^ 52"

definition is_nan :: "double \<Rightarrow> bool" where
  "is_nan x \<longleftrightarrow> inf_mag < d_mag x"

definition is_inf :: "double \<Rightarrow> bool" where
  "is_inf x \<longleftrightarrow> d_mag x = inf_mag"

definition d_finite :: "double \<Rightarrow> bool" where
  "d_finite x \<longleftrightarrow> d_mag x < inf_mag"

definition d_nan :: double where
  "d_nan = d_mk False (inf_mag + 2 ^ 51)"

definition mag_val :: "nat \<Rightarrow> nat" where
  "mag_val m = (if m div 2 ^ 52 = 0 then m else (2 ^ 52 + m mod 2 ^ 52) * 2 ^ (m div 2 ^ 52 - 1))"

definition d_int :: "double \<Rightarrow> int" where
  "d_int x = (if d_sign x then - int (mag_val (d_mag x)) else int (mag_val (d_mag x)))"

section \<open>Rounding\<close>

text \<open>\<open>rne n d\<close>: the integer nearest to \<open>n / d\<close>, ties to the even one.\<close>

definition rne :: "nat \<Rightarrow> nat \<Rightarrow> nat" where
  "rne n d = (let q = n div d; r = n mod d in
     if 2 * r < d \<or> (2 * r = d \<and> even q) then q else q + 1)"

fun bit_length :: "nat \<Rightarrow> nat" where
  "bit_length n = (if n = 0 then 0 else Suc (bit_length (n div 2)))"

declare bit_length.simps [simp del]

text \<open>The bit pattern of the double nearest to \<open>n / d\<close> units of \<open>2\<^sup>-\<^sup>1\<^sup>0\<^sup>7\<^sup>4\<close>.\<close>

definition round_mag :: "nat \<Rightarrow> nat \<Rightarrow> nat" where
  "round_mag n d = (let k = bit_length (n div d) - 53 in
     min (k * 2 ^ 52 + rne n (d * 2 ^ k)) inf_mag)"

text \<open>\<open>s\<close> is the sign an exact zero gets.\<close>

definition d_round :: "bool \<Rightarrow> int \<Rightarrow> nat \<Rightarrow> double" where
  "d_round s v d = d_mk (v < 0 \<or> v = 0 \<and> s) (round_mag (nat \<bar>v\<bar>) d)"

section \<open>Operations\<close>

definition d_unit :: nat where
  "d_unit = 2 ^ 1074"

definition d_lt :: "double \<Rightarrow> double \<Rightarrow> bool" where
  "d_lt x y \<longleftrightarrow> \<not> is_nan x \<and> \<not> is_nan y \<and> d_int x < d_int y"

definition d_le :: "double \<Rightarrow> double \<Rightarrow> bool" where
  "d_le x y \<longleftrightarrow> \<not> is_nan x \<and> \<not> is_nan y \<and> d_int x \<le> d_int y"

definition d_eq :: "double \<Rightarrow> double \<Rightarrow> bool" where
  "d_eq x y \<longleftrightarrow> \<not> is_nan x \<and> \<not> is_nan y \<and> d_int x = d_int y"

definition d_neg :: "double \<Rightarrow> double" where
  "d_neg x = d_mk (\<not> d_sign x) (d_mag x)"

definition d_abs :: "double \<Rightarrow> double" where
  "d_abs x = d_mk False (d_mag x)"

definition d_add :: "double \<Rightarrow> double \<Rightarrow> double" where
  "d_add x y =
    (if is_nan x \<or> is_nan y then d_nan
     else if is_inf x then (if is_inf y \<and> d_sign x \<noteq> d_sign y then d_nan else x)
     else if is_inf y then y
     else d_round (d_sign x \<and> d_sign y) (d_int x + d_int y) 1)"

definition d_sub :: "double \<Rightarrow> double \<Rightarrow> double" where
  "d_sub x y = d_add x (d_neg y)"

definition d_mul :: "double \<Rightarrow> double \<Rightarrow> double" where
  "d_mul x y =
    (if is_nan x \<or> is_nan y then d_nan
     else if is_inf x \<or> is_inf y then
       (if d_mag x = 0 \<or> d_mag y = 0 then d_nan else d_mk (d_sign x \<noteq> d_sign y) inf_mag)
     else d_round (d_sign x \<noteq> d_sign y) (d_int x * d_int y) d_unit)"

definition d_div :: "double \<Rightarrow> double \<Rightarrow> double" where
  "d_div x y =
    (if is_nan x \<or> is_nan y then d_nan
     else if is_inf x then (if is_inf y then d_nan else d_mk (d_sign x \<noteq> d_sign y) inf_mag)
     else if is_inf y then d_mk (d_sign x \<noteq> d_sign y) 0
     else if d_mag y = 0 then
       (if d_mag x = 0 then d_nan else d_mk (d_sign x \<noteq> d_sign y) inf_mag)
     else d_round (d_sign x \<noteq> d_sign y) (d_int x * sgn (d_int y) * int d_unit) (nat \<bar>d_int y\<bar>))"

text \<open>
  Conversions: an integer to a double, a decimal literal \<open>n / d\<close>, and the truncation to an integer
  that a cast to \<open>int32_t\<close> performs (out of range the cast is undefined; the theorems that use it
  show the value is in range).
\<close>

definition d_of_int :: "int \<Rightarrow> double" where
  "d_of_int i = d_round False (i * int d_unit) 1"

definition d_lit :: "nat \<Rightarrow> nat \<Rightarrow> double" where
  "d_lit n d = d_round False (int (n * d_unit)) d"

definition d_trunc :: "double \<Rightarrow> int" where
  "d_trunc x = (if d_sign x then - int (mag_val (d_mag x) div d_unit)
     else int (mag_val (d_mag x) div d_unit))"

section \<open>Lemmas: bit patterns\<close>

lemma unat_d_mk: "m < 2 ^ 63 \<Longrightarrow> unat (d_mk s m) = m + (if s then 2 ^ 63 else 0)"
  unfolding d_mk_def by (subst unat_of_nat_u64) auto

lemma d_mag_mk [simp]: "m < 2 ^ 63 \<Longrightarrow> d_mag (d_mk s m) = m"
  by (simp add: d_mag_def unat_d_mk)

lemma d_sign_mk [simp]: "m < 2 ^ 63 \<Longrightarrow> d_sign (d_mk s m) = s"
  by (simp add: d_sign_def unat_d_mk)

lemma d_mag_less [simp]: "d_mag x < 9223372036854775808"
  by (simp add: d_mag_def)

lemma inf_mag_less: "inf_mag < 2 ^ 63"
  by (simp add: inf_mag_def)

lemma unat_split_mag: "unat x = d_mag x + (if d_sign x then 2 ^ 63 else 0)"
proof -
  have "unat x - 9223372036854775808 < 9223372036854775808" using unat_u64_less [of x] by linarith
  then have "(unat x - 9223372036854775808) mod 9223372036854775808 = unat x - 9223372036854775808"
    by (rule mod_less)
  then show ?thesis unfolding d_mag_def d_sign_def by (auto simp: le_mod_geq)
qed

lemma d_mk_eq_self [simp]: "d_mk (d_sign x) (d_mag x) = x"
  by (rule word_unat_eq_iff [THEN iffD2]) (simp add: unat_d_mk unat_split_mag [of x])

lemma d_mag_neg [simp]: "d_mag (d_neg x) = d_mag x"
  by (simp add: d_neg_def)

lemma d_sign_neg [simp]: "d_sign (d_neg x) = (\<not> d_sign x)"
  by (simp add: d_neg_def)

lemma d_int_neg [simp]: "d_int (d_neg x) = - d_int x"
  by (simp add: d_int_def)

lemma is_nan_neg [simp]: "is_nan (d_neg x) = is_nan x"
  by (simp add: is_nan_def)

lemma is_inf_neg [simp]: "is_inf (d_neg x) = is_inf x"
  by (simp add: is_inf_def)

lemma d_finite_neg [simp]: "d_finite (d_neg x) = d_finite x"
  by (simp add: d_finite_def)

lemma d_finite_iff: "d_finite x \<longleftrightarrow> \<not> is_nan x \<and> \<not> is_inf x"
  by (auto simp: d_finite_def is_nan_def is_inf_def)

lemma is_nan_d_nan [simp]: "is_nan d_nan"
  by (simp add: is_nan_def d_nan_def inf_mag_def)

section \<open>Lemmas: rounding\<close>

lemma bit_length_0 [simp]: "bit_length 0 = 0"
  by (simp add: bit_length.simps)

lemma bit_length_numerals [simp]:
  "bit_length 1 = 1" "bit_length (Suc 0) = 1"
  "bit_length (numeral num.One) = 1"
  "bit_length (numeral (num.Bit0 k)) = Suc (bit_length (numeral k))"
  "bit_length (numeral (num.Bit1 k)) = Suc (bit_length (numeral k))"
  by (simp_all add: bit_length.simps [of "numeral k" for k] bit_length.simps [of 1]
      bit_length.simps [of "Suc 0"])

lemma bit_length_less: "n < 2 ^ bit_length n"
proof (induction n rule: bit_length.induct)
  case (1 n)
  then show ?case by (cases "n = 0") (auto simp: bit_length.simps [of n])
qed

lemma bit_length_ge: "n \<noteq> 0 \<Longrightarrow> 2 ^ (bit_length n - 1) \<le> n"
proof (induction n rule: bit_length.induct)
  case (1 n)
  show ?case
  proof (cases "n div 2 = 0")
    case True
    with "1.prems" have "n = 1" by auto
    then show ?thesis by simp
  next
    case False
    with "1.prems" "1.IH" have "2 ^ (bit_length (n div 2) - 1) \<le> n div 2" by simp
    moreover from False have "0 < bit_length (n div 2)"
      by (subst bit_length.simps) simp
    ultimately show ?thesis
      using "1.prems" by (cases "bit_length (n div 2)") (auto simp: bit_length.simps [of n])
  qed
qed

lemma bit_length_le_iff: "bit_length n \<le> k \<longleftrightarrow> n < 2 ^ k"
proof
  assume "bit_length n \<le> k"
  then have "(2::nat) ^ bit_length n \<le> 2 ^ k" by simp
  with bit_length_less [of n] show "n < 2 ^ k" by (rule less_le_trans)
next
  assume "n < 2 ^ k"
  show "bit_length n \<le> k"
  proof (cases "n = 0")
    case False
    from bit_length_ge [OF this] \<open>n < 2 ^ k\<close> have "(2::nat) ^ (bit_length n - 1) < 2 ^ k"
      by (rule le_less_trans)
    then have "bit_length n - 1 < k" by (rule power_less_imp_less_exp [rotated]) simp
    then show ?thesis by simp
  qed simp
qed

lemma bit_length_mono: "m \<le> n \<Longrightarrow> bit_length m \<le> bit_length n"
  unfolding bit_length_le_iff using bit_length_less [of n] by simp

lemma rne_bounds: "n div d \<le> rne n d \<and> rne n d \<le> n div d + 1"
  by (simp add: rne_def Let_def)

lemma rne_exact [simp]: "0 < d \<Longrightarrow> rne (q * d) d = q"
  by (simp add: rne_def)

lemma rne_one [simp]: "rne n (Suc 0) = n"
  by (simp add: rne_def)

lemma rne_mono:
  assumes "0 < d1" "0 < d2" and le: "n1 * d2 \<le> n2 * d1"
  shows "rne n1 d1 \<le> rne n2 d2"
proof -
  define q1 r1 q2 r2 where defs: "q1 = n1 div d1" "r1 = n1 mod d1" "q2 = n2 div d2" "r2 = n2 mod d2"
  have n1: "n1 = q1 * d1 + r1" and n2: "n2 = q2 * d2 + r2" and r: "r1 < d1" "r2 < d2"
    using assms(1,2) by (simp_all add: defs)
  have "q1 * (d1 * d2) \<le> n1 * d2" by (simp add: n1 algebra_simps)
  also have "\<dots> \<le> n2 * d1" by (rule le)
  also have "\<dots> < (q2 + 1) * (d1 * d2)"
    using r assms(1) by (simp add: n2 algebra_simps)
  finally have "q1 * (d1 * d2) < (q2 + 1) * (d1 * d2)" .
  then have "q1 < q2 + 1" by (rule mult_less_cancel2 [THEN iffD1, THEN conjunct2])
  then consider "q1 < q2" | "q1 = q2" by linarith
  then show ?thesis
  proof cases
    case 1
    with rne_bounds [of n1 d1] rne_bounds [of n2 d2] show ?thesis by (simp add: defs)
  next
    case 2
    with le have le': "r1 * d2 \<le> r2 * d1" by (simp add: n1 n2 algebra_simps)
    have "d2 \<le> 2 * r2" if "d1 \<le> 2 * r1"
    proof -
      have "d1 * d2 \<le> 2 * r1 * d2" using that by simp
      also have "\<dots> \<le> d1 * (2 * r2)" using le' by (simp add: algebra_simps)
      finally show ?thesis using assms(1) by simp
    qed
    moreover have "d2 < 2 * r2" if "d1 < 2 * r1"
    proof -
      have "d1 * d2 < 2 * r1 * d2" using that assms(2) by simp
      also have "\<dots> \<le> d1 * (2 * r2)" using le' by (simp add: algebra_simps)
      finally show ?thesis using assms(1) by simp
    qed
    ultimately show ?thesis
      using 2 unfolding rne_def Let_def defs by fastforce
  qed
qed

lemma bit_length_mult_pow: "n \<noteq> 0 \<Longrightarrow> bit_length (n * 2 ^ k) = bit_length n + k"
proof (induction k)
  case (Suc k)
  have "bit_length (n * 2 ^ Suc k) = Suc (bit_length (n * 2 ^ Suc k div 2))"
    using Suc.prems by (subst bit_length.simps) simp
  also have "n * 2 ^ Suc k div 2 = n * 2 ^ k" by simp
  finally show ?case using Suc by simp
qed simp

lemma less_pow_div: "0 < d \<Longrightarrow> n div d < 2 ^ b \<longleftrightarrow> n < d * 2 ^ b" for n :: nat
  by (simp add: div_less_iff_less_mult mult.commute)

text \<open>The quotient at the chosen exponent: at most \<open>2\<^sup>5\<^sup>3\<close>, at least \<open>2\<^sup>5\<^sup>2\<close> unless the exponent is 0.\<close>

lemma rne_upper:
  assumes "0 < d" and "n div d < 2 ^ (53 + k)"
  shows "rne n (d * 2 ^ k) \<le> 2 ^ 53"
proof -
  from assms have "n < (d * 2 ^ k) * 2 ^ 53"
    using less_pow_div [of d n "53 + k"] by (simp add: power_add algebra_simps)
  then have "n div (d * 2 ^ k) < 2 ^ 53" using assms(1) by (subst less_pow_div) auto
  with rne_bounds [of n "d * 2 ^ k"] show ?thesis by linarith
qed

lemma rne_lower:
  assumes "0 < d" and "2 ^ (52 + k) \<le> n div d"
  shows "2 ^ 52 \<le> rne n (d * 2 ^ k)"
proof -
  from assms have "\<not> n < (d * 2 ^ k) * 2 ^ 52"
    using less_pow_div [of d n "52 + k"] by (simp add: power_add algebra_simps not_less)
  then have "\<not> n div (d * 2 ^ k) < 2 ^ 52" using assms(1) by (subst less_pow_div) auto
  with rne_bounds [of n "d * 2 ^ k"] show ?thesis by linarith
qed

text \<open>Rounding is monotone: the key fact about every comparison of computed prices.\<close>

lemma round_mag_mono:
  assumes d: "0 < d1" "0 < d2" and le: "n1 * d2 \<le> n2 * d1"
  shows "round_mag n1 d1 \<le> round_mag n2 d2"
proof -
  define k1 k2 where k: "k1 = bit_length (n1 div d1) - 53" "k2 = bit_length (n2 div d2) - 53"
  have "n1 div d1 = n1 * d2 div (d1 * d2)" using d by simp
  also have "\<dots> \<le> n2 * d1 div (d1 * d2)" using le by (rule div_le_mono)
  also have "\<dots> = n2 div d2" using d by simp
  finally have q: "n1 div d1 \<le> n2 div d2" .
  then have "k1 \<le> k2" unfolding k by (simp add: bit_length_mono diff_le_mono)
  then consider "k1 = k2" | "k1 < k2" by linarith
  then have "k1 * 2 ^ 52 + rne n1 (d1 * 2 ^ k1) \<le> k2 * 2 ^ 52 + rne n2 (d2 * 2 ^ k2)"
  proof cases
    case 1
    have "rne n1 (d1 * 2 ^ k1) \<le> rne n2 (d2 * 2 ^ k2)"
      using d le 1 by (intro rne_mono) (simp_all add: algebra_simps)
    with 1 show ?thesis by simp
  next
    case 2
    have "bit_length (n1 div d1) \<le> 53 + k1" by (simp add: k)
    then have up: "rne n1 (d1 * 2 ^ k1) \<le> 2 ^ 53"
      using d by (intro rne_upper) (simp_all add: bit_length_le_iff)
    from 2 have "bit_length (n2 div d2) = 53 + k2" unfolding k by simp
    moreover from this have "n2 div d2 \<noteq> 0" by (cases "n2 div d2 = 0") simp_all
    ultimately have "2 ^ (52 + k2) \<le> n2 div d2" using bit_length_ge [of "n2 div d2"] by simp
    then have "2 ^ 52 \<le> rne n2 (d2 * 2 ^ k2)" using d by (intro rne_lower)
    moreover from 2 have "(k1 + 1) * 2 ^ 52 \<le> k2 * (2 ^ 52 :: nat)" by (intro mult_le_mono1) simp
    ultimately show ?thesis using up by simp
  qed
  then show ?thesis by (simp add: round_mag_def Let_def flip: k)
qed

lemma mag_val_strict_mono:
  assumes "a < b" shows "mag_val a < mag_val b"
proof -
  define ea fa eb fb where defs: "ea = a div 2 ^ 52" "fa = a mod 2 ^ 52" "eb = b div 2 ^ 52" "fb = b mod 2 ^ 52"
  have a: "a = ea * 2 ^ 52 + fa" and b: "b = eb * 2 ^ 52 + fb" and f: "fa < 2 ^ 52" "fb < 2 ^ 52"
    by (simp_all add: defs)
  have e: "ea \<le> eb" unfolding defs using assms by (simp add: div_le_mono)
  have va: "mag_val a = (if ea = 0 then fa else (2 ^ 52 + fa) * 2 ^ (ea - 1))"
    and vb: "mag_val b = (if eb = 0 then fb else (2 ^ 52 + fb) * 2 ^ (eb - 1))"
    by (auto simp: mag_val_def defs)
  show ?thesis
  proof (cases "ea = eb")
    case True
    with assms a b have "fa < fb" by simp
    with True show ?thesis by (simp add: va vb)
  next
    case False
    with e obtain i where i: "eb = Suc i" "ea \<le> i" by (cases eb) auto
    have "mag_val a < 2 ^ 52 * 2 ^ i"
    proof (cases ea)
      case 0
      have "fa < 2 ^ 52 * 1" using f by simp
      also have "\<dots> \<le> 2 ^ 52 * 2 ^ i" by (intro mult_le_mono2) simp
      finally show ?thesis by (simp add: va 0)
    next
      case (Suc j)
      have "(2 ^ 52 + fa) * 2 ^ j < 2 ^ 53 * (2 ^ j :: nat)" using f by (intro mult_strict_right_mono) simp_all
      also have "\<dots> = 2 ^ 52 * 2 ^ Suc j" by simp
      also have "\<dots> \<le> 2 ^ 52 * 2 ^ i" using i Suc by (intro mult_le_mono2 power_increasing) simp_all
      finally show ?thesis by (simp add: va Suc)
    qed
    also have "\<dots> \<le> mag_val b" by (simp add: vb i)
    finally show ?thesis .
  qed
qed

lemma mag_val_mono_iff [simp]: "mag_val a \<le> mag_val b \<longleftrightarrow> a \<le> b"
  using mag_val_strict_mono [of a b] mag_val_strict_mono [of b a] by (cases a b rule: linorder_cases) auto

lemma mag_val_less_iff [simp]: "mag_val a < mag_val b \<longleftrightarrow> a < b"
  by (simp flip: not_le)

lemma mag_val_eq_iff [simp]: "mag_val a = mag_val b \<longleftrightarrow> a = b"
  by (simp add: order_eq_iff)

lemma mag_val_0 [simp]: "mag_val 0 = 0"
  by (simp add: mag_val_def)

lemma mag_val_eq_0 [simp]: "mag_val a = 0 \<longleftrightarrow> a = 0"
  using mag_val_eq_iff [of a 0] by (simp del: mag_val_eq_iff)

text \<open>Rounding a representable value gives the value back.\<close>

lemma round_mag_mag_val: "m \<le> inf_mag \<Longrightarrow> round_mag (mag_val m) 1 = m"
proof (cases "m div 2 ^ 52 = 0")
  case True
  assume "m \<le> inf_mag"
  from True have "m < 2 ^ 53" by (simp add: div_eq_0_iff)
  then have "bit_length m - 53 = 0" using bit_length_le_iff [of m 53] by simp
  with True \<open>m \<le> inf_mag\<close> show ?thesis by (simp add: round_mag_def mag_val_def)
next
  case False
  assume le: "m \<le> inf_mag"
  define k where "k = m div 2 ^ 52 - 1"
  have m: "m = (k + 1) * 2 ^ 52 + m mod 2 ^ 52" and v: "mag_val m = (2 ^ 52 + m mod 2 ^ 52) * 2 ^ k"
    using False by (simp_all add: k_def mag_val_def)
  have "bit_length (2 ^ 52 + m mod 2 ^ 52) \<le> 53" by (subst bit_length_le_iff) simp
  moreover have "\<not> bit_length (2 ^ 52 + m mod 2 ^ 52) \<le> 52" by (subst bit_length_le_iff) simp
  ultimately have "bit_length (mag_val m) = 53 + k"
    unfolding v by (subst bit_length_mult_pow) simp_all
  then have "round_mag (mag_val m) 1 = min (k * 2 ^ 52 + (2 ^ 52 + m mod 2 ^ 52)) inf_mag"
    by (simp add: round_mag_def v)
  also have "\<dots> = m" using le m by simp
  finally show ?thesis .
qed

section \<open>Lemmas: rounded values\<close>

text \<open>\<open>rnd v d\<close> is the value, in units of \<open>2\<^sup>-\<^sup>1\<^sup>0\<^sup>7\<^sup>4\<close>, of the double nearest to \<open>v / d\<close>.\<close>

definition rnd :: "int \<Rightarrow> nat \<Rightarrow> int" where
  "rnd v d = sgn v * int (mag_val (round_mag (nat \<bar>v\<bar>) d))"

lemma round_mag_le [simp]: "round_mag n d \<le> inf_mag"
  by (simp add: round_mag_def Let_def)

lemma round_mag_less [simp]: "round_mag n d < 9223372036854775808"
  by (rule le_less_trans [OF round_mag_le]) (simp add: inf_mag_def)

lemma round_mag_0 [simp]: "round_mag 0 d = 0"
  by (cases d) (simp_all add: round_mag_def rne_def)

lemma d_int_round [simp]: "d_int (d_round s v d) = rnd v d"
  by (auto simp: d_int_def d_round_def rnd_def sgn_if)

lemma d_round_not_nan [simp]: "\<not> is_nan (d_round s v d)"
  by (simp add: is_nan_def d_round_def not_less)

lemma rnd_0 [simp]: "rnd 0 d = 0"
  by (simp add: rnd_def)

lemma rnd_uminus: "rnd (- v) d = - rnd v d"
  by (simp add: rnd_def)

lemma rnd_nonneg: "0 \<le> v \<Longrightarrow> 0 \<le> rnd v d"
  by (simp add: rnd_def sgn_if)

lemma rnd_mono:
  assumes d: "0 < d1" "0 < d2" and le: "v1 * int d2 \<le> v2 * int d1"
  shows "rnd v1 d1 \<le> rnd v2 d2"
proof -
  have pos: "rnd a da \<le> rnd b db"
    if "0 < da" "0 < db" "0 \<le> a" "0 \<le> b" "a * int db \<le> b * int da" for a b da db
  proof -
    have "int (nat a * db) \<le> int (nat b * da)" using that by simp
    then have "nat a * db \<le> nat b * da" by (simp only: of_nat_le_iff)
    with that have "round_mag (nat a) da \<le> round_mag (nat b) db" by (intro round_mag_mono)
    moreover have "a = 0" if "b = 0"
      using that \<open>0 < db\<close> \<open>0 \<le> a\<close> \<open>a * int db \<le> b * int da\<close> by (simp add: mult_le_0_iff)
    ultimately show ?thesis using that by (auto simp: rnd_def sgn_if)
  qed
  consider "0 \<le> v1" | "v1 < 0" "0 \<le> v2" | "v1 < 0" "v2 < 0" by linarith
  then show ?thesis
  proof cases
    case 1
    then have "0 \<le> v2 * int d1" using le by (meson mult_nonneg_nonneg of_nat_0_le_iff order_trans)
    then have "0 \<le> v2" using d by (simp add: zero_le_mult_iff)
    with 1 d le show ?thesis by (intro pos)
  next
    case 2
    have "rnd v1 d1 \<le> 0" using rnd_nonneg [of "- v1" d1] 2 by (simp add: rnd_uminus)
    also have "0 \<le> rnd v2 d2" using 2 by (rule rnd_nonneg [OF conjunct2 [OF conjI]])
    finally show ?thesis .
  next
    case 3
    with d le have "rnd (- v2) d2 \<le> rnd (- v1) d1" by (intro pos) simp_all
    then show ?thesis by (simp add: rnd_uminus)
  qed
qed

lemma d_int_zero_iff: "d_int x = 0 \<longleftrightarrow> d_mag x = 0"
  by (simp add: d_int_def)

lemma rnd_exact: "\<not> is_nan x \<Longrightarrow> rnd (d_int x) 1 = d_int x"
  using round_mag_mag_val [of "d_mag x"]
  by (auto simp: rnd_def d_int_def is_nan_def sgn_if)

lemma rnd_le_double: "\<not> is_nan y \<Longrightarrow> 0 < d \<Longrightarrow> v \<le> d_int y * int d \<Longrightarrow> rnd v d \<le> d_int y"
  using rnd_mono [of d 1 v "d_int y"] by (simp add: rnd_exact [simplified])

lemma double_le_rnd: "\<not> is_nan x \<Longrightarrow> 0 < d \<Longrightarrow> d_int x * int d \<le> v \<Longrightarrow> d_int x \<le> rnd v d"
  using rnd_mono [of 1 d "d_int x" v] by (simp add: rnd_exact [simplified])

section \<open>Lemmas: the order of doubles\<close>

lemma d_lt_irrefl [simp]: "\<not> d_lt x x"
  by (simp add: d_lt_def)

lemma d_lt_trans: "d_lt x y \<Longrightarrow> d_lt y z \<Longrightarrow> d_lt x z"
  by (auto simp: d_lt_def)

lemma d_lt_asym: "d_lt x y \<Longrightarrow> \<not> d_lt y x"
  by (auto simp: d_lt_def)

lemma d_not_lt: "\<not> is_nan x \<Longrightarrow> \<not> is_nan y \<Longrightarrow> \<not> d_lt x y \<longleftrightarrow> d_le y x"
  by (auto simp: d_lt_def d_le_def)

lemma d_eq_iff_not_lt: "\<not> is_nan x \<Longrightarrow> \<not> is_nan y \<Longrightarrow> d_eq x y \<longleftrightarrow> \<not> d_lt x y \<and> \<not> d_lt y x"
  by (auto simp: d_lt_def d_eq_def)

lemma nan_not_lt [simp]: "is_nan x \<Longrightarrow> \<not> d_lt x y" "is_nan y \<Longrightarrow> \<not> d_lt x y"
  by (simp_all add: d_lt_def)

lemma nan_not_le [simp]: "is_nan x \<Longrightarrow> \<not> d_le x y" "is_nan y \<Longrightarrow> \<not> d_le x y"
  by (simp_all add: d_le_def)

text \<open>Comparisons read off the bit patterns, for evaluation.\<close>

lemma d_int_less_code:
  "d_int x < d_int y \<longleftrightarrow>
    (if d_sign x then (if d_sign y then d_mag y < d_mag x else d_mag x \<noteq> 0 \<or> d_mag y \<noteq> 0)
     else \<not> d_sign y \<and> d_mag x < d_mag y)"
proof -
  have pos: "0 < mag_val m \<longleftrightarrow> 0 < m" for m
    using mag_val_less_iff [of 0 m] by (simp del: mag_val_less_iff)
  have "- int a < int b \<longleftrightarrow> 0 < a \<or> 0 < b" for a b :: nat by auto
  then show ?thesis by (auto simp: d_int_def pos)
qed

lemma d_lt_code: "d_lt x y \<longleftrightarrow> \<not> is_nan x \<and> \<not> is_nan y \<and>
    (if d_sign x then (if d_sign y then d_mag y < d_mag x else d_mag x \<noteq> 0 \<or> d_mag y \<noteq> 0)
     else \<not> d_sign y \<and> d_mag x < d_mag y)"
  unfolding d_lt_def d_int_less_code ..

lemma d_le_code: "d_le x y \<longleftrightarrow> \<not> is_nan x \<and> \<not> is_nan y \<and> \<not> d_lt y x"
  by (auto simp: d_le_def d_lt_def)

section \<open>Lemmas: arithmetic on finite doubles\<close>

lemma d_finite_not_nan [simp]: "d_finite x \<Longrightarrow> \<not> is_nan x"
  by (simp add: d_finite_iff)

lemma d_finite_not_inf [simp]: "d_finite x \<Longrightarrow> \<not> is_inf x"
  by (simp add: d_finite_iff)

lemma d_unit_pos [simp]: "0 < d_unit"
  by (simp add: d_unit_def)

lemma d_int_add: "d_finite x \<Longrightarrow> d_finite y \<Longrightarrow> d_int (d_add x y) = rnd (d_int x + d_int y) 1"
  by (simp add: d_add_def)

lemma d_int_sub: "d_finite x \<Longrightarrow> d_finite y \<Longrightarrow> d_int (d_sub x y) = rnd (d_int x - d_int y) 1"
  by (simp add: d_sub_def d_int_add)

lemma d_int_mul: "d_finite x \<Longrightarrow> d_finite y \<Longrightarrow> d_int (d_mul x y) = rnd (d_int x * d_int y) d_unit"
  by (simp add: d_mul_def)

lemma d_int_div: "d_finite x \<Longrightarrow> d_finite y \<Longrightarrow> d_int y \<noteq> 0 \<Longrightarrow>
    d_int (d_div x y) = rnd (d_int x * sgn (d_int y) * int d_unit) (nat \<bar>d_int y\<bar>)"
  by (simp add: d_div_def d_int_zero_iff)

lemma not_nan_add [simp]: "d_finite x \<Longrightarrow> d_finite y \<Longrightarrow> \<not> is_nan (d_add x y)"
  by (simp add: d_add_def)

lemma not_nan_sub [simp]: "d_finite x \<Longrightarrow> d_finite y \<Longrightarrow> \<not> is_nan (d_sub x y)"
  by (simp add: d_sub_def)

lemma not_nan_mul [simp]: "d_finite x \<Longrightarrow> d_finite y \<Longrightarrow> \<not> is_nan (d_mul x y)"
  by (simp add: d_mul_def)

lemma not_nan_div [simp]: "d_finite x \<Longrightarrow> d_finite y \<Longrightarrow> d_int y \<noteq> 0 \<Longrightarrow> \<not> is_nan (d_div x y)"
  by (simp add: d_div_def d_int_zero_iff)

lemma nan_add: "is_nan x \<or> is_nan y \<Longrightarrow> is_nan (d_add x y)"
  by (simp add: d_add_def)

lemma nan_sub: "is_nan x \<or> is_nan y \<Longrightarrow> is_nan (d_sub x y)"
  by (simp add: d_sub_def nan_add)

lemma nan_mul: "is_nan x \<or> is_nan y \<Longrightarrow> is_nan (d_mul x y)"
  by (simp add: d_mul_def)

lemma nan_div: "is_nan x \<or> is_nan y \<Longrightarrow> is_nan (d_div x y)"
  by (simp add: d_div_def)

text \<open>The difference of two different finite doubles is never rounded to zero.\<close>

lemma d_sub_pos: "d_finite x \<Longrightarrow> d_finite y \<Longrightarrow> d_lt y x \<Longrightarrow> 0 < d_int (d_sub x y)"
proof -
  assume f: "d_finite x" "d_finite y" and "d_lt y x"
  then have "1 \<le> d_int x - d_int y" by (simp add: d_lt_def)
  moreover have "d_int (d_mk False 1) = 1" by (simp add: d_int_def mag_val_def)
  moreover have "\<not> is_nan (d_mk False 1)" by (simp add: is_nan_def inf_mag_def)
  ultimately have "1 \<le> rnd (d_int x - d_int y) 1"
    using double_le_rnd [of "d_mk False 1" 1 "d_int x - d_int y"] by simp
  with f show ?thesis by (simp add: d_int_sub)
qed

text \<open>Evaluation of concrete patterns.\<close>

text \<open>Halving the rounded sum of two doubles gives a double between them.\<close>

lemma mag_val_twice: "\<exists>m'. mag_val m' = 2 * mag_val m"
proof (cases "m div 2 ^ 52 = 0")
  case True
  then have m: "m < 2 ^ 52" by (simp add: div_eq_0_iff)
  show ?thesis
  proof (cases "2 * m < 2 ^ 52")
    case True
    then show ?thesis using m by (intro exI [of _ "2 * m"]) (simp add: mag_val_def)
  next
    case False
    then have "2 * m div 2 ^ 52 = 1" "2 * m mod 2 ^ 52 = 2 * m - 2 ^ 52"
      using m by (simp_all add: div_nat_eqI mod_if)
    then show ?thesis using m False by (intro exI [of _ "2 * m"]) (simp add: mag_val_def)
  qed
next
  case False
  then have "mag_val (m + 2 ^ 52) = 2 * mag_val m"
    by (cases "m div 2 ^ 52") (simp_all add: mag_val_def)
  then show ?thesis by blast
qed

lemma d_int_finite_bound: "d_finite x \<Longrightarrow> d_int x < int (mag_val inf_mag)"
proof -
  assume "d_finite x"
  then have "mag_val (d_mag x) < mag_val inf_mag" by (simp add: d_finite_def)
  then show ?thesis by (auto simp: d_int_def simp del: mag_val_less_iff)
qed

lemma double_twice:
  assumes "0 \<le> d_int x"
  obtains z where "\<not> is_nan z" "d_int z = 2 * d_int x" | "int (mag_val inf_mag) \<le> 2 * d_int x"
proof -
  from mag_val_twice [of "d_mag x"] obtain m' where m': "mag_val m' = 2 * mag_val (d_mag x)" by blast
  have x: "d_int x = int (mag_val (d_mag x))" using assms by (auto simp: d_int_def)
  show thesis
  proof (cases "m' \<le> inf_mag")
    case True
    then have m: "d_mag (d_mk False m') = m'" "\<not> d_sign (d_mk False m')" by (simp_all add: inf_mag_def)
    with True m' x show thesis by (intro that(1) [of "d_mk False m'"]) (simp_all add: is_nan_def d_int_def)
  next
    case False
    then have "mag_val inf_mag \<le> mag_val m'" by simp
    with m' x show thesis by (intro that(2)) simp
  qed
qed

lemma d_inf: "\<not> is_nan (d_mk False inf_mag)" "d_int (d_mk False inf_mag) = int (mag_val inf_mag)"
proof -
  have "d_mag (d_mk False inf_mag) = inf_mag" "\<not> d_sign (d_mk False inf_mag)" by (simp_all add: inf_mag_def)
  then show "\<not> is_nan (d_mk False inf_mag)" "d_int (d_mk False inf_mag) = int (mag_val inf_mag)"
    by (simp_all add: is_nan_def d_int_def)
qed

lemma d_mid_between:
  assumes f: "d_finite x" "d_finite y" "d_finite (d_add x y)" and le: "0 \<le> d_int x" "d_int x \<le> d_int y"
    and two: "d_finite t" "d_int t = 2 * int d_unit"
  shows "d_le x (d_div (d_add x y) t) \<and> d_le (d_div (d_add x y) t) y"
proof -
  let ?s = "d_int (d_add x y)"
  have s: "?s = rnd (d_int x + d_int y) 1" by (simp add: d_int_add f)
  have fin: "?s < int (mag_val inf_mag)" by (rule d_int_finite_bound [OF f(3)])
  have lo: "2 * d_int x \<le> ?s"
  proof (rule double_twice [OF le(1)])
    fix z assume "\<not> is_nan z" "d_int z = 2 * d_int x"
    then show ?thesis using double_le_rnd [of z 1 "d_int x + d_int y"] le by (simp add: s)
  next
    assume "int (mag_val inf_mag) \<le> 2 * d_int x"
    then have "int (mag_val inf_mag) \<le> ?s"
      using double_le_rnd [OF d_inf(1), of 1 "d_int x + d_int y"] le by (simp add: s d_inf(2))
    then show ?thesis using fin by simp
  qed
  have "0 \<le> d_int y" using le by simp
  then have hi: "?s \<le> 2 * d_int y"
  proof (rule double_twice)
    fix z assume "\<not> is_nan z" "d_int z = 2 * d_int y"
    then show ?thesis using rnd_le_double [of z 1 "d_int x + d_int y"] le by (simp add: s)
  next
    assume "int (mag_val inf_mag) \<le> 2 * d_int y"
    then show ?thesis using fin by simp
  qed
  from lo hi have "d_int x \<le> rnd (?s * int d_unit) (2 * d_unit)" "rnd (?s * int d_unit) (2 * d_unit) \<le> d_int y"
    using f by (auto intro!: double_le_rnd rnd_le_double)
  moreover have "d_int (d_div (d_add x y) t) = rnd (?s * int d_unit) (2 * d_unit)"
    using f two by (subst d_int_div) (simp_all add: nat_mult_distrib)
  ultimately show ?thesis using f two by (simp add: d_le_def)
qed

text \<open>A literal that is a double needs no rounding.\<close>

lemma d_lit_exact: "m \<le> inf_mag \<Longrightarrow> n * d_unit = mag_val m \<Longrightarrow> d_lit n 1 = d_mk False m"
  using round_mag_mag_val [of m] by (simp add: d_lit_def d_round_def flip: of_nat_mult)

lemma d_lit_two: "d_lit 2 1 = 0x4000000000000000"
  using d_lit_exact [of "0x4000000000000000" 2] by (simp add: d_unit_def inf_mag_def mag_val_def d_mk_def)

lemma d_int_two: "d_finite (d_lit 2 1)" "d_int (d_lit 2 1) = 2 * int d_unit"
  unfolding d_lit_two by (simp_all add: d_unit_def d_int_def d_finite_def d_mag_def d_sign_def inf_mag_def mag_val_def)

lemmas d_eval = d_lt_code d_le_code d_mag_def d_sign_def is_nan_def is_inf_def inf_mag_def

end
