(* ===== verification/Orders.thy ===== *)
theory Orders
  imports Binary64
begin

text \<open>
  The data of \<open>include/order.h\<close>: sides, order types, statuses, orders and trades.

  The fields \<open>id\<close> and \<open>type\<close> of the source are called \<open>oid\<close> and \<open>otype\<close>; the fields of a trade
  carry the names that \<open>IOEvent\<close> gives them. The 16-byte array \<open>symbol\<close> is its content up to the
  terminator: at most 16 characters, none of them NUL (16 when the array has no terminator).
\<close>

section \<open>Data\<close>

datatype side = BUY | SELL

datatype order_type = LIMIT | MARKET

datatype order_status = NEW | PARTIAL | FILLED | CANCELLED | REJECTED

record order =
  oid :: int
  account_id :: int
  price :: double
  quantity :: int
  filled_qty :: int
  timestamp_ns :: u64
  side :: side
  otype :: order_type
  status :: order_status
  symbol :: string

record trade =
  trade_id :: int
  buy_order_id :: int
  sell_order_id :: int
  trade_qty :: int
  trade_ts_ns :: u64
  trade_price :: double
  trade_symbol :: string

definition INVALID_ORDER_ID :: int where
  "INVALID_ORDER_ID = -1"

text \<open>The default constructor \<open>Order()\<close>.\<close>

definition empty_order :: order where
  "empty_order = \<lparr>oid = INVALID_ORDER_ID, account_id = 0, price = 0, quantity = 0, filled_qty = 0,
     timestamp_ns = 0, side = BUY, otype = LIMIT, status = NEW, symbol = []\<rparr>"

definition remaining :: "order \<Rightarrow> int" where
  "remaining ord = s32 (quantity ord - filled_qty ord)"

definition is_filled :: "order \<Rightarrow> bool" where
  "is_filled ord \<longleftrightarrow> quantity ord \<le> filled_qty ord"

definition is_buy :: "order \<Rightarrow> bool" where
  "is_buy ord \<longleftrightarrow> side ord = BUY"

definition is_sell :: "order \<Rightarrow> bool" where
  "is_sell ord \<longleftrightarrow> side ord = SELL"

text \<open>The casts \<open>(uint8_t)\<close> of the enumerations.\<close>

definition side_code :: "side \<Rightarrow> u8" where
  "side_code s = (case s of BUY \<Rightarrow> 0 | SELL \<Rightarrow> 1)"

definition type_code :: "order_type \<Rightarrow> u8" where
  "type_code t = (case t of LIMIT \<Rightarrow> 0 | MARKET \<Rightarrow> 1)"

definition status_code :: "order_status \<Rightarrow> u8" where
  "status_code s = (case s of NEW \<Rightarrow> 0 | PARTIAL \<Rightarrow> 1 | FILLED \<Rightarrow> 2 | CANCELLED \<Rightarrow> 3 | REJECTED \<Rightarrow> 4)"

section \<open>Well-formed orders\<close>

text \<open>
  The orders a caller may submit: a quantity that fits, and a filled quantity between zero and the
  quantity. A resting order moreover still has something to fill.
\<close>

definition order_ok :: "order \<Rightarrow> bool" where
  "order_ok ord \<longleftrightarrow> 0 \<le> filled_qty ord \<and> filled_qty ord \<le> quantity ord \<and> quantity ord < 2 ^ 31"

definition open_ok :: "order \<Rightarrow> bool" where
  "open_ok ord \<longleftrightarrow> 0 \<le> filled_qty ord \<and> filled_qty ord < quantity ord \<and> quantity ord < 2 ^ 31"

lemma is_sell_not_buy: "is_sell ord \<longleftrightarrow> \<not> is_buy ord"
  by (cases "side ord") (simp_all add: is_sell_def is_buy_def)

lemma open_ok_order_ok: "open_ok ord \<Longrightarrow> order_ok ord"
  by (simp add: open_ok_def order_ok_def)

lemma order_ok_cases: "order_ok ord \<Longrightarrow> is_filled ord \<or> open_ok ord"
  by (auto simp: open_ok_def order_ok_def is_filled_def)

lemma remaining_eq: "order_ok ord \<Longrightarrow> remaining ord = quantity ord - filled_qty ord"
  by (simp add: order_ok_def remaining_def s32_id)

lemma remaining_nonneg: "order_ok ord \<Longrightarrow> 0 \<le> remaining ord"
  by (simp add: remaining_eq order_ok_def)

lemma remaining_pos: "open_ok ord \<Longrightarrow> 0 < remaining ord"
  using remaining_eq [OF open_ok_order_ok] by (simp add: open_ok_def)

lemma remaining_pos_iff: "order_ok ord \<Longrightarrow> 0 < remaining ord \<longleftrightarrow> \<not> is_filled ord"
  by (simp add: remaining_eq is_filled_def not_le)

lemma is_filled_iff: "order_ok ord \<Longrightarrow> is_filled ord \<longleftrightarrow> remaining ord = 0"
  using remaining_pos_iff [of ord] remaining_nonneg [of ord] by linarith

text \<open>Filling part of what remains keeps an order well formed and never overflows.\<close>

definition fill :: "order \<Rightarrow> int \<Rightarrow> order" where
  "fill ord q = ord\<lparr>filled_qty := s32 (filled_qty ord + q)\<rparr>"

lemma fill_simps [simp]:
  "oid (fill ord q) = oid ord" "account_id (fill ord q) = account_id ord" "price (fill ord q) = price ord"
  "quantity (fill ord q) = quantity ord" "side (fill ord q) = side ord" "otype (fill ord q) = otype ord"
  "timestamp_ns (fill ord q) = timestamp_ns ord" "status (fill ord q) = status ord"
  "symbol (fill ord q) = symbol ord" "is_buy (fill ord q) = is_buy ord"
  by (simp_all add: fill_def is_buy_def)

lemma filled_fill: "order_ok ord \<Longrightarrow> 0 \<le> q \<Longrightarrow> q \<le> remaining ord \<Longrightarrow>
    filled_qty (fill ord q) = filled_qty ord + q"
  by (simp add: fill_def remaining_eq order_ok_def s32_id)

lemma order_ok_fill: "order_ok ord \<Longrightarrow> 0 \<le> q \<Longrightarrow> q \<le> remaining ord \<Longrightarrow> order_ok (fill ord q)"
  using filled_fill [of ord q] by (simp add: order_ok_def remaining_eq)

lemma remaining_fill: "order_ok ord \<Longrightarrow> 0 \<le> q \<Longrightarrow> q \<le> remaining ord \<Longrightarrow>
    remaining (fill ord q) = remaining ord - q"
  using filled_fill [of ord q] order_ok_fill [of ord q] by (simp add: remaining_eq)

lemma status_update_simps [simp]:
  "remaining (ord\<lparr>status := s\<rparr>) = remaining ord" "is_filled (ord\<lparr>status := s\<rparr>) = is_filled ord"
  "is_buy (ord\<lparr>status := s\<rparr>) = is_buy ord" "order_ok (ord\<lparr>status := s\<rparr>) = order_ok ord"
  "open_ok (ord\<lparr>status := s\<rparr>) = open_ok ord"
  by (simp_all add: remaining_def is_filled_def is_buy_def order_ok_def open_ok_def)

end
