(* ===== verification/Price_Map.thy ===== *)
theory Price_Map
  imports Orders
begin

text \<open>
  \<open>std::map\<close> with a comparator, as the order book uses it for its price levels: a list of key/value
  pairs in the comparator's order. Two keys are the same key when neither is before the other, so
  \<open>0.0\<close> and \<open>-0.0\<close> share a level. The locale \<open>level_order\<close> states what a comparator must satisfy on
  the keys in use (a strict weak order); it is interpreted on \<open>std::less\<close> and \<open>std::greater\<close> for
  doubles that are not NaN, so every fact about one side of the book holds for both.
\<close>

section \<open>Operations\<close>

type_synonym ('k, 'v) std_map = "('k \<times> 'v) list"

definition key_equiv :: "('k \<Rightarrow> 'k \<Rightarrow> bool) \<Rightarrow> 'k \<Rightarrow> 'k \<Rightarrow> bool" where
  "key_equiv lt a b \<longleftrightarrow> \<not> lt a b \<and> \<not> lt b a"

fun map_find :: "('k \<Rightarrow> 'k \<Rightarrow> bool) \<Rightarrow> 'k \<Rightarrow> ('k, 'v) std_map \<Rightarrow> 'v option" where
  "map_find lt k [] = None"
| "map_find lt k ((k', v) # m) = (if key_equiv lt k k' then Some v else map_find lt k m)"

text \<open>\<open>m[k] = f (m[k])\<close>, where \<open>m[k]\<close> starts as \<open>d\<close> when the key is new.\<close>

fun map_alter :: "('k \<Rightarrow> 'k \<Rightarrow> bool) \<Rightarrow> 'k \<Rightarrow> ('v \<Rightarrow> 'v) \<Rightarrow> 'v \<Rightarrow> ('k, 'v) std_map \<Rightarrow> ('k, 'v) std_map" where
  "map_alter lt k f d [] = [(k, f d)]"
| "map_alter lt k f d ((k', v) # m) =
    (if lt k k' then (k, f d) # (k', v) # m
     else if lt k' k then (k', v) # map_alter lt k f d m
     else (k', f v) # m)"

fun map_erase :: "('k \<Rightarrow> 'k \<Rightarrow> bool) \<Rightarrow> 'k \<Rightarrow> ('k, 'v) std_map \<Rightarrow> ('k, 'v) std_map" where
  "map_erase lt k [] = []"
| "map_erase lt k ((k', v) # m) = (if key_equiv lt k k' then m else (k', v) # map_erase lt k m)"

section \<open>Comparators\<close>

text \<open>\<open>std::less<double>\<close> and \<open>std::greater<double>\<close>.\<close>

definition price_less :: "double \<Rightarrow> double \<Rightarrow> bool" where
  "price_less a b \<longleftrightarrow> d_lt a b"

definition price_greater :: "double \<Rightarrow> double \<Rightarrow> bool" where
  "price_greater a b \<longleftrightarrow> d_lt b a"

definition good_price :: "double \<Rightarrow> bool" where
  "good_price p \<longleftrightarrow> \<not> is_nan p"

section \<open>What a comparator promises\<close>

locale level_order =
  fixes lt :: "'k \<Rightarrow> 'k \<Rightarrow> bool" and ok :: "'k \<Rightarrow> bool"
  assumes irrefl: "\<not> lt x x"
    and trans: "lt x y \<Longrightarrow> lt y z \<Longrightarrow> lt x z"
    and weak: "ok x \<Longrightarrow> ok y \<Longrightarrow> ok z \<Longrightarrow> lt x z \<Longrightarrow> lt x y \<or> lt y z"
begin

lemma asym: "lt x y \<Longrightarrow> \<not> lt y x"
  using irrefl trans by blast

lemma equiv_refl [simp]: "key_equiv lt k k"
  by (simp add: key_equiv_def irrefl)

lemma equiv_sym: "key_equiv lt a b \<Longrightarrow> key_equiv lt b a"
  by (simp add: key_equiv_def)

lemma equiv_trans: "ok a \<Longrightarrow> ok b \<Longrightarrow> ok c \<Longrightarrow> key_equiv lt a b \<Longrightarrow> key_equiv lt b c \<Longrightarrow> key_equiv lt a c"
  using weak [of a b c] weak [of c b a] by (auto simp: key_equiv_def)

lemma lt_equiv_left: "ok a \<Longrightarrow> ok b \<Longrightarrow> ok c \<Longrightarrow> key_equiv lt a b \<Longrightarrow> lt a c \<Longrightarrow> lt b c"
  using weak [of a b c] by (auto simp: key_equiv_def)

lemma lt_equiv_right: "ok a \<Longrightarrow> ok b \<Longrightarrow> ok c \<Longrightarrow> key_equiv lt a b \<Longrightarrow> lt c a \<Longrightarrow> lt c b"
  using weak [of c b a] by (auto simp: key_equiv_def)

lemma keys_alter: "(a, b) \<in> set (map_alter lt k f d m) \<Longrightarrow> a = k \<or> (\<exists>v. (a, v) \<in> set m)"
  by (induction m) (auto split: if_splits)

lemma sorted_alter:
  assumes "sorted_wrt lt (map fst m)" and "ok k" and "\<forall>x \<in> set (map fst m). ok x"
  shows "sorted_wrt lt (map fst (map_alter lt k f d m))"
  using assms
proof (induction m)
  case (Cons e m)
  obtain k' v where e: "e = (k', v)" by (cases e)
  show ?case
  proof (cases "lt k' k")
    case True
    have "\<forall>x \<in> set (map fst (map_alter lt k f d m)). lt k' x"
      using Cons.prems True by (fastforce simp: e dest!: keys_alter)
    with Cons True asym show ?thesis by (auto simp: e)
  next
    case False
    with Cons.prems trans show ?thesis by (auto simp: e)
  qed
qed simp

lemma set_erase: "set (map_erase lt k m) \<subseteq> set m"
  by (induction m) (auto split: if_splits)

lemma sorted_erase: "sorted_wrt lt (map fst m) \<Longrightarrow> sorted_wrt lt (map fst (map_erase lt k m))"
proof (induction m)
  case (Cons e m)
  then show ?case using set_erase [of k m] by (cases e) fastforce
qed simp

lemma find_Some: "map_find lt k m = Some v \<Longrightarrow> \<exists>k'. (k', v) \<in> set m \<and> key_equiv lt k k'"
  by (induction m) (auto split: if_splits)

lemma find_None: "map_find lt k m = None \<longleftrightarrow> (\<forall>k' \<in> set (map fst m). \<not> key_equiv lt k k')"
  by (induction m) (auto split: if_splits)

lemma find_member:
  assumes "sorted_wrt lt (map fst m)" and "ok k" and "\<forall>x \<in> set (map fst m). ok x"
    and "(k', v) \<in> set m" and "key_equiv lt k k'"
  shows "map_find lt k m = Some v"
  using assms
proof (induction m)
  case (Cons e m)
  obtain a w where e: "e = (a, w)" by (cases e)
  show ?case
  proof (cases "key_equiv lt k a")
    case True
    have "(k', v) = (a, w)"
    proof (rule ccontr)
      assume "(k', v) \<noteq> (a, w)"
      with Cons.prems e have mem: "(k', v) \<in> set m" by auto
      with Cons.prems(1) e have "lt a k'" by (auto simp: image_iff)
      moreover have "key_equiv lt a k'"
        using Cons.prems mem e True equiv_trans [of a k k'] equiv_sym by (fastforce simp: image_iff)
      ultimately show False by (simp add: key_equiv_def)
    qed
    with True e show ?thesis by simp
  next
    case False
    with Cons e show ?thesis by auto
  qed
qed simp

text \<open>Insert, then look up.\<close>

lemma find_alter:
  assumes "sorted_wrt lt (map fst m)" and "ok k" "ok q" and "\<forall>x \<in> set (map fst m). ok x"
  shows "map_find lt q (map_alter lt k f d m) =
    (if key_equiv lt q k then Some (f (case map_find lt k m of None \<Rightarrow> d | Some v \<Rightarrow> v))
     else map_find lt q m)"
  using assms
proof (induction m)
  case (Cons e m)
  obtain a w where e: "e = (a, w)" by (cases e)
  from Cons.prems e have a: "ok a" by simp
  show ?case
  proof (cases "lt k a")
    case True
    have "\<not> key_equiv lt k x" if "x \<in> set (map fst m)" for x
    proof -
      from Cons.prems(1) e that have "lt a x" by auto
      with True trans have "lt k x" by blast
      then show ?thesis by (simp add: key_equiv_def)
    qed
    then have "map_find lt k m = None" by (simp add: find_None)
    with True show ?thesis by (simp add: e key_equiv_def)
  next
    case F: False
    show ?thesis
    proof (cases "lt a k")
      case True
      have "\<not> key_equiv lt q k" if "key_equiv lt q a"
        using that True Cons.prems(2,3) a lt_equiv_left [of a q k] equiv_sym [of q a]
        by (auto simp: key_equiv_def)
      with F True Cons show ?thesis by (auto simp: e key_equiv_def)
    next
      case False
      with F have ka: "key_equiv lt k a" by (simp add: key_equiv_def)
      have "key_equiv lt q a \<longleftrightarrow> key_equiv lt q k"
        using Cons.prems(2,3) a ka equiv_trans equiv_sym by blast
      with ka F False show ?thesis by (auto simp: e)
    qed
  qed
qed (simp add: key_equiv_def)

lemma beyond_sorted: "sorted_wrt lt (map fst m) \<Longrightarrow>
    (a, w) \<in> set (dropWhile (\<lambda>(q, _). \<not> lt k q) m) \<Longrightarrow> lt k a"
proof (induction m)
  case (Cons e m)
  then show ?case by (cases e) (fastforce split: if_splits intro: trans)
qed simp

lemma alter_mem: "(a, w) \<in> set (map_alter lt k f d m) \<Longrightarrow>
    (a, w) \<in> set m \<or> a = k \<and> w = f d \<or> (\<exists>v. (a, v) \<in> set m \<and> w = f v \<and> key_equiv lt k a)"
  by (induction m) (auto simp: key_equiv_def split: if_splits)

text \<open>The place of a key that is present: what find, erase and update do there.\<close>

lemma find_split:
  assumes "map_find lt k m = Some v" and "sorted_wrt lt (map fst m)" and "ok k"
    and "\<forall>x \<in> set (map fst m). ok x"
  shows "\<exists>xs a ys. m = xs @ (a, v) # ys \<and> key_equiv lt k a \<and> map_erase lt k m = xs @ ys
    \<and> (\<forall>f d. map_alter lt k f d m = xs @ (a, f v) # ys)"
  using assms
proof (induction m)
  case (Cons e m)
  obtain a w where e: "e = (a, w)" by (cases e)
  show ?case
  proof (cases "key_equiv lt k a")
    case True
    with Cons.prems e show ?thesis
      by (intro exI [of _ "[]"] exI [of _ a] exI [of _ m]) (simp add: key_equiv_def)
  next
    case False
    with Cons.prems e have fnd: "map_find lt k m = Some v" by simp
    with Cons e obtain xs c ys where IH: "m = xs @ (c, v) # ys" "key_equiv lt k c"
      "map_erase lt k m = xs @ ys" "\<forall>f d. map_alter lt k f d m = xs @ (c, f v) # ys" by auto
    from Cons.prems IH e have "lt a c" "ok a" "ok c" by simp_all
    with IH Cons.prems(3) have "lt a k" using lt_equiv_right [of c k a] equiv_sym [of k c] by blast
    with IH False e asym show ?thesis
      by (intro exI [of _ "(a, w) # xs"] exI [of _ c] exI [of _ ys]) auto
  qed
qed simp

text \<open>Two updates of one key, and an insertion that is undone.\<close>

lemma alter_alter: "map_alter lt k g d (map_alter lt k f d' m) = map_alter lt k (g \<circ> f) d' m"
  by (induction m) (auto simp: irrefl dest: asym)

lemma erase_alter_None: "map_find lt k m = None \<Longrightarrow> map_erase lt k (map_alter lt k f d m) = m"
  by (induction m) (auto simp: key_equiv_def irrefl split: if_splits)

lemma alter_same:
  assumes "map_find lt k m = Some v" and "sorted_wrt lt (map fst m)" and "ok k" and "\<forall>x \<in> set (map fst m). ok x"
    and "f v = v"
  shows "map_alter lt k f d m = m"
proof -
  from find_split [OF assms(1-4)] obtain xs a ys where
    "m = xs @ (a, v) # ys" "\<forall>f d. map_alter lt k f d m = xs @ (a, f v) # ys" by blast
  with assms(5) show ?thesis by simp
qed

end

interpretation ask_order: level_order price_less good_price
  by unfold_locales (auto simp: price_less_def good_price_def d_lt_def)

interpretation bid_order: level_order price_greater good_price
  by unfold_locales (auto simp: price_greater_def good_price_def d_lt_def)

lemma price_equiv: "good_price a \<Longrightarrow> good_price b \<Longrightarrow> key_equiv price_less a b \<longleftrightarrow> d_eq a b"
  "good_price a \<Longrightarrow> good_price b \<Longrightarrow> key_equiv price_greater a b \<longleftrightarrow> d_eq a b"
  by (auto simp: key_equiv_def price_less_def price_greater_def good_price_def d_lt_def d_eq_def)

end
