(* ===== verification/Order_Book.thy ===== *)
theory Order_Book
  imports Price_Map "HOL-Library.Multiset"
begin

text \<open>
  The price-time priority order book of \<open>include/order_book.h\<close> and \<open>src/order_book.cpp\<close>.

  A price level is a \<open>std::list\<close> of order entries. The book keeps iterators into these lists in its
  index, so each list node carries an address, drawn from a counter when the node is created
  (\<open>next_node\<close>), and the index maps an order id to a node address. The two trade buffers and the
  pointer to the active one are kept as they are. A clock reading is needed for every trade; the
  operations that trade take \<open>now\<close>, the reading taken for the trade with a given id.
\<close>

section \<open>State\<close>

type_synonym node = nat
type_synonym order_list = "(node \<times> order) list"
type_synonym level_map = "(double, order_list) std_map"

record order_book =
  book_symbol :: string
  bids :: level_map
  asks :: level_map
  trades_buf_a :: "trade list"
  trades_buf_b :: "trade list"
  active_a :: bool
  order_index :: "(int \<times> node) list"
  next_trade_id :: int
  next_node :: node

definition new_book :: "string \<Rightarrow> order_book" where
  "new_book s = \<lparr>book_symbol = s, bids = [], asks = [], trades_buf_a = [], trades_buf_b = [],
     active_a = True, order_index = [], next_trade_id = 1, next_node = 0\<rparr>"

section \<open>Matching\<close>

definition push_trade :: "trade \<Rightarrow> order_book \<Rightarrow> order_book" where
  "push_trade t b = (if active_a b then b\<lparr>trades_buf_a := trades_buf_a b @ [t]\<rparr>
     else b\<lparr>trades_buf_b := trades_buf_b b @ [t]\<rparr>)"

definition generate_trade :: "(int \<Rightarrow> u64) \<Rightarrow> order \<Rightarrow> order \<Rightarrow> int \<Rightarrow> double \<Rightarrow> order_book \<Rightarrow> order_book" where
  "generate_trade now buy sell qty pr b =
     (let t = \<lparr>trade_id = next_trade_id b, buy_order_id = oid buy, sell_order_id = oid sell,
               trade_qty = qty, trade_ts_ns = now (next_trade_id b), trade_price = pr,
               trade_symbol = take 16 (book_symbol b)\<rparr>
      in push_trade t (b\<lparr>next_trade_id := s32 (next_trade_id b + 1)\<rparr>))"

definition erase_index :: "int \<Rightarrow> order_book \<Rightarrow> order_book" where
  "erase_index i b = b\<lparr>order_index := AList.delete i (order_index b)\<rparr>"

text \<open>The inner loop of \<open>match_limit_order\<close>: one price level. The incoming order trades with each
  resting order in turn while it has something left; a filled resting order leaves the level.\<close>

fun match_level :: "(int \<Rightarrow> u64) \<Rightarrow> double \<Rightarrow> order \<Rightarrow> order_list \<Rightarrow> order_book \<Rightarrow>
    order \<times> order_list \<times> order_book" where
  "match_level now pr ord [] b = (ord, [], b)"
| "match_level now pr ord ((n, resting) # level) b =
    (if 0 < remaining ord then
       let match_qty = min (remaining ord) (remaining resting);
           resting' = fill resting match_qty;
           ord' = fill ord match_qty;
           b1 = (if is_buy ord then generate_trade now ord' resting' match_qty pr b
                 else generate_trade now resting' ord' match_qty pr b)
       in if is_filled resting' then match_level now pr ord' level (erase_index (oid resting') b1)
          else (case match_level now pr ord' level b1 of
                  (ord2, level2, b2) \<Rightarrow> (ord2, (n, resting'\<lparr>status := PARTIAL\<rparr>) # level2, b2))
     else (ord, (n, resting) # level, b))"

text \<open>The test of \<open>match_limit_order\<close> that ends the scan: a limit order and a level beyond its price.\<close>

definition cannot_cross :: "order \<Rightarrow> double \<Rightarrow> bool" where
  "cannot_cross ord pr \<longleftrightarrow> otype ord = LIMIT \<and>
     (if is_buy ord then d_lt (price ord) pr else d_lt pr (price ord))"

text \<open>The outer loop: the levels of the opposite side, best first.\<close>

fun match_levels :: "(int \<Rightarrow> u64) \<Rightarrow> order \<Rightarrow> level_map \<Rightarrow> order_book \<Rightarrow> order \<times> level_map \<times> order_book" where
  "match_levels now ord [] b = (ord, [], b)"
| "match_levels now ord ((pr, level) # levels) b =
    (if 0 < remaining ord \<and> \<not> cannot_cross ord pr then
       case match_level now pr ord level b of (ord1, level1, b1) \<Rightarrow>
         (case match_levels now ord1 levels b1 of (ord2, levels2, b2) \<Rightarrow>
            (ord2, if level1 = [] then levels2 else (pr, level1) # levels2, b2))
     else (ord, (pr, level) # levels, b))"

definition final_status :: "order \<Rightarrow> order" where
  "final_status ord = (if is_filled ord then ord\<lparr>status := FILLED\<rparr>
     else if 0 < filled_qty ord then ord\<lparr>status := PARTIAL\<rparr> else ord)"

definition match_limit_order :: "(int \<Rightarrow> u64) \<Rightarrow> order \<Rightarrow> order_book \<Rightarrow> order \<times> order_book" where
  "match_limit_order now ord b =
     (if is_buy ord then
        (case match_levels now ord (asks b) b of (ord', levels, b') \<Rightarrow>
           (final_status ord', b'\<lparr>asks := levels\<rparr>))
      else
        (case match_levels now ord (bids b) b of (ord', levels, b') \<Rightarrow>
           (final_status ord', b'\<lparr>bids := levels\<rparr>)))"

definition match_market_order :: "(int \<Rightarrow> u64) \<Rightarrow> order \<Rightarrow> order_book \<Rightarrow> order \<times> order_book" where
  "match_market_order now ord b = match_limit_order now (ord\<lparr>price := 0\<rparr>) b"

section \<open>Public operations\<close>

text \<open>\<open>push_back\<close> on the level of the order's price, then the new iterator goes into the index.\<close>

definition rest_order :: "order \<Rightarrow> order \<Rightarrow> order_book \<Rightarrow> order_book" where
  "rest_order entry result b =
     (let n = next_node b;
          b1 = (if is_buy result
                then b\<lparr>bids := map_alter price_greater (price result) (\<lambda>l. l @ [(n, entry)]) [] (bids b)\<rparr>
                else b\<lparr>asks := map_alter price_less (price result) (\<lambda>l. l @ [(n, entry)]) [] (asks b)\<rparr>)
      in b1\<lparr>order_index := AList.update (oid result) n (order_index b1), next_node := Suc n\<rparr>)"

definition add_order :: "(int \<Rightarrow> u64) \<Rightarrow> order \<Rightarrow> order_book \<Rightarrow> order \<times> order_book" where
  "add_order now ord b =
     (case match_limit_order now ord b of (result, b1) \<Rightarrow>
        if \<not> is_filled result \<and> otype result = LIMIT then
          (if 0 < filled_qty result
           then (result\<lparr>status := PARTIAL\<rparr>, rest_order (result\<lparr>status := PARTIAL\<rparr>) result b1)
           else (result, rest_order (result\<lparr>status := NEW\<rparr>) result b1))
        else (result, b1))"

definition add_market_order :: "(int \<Rightarrow> u64) \<Rightarrow> order \<Rightarrow> order_book \<Rightarrow> order \<times> order_book" where
  "add_market_order now ord b = match_market_order now (ord\<lparr>otype := MARKET\<rparr>) b"

definition level_entries :: "level_map \<Rightarrow> order_list" where
  "level_entries m = concat (map snd m)"

text \<open>Dereferencing a list iterator: the order in the node with that address.\<close>

definition deref :: "node \<Rightarrow> order_book \<Rightarrow> order option" where
  "deref n b = map_of (level_entries (bids b) @ level_entries (asks b)) n"

definition erase_node :: "node \<Rightarrow> order_list \<Rightarrow> order_list" where
  "erase_node n l = filter (\<lambda>e. fst e \<noteq> n) l"

text \<open>Erase a node from the level of a price; an emptied level leaves the map.\<close>

definition erase_from_side :: "(double \<Rightarrow> double \<Rightarrow> bool) \<Rightarrow> double \<Rightarrow> node \<Rightarrow> level_map \<Rightarrow> level_map" where
  "erase_from_side lt pr n m = (case map_find lt pr m of
     None \<Rightarrow> m
   | Some l \<Rightarrow> (let l' = erase_node n l in
       if l' = [] then map_erase lt pr m else map_alter lt pr (\<lambda>_. l') [] m))"

text \<open>\<open>cancel_order\<close>. A dangling iterator in the index (undefined behaviour) is modelled as no change;
  the index invariant shows it does not occur.\<close>

definition cancel_order :: "int \<Rightarrow> order_book \<Rightarrow> bool \<times> order_book" where
  "cancel_order i b = (case map_of (order_index b) i of
     None \<Rightarrow> (False, b)
   | Some n \<Rightarrow> (case deref n b of
       None \<Rightarrow> (True, erase_index i b)
     | Some ord \<Rightarrow>
         (True, erase_index i
           (if is_buy ord then b\<lparr>bids := erase_from_side price_greater (price ord) n (bids b)\<rparr>
            else b\<lparr>asks := erase_from_side price_less (price ord) n (asks b)\<rparr>))))"

definition modify_order :: "(int \<Rightarrow> u64) \<Rightarrow> int \<Rightarrow> double \<Rightarrow> int \<Rightarrow> order_book \<Rightarrow> order \<times> order_book" where
  "modify_order now i new_price new_qty b = (case map_of (order_index b) i of
     None \<Rightarrow> (empty_order\<lparr>oid := INVALID_ORDER_ID, status := REJECTED\<rparr>, b)
   | Some n \<Rightarrow> (case deref n b of
       None \<Rightarrow> (empty_order, b)
     | Some ord \<Rightarrow>
         add_order now (ord\<lparr>price := new_price, quantity := new_qty, filled_qty := 0, status := NEW\<rparr>)
           (snd (cancel_order i b))))"

section \<open>Queries\<close>

definition best_bid :: "order_book \<Rightarrow> double" where
  "best_bid b = (case bids b of [] \<Rightarrow> 0 | (pr, _) # _ \<Rightarrow> pr)"

definition best_ask :: "order_book \<Rightarrow> double" where
  "best_ask b = (case asks b of [] \<Rightarrow> 0 | (pr, _) # _ \<Rightarrow> pr)"

text \<open>The loop \<open>total += entry.order.remaining()\<close> over a level.\<close>

definition level_total :: "order_list \<Rightarrow> int" where
  "level_total l = foldl (\<lambda>total e. s32 (total + remaining (snd e))) 0 l"

definition bid_size :: "order_book \<Rightarrow> int" where
  "bid_size b = (case bids b of [] \<Rightarrow> 0 | (_, l) # _ \<Rightarrow> level_total l)"

definition ask_size :: "order_book \<Rightarrow> int" where
  "ask_size b = (case asks b of [] \<Rightarrow> 0 | (_, l) # _ \<Rightarrow> level_total l)"

definition mid_price :: "order_book \<Rightarrow> double" where
  "mid_price b = (if d_eq (best_bid b) 0 \<or> d_eq (best_ask b) 0 then 0
     else d_div (d_add (best_bid b) (best_ask b)) (d_lit 2 1))"

definition spread :: "order_book \<Rightarrow> double" where
  "spread b = (if d_eq (best_bid b) 0 \<or> d_eq (best_ask b) 0 then 0
     else d_sub (best_ask b) (best_bid b))"

definition bid_levels :: "order_book \<Rightarrow> nat" where
  "bid_levels b = length (bids b)"

definition ask_levels :: "order_book \<Rightarrow> nat" where
  "ask_levels b = length (asks b)"

definition order_count :: "order_book \<Rightarrow> nat" where
  "order_count b = length (order_index b)"

definition trades :: "order_book \<Rightarrow> trade list" where
  "trades b = (if active_a b then trades_buf_a b else trades_buf_b b)"

definition trade_count :: "order_book \<Rightarrow> nat" where
  "trade_count b = length (trades b)"

text \<open>\<open>drain_trades\<close>: switch the active buffer, clear it, and move the old one out.\<close>

definition drain_trades :: "order_book \<Rightarrow> trade list \<times> order_book" where
  "drain_trades b =
     (if active_a b then (trades_buf_a b, b\<lparr>active_a := False, trades_buf_b := [], trades_buf_a := []\<rparr>)
      else (trades_buf_b b, b\<lparr>active_a := True, trades_buf_a := [], trades_buf_b := []\<rparr>))"

definition get_bid_levels :: "nat \<Rightarrow> order_book \<Rightarrow> (double \<times> int) list" where
  "get_bid_levels depth b = map (\<lambda>(pr, l). (pr, level_total l)) (take depth (bids b))"

definition get_ask_levels :: "nat \<Rightarrow> order_book \<Rightarrow> (double \<times> int) list" where
  "get_ask_levels depth b = map (\<lambda>(pr, l). (pr, level_total l)) (take depth (asks b))"

text \<open>\<open>update_level\<close>: only a size of 0 does anything; it removes the level and unindexes its orders.\<close>

definition unindex_all :: "order_list \<Rightarrow> order_book \<Rightarrow> order_book" where
  "unindex_all l b = foldl (\<lambda>b e. erase_index (oid (snd e)) b) b l"

definition update_level :: "side \<Rightarrow> double \<Rightarrow> int \<Rightarrow> order_book \<Rightarrow> order_book" where
  "update_level s pr sz b =
     (if sz = 0 then
        (case s of
           BUY \<Rightarrow> (case map_find price_greater pr (bids b) of None \<Rightarrow> b
             | Some l \<Rightarrow> (unindex_all l b)\<lparr>bids := map_erase price_greater pr (bids b)\<rparr>)
         | SELL \<Rightarrow> (case map_find price_less pr (asks b) of None \<Rightarrow> b
             | Some l \<Rightarrow> (unindex_all l b)\<lparr>asks := map_erase price_less pr (asks b)\<rparr>))
      else b)"

end
