(* ===== verification/Book_Matching.thy ===== *)
theory Book_Matching
  imports Order_Book
begin

text \<open>
  What matching promises, and that the two nested loops of \<open>match_limit_order\<close> keep the promise.

  The specification sees one side of the book as a flat queue of quotes in price-time order.
  \<open>fill_plan\<close> serves an incoming quantity from the front of that queue and lists the fills;
  \<open>residual\<close> is the queue that is left. The refinement lemmas show that the loops perform exactly
  the plan: the incoming order is filled by the planned total, one trade is generated per planned
  fill, and the levels that remain hold exactly the residual queue.
\<close>

section \<open>Specification\<close>

type_synonym quote = "double \<times> node \<times> order"

definition quotes_of_level :: "double \<Rightarrow> order_list \<Rightarrow> quote list" where
  "quotes_of_level pr l = map (Pair pr) l"

definition quotes :: "level_map \<Rightarrow> quote list" where
  "quotes m = concat (map (\<lambda>(pr, l). quotes_of_level pr l) m)"

fun fill_plan :: "int \<Rightarrow> quote list \<Rightarrow> (quote \<times> int) list" where
  "fill_plan r [] = []"
| "fill_plan r ((pr, n, ord) # qs) =
    (if r \<le> 0 then []
     else ((pr, n, ord), min r (remaining ord)) # fill_plan (r - min r (remaining ord)) qs)"

fun residual :: "int \<Rightarrow> quote list \<Rightarrow> quote list" where
  "residual r [] = []"
| "residual r ((pr, n, ord) # qs) =
    (if r \<le> 0 then (pr, n, ord) # qs
     else if r < remaining ord then (pr, n, (fill ord r)\<lparr>status := PARTIAL\<rparr>) # qs
     else residual (r - remaining ord) qs)"

definition plan_qty :: "(quote \<times> int) list \<Rightarrow> int" where
  "plan_qty plan = sum_list (map snd plan)"

text \<open>The quotes an order may trade with: the levels up to the first one beyond its price.\<close>

definition crossing :: "order \<Rightarrow> level_map \<Rightarrow> quote list" where
  "crossing ord m = quotes (takeWhile (\<lambda>(pr, _). \<not> cannot_cross ord pr) m)"

definition beyond :: "order \<Rightarrow> level_map \<Rightarrow> quote list" where
  "beyond ord m = quotes (dropWhile (\<lambda>(pr, _). \<not> cannot_cross ord pr) m)"

text \<open>One planned fill on the book: a trade, and the index entry of a resting order that is filled.\<close>

definition apply_fill :: "(int \<Rightarrow> u64) \<Rightarrow> order \<Rightarrow> quote \<times> int \<Rightarrow> order_book \<Rightarrow> order_book" where
  "apply_fill now ord f b = (case f of ((pr, n, resting), q) \<Rightarrow>
     (let b1 = (if is_buy ord then generate_trade now ord resting q pr b
                else generate_trade now resting ord q pr b)
      in if q = remaining resting then erase_index (oid resting) b1 else b1))"

section \<open>Facts about plans\<close>

definition quotes_ok :: "quote list \<Rightarrow> bool" where
  "quotes_ok qs \<longleftrightarrow> (\<forall>(pr, n, ord) \<in> set qs. open_ok ord)"

lemma quotes_ok_simps [simp]:
  "quotes_ok []" "quotes_ok ((pr, n, ord) # qs) \<longleftrightarrow> open_ok ord \<and> quotes_ok qs"
  "quotes_ok (xs @ ys) \<longleftrightarrow> quotes_ok xs \<and> quotes_ok ys"
  by (auto simp: quotes_ok_def ball_Un)

lemma plan_qty_simps [simp]:
  "plan_qty [] = 0" "plan_qty ((x, q) # xs) = q + plan_qty xs" "plan_qty (xs @ ys) = plan_qty xs + plan_qty ys"
  by (simp_all add: plan_qty_def)

lemma fill_plan_nonpos [simp]: "r \<le> 0 \<Longrightarrow> fill_plan r qs = []"
  by (cases qs) auto

lemma residual_nonpos [simp]: "r \<le> 0 \<Longrightarrow> residual r qs = qs"
  by (cases qs) auto

lemma plan_qty_bounds: "quotes_ok qs \<Longrightarrow> 0 \<le> r \<Longrightarrow> 0 \<le> plan_qty (fill_plan r qs) \<and> plan_qty (fill_plan r qs) \<le> r"
proof (induction r qs rule: fill_plan.induct)
  case (2 r pr n ord qs)
  then have "0 < remaining ord" by (simp add: remaining_pos)
  with 2 show ?case by (auto simp: min_def)
qed simp

lemma plan_fill_pos: "quotes_ok qs \<Longrightarrow> (x, q) \<in> set (fill_plan r qs) \<Longrightarrow>
    0 < q \<and> (case x of (pr, n, ord) \<Rightarrow> q \<le> remaining ord \<and> x \<in> set qs)"
proof (induction r qs rule: fill_plan.induct)
  case (2 r pr n ord qs)
  then have "0 < remaining ord" by (simp add: remaining_pos)
  with 2 show ?case by (cases "r \<le> 0") (auto split: if_splits)
qed simp

lemma fill_plan_append: "quotes_ok xs \<Longrightarrow>
    fill_plan r (xs @ ys) = fill_plan r xs @ fill_plan (r - plan_qty (fill_plan r xs)) ys"
  by (induction r xs rule: fill_plan.induct) (auto simp: algebra_simps)

lemma residual_append: "quotes_ok xs \<Longrightarrow>
    residual r (xs @ ys) = residual r xs @ residual (r - plan_qty (fill_plan r xs)) ys"
proof (induction r xs rule: fill_plan.induct)
  case (2 r pr n ord qs)
  then show ?case by (cases "r < remaining ord") (auto simp: algebra_simps min_def)
qed simp

text \<open>A plan that leaves something unfilled has used up the queue.\<close>

lemma plan_exhausts: "quotes_ok qs \<Longrightarrow> plan_qty (fill_plan r qs) < r \<Longrightarrow> residual r qs = []"
proof (induction r qs rule: fill_plan.induct)
  case (2 r pr n ord qs)
  then have "0 < remaining ord" by (simp add: remaining_pos)
  with 2 show ?case by (auto simp: min_def split: if_splits)
qed simp

lemma fill_fill: "fill (fill ord q) t = fill ord (q + t)"
  by (simp add: fill_def s32_add_left add.assoc)

lemma fill_zero: "order_ok ord \<Longrightarrow> fill ord 0 = ord"
  by (simp add: fill_def order_ok_def s32_id)

lemma cannot_cross_fill [simp]: "cannot_cross (fill ord q) pr = cannot_cross ord pr"
  by (simp add: cannot_cross_def)

lemma generate_trade_cong: "oid x = oid x' \<Longrightarrow> oid y = oid y' \<Longrightarrow>
    generate_trade now x y q pr b = generate_trade now x' y' q pr b"
  by (simp add: generate_trade_def)

lemma apply_fill_fill [simp]: "apply_fill now (fill ord q) = apply_fill now ord"
  by (rule ext)+ (auto simp: apply_fill_def Let_def intro!: generate_trade_cong arg_cong [where f = "erase_index i" for i])

section \<open>The loops carry out the plan\<close>

lemma match_level_refines:
  assumes "order_ok ord" and "quotes_ok (quotes_of_level pr l)"
  shows "\<exists>l'. match_level now pr ord l b =
      (fill ord (plan_qty (fill_plan (remaining ord) (quotes_of_level pr l))), l',
       fold (apply_fill now ord) (fill_plan (remaining ord) (quotes_of_level pr l)) b)
    \<and> quotes_of_level pr l' = residual (remaining ord) (quotes_of_level pr l)"
  using assms
proof (induction l arbitrary: ord b)
  case Nil
  then show ?case by (simp add: quotes_of_level_def fill_zero)
next
  case (Cons e l)
  obtain n resting where e: "e = (n, resting)" by (cases e)
  let ?qs = "quotes_of_level pr l"
  have qs: "quotes_of_level pr (e # l) = (pr, n, resting) # ?qs" by (simp add: quotes_of_level_def e)
  from Cons.prems qs have r_ok: "open_ok resting" and qs_ok: "quotes_ok ?qs" by simp_all
  show ?case
  proof (cases "0 < remaining ord")
    case False
    then show ?thesis using Cons.prems(1) by (simp add: e qs fill_zero)
  next
    case True
    define q where "q = min (remaining ord) (remaining resting)"
    have q: "0 \<le> q" "q \<le> remaining ord" "q \<le> remaining resting"
      using True remaining_pos [OF r_ok] by (auto simp: q_def)
    have ord_ok: "order_ok (fill ord q)" and rem: "remaining (fill ord q) = remaining ord - q"
      using Cons.prems(1) q by (auto intro: order_ok_fill remaining_fill)
    have res_ok: "order_ok (fill resting q)" and rem_res: "remaining (fill resting q) = remaining resting - q"
      using q open_ok_order_ok [OF r_ok] by (auto intro: order_ok_fill remaining_fill)
    then have filled: "is_filled (fill resting q) \<longleftrightarrow> q = remaining resting"
      using q by (auto simp: is_filled_iff)
    define b1 where "b1 = (if is_buy ord then generate_trade now (fill ord q) (fill resting q) q pr b
        else generate_trade now (fill resting q) (fill ord q) q pr b)"
    have af: "apply_fill now ord ((pr, n, resting), q) b = (if q = remaining resting then erase_index (oid resting) b1 else b1)"
      by (auto simp: apply_fill_def b1_def Let_def intro!: generate_trade_cong
          arg_cong [where f = "erase_index i" for i])
    have plan: "fill_plan (remaining ord) ((pr, n, resting) # ?qs) =
        ((pr, n, resting), q) # fill_plan (remaining ord - q) ?qs"
      using True by (simp add: q_def)
    have step: "match_level now pr ord (e # l) b =
       (if q = remaining resting then match_level now pr (fill ord q) l (erase_index (oid resting) b1)
        else (case match_level now pr (fill ord q) l b1 of
          (ord2, level2, b2) \<Rightarrow> (ord2, (n, (fill resting q)\<lparr>status := PARTIAL\<rparr>) # level2, b2)))"
      using True filled by (simp add: e Let_def b1_def flip: q_def)
    show ?thesis
    proof (cases "q = remaining resting")
      case full: True
      then have "\<not> remaining ord < remaining resting" by (simp add: q_def)
      then have res: "residual (remaining ord) ((pr, n, resting) # ?qs) = residual (remaining ord - q) ?qs"
        using True full by simp
      from step have step': "match_level now pr ord (e # l) b =
          match_level now pr (fill ord q) l (erase_index (oid resting) b1)"
        by (simp only: full simp_thms if_True)
      from af have af': "apply_fill now ord ((pr, n, resting), q) b = erase_index (oid resting) b1"
        by (simp only: full simp_thms if_True)
      show ?thesis
        using Cons.IH [OF ord_ok qs_ok, of "erase_index (oid resting) b1"]
        unfolding qs step' plan res by (simp add: af' rem fill_fill)
    next
      case part: False
      then have "q = remaining ord" "remaining ord < remaining resting" by (auto simp: q_def min_def split: if_splits)
      moreover have "match_level now pr (fill ord q) l b1 = (fill ord q, l, b1)"
        using rem \<open>q = remaining ord\<close> by (cases l) auto
      moreover from af part have "apply_fill now ord ((pr, n, resting), q) b = b1"
        by (simp only: simp_thms if_False)
      moreover have "quotes_of_level pr ((n, x) # l) = (pr, n, x) # ?qs" for x
        by (simp add: quotes_of_level_def)
      ultimately show ?thesis using True part unfolding qs step plan by simp
    qed
  qed
qed

text \<open>The outer loop: the plan over all levels the order can cross.\<close>

lemma quotes_simps [simp]:
  "quotes [] = []" "quotes ((pr, l) # m) = quotes_of_level pr l @ quotes m"
  by (simp_all add: quotes_def)

lemma quotes_of_level_Nil [simp]: "quotes_of_level pr l = [] \<longleftrightarrow> l = []"
  "quotes_of_level pr [] = []"
  by (simp_all add: quotes_of_level_def)

lemma crossing_fill [simp]: "crossing (fill ord q) m = crossing ord m" "beyond (fill ord q) m = beyond ord m"
  by (simp_all add: crossing_def beyond_def)

lemma crossing_beyond: "crossing ord m @ beyond ord m = quotes m"
  by (induction m) (auto simp: crossing_def beyond_def)

lemma quotes_ok_crossing: "quotes_ok (quotes m) \<Longrightarrow> quotes_ok (crossing ord m)"
  using crossing_beyond [of ord m] by (metis quotes_ok_simps(3))

theorem match_levels_refines:
  assumes "order_ok ord" and "quotes_ok (quotes m)"
  shows "\<exists>m'. match_levels now ord m b =
      (fill ord (plan_qty (fill_plan (remaining ord) (crossing ord m))), m',
       fold (apply_fill now ord) (fill_plan (remaining ord) (crossing ord m)) b)
    \<and> quotes m' = residual (remaining ord) (crossing ord m) @ beyond ord m"
  using assms
proof (induction m arbitrary: ord b)
  case Nil
  then show ?case by (simp add: crossing_def beyond_def fill_zero)
next
  case (Cons e m)
  obtain pr l where e: "e = (pr, l)" by (cases e)
  from Cons.prems e have l_ok: "quotes_ok (quotes_of_level pr l)" and m_ok: "quotes_ok (quotes m)"
    by simp_all
  consider (stop) "cannot_cross ord pr" | (empty) "\<not> cannot_cross ord pr" "\<not> 0 < remaining ord"
    | (go) "\<not> cannot_cross ord pr" "0 < remaining ord" by blast
  then show ?case
  proof cases
    case stop
    then show ?thesis using Cons.prems(1) by (simp add: e crossing_def beyond_def fill_zero)
  next
    case empty
    then show ?thesis using Cons.prems(1) crossing_beyond [of ord "e # m"] by (simp add: e fill_zero)
  next
    case go
    let ?p = "fill_plan (remaining ord) (quotes_of_level pr l)"
    let ?q = "plan_qty ?p"
    have q: "0 \<le> ?q" "?q \<le> remaining ord" using plan_qty_bounds [OF l_ok] go by simp_all
    have ord_ok: "order_ok (fill ord ?q)" and rem: "remaining (fill ord ?q) = remaining ord - ?q"
      using Cons.prems(1) q by (auto intro: order_ok_fill remaining_fill)
    from match_level_refines [OF Cons.prems(1) l_ok, of now b] obtain l' where
      lvl: "match_level now pr ord l b = (fill ord ?q, l', fold (apply_fill now ord) ?p b)"
        "quotes_of_level pr l' = residual (remaining ord) (quotes_of_level pr l)" by blast
    from Cons.IH [OF ord_ok m_ok, of "fold (apply_fill now ord) ?p b"] obtain m' where
      rest: "match_levels now (fill ord ?q) m (fold (apply_fill now ord) ?p b) =
        (fill ord (?q + plan_qty (fill_plan (remaining ord - ?q) (crossing ord m))), m',
         fold (apply_fill now ord) (fill_plan (remaining ord - ?q) (crossing ord m))
           (fold (apply_fill now ord) ?p b))"
        "quotes m' = residual (remaining ord - ?q) (crossing ord m) @ beyond ord m"
      by (auto simp: rem fill_fill)
    have cr: "crossing ord (e # m) = quotes_of_level pr l @ crossing ord m"
        "beyond ord (e # m) = beyond ord m"
      using go by (simp_all add: e crossing_def beyond_def)
    have "match_levels now ord (e # m) b =
        (fill ord (?q + plan_qty (fill_plan (remaining ord - ?q) (crossing ord m))),
         if l' = [] then m' else (pr, l') # m',
         fold (apply_fill now ord) (fill_plan (remaining ord - ?q) (crossing ord m))
           (fold (apply_fill now ord) ?p b))"
      using go by (simp add: e lvl rest)
    moreover have "quotes (if l' = [] then m' else (pr, l') # m') =
        residual (remaining ord) (quotes_of_level pr l) @ quotes m'"
      by (simp flip: lvl(2))
    ultimately show ?thesis
      using l_ok unfolding cr by (simp add: fill_plan_append residual_append rest(2))
  qed
qed

section \<open>What carrying out a plan does to the book\<close>

fun plan_trades :: "(int \<Rightarrow> u64) \<Rightarrow> order \<Rightarrow> string \<Rightarrow> int \<Rightarrow> (quote \<times> int) list \<Rightarrow> trade list" where
  "plan_trades now ord sy i [] = []"
| "plan_trades now ord sy i (((pr, n, resting), q) # ps) =
    \<lparr>trade_id = i, buy_order_id = (if is_buy ord then oid ord else oid resting),
     sell_order_id = (if is_buy ord then oid resting else oid ord), trade_qty = q,
     trade_ts_ns = now i, trade_price = pr, trade_symbol = take 16 sy\<rparr>
    # plan_trades now ord sy (s32 (i + 1)) ps"

definition filled_ids :: "(quote \<times> int) list \<Rightarrow> int list" where
  "filled_ids plan = map (\<lambda>((pr, n, ord), q). oid ord) (filter (\<lambda>((pr, n, ord), q). q = remaining ord) plan)"

lemma push_trade_keeps [simp]:
  "bids (push_trade t b) = bids b" "asks (push_trade t b) = asks b" "next_node (push_trade t b) = next_node b"
  "order_index (push_trade t b) = order_index b" "book_symbol (push_trade t b) = book_symbol b"
  "next_trade_id (push_trade t b) = next_trade_id b" "active_a (push_trade t b) = active_a b"
  by (simp_all add: push_trade_def)

lemma trades_push_trade [simp]: "trades (push_trade t b) = trades b @ [t]"
  by (simp add: push_trade_def trades_def)

lemma erase_index_keeps [simp]:
  "bids (erase_index i b) = bids b" "asks (erase_index i b) = asks b" "next_node (erase_index i b) = next_node b"
  "book_symbol (erase_index i b) = book_symbol b" "next_trade_id (erase_index i b) = next_trade_id b"
  "active_a (erase_index i b) = active_a b" "trades (erase_index i b) = trades b"
  by (simp_all add: erase_index_def trades_def)

lemma apply_fill_keeps [simp]:
  "bids (apply_fill now ord f b) = bids b" "asks (apply_fill now ord f b) = asks b"
  "next_node (apply_fill now ord f b) = next_node b" "book_symbol (apply_fill now ord f b) = book_symbol b"
  "active_a (apply_fill now ord f b) = active_a b"
  by (auto simp: apply_fill_def generate_trade_def Let_def split: prod.splits)

lemma trades_apply_fill: "trades (apply_fill now ord f b) =
    trades b @ plan_trades now ord (book_symbol b) (next_trade_id b) [f]"
  by (cases f) (auto simp: apply_fill_def generate_trade_def Let_def trades_def push_trade_def erase_index_def)

lemma next_trade_id_apply_fill: "next_trade_id (apply_fill now ord f b) = s32 (next_trade_id b + 1)"
  by (cases f) (auto simp: apply_fill_def generate_trade_def Let_def)

lemma order_index_apply_fill: "order_index (apply_fill now ord ((pr, n, resting), q) b) =
    (if q = remaining resting then AList.delete (oid resting) (order_index b) else order_index b)"
  by (auto simp: apply_fill_def generate_trade_def Let_def erase_index_def)

lemma fold_apply_fill_keeps [simp]:
  "bids (fold (apply_fill now ord) plan b) = bids b" "asks (fold (apply_fill now ord) plan b) = asks b"
  "next_node (fold (apply_fill now ord) plan b) = next_node b"
  "book_symbol (fold (apply_fill now ord) plan b) = book_symbol b"
  "active_a (fold (apply_fill now ord) plan b) = active_a b"
  by (induction plan arbitrary: b) simp_all

lemma trades_fold_apply_fill: "trades (fold (apply_fill now ord) plan b) =
    trades b @ plan_trades now ord (book_symbol b) (next_trade_id b) plan"
proof (induction plan arbitrary: b)
  case (Cons f plan)
  obtain pr n r q where f: "f = ((pr, n, r), q)" by (metis surj_pair)
  show ?case by (simp add: f Cons trades_apply_fill next_trade_id_apply_fill)
qed simp

lemma filled_ids_Cons: "filled_ids (((pr, n, ord), q) # plan) =
    (if q = remaining ord then oid ord # filled_ids plan else filled_ids plan)"
  by (simp add: filled_ids_def)

lemma order_index_fold_apply_fill:
  "map_of (order_index (fold (apply_fill now ord) plan b)) i =
     (if i \<in> set (filled_ids plan) then None else map_of (order_index b) i)"
proof (induction plan arbitrary: b)
  case (Cons f plan)
  obtain pr n r q where f: "f = ((pr, n, r), q)" by (metis surj_pair)
  show ?case
    by (auto simp: f Cons order_index_apply_fill filled_ids_Cons delete_conv' split: if_splits)
qed (simp add: filled_ids_def)

lemma distinct_index_fold_apply_fill: "distinct (map fst (order_index b)) \<Longrightarrow>
    distinct (map fst (order_index (fold (apply_fill now ord) plan b)))"
proof (induction plan arbitrary: b)
  case (Cons f plan)
  obtain pr n r q where f: "f = ((pr, n, r), q)" by (metis surj_pair)
  from Cons.prems have "distinct (map fst (order_index (apply_fill now ord f b)))"
    by (simp add: f order_index_apply_fill distinct_delete)
  then show ?case by (simp add: Cons.IH)
qed simp

section \<open>Quantities\<close>

definition open_qty :: "quote list \<Rightarrow> int" where
  "open_qty qs = sum_list (map (\<lambda>(pr, n, ord). remaining ord) qs)"

lemma open_qty_simps [simp]:
  "open_qty [] = 0" "open_qty ((pr, n, ord) # qs) = remaining ord + open_qty qs"
  "open_qty (xs @ ys) = open_qty xs + open_qty ys"
  by (simp_all add: open_qty_def)

lemma open_qty_residual: "quotes_ok qs \<Longrightarrow> open_qty (residual r qs) = open_qty qs - plan_qty (fill_plan r qs)"
proof (induction r qs rule: residual.induct)
  case (2 r pr n ord qs)
  then have ok: "order_ok ord" by (simp add: open_ok_order_ok)
  show ?case
  proof (cases "0 < r \<and> r < remaining ord")
    case True
    with ok have "remaining (fill ord r) = remaining ord - r" by (intro remaining_fill) auto
    with True show ?thesis by (simp add: min_def)
  next
    case False
    with 2 show ?thesis by (auto simp: min_def not_less)
  qed
qed simp

lemma plan_trades_qty: "sum_list (map trade_qty (plan_trades now ord sy i plan)) = plan_qty plan"
  by (induction now ord sy i plan rule: plan_trades.induct) simp_all

lemma plan_qty_demand: "quotes_ok qs \<Longrightarrow> 0 \<le> r \<Longrightarrow> plan_qty (fill_plan r qs) = min r (open_qty qs)"
proof (induction r qs rule: fill_plan.induct)
  case (2 r pr n ord qs)
  have "0 \<le> open_qty qs" using "2.prems"(1)
    by (induction qs) (auto simp: quotes_ok_def dest!: remaining_pos)
  moreover have "0 < remaining ord" using "2.prems"(1) by (simp add: remaining_pos)
  ultimately show ?case using 2 by (auto simp: min_def split: if_splits)
qed simp

end
