(* ===== verification/Book_Invariants.thy ===== *)
theory Book_Invariants
  imports Book_Matching
begin

text \<open>
  The invariant of the order book and its preservation by every operation.

  \<^item> \<open>side_ok\<close>: levels in price order, no NaN price, no empty level, and every resting order is an
    open limit order of the right side at its level's price;
  \<^item> \<open>index_inv\<close>: list nodes are distinct and every iterator in the index points to a live node that
    holds the order with that id (so no iterator dangles);
  \<^item> \<open>uncrossed\<close>: every bid price is below every ask price.
  When ids are not reused the index moreover covers the book (\<open>index_full\<close>).
\<close>

section \<open>The index and the nodes\<close>

definition sig_of :: "order_list \<Rightarrow> (node \<times> int) list" where
  "sig_of l = map (\<lambda>(n, ord). (n, oid ord)) l"

definition book_sig :: "order_book \<Rightarrow> (node \<times> int) list" where
  "book_sig b = sig_of (level_entries (bids b)) @ sig_of (level_entries (asks b))"

definition index_inv :: "(node \<times> int) list \<Rightarrow> (int \<times> node) list \<Rightarrow> node \<Rightarrow> bool" where
  "index_inv S idx nn \<longleftrightarrow> distinct (map fst idx) \<and> distinct (map fst S) \<and>
     (\<forall>(n, i) \<in> set S. n < nn) \<and> (\<forall>(i, n) \<in> set idx. (n, i) \<in> set S)"

definition index_full :: "(node \<times> int) list \<Rightarrow> (int \<times> node) list \<Rightarrow> bool" where
  "index_full S idx \<longleftrightarrow> (\<forall>(n, i) \<in> set S. map_of idx i = Some n)"

lemma index_inv_perm: "mset S = mset S' \<Longrightarrow> index_inv S idx nn \<longleftrightarrow> index_inv S' idx nn"
proof -
  assume m: "mset S = mset S'"
  then have "set S = set S'" by (rule mset_eq_setD)
  moreover from m have "mset (map fst S) = mset (map fst S')" by simp
  then have "distinct (map fst S) \<longleftrightarrow> distinct (map fst S')" by (rule mset_eq_imp_distinct_iff)
  ultimately show ?thesis by (simp add: index_inv_def)
qed

lemma index_full_perm: "mset S = mset S' \<Longrightarrow> index_full S idx \<longleftrightarrow> index_full S' idx"
  using mset_eq_setD [of S S'] by (simp add: index_full_def)

lemma index_fullD: "index_full S idx \<Longrightarrow> (n, i) \<in> set S \<Longrightarrow> map_of idx i = Some n"
  by (auto simp: index_full_def)

lemma index_inv_insert:
  assumes "index_inv S idx nn"
  shows "index_inv ((nn, i) # S) (AList.update i nn idx) (Suc nn)"
proof -
  have upd: "j = i \<and> n = nn \<or> j \<noteq> i \<and> (j, n) \<in> set idx" if "(j, n) \<in> set (AList.update i nn idx)" for j n
  proof -
    from assms have d: "distinct (map fst idx)" by (simp add: index_inv_def)
    then have "map_of (AList.update i nn idx) j = Some n"
      using that by (simp add: distinct_update map_of_is_SomeI)
    then show ?thesis by (auto simp: update_conv' split: if_splits dest: map_of_SomeD)
  qed
  from assms show ?thesis
    by (fastforce simp: index_inv_def distinct_update dest!: upd)
qed

lemma index_full_insert:
  assumes "index_full S idx" and "i \<notin> snd ` set S"
  shows "index_full ((nn, i) # S) (AList.update i nn idx)"
proof -
  have "map_of (AList.update i nn idx) j = Some n" if "(n, j) \<in> set S" for n j
    using that assms by (auto simp: index_full_def update_conv' image_iff)
  moreover have "map_of (AList.update i nn idx) i = Some nn" by (simp add: update_conv')
  ultimately show ?thesis unfolding index_full_def by (simp add: split_beta)
qed

text \<open>Taking nodes out of the book together with the index entries of their ids.\<close>

lemma index_inv_remove:
  assumes inv: "index_inv S idx nn" and S: "mset S = mset (L @ R)" and d: "distinct (map fst idx')"
    and idx': "\<And>i. map_of idx' i = (if i \<in> snd ` set L then None else map_of idx i)"
  shows "index_inv R idx' nn"
proof -
  from inv have inv': "index_inv (L @ R) idx nn" by (rule index_inv_perm [OF S, THEN iffD1])
  have "(n, i) \<in> set R" if "(i, n) \<in> set idx'" for i n
  proof -
    from that d have "map_of idx' i = Some n" by simp
    then have "i \<notin> snd ` set L" "map_of idx i = Some n" by (auto simp: idx' split: if_splits)
    with inv' show ?thesis by (fastforce simp: index_inv_def image_iff dest: map_of_SomeD)
  qed
  with inv' d show ?thesis by (auto simp: index_inv_def)
qed

lemma index_full_remove:
  assumes inv: "index_inv S idx nn" and full: "index_full S idx" and S: "mset S = mset (L @ R)"
    and idx': "\<And>i. map_of idx' i = (if i \<in> snd ` set L then None else map_of idx i)"
  shows "index_full R idx'"
proof -
  from inv have inv': "index_inv (L @ R) idx nn" by (rule index_inv_perm [OF S, THEN iffD1])
  from full have full': "index_full (L @ R) idx" by (rule index_full_perm [OF S, THEN iffD1])
  have "i \<notin> snd ` set L" if "(n, i) \<in> set R" for n i
  proof
    assume "i \<in> snd ` set L"
    then obtain m where "(m, i) \<in> set L" by auto
    with that have "m = n"
      using index_fullD [OF full', of n i] index_fullD [OF full', of m i] by simp
    with that \<open>(m, i) \<in> set L\<close> have "n \<in> fst ` set L" "n \<in> fst ` set R" by (simp_all add: rev_image_eqI)
    with inv' show False by (auto simp: index_inv_def)
  qed
  then have "map_of idx' i = Some n" if "(n, i) \<in> set R" for n i
    using that index_fullD [OF full', of n i] by (simp add: idx')
  then show ?thesis unfolding index_full_def by (simp add: split_beta)
qed

text \<open>A full index has exactly one entry per resting order.\<close>

lemma index_full_length:
  assumes inv: "index_inv S idx nn" and full: "index_full S idx"
  shows "length idx = length S"
proof -
  have ids: "distinct (map snd S)"
  proof (rule distinct_map [THEN iffD2], intro conjI inj_onI)
    show "distinct S" using inv by (simp add: index_inv_def distinct_map)
    fix x y assume "x \<in> set S" "y \<in> set S" "snd x = snd y"
    then show "x = y"
      by (metis index_fullD [OF full] option.inject prod.collapse)
  qed
  have "set (map fst idx) = set (map snd S)"
  proof (rule set_eqI, rule iffI)
    fix i assume "i \<in> set (map fst idx)"
    with inv show "i \<in> set (map snd S)" by (force simp: index_inv_def)
  next
    fix i assume "i \<in> set (map snd S)"
    with full obtain n where "map_of idx i = Some n" by (fastforce simp: index_full_def)
    then show "i \<in> set (map fst idx)" by (force dest: map_of_SomeD)
  qed
  with ids inv show ?thesis
    by (metis distinct_card index_inv_def length_map)
qed

section \<open>The invariant\<close>

definition entry_ok :: "side \<Rightarrow> double \<Rightarrow> order \<Rightarrow> bool" where
  "entry_ok s pr ord \<longleftrightarrow> side ord = s \<and> otype ord = LIMIT \<and> d_eq (price ord) pr \<and> open_ok ord"

definition levels_ok :: "level_map \<Rightarrow> bool" where
  "levels_ok m \<longleftrightarrow> (\<forall>(pr, l) \<in> set m. good_price pr \<and> l \<noteq> [])"

definition side_ok :: "(double \<Rightarrow> double \<Rightarrow> bool) \<Rightarrow> side \<Rightarrow> level_map \<Rightarrow> bool" where
  "side_ok lt s m \<longleftrightarrow> sorted_wrt lt (map fst m) \<and> levels_ok m \<and>
     (\<forall>(pr, n, ord) \<in> set (quotes m). entry_ok s pr ord)"

definition uncrossed :: "order_book \<Rightarrow> bool" where
  "uncrossed b \<longleftrightarrow> (\<forall>(p, _) \<in> set (bids b). \<forall>(q, _) \<in> set (asks b). d_lt p q)"

definition book_inv :: "order_book \<Rightarrow> bool" where
  "book_inv b \<longleftrightarrow> side_ok price_greater BUY (bids b) \<and> side_ok price_less SELL (asks b) \<and>
     index_inv (book_sig b) (order_index b) (next_node b) \<and> uncrossed b"

definition ids_indexed :: "order_book \<Rightarrow> bool" where
  "ids_indexed b \<longleftrightarrow> index_full (book_sig b) (order_index b)"

lemma book_inv_new: "book_inv (new_book s)" "ids_indexed (new_book s)"
  by (simp_all add: new_book_def book_inv_def side_ok_def levels_ok_def index_inv_def book_sig_def
      sig_of_def level_entries_def uncrossed_def ids_indexed_def index_full_def)

section \<open>Matching keeps a side well formed\<close>

lemma level_entries_quotes: "level_entries m = map snd (quotes m)"
  by (induction m) (auto simp: level_entries_def quotes_of_level_def comp_def)

lemma residual_mem: "(pr, n, ord') \<in> set (residual r qs) \<Longrightarrow> \<exists>ord. (pr, n, ord) \<in> set qs \<and>
    (ord' = ord \<or> (\<exists>q. 0 < q \<and> q < remaining ord \<and> ord' = (fill ord q)\<lparr>status := PARTIAL\<rparr>))"
proof (induction r qs rule: residual.induct)
  case (2 r p m ord qs)
  then show ?case by (fastforce split: if_splits)
qed simp

lemma entry_ok_fill:
  assumes "entry_ok s pr ord" and "0 < q" and "q < remaining ord"
  shows "entry_ok s pr ((fill ord q)\<lparr>status := PARTIAL\<rparr>)"
proof -
  from assms have ok: "order_ok ord" by (simp add: entry_ok_def open_ok_order_ok)
  with assms have "filled_qty (fill ord q) = filled_qty ord + q" by (intro filled_fill) auto
  with assms ok show ?thesis by (simp add: entry_ok_def open_ok_def remaining_eq)
qed

lemma entry_ok_residual:
  "\<forall>(pr, n, ord) \<in> set qs. entry_ok s pr ord \<Longrightarrow> (pr, n, ord) \<in> set (residual r qs) \<Longrightarrow> entry_ok s pr ord"
  by (auto dest!: residual_mem intro: entry_ok_fill)

lemma match_levels_keys: "match_levels now ord m b = (ord', m', b') \<Longrightarrow> fst ` set m' \<subseteq> fst ` set m"
proof (induction m arbitrary: ord b ord' m' b')
  case (Cons e m)
  obtain pr l where e: "e = (pr, l)" by (cases e)
  obtain ord1 l1 b1 where 1: "match_level now pr ord l b = (ord1, l1, b1)" by (metis prod_cases3)
  obtain ord2 m2 b2 where 2: "match_levels now ord1 m b1 = (ord2, m2, b2)" by (metis prod_cases3)
  from Cons.prems have "m' = e # m \<or> m' = m2 \<or> m' = (pr, l1) # m2"
    by (auto simp: e 1 2 split: if_splits)
  moreover have "fst ` set m2 \<subseteq> insert pr (fst ` set m)" using Cons.IH [OF 2] by blast
  ultimately show ?case by (elim disjE) (simp_all add: e)
qed simp

lemma match_levels_sorted:
  "sorted_wrt lt (map fst m) \<Longrightarrow> match_levels now ord m b = (ord', m', b') \<Longrightarrow> sorted_wrt lt (map fst m')"
proof (induction m arbitrary: ord b ord' m' b')
  case (Cons e m)
  obtain pr l where e: "e = (pr, l)" by (cases e)
  show ?case
  proof (cases "0 < remaining ord \<and> \<not> cannot_cross ord pr")
    case True
    obtain ord1 l1 b1 where 1: "match_level now pr ord l b = (ord1, l1, b1)" by (metis prod_cases3)
    obtain ord2 m2 b2 where 2: "match_levels now ord1 m b1 = (ord2, m2, b2)" by (metis prod_cases3)
    from Cons.prems(1) have "sorted_wrt lt (map fst m2)" by (intro Cons.IH [OF _ 2]) simp
    with match_levels_keys [OF 2] Cons.prems True 1 2 show ?thesis
      by (fastforce simp: e split: if_splits)
  next
    case False
    with Cons.prems show ?thesis by (auto simp: e)
  qed
qed simp

lemma match_levels_levels_ok:
  "levels_ok m \<Longrightarrow> match_levels now ord m b = (ord', m', b') \<Longrightarrow> levels_ok m'"
proof (induction m arbitrary: ord b ord' m' b')
  case (Cons e m)
  obtain pr l where e: "e = (pr, l)" by (cases e)
  obtain ord1 l1 b1 where 1: "match_level now pr ord l b = (ord1, l1, b1)" by (metis prod_cases3)
  obtain ord2 m2 b2 where 2: "match_levels now ord1 m b1 = (ord2, m2, b2)" by (metis prod_cases3)
  from Cons.prems(1) have "levels_ok m" by (simp add: levels_ok_def)
  from Cons.IH [OF this 2] Cons.prems show ?case by (auto simp: e 1 2 levels_ok_def split: if_splits)
qed simp

lemma side_ok_quotes_ok: "side_ok lt s m \<Longrightarrow> quotes_ok (quotes m)"
  by (fastforce simp: side_ok_def quotes_ok_def entry_ok_def)

lemma match_levels_side_ok:
  assumes m: "side_ok lt s m" and ord: "order_ok ord"
    and run: "match_levels now ord m b = (ord', m', b')"
  shows "side_ok lt s m'"
proof -
  from match_levels_refines [OF ord side_ok_quotes_ok [OF m], of now b] run
  have q: "quotes m' = residual (remaining ord) (crossing ord m) @ beyond ord m" by auto
  have all: "\<forall>(pr, n, x) \<in> set (crossing ord m @ beyond ord m). entry_ok s pr x"
    unfolding crossing_beyond using m by (simp add: side_ok_def)
  then have "\<forall>(pr, n, x) \<in> set (quotes m'). entry_ok s pr x"
    unfolding q set_append ball_Un using entry_ok_residual [of "crossing ord m" s] by blast
  with m run show ?thesis
    by (auto simp: side_ok_def intro: match_levels_sorted match_levels_levels_ok)
qed

text \<open>Which nodes leave the side: a prefix of the queue, and their ids are the filled ids.\<close>

definition quote_sig :: "quote list \<Rightarrow> (node \<times> int) list" where
  "quote_sig qs = sig_of (map snd qs)"

lemma quote_sig_simps [simp]: "quote_sig [] = []"
  "quote_sig ((pr, n, ord) # qs) = (n, oid ord) # quote_sig qs"
  "quote_sig (xs @ ys) = quote_sig xs @ quote_sig ys"
  by (simp_all add: quote_sig_def sig_of_def)

lemma residual_sig: "quotes_ok qs \<Longrightarrow> \<exists>L. quote_sig qs = L @ quote_sig (residual r qs) \<and>
    filled_ids (fill_plan r qs) = map snd L"
proof (induction r qs rule: residual.induct)
  case (1 r)
  then show ?case by (simp add: filled_ids_def)
next
  case (2 r pr n ord qs)
  then show ?case
  proof (cases "0 < r \<and> \<not> r < remaining ord")
    case True
    with 2 obtain L where "quote_sig qs = L @ quote_sig (residual (r - remaining ord) qs)"
        "filled_ids (fill_plan (r - remaining ord) qs) = map snd L" by auto
    with True show ?thesis by (intro exI [of _ "(n, oid ord) # L"]) (simp add: filled_ids_Cons min_def)
  next
    case False
    then show ?thesis by (auto simp: filled_ids_def min_def)
  qed
qed

lemma match_levels_sig:
  assumes m: "quotes_ok (quotes m)" and ord: "order_ok ord"
    and run: "match_levels now ord m b = (ord', m', b')"
  obtains L where "sig_of (level_entries m) = L @ sig_of (level_entries m')"
    and "\<forall>i. map_of (order_index b') i = (if i \<in> snd ` set L then None else map_of (order_index b) i)"
proof -
  from match_levels_refines [OF ord m, of now b] run
  have q: "quotes m' = residual (remaining ord) (crossing ord m) @ beyond ord m"
    and b': "b' = fold (apply_fill now ord) (fill_plan (remaining ord) (crossing ord m)) b" by auto
  from residual_sig [OF quotes_ok_crossing [OF m, of ord], of "remaining ord"] obtain L where
    L: "quote_sig (crossing ord m) = L @ quote_sig (residual (remaining ord) (crossing ord m))"
      "filled_ids (fill_plan (remaining ord) (crossing ord m)) = map snd L" by blast
  have "quote_sig (quotes m) = L @ quote_sig (quotes m')"
    unfolding q by (simp add: L(1) flip: crossing_beyond [of ord m])
  then show thesis
    by (intro that [of L]) (simp_all add: level_entries_quotes quote_sig_def b' order_index_fold_apply_fill L(2))
qed

section \<open>Matching keeps the book well formed\<close>

definition opposite :: "order \<Rightarrow> order_book \<Rightarrow> level_map" where
  "opposite ord b = (if is_buy ord then asks b else bids b)"

definition set_opposite :: "order \<Rightarrow> level_map \<Rightarrow> order_book \<Rightarrow> order_book" where
  "set_opposite ord m b = (if is_buy ord then b\<lparr>asks := m\<rparr> else b\<lparr>bids := m\<rparr>)"

definition the_plan :: "order \<Rightarrow> order_book \<Rightarrow> (quote \<times> int) list" where
  "the_plan ord b = fill_plan (remaining ord) (crossing ord (opposite ord b))"

lemma book_inv_opposite_ok: "book_inv b \<Longrightarrow> quotes_ok (quotes (opposite ord b))"
  by (auto simp: book_inv_def opposite_def intro: side_ok_quotes_ok)

lemma match_limit_order_eq: "match_limit_order now ord b =
    (case match_levels now ord (opposite ord b) b of
       (ord', m, b') \<Rightarrow> (final_status ord', set_opposite ord m b'))"
  by (simp add: match_limit_order_def opposite_def set_opposite_def)

lemma match_limit_order_cases:
  assumes "book_inv b" and "order_ok ord"
  obtains m' where
    "match_levels now ord (opposite ord b) b =
       (fill ord (plan_qty (the_plan ord b)), m', fold (apply_fill now ord) (the_plan ord b) b)"
    "match_limit_order now ord b = (final_status (fill ord (plan_qty (the_plan ord b))),
       set_opposite ord m' (fold (apply_fill now ord) (the_plan ord b) b))"
    "quotes m' = residual (remaining ord) (crossing ord (opposite ord b)) @ beyond ord (opposite ord b)"
  using match_levels_refines [OF assms(2) book_inv_opposite_ok [OF assms(1), of ord], of now b]
  by (auto simp: match_limit_order_eq the_plan_def)

lemma plan_qty_the_plan: "book_inv b \<Longrightarrow> order_ok ord \<Longrightarrow>
    0 \<le> plan_qty (the_plan ord b) \<and> plan_qty (the_plan ord b) \<le> remaining ord"
  unfolding the_plan_def
  by (intro plan_qty_bounds quotes_ok_crossing book_inv_opposite_ok remaining_nonneg)

lemma final_status_simps [simp]:
  "oid (final_status ord) = oid ord" "price (final_status ord) = price ord" "side (final_status ord) = side ord"
  "quantity (final_status ord) = quantity ord" "filled_qty (final_status ord) = filled_qty ord"
  "otype (final_status ord) = otype ord" "is_filled (final_status ord) = is_filled ord"
  "remaining (final_status ord) = remaining ord" "is_buy (final_status ord) = is_buy ord"
  "order_ok (final_status ord) = order_ok ord" "open_ok (final_status ord) = open_ok ord"
  "symbol (final_status ord) = symbol ord" "timestamp_ns (final_status ord) = timestamp_ns ord"
  "account_id (final_status ord) = account_id ord"
  by (simp_all add: final_status_def)

lemma sig_of_append [simp]: "sig_of (xs @ ys) = sig_of xs @ sig_of ys"
  by (simp add: sig_of_def)

lemma match_limit_order_inv:
  assumes inv: "book_inv b" and ord: "order_ok ord" and run: "match_limit_order now ord b = (res, b1)"
  shows "book_inv b1" and "ids_indexed b \<Longrightarrow> ids_indexed b1"
    and "snd ` set (book_sig b1) \<subseteq> snd ` set (book_sig b)"
proof -
  let ?bf = "fold (apply_fill now ord) (the_plan ord b) b"
  from match_limit_order_cases [OF inv ord, of now] obtain m' where
    run': "match_levels now ord (opposite ord b) b = (fill ord (plan_qty (the_plan ord b)), m', ?bf)"
    and b1: "b1 = set_opposite ord m' ?bf" using run by (metis prod.inject)
  obtain L where
    L: "sig_of (level_entries (opposite ord b)) = L @ sig_of (level_entries m')"
      "\<forall>i. map_of (order_index ?bf) i = (if i \<in> snd ` set L then None else map_of (order_index b) i)"
    by (rule match_levels_sig [OF book_inv_opposite_ok [OF inv] ord run'])
  have sig: "mset (book_sig b) = mset (L @ book_sig b1)"
    using L(1) by (auto simp: book_sig_def b1 set_opposite_def opposite_def)
  have idx: "order_index b1 = order_index ?bf" "next_node b1 = next_node b"
    by (simp_all add: b1 set_opposite_def)
  from inv have inv_idx: "index_inv (book_sig b) (order_index b) (next_node b)" by (simp add: book_inv_def)
  then have "distinct (map fst (order_index ?bf))"
    by (intro distinct_index_fold_apply_fill) (simp add: index_inv_def)
  then have 1: "index_inv (book_sig b1) (order_index b1) (next_node b1)"
    unfolding idx by (intro index_inv_remove [OF inv_idx sig _ L(2) [rule_format]])
  show "ids_indexed b1" if "ids_indexed b"
    using that unfolding ids_indexed_def idx
    by (intro index_full_remove [OF inv_idx _ sig L(2) [rule_format]])
  show "snd ` set (book_sig b1) \<subseteq> snd ` set (book_sig b)"
    using mset_eq_setD [OF sig] by auto
  have 2: "side_ok price_greater BUY (bids b1)" "side_ok price_less SELL (asks b1)"
    using inv match_levels_side_ok [OF _ ord run', of price_less SELL]
      match_levels_side_ok [OF _ ord run', of price_greater BUY]
    by (auto simp: book_inv_def b1 set_opposite_def opposite_def)
  have "fst ` set m' \<subseteq> fst ` set (opposite ord b)" by (rule match_levels_keys [OF run'])
  then have "uncrossed b1"
    using inv by (fastforce simp: book_inv_def uncrossed_def b1 set_opposite_def opposite_def)
  with 1 2 show "book_inv b1" by (simp add: book_inv_def)
qed

section \<open>One side of the book\<close>

lemma quotes_mem: "(pr, n, ord) \<in> set (quotes m) \<longleftrightarrow> (\<exists>l. (pr, l) \<in> set m \<and> (n, ord) \<in> set l)"
  by (auto simp: quotes_def quotes_of_level_def)

lemma quotes_append [simp]: "quotes (xs @ ys) = quotes xs @ quotes ys"
  by (simp add: quotes_def)

lemma level_entries_append [simp]: "level_entries (xs @ ys) = level_entries xs @ level_entries ys"
  "level_entries ((pr, l) # ys) = l @ level_entries ys" "level_entries [] = []"
  by (simp_all add: level_entries_def)

lemma mset_entries_alter: "mset (level_entries (map_alter lt k (\<lambda>l. l @ [e]) [] m)) =
    add_mset e (mset (level_entries m))"
  by (induction m) (auto simp: level_entries_def)

lemma filter_quotes_of_level:
  "filter (\<lambda>(p, k, x). k \<noteq> n) (quotes_of_level pr l) = quotes_of_level pr (erase_node n l)"
  by (induction l) (auto simp: quotes_of_level_def erase_node_def)

text \<open>The contract between the book and its price maps: a comparator under which equivalent keys are
  equal prices. Both sides of the book are instances.\<close>

locale book_side = level_order lt good_price for lt :: "double \<Rightarrow> double \<Rightarrow> bool" +
  assumes equiv_eq: "good_price a \<Longrightarrow> good_price b \<Longrightarrow> key_equiv lt a b \<longleftrightarrow> d_eq a b"
begin

lemma side_good: "side_ok lt s m \<Longrightarrow> \<forall>x \<in> set (map fst m). good_price x"
  by (auto simp: side_ok_def levels_ok_def)

lemma side_ok_insert:
  assumes m: "side_ok lt s m" and k: "good_price k" and e: "entry_ok s k ord"
  shows "side_ok lt s (map_alter lt k (\<lambda>l. l @ [(n, ord)]) [] m)"
proof -
  let ?m = "map_alter lt k (\<lambda>l. l @ [(n, ord)]) [] m"
  have 1: "sorted_wrt lt (map fst ?m)"
    using m k side_good [OF m] by (intro sorted_alter) (simp_all add: side_ok_def)
  have 2: "levels_ok ?m"
    using m k by (auto simp: side_ok_def levels_ok_def dest!: alter_mem)
  have "entry_ok s pr x" if mem: "(pr, l) \<in> set ?m" "(j, x) \<in> set l" for pr l j x
  proof -
    have old: "entry_ok s p y" if "(p, v) \<in> set m" "(i, y) \<in> set v" for p v i y
      using m that unfolding side_ok_def by (fastforce simp: quotes_mem)
    have eq: "entry_ok s p ord" if "(p, v) \<in> set m" "key_equiv lt k p" for p v
    proof -
      have "good_price p" using side_good [OF m] that by force
      with that k have "d_eq k p" by (simp add: equiv_eq)
      with e show ?thesis by (auto simp: entry_ok_def d_eq_def)
    qed
    from alter_mem [OF mem(1)] mem(2) e show ?thesis by (auto intro: old eq)
  qed
  with 1 2 show ?thesis by (auto simp: side_ok_def quotes_mem)
qed

lemma erase_from_side_split:
  assumes m: "side_ok lt s m" and mem: "(pr, n, ord) \<in> set (quotes m)"
  obtains xs a l ys where "m = xs @ (a, l) # ys" "(n, ord) \<in> set l"
    "erase_from_side lt (price ord) n m =
       (if erase_node n l = [] then xs @ ys else xs @ (a, erase_node n l) # ys)"
proof -
  from mem obtain l where l: "(pr, l) \<in> set m" "(n, ord) \<in> set l" by (auto simp: quotes_mem)
  from m mem have e: "entry_ok s pr ord" by (auto simp: side_ok_def)
  have pr: "good_price pr" using side_good [OF m] l by force
  have ord: "good_price (price ord)" using e by (simp add: entry_ok_def d_eq_def good_price_def)
  have srt: "sorted_wrt lt (map fst m)" using m by (simp add: side_ok_def)
  have "map_find lt (price ord) m = Some l"
    using e pr ord by (intro find_member [OF srt ord side_good [OF m] l(1)]) (simp add: equiv_eq entry_ok_def)
  moreover from find_split [OF this srt ord side_good [OF m]] obtain xs a ys where
    "m = xs @ (a, l) # ys" "map_erase lt (price ord) m = xs @ ys"
    "\<forall>f d. map_alter lt (price ord) f d m = xs @ (a, f l) # ys" by blast
  ultimately show thesis using l(2)
    by (intro that [of xs a l ys]) (simp_all add: erase_from_side_def Let_def)
qed

lemma erase_from_side_ok:
  assumes m: "side_ok lt s m" and mem: "(pr, n, ord) \<in> set (quotes m)"
    and d: "distinct (map fst (level_entries m))"
  shows "quotes (erase_from_side lt (price ord) n m) = filter (\<lambda>(p, k, x). k \<noteq> n) (quotes m)"
    and "side_ok lt s (erase_from_side lt (price ord) n m)"
    and "fst ` set (erase_from_side lt (price ord) n m) \<subseteq> fst ` set m"
proof -
  obtain xs a l ys where sp: "m = xs @ (a, l) # ys" "(n, ord) \<in> set l"
    "erase_from_side lt (price ord) n m =
       (if erase_node n l = [] then xs @ ys else xs @ (a, erase_node n l) # ys)"
    by (rule erase_from_side_split [OF m mem])
  let ?m = "erase_from_side lt (price ord) n m"
  have n: "n \<in> fst ` set l" using sp(2) by force
  have other: "filter (\<lambda>(p, k, x). k \<noteq> n) (quotes zs) = quotes zs"
    if "fst ` set l \<inter> fst ` set (level_entries zs) = {}" for zs
    using that n by (intro filter_True) (force simp: level_entries_quotes)
  have "fst ` set l \<inter> fst ` set (level_entries xs) = {}" "fst ` set l \<inter> fst ` set (level_entries ys) = {}"
    using d unfolding sp(1) by auto
  then have "filter (\<lambda>(p, k, x). k \<noteq> n) (quotes m) = quotes xs @ quotes_of_level a (erase_node n l) @ quotes ys"
    by (simp add: sp(1) other filter_quotes_of_level)
  then show q: "quotes ?m = filter (\<lambda>(p, k, x). k \<noteq> n) (quotes m)"
    unfolding sp(3) by simp
  show "fst ` set ?m \<subseteq> fst ` set m" unfolding sp(3) by (auto simp: sp(1))
  have "sorted_wrt lt (map fst ?m)" "levels_ok ?m"
    using m unfolding sp(3) by (auto simp: sp(1) side_ok_def levels_ok_def sorted_wrt_append)
  with m q show "side_ok lt s ?m" by (auto simp: side_ok_def)
qed

lemma erase_insert:
  assumes m: "side_ok lt s m" and k: "good_price k" and n: "n \<notin> fst ` set (level_entries m)"
  shows "erase_from_side lt k n (map_alter lt k (\<lambda>l. l @ [(n, e)]) [] m) = m"
proof -
  have srt: "sorted_wrt lt (map fst m)" using m by (simp add: side_ok_def)
  note side = srt k side_good [OF m]
  have keep: "erase_node n (l @ [(n, e)]) = l" if "(p, l) \<in> set m" for p l
    using n that by (force simp: erase_node_def level_entries_def intro!: filter_True)
  show ?thesis
  proof (cases "map_find lt k m")
    case None
    then show ?thesis
      by (simp add: erase_from_side_def find_alter [OF side(1,2,2,3)] erase_node_def erase_alter_None)
  next
    case (Some l)
    from find_Some [OF this] obtain p where "(p, l) \<in> set m" by blast
    with keep m have l: "erase_node n (l @ [(n, e)]) = l" "l \<noteq> []" by (auto simp: side_ok_def levels_ok_def)
    have "map_alter lt k ((\<lambda>_. l) \<circ> (\<lambda>l. l @ [(n, e)])) [] m = m"
      by (rule alter_same [OF Some side]) simp
    with Some l show ?thesis
      by (simp add: erase_from_side_def find_alter [OF side(1,2,2,3)] Let_def alter_alter)
  qed
qed

end

interpretation ask_side: book_side price_less
  by unfold_locales (rule price_equiv)

interpretation bid_side: book_side price_greater
  by unfold_locales (rule price_equiv)

section \<open>Adding an order\<close>

lemma cannot_cross_limit: "otype ord = LIMIT \<Longrightarrow>
    cannot_cross ord pr \<longleftrightarrow> (if is_buy ord then price_less else price_greater) (price ord) pr"
  by (simp add: cannot_cross_def price_less_def price_greater_def)

text \<open>A limit order that is not filled by matching has consumed every level it could cross.\<close>

lemma unfilled_beyond:
  assumes inv: "book_inv b" and ord: "order_ok ord" and lim: "otype ord = LIMIT"
    and run: "match_limit_order now ord b = (res, b1)" and open_res: "\<not> is_filled res"
    and mem: "(pr, l) \<in> set (opposite ord b1)"
  shows "cannot_cross ord pr"
proof -
  obtain m' where
    run': "match_levels now ord (opposite ord b) b =
       (fill ord (plan_qty (the_plan ord b)), m', fold (apply_fill now ord) (the_plan ord b) b)"
    and run2: "match_limit_order now ord b = (final_status (fill ord (plan_qty (the_plan ord b))),
       set_opposite ord m' (fold (apply_fill now ord) (the_plan ord b) b))"
    and q: "quotes m' = residual (remaining ord) (crossing ord (opposite ord b)) @ beyond ord (opposite ord b)"
    by (rule match_limit_order_cases [OF inv ord])
  let ?lt = "if is_buy ord then price_less else price_greater"
  have ok: "side_ok ?lt (if is_buy ord then SELL else BUY) (opposite ord b)"
    using inv by (auto simp: book_inv_def opposite_def)
  have m': "opposite ord b1 = m'" using run run2 by (auto simp: opposite_def set_opposite_def)
  have "plan_qty (the_plan ord b) < remaining ord"
    using run run2 open_res ord plan_qty_the_plan [OF inv ord] order_ok_fill [OF ord] remaining_fill [OF ord]
    by (fastforce simp: is_filled_iff)
  then have "residual (remaining ord) (crossing ord (opposite ord b)) = []"
    unfolding the_plan_def by (intro plan_exhausts quotes_ok_crossing book_inv_opposite_ok [OF inv])
  with q have q': "quotes m' = beyond ord (opposite ord b)" by simp
  have "levels_ok m'" using ok match_levels_levels_ok [OF _ run'] by (simp add: side_ok_def)
  with mem m' obtain n x where "(n, x) \<in> set l" by (cases l) (auto simp: levels_ok_def)
  with mem m' q' obtain l0 where
    "(pr, l0) \<in> set (dropWhile (\<lambda>(q, _). \<not> cannot_cross ord q) (opposite ord b))"
    unfolding beyond_def by (metis quotes_mem)
  with ok lim show ?thesis
    using ask_order.beyond_sorted [of "opposite ord b" pr l0 "price ord"]
      bid_order.beyond_sorted [of "opposite ord b" pr l0 "price ord"]
    by (simp add: side_ok_def cannot_cross_limit split: if_splits)
qed

lemma rest_order_inv:
  assumes inv: "book_inv b" and res: "open_ok res" "otype res = LIMIT" "good_price (price res)"
    and entry: "entry = res\<lparr>status := st\<rparr>"
    and far: "\<forall>(pr, l) \<in> set (opposite res b). cannot_cross res pr"
  shows "book_inv (rest_order entry res b)"
    and "ids_indexed b \<Longrightarrow> oid res \<notin> snd ` set (book_sig b) \<Longrightarrow> ids_indexed (rest_order entry res b)"
proof -
  let ?b = "rest_order entry res b" and ?n = "next_node b"
  have e: "entry_ok (side res) (price res) entry"
    using res by (simp add: entry_ok_def entry d_eq_def good_price_def)
  have sides: "side_ok price_greater BUY (bids ?b)" "side_ok price_less SELL (asks ?b)"
    using inv e res(3) bid_side.side_ok_insert [of BUY "bids b" "price res" entry ?n]
      ask_side.side_ok_insert [of SELL "asks b" "price res" entry ?n]
    by (cases "side res"; simp add: book_inv_def rest_order_def Let_def is_buy_def)+
  have sig: "mset (book_sig ?b) = mset ((?n, oid res) # book_sig b)"
    by (simp add: rest_order_def Let_def book_sig_def sig_of_def mset_entries_alter entry)
  have idx: "order_index ?b = AList.update (oid res) ?n (order_index b)" "next_node ?b = Suc ?n"
    by (simp_all add: rest_order_def Let_def)
  have inv_idx: "index_inv (book_sig b) (order_index b) ?n" using inv by (simp add: book_inv_def)
  have 1: "index_inv (book_sig ?b) (order_index ?b) (next_node ?b)"
    unfolding idx index_inv_perm [OF sig] by (rule index_inv_insert [OF inv_idx])
  show "ids_indexed ?b" if "ids_indexed b" "oid res \<notin> snd ` set (book_sig b)"
    using that unfolding ids_indexed_def idx index_full_perm [OF sig] by (rule index_full_insert)
  have "d_lt p q" if "(p, l) \<in> set (bids ?b)" "(q, k) \<in> set (asks ?b)" for p q l k
  proof -
    have old: "d_lt p q" if "(p, l) \<in> set (bids b)" "(q, k) \<in> set (asks b)" for p q l k
      using inv that by (fastforce simp: book_inv_def uncrossed_def)
    show ?thesis
    proof (cases "is_buy res")
      case True
      with that have "p = price res \<or> (\<exists>v. (p, v) \<in> set (bids b))" and q: "(q, k) \<in> set (asks b)"
        by (auto simp: rest_order_def Let_def dest: bid_order.keys_alter)
      with True far old show ?thesis by (fastforce simp: opposite_def cannot_cross_def)
    next
      case False
      with that have "q = price res \<or> (\<exists>v. (q, v) \<in> set (asks b))" and p: "(p, l) \<in> set (bids b)"
        by (auto simp: rest_order_def Let_def dest: ask_order.keys_alter)
      with False far old show ?thesis by (fastforce simp: opposite_def cannot_cross_def)
    qed
  qed
  then have "uncrossed ?b" by (auto simp: uncrossed_def)
  with 1 sides show "book_inv ?b" by (simp add: book_inv_def)
qed

lemma add_order_book:
  assumes "match_limit_order now ord b = (res, b1)"
  shows "snd (add_order now ord b) = (if \<not> is_filled res \<and> otype res = LIMIT
      then rest_order (res\<lparr>status := (if 0 < filled_qty res then PARTIAL else NEW)\<rparr>) res b1 else b1)"
    and "fst (add_order now ord b) =
      (if \<not> is_filled res \<and> otype res = LIMIT \<and> 0 < filled_qty res then res\<lparr>status := PARTIAL\<rparr> else res)"
  by (simp_all add: add_order_def assms)

lemma match_result:
  assumes "book_inv b" "order_ok ord" "match_limit_order now ord b = (res, b1)"
  shows "res = final_status (fill ord (plan_qty (the_plan ord b)))" and "order_ok res"
    and "filled_qty res = filled_qty ord + plan_qty (the_plan ord b)"
proof -
  show r: "res = final_status (fill ord (plan_qty (the_plan ord b)))"
    by (rule match_limit_order_cases [OF assms(1,2), of now]) (use assms(3) in simp)
  show "order_ok res" "filled_qty res = filled_qty ord + plan_qty (the_plan ord b)"
    unfolding r using plan_qty_the_plan [OF assms(1,2)] assms(2)
    by (simp_all add: order_ok_fill filled_fill)
qed

lemma add_order_inv_aux:
  assumes inv: "book_inv b" and ord: "order_ok ord" and pr: "otype ord = LIMIT \<Longrightarrow> good_price (price ord)"
  shows "book_inv (snd (add_order now ord b))"
    and "ids_indexed b \<Longrightarrow> oid ord \<notin> snd ` set (book_sig b) \<Longrightarrow> ids_indexed (snd (add_order now ord b))"
proof -
  obtain res b1 where run: "match_limit_order now ord b = (res, b1)" by (cases "match_limit_order now ord b")
  note res = match_result [OF inv ord run]
  note b1 = match_limit_order_inv [OF inv ord run]
  have same: "oid res = oid ord" "price res = price ord" "otype res = otype ord" "side res = side ord"
      "is_buy res = is_buy ord" "opposite res b1 = opposite ord b1" "cannot_cross res pr = cannot_cross ord pr" for pr
    by (simp_all add: res(1) opposite_def cannot_cross_def)
  note ao = add_order_book [OF run]
  have rests: "book_inv (rest_order (res\<lparr>status := st\<rparr>) res b1) \<and>
      (ids_indexed b \<longrightarrow> oid ord \<notin> snd ` set (book_sig b) \<longrightarrow> ids_indexed (rest_order (res\<lparr>status := st\<rparr>) res b1))"
    if "\<not> is_filled res" "otype res = LIMIT" for st
  proof -
    have 1: "open_ok res" using that order_ok_cases [OF res(2)] by blast
    have 2: "good_price (price res)" using that pr by (simp add: same)
    have 3: "\<forall>(p, l) \<in> set (opposite res b1). cannot_cross res p"
      using unfilled_beyond [OF inv ord _ run] that by (auto simp: same)
    show ?thesis
      using rest_order_inv [OF b1(1) 1 that(2) 2 refl 3] b1(2,3) by (auto simp: same)
  qed
  show "book_inv (snd (add_order now ord b))" using rests b1(1) by (simp add: ao)
  show "ids_indexed (snd (add_order now ord b))" if "ids_indexed b" "oid ord \<notin> snd ` set (book_sig b)"
    using rests b1(2) that by (simp add: ao)
qed

section \<open>Cancelling and modifying\<close>

definition book_entries :: "order_book \<Rightarrow> order_list" where
  "book_entries b = level_entries (bids b) @ level_entries (asks b)"

lemma fst_sig_of [simp]: "map fst (sig_of l) = map fst l"
  by (simp add: sig_of_def comp_def split_beta)

lemma book_sig_entries: "book_sig b = sig_of (book_entries b)"
  by (simp add: book_sig_def book_entries_def)

lemma book_inv_distinct: "book_inv b \<Longrightarrow> distinct (map fst (book_entries b))"
  by (simp add: book_inv_def index_inv_def book_sig_entries)

lemma deref_eq: "deref n b = map_of (book_entries b) n"
  by (simp add: deref_def book_entries_def)

text \<open>No iterator in the index dangles.\<close>

lemma index_points_to_order:
  assumes "book_inv b" and "map_of (order_index b) i = Some n"
  obtains ord where "deref n b = Some ord" "oid ord = i" "(n, ord) \<in> set (book_entries b)"
proof -
  from assms have "(n, i) \<in> set (book_sig b)"
    by (fastforce simp: book_inv_def index_inv_def dest: map_of_SomeD)
  then obtain ord where o: "(n, ord) \<in> set (book_entries b)" "oid ord = i"
    by (auto simp: book_sig_entries sig_of_def)
  moreover have "deref n b = Some ord"
    unfolding deref_eq using book_inv_distinct [OF assms(1)] o by (simp add: map_of_is_SomeI)
  ultimately show thesis by (intro that)
qed

lemma entries_quotes: "(n, ord) \<in> set (level_entries m) \<longleftrightarrow> (\<exists>pr. (pr, n, ord) \<in> set (quotes m))"
  unfolding level_entries_quotes set_map by force

lemma filter_other_side: "n \<notin> fst ` set (level_entries m) \<Longrightarrow> filter (\<lambda>(p, k, x). k \<noteq> n) (quotes m) = quotes m"
  by (intro filter_True) (force simp: level_entries_quotes)

lemma cancel_order_cases:
  assumes inv: "book_inv b" and idx: "map_of (order_index b) i = Some n" and der: "deref n b = Some ord"
  obtains bm am where "cancel_order i b = (True, erase_index i (b\<lparr>bids := bm, asks := am\<rparr>))"
    and "quotes bm = filter (\<lambda>(p, k, x). k \<noteq> n) (quotes (bids b))"
    and "quotes am = filter (\<lambda>(p, k, x). k \<noteq> n) (quotes (asks b))"
    and "side_ok price_greater BUY bm" and "side_ok price_less SELL am"
    and "fst ` set bm \<subseteq> fst ` set (bids b)" and "fst ` set am \<subseteq> fst ` set (asks b)"
proof -
  have d: "distinct (map fst (level_entries (bids b)))" "distinct (map fst (level_entries (asks b)))"
      "fst ` set (level_entries (bids b)) \<inter> fst ` set (level_entries (asks b)) = {}"
    using book_inv_distinct [OF inv] by (auto simp: book_entries_def)
  have sides: "side_ok price_greater BUY (bids b)" "side_ok price_less SELL (asks b)"
    using inv by (simp_all add: book_inv_def)
  have mem: "(n, ord) \<in> set (book_entries b)" using der unfolding deref_eq by (rule map_of_SomeD)
  then consider (bid) pr where "(pr, n, ord) \<in> set (quotes (bids b))"
    | (ask) pr where "(pr, n, ord) \<in> set (quotes (asks b))"
    by (auto simp: book_entries_def entries_quotes)
  then show thesis
  proof cases
    case bid
    then have "is_buy ord" using sides by (auto simp: side_ok_def entry_ok_def is_buy_def)
    moreover have "n \<in> fst ` set (level_entries (bids b))"
      using bid by (force simp: level_entries_quotes)
    then have "n \<notin> fst ` set (level_entries (asks b))" using d(3) by auto
    ultimately show thesis
      using bid_side.erase_from_side_ok [OF sides(1) bid d(1)] sides filter_other_side
      by (intro that [where bm = "erase_from_side price_greater (price ord) n (bids b)" and am = "asks b"])
        (simp_all add: cancel_order_def idx der)
  next
    case ask
    then have "side ord = SELL" using sides by (auto simp: side_ok_def entry_ok_def)
    then have "\<not> is_buy ord" by (simp add: is_buy_def)
    moreover have "n \<in> fst ` set (level_entries (asks b))"
      using ask by (force simp: level_entries_quotes)
    then have "n \<notin> fst ` set (level_entries (bids b))" using d(3) by auto
    ultimately show thesis
      using ask_side.erase_from_side_ok [OF sides(2) ask d(2)] sides filter_other_side
      by (intro that [where bm = "bids b" and am = "erase_from_side price_less (price ord) n (asks b)"])
        (simp_all add: cancel_order_def idx der)
  qed
qed

lemma map_filter_snd: "map snd (filter (\<lambda>(p, k, x). k \<noteq> n) qs) = filter (\<lambda>(k, x). k \<noteq> n) (map snd qs)"
  by (induction qs) auto

lemma cancel_sig:
  assumes "distinct (map fst es)" and "(n, ord) \<in> set es"
  shows "mset (sig_of es) = mset ([(n, oid ord)] @ sig_of (filter (\<lambda>(k, x). k \<noteq> n) es))"
  using assms
proof (induction es)
  case (Cons e es)
  show ?case
  proof (cases "e = (n, ord)")
    case True
    with Cons.prems have "filter (\<lambda>(k, x). k \<noteq> n) es = es" by (intro filter_True) force
    with True show ?thesis by (simp add: sig_of_def)
  next
    case False
    with Cons.prems have mem: "(n, ord) \<in> set es" by auto
    then have "n \<in> fst ` set es" by force
    with Cons.prems have "fst e \<noteq> n" by auto
    with mem have "(n, ord) \<in> set es" "fst e \<noteq> n" by auto
    with Cons show ?thesis by (cases e) (simp add: sig_of_def)
  qed
qed simp

lemma cancel_order_inv_aux:
  assumes inv: "book_inv b"
  shows "book_inv (snd (cancel_order i b))" and "ids_indexed b \<Longrightarrow> ids_indexed (snd (cancel_order i b))"
    and "ids_indexed b \<Longrightarrow> i \<notin> snd ` set (book_sig (snd (cancel_order i b)))"
proof -
  have "book_inv (snd (cancel_order i b)) \<and> (ids_indexed b \<longrightarrow> ids_indexed (snd (cancel_order i b))
      \<and> i \<notin> snd ` set (book_sig (snd (cancel_order i b))))"
  proof (cases "map_of (order_index b) i")
    case None
    moreover have "map_of (order_index b) i \<noteq> None" if "ids_indexed b" "i \<in> snd ` set (book_sig b)"
      using that by (force simp: ids_indexed_def index_full_def)
    ultimately show ?thesis using inv by (auto simp: cancel_order_def)
  next
    case (Some n)
    obtain ord where o: "deref n b = Some ord" "oid ord = i" "(n, ord) \<in> set (book_entries b)"
      by (rule index_points_to_order [OF inv Some])
    obtain bm am where c: "cancel_order i b = (True, erase_index i (b\<lparr>bids := bm, asks := am\<rparr>))"
      "quotes bm = filter (\<lambda>(p, k, x). k \<noteq> n) (quotes (bids b))"
      "quotes am = filter (\<lambda>(p, k, x). k \<noteq> n) (quotes (asks b))"
      "side_ok price_greater BUY bm" "side_ok price_less SELL am"
      "fst ` set bm \<subseteq> fst ` set (bids b)" "fst ` set am \<subseteq> fst ` set (asks b)"
      by (rule cancel_order_cases [OF inv Some o(1)])
    let ?b = "erase_index i (b\<lparr>bids := bm, asks := am\<rparr>)"
    have "book_entries ?b = filter (\<lambda>(k, x). k \<noteq> n) (book_entries b)"
      by (simp add: book_entries_def level_entries_quotes c(2,3) map_filter_snd)
    then have sig: "mset (book_sig b) = mset ([(n, i)] @ book_sig ?b)"
      using cancel_sig [OF book_inv_distinct [OF inv] o(3)] by (simp add: book_sig_entries o(2))
    have inv_idx: "index_inv (book_sig b) (order_index b) (next_node b)" using inv by (simp add: book_inv_def)
    have idx: "distinct (map fst (order_index ?b))" "next_node ?b = next_node b"
      "map_of (order_index ?b) j = (if j \<in> snd ` set [(n, i)] then None else map_of (order_index b) j)" for j
      using inv_idx by (simp_all add: erase_index_def index_inv_def distinct_delete delete_conv')
    have "uncrossed ?b" using inv c(6,7) by (fastforce simp: book_inv_def uncrossed_def)
    then have 1: "book_inv ?b"
      using index_inv_remove [OF inv_idx sig idx(1,3)] c(4,5) by (simp add: book_inv_def)
    have 2: "ids_indexed ?b" if "ids_indexed b"
      using that unfolding ids_indexed_def by (intro index_full_remove [OF inv_idx _ sig idx(3)])
    moreover have "i \<notin> snd ` set (book_sig ?b)" if "ids_indexed b"
    proof
      assume "i \<in> snd ` set (book_sig ?b)"
      then obtain k where "(k, i) \<in> set (book_sig ?b)" by auto
      with 2 [OF that] have "map_of (order_index ?b) i = Some k" by (simp add: ids_indexed_def index_fullD)
      then show False by (simp add: idx(3))
    qed
    ultimately show ?thesis using 1 by (simp add: c(1))
  qed
  then show "book_inv (snd (cancel_order i b))" and "ids_indexed b \<Longrightarrow> ids_indexed (snd (cancel_order i b))"
    and "ids_indexed b \<Longrightarrow> i \<notin> snd ` set (book_sig (snd (cancel_order i b)))" by auto
qed

lemma modify_order_known:
  assumes inv: "book_inv b" and idx: "map_of (order_index b) i = Some n"
  obtains ord where "deref n b = Some ord" "oid ord = i" "otype ord = LIMIT"
    "modify_order now i new_price new_qty b =
       add_order now (ord\<lparr>price := new_price, quantity := new_qty, filled_qty := 0, status := NEW\<rparr>)
         (snd (cancel_order i b))"
proof -
  obtain ord where o: "deref n b = Some ord" "oid ord = i" "(n, ord) \<in> set (book_entries b)"
    by (rule index_points_to_order [OF inv idx])
  from o(3) inv have "otype ord = LIMIT"
    by (auto simp: book_entries_def entries_quotes book_inv_def side_ok_def entry_ok_def)
  with o idx show thesis by (intro that [of ord]) (simp_all add: modify_order_def)
qed

lemma modify_order_inv_aux:
  assumes inv: "book_inv b" and qty: "0 \<le> new_qty" "new_qty < 2 ^ 31" and pr: "good_price new_price"
  shows "book_inv (snd (modify_order now i new_price new_qty b))"
    and "ids_indexed b \<Longrightarrow> ids_indexed (snd (modify_order now i new_price new_qty b))"
proof -
  have "book_inv (snd (modify_order now i new_price new_qty b)) \<and>
      (ids_indexed b \<longrightarrow> ids_indexed (snd (modify_order now i new_price new_qty b)))"
  proof (cases "map_of (order_index b) i")
    case None
    then show ?thesis using inv by (simp add: modify_order_def)
  next
    case (Some n)
    obtain ord where o: "deref n b = Some ord" "oid ord = i" "otype ord = LIMIT"
      and m: "modify_order now i new_price new_qty b =
       add_order now (ord\<lparr>price := new_price, quantity := new_qty, filled_qty := 0, status := NEW\<rparr>)
         (snd (cancel_order i b))"
      by (rule modify_order_known [OF inv Some])
    note c = cancel_order_inv_aux [OF inv, of i]
    let ?o = "ord\<lparr>price := new_price, quantity := new_qty, filled_qty := 0, status := NEW\<rparr>"
    have ok: "order_ok ?o" using qty by (simp add: order_ok_def)
    show ?thesis
      using add_order_inv_aux [OF c(1) ok, of now] c(2,3) pr by (simp add: m o(2))
  qed
  then show "book_inv (snd (modify_order now i new_price new_qty b))"
    and "ids_indexed b \<Longrightarrow> ids_indexed (snd (modify_order now i new_price new_qty b))" by auto
qed

section \<open>The remaining operations\<close>

lemma add_market_order_inv_aux:
  assumes "book_inv b" and "order_ok ord"
  shows "book_inv (snd (add_market_order now ord b))"
    and "ids_indexed b \<Longrightarrow> ids_indexed (snd (add_market_order now ord b))"
proof -
  let ?o = "ord\<lparr>otype := MARKET, price := 0\<rparr>"
  have ok: "order_ok ?o" using assms(2) by (simp add: order_ok_def)
  obtain res b1 where run: "match_limit_order now ?o b = (res, b1)" by (cases "match_limit_order now ?o b")
  then have "snd (add_market_order now ord b) = b1" by (simp add: add_market_order_def match_market_order_def)
  then show "book_inv (snd (add_market_order now ord b))"
    and "ids_indexed b \<Longrightarrow> ids_indexed (snd (add_market_order now ord b))"
    using match_limit_order_inv [OF assms(1) ok run] by simp_all
qed

lemma drain_trades_keeps [simp]:
  "bids (snd (drain_trades b)) = bids b" "asks (snd (drain_trades b)) = asks b"
  "order_index (snd (drain_trades b)) = order_index b" "next_node (snd (drain_trades b)) = next_node b"
  "next_trade_id (snd (drain_trades b)) = next_trade_id b" "book_symbol (snd (drain_trades b)) = book_symbol b"
  by (simp_all add: drain_trades_def)

lemma drain_trades_inv_aux: "book_inv (snd (drain_trades b)) = book_inv b"
  "ids_indexed (snd (drain_trades b)) = ids_indexed b"
  by (simp_all add: book_inv_def ids_indexed_def book_sig_def uncrossed_def)

lemma unindex_all_keeps [simp]:
  "bids (unindex_all l b) = bids b" "asks (unindex_all l b) = asks b" "next_node (unindex_all l b) = next_node b"
  by (induction l arbitrary: b) (simp_all add: unindex_all_def)

lemma unindex_all_index: "map_of (order_index (unindex_all l b)) i =
    (if i \<in> oid ` snd ` set l then None else map_of (order_index b) i)"
  "distinct (map fst (order_index b)) \<Longrightarrow> distinct (map fst (order_index (unindex_all l b)))"
proof (induction l arbitrary: b)
  case (Cons e l)
  {
    case 1
    show ?case using Cons(1) [of "erase_index (oid (snd e)) b"]
      by (auto simp: unindex_all_def erase_index_def delete_conv' split: if_splits)
  next
    case 2
    then show ?case using Cons(2) [of "erase_index (oid (snd e)) b"]
      by (simp add: unindex_all_def erase_index_def distinct_delete)
  }
qed (simp_all add: unindex_all_def)

lemma snd_sig_of: "snd ` set (sig_of l) = oid ` snd ` set l"
  by (force simp: sig_of_def)

lemma remove_level_inv:
  assumes inv: "book_inv b" and keys: "set bm \<subseteq> set (bids b)" "set am \<subseteq> set (asks b)"
    and sorted: "sorted_wrt price_greater (map fst bm)" "sorted_wrt price_less (map fst am)"
    and sig: "mset (book_sig b) = mset (sig_of l @ book_sig (b\<lparr>bids := bm, asks := am\<rparr>))"
  shows "book_inv ((unindex_all l b)\<lparr>bids := bm, asks := am\<rparr>)"
    and "ids_indexed b \<Longrightarrow> ids_indexed ((unindex_all l b)\<lparr>bids := bm, asks := am\<rparr>)"
proof -
  let ?b = "(unindex_all l b)\<lparr>bids := bm, asks := am\<rparr>"
  have same: "book_sig (b\<lparr>bids := bm, asks := am\<rparr>) = book_sig ?b" by (simp add: book_sig_def)
  have inv_idx: "index_inv (book_sig b) (order_index b) (next_node b)" using inv by (simp add: book_inv_def)
  have idx: "distinct (map fst (order_index ?b))"
    "map_of (order_index ?b) j = (if j \<in> snd ` set (sig_of l) then None else map_of (order_index b) j)" for j
    using inv_idx by (simp_all add: unindex_all_index snd_sig_of index_inv_def)
  have "side_ok price_greater BUY bm" "side_ok price_less SELL am"
    using inv keys sorted
    by (fastforce simp: book_inv_def side_ok_def levels_ok_def quotes_mem)+
  moreover have "uncrossed ?b" using inv keys by (fastforce simp: book_inv_def uncrossed_def)
  moreover have "index_inv (book_sig ?b) (order_index ?b) (next_node ?b)"
    using index_inv_remove [OF inv_idx sig [unfolded same] idx] by simp
  ultimately show "book_inv ?b" by (simp add: book_inv_def)
  show "ids_indexed ?b" if "ids_indexed b"
    using that unfolding ids_indexed_def by (intro index_full_remove [OF inv_idx _ sig [unfolded same] idx(2)])
qed

lemma find_erase_split: "map_find lt k m = Some v \<Longrightarrow>
    \<exists>xs a ys. m = xs @ (a, v) # ys \<and> map_erase lt k m = xs @ ys"
proof (induction m)
  case (Cons e m)
  obtain a w where e: "e = (a, w)" by (cases e)
  show ?case
  proof (cases "key_equiv lt k a")
    case True
    with Cons.prems show ?thesis by (intro exI [of _ "[]"]) (auto simp: e)
  next
    case False
    with Cons obtain xs c ys where "m = xs @ (c, v) # ys" "map_erase lt k m = xs @ ys" by (auto simp: e)
    with False show ?thesis by (intro exI [of _ "e # xs"] exI [of _ c] exI [of _ ys]) (simp add: e)
  qed
qed simp

lemma same_side:
  fixes r :: order_book
  shows "asks r = m \<Longrightarrow> r\<lparr>bids := k, asks := m\<rparr> = r\<lparr>bids := k\<rparr>"
    and "bids r = k \<Longrightarrow> r\<lparr>bids := k, asks := m\<rparr> = r\<lparr>asks := m\<rparr>"
  by (cases r, simp)+

lemma update_level_cases:
  obtains "update_level s pr sz b = b"
    | l xs a ys where "bids b = xs @ (a, l) # ys"
        "update_level s pr sz b = (unindex_all l b)\<lparr>bids := xs @ ys, asks := asks b\<rparr>"
    | l xs a ys where "asks b = xs @ (a, l) # ys"
        "update_level s pr sz b = (unindex_all l b)\<lparr>bids := bids b, asks := xs @ ys\<rparr>"
proof -
  consider (same) "update_level s pr sz b = b"
    | (buy) l where "map_find price_greater pr (bids b) = Some l"
        "update_level s pr sz b = (unindex_all l b)\<lparr>bids := map_erase price_greater pr (bids b)\<rparr>"
    | (sell) l where "map_find price_less pr (asks b) = Some l"
        "update_level s pr sz b = (unindex_all l b)\<lparr>asks := map_erase price_less pr (asks b)\<rparr>"
    by (cases s; cases "sz = 0"; cases "map_find price_greater pr (bids b)"; cases "map_find price_less pr (asks b)")
      (simp_all add: update_level_def)
  then show thesis
  proof cases
    case same
    then show thesis by (rule that(1))
  next
    case buy
    from find_erase_split [OF buy(1)] obtain xs a ys where
      m: "bids b = xs @ (a, l) # ys" and er: "map_erase price_greater pr (bids b) = xs @ ys" by blast
    show thesis
      by (rule that(2) [OF m]) (simp only: buy(2) er same_side(1) [OF unindex_all_keeps(2)])
  next
    case sell
    from find_erase_split [OF sell(1)] obtain xs a ys where
      m: "asks b = xs @ (a, l) # ys" and er: "map_erase price_less pr (asks b) = xs @ ys" by blast
    show thesis
      by (rule that(3) [OF m]) (simp only: sell(2) er same_side(2) [OF unindex_all_keeps(1)])
  qed
qed

text \<open>This holds for every price, a NaN included: \<open>find\<close> and \<open>erase\<close> agree on the level they mean.\<close>

lemma update_level_inv_aux:
  assumes inv: "book_inv b"
  shows "book_inv (update_level s pr sz b) \<and> (ids_indexed b \<longrightarrow> ids_indexed (update_level s pr sz b))"
proof -
  have sorted: "sorted_wrt price_greater (map fst (bids b))" "sorted_wrt price_less (map fst (asks b))"
    using inv by (simp_all add: book_inv_def side_ok_def)
  consider (same) "update_level s pr sz b = b"
    | (bid) l xs a ys where "bids b = xs @ (a, l) # ys"
        "update_level s pr sz b = (unindex_all l b)\<lparr>bids := xs @ ys, asks := asks b\<rparr>"
    | (ask) l xs a ys where "asks b = xs @ (a, l) # ys"
        "update_level s pr sz b = (unindex_all l b)\<lparr>bids := bids b, asks := xs @ ys\<rparr>"
    by (rule update_level_cases)
  then show ?thesis
  proof cases
    case same
    then show ?thesis using inv by simp
  next
    case bid
    have "book_inv (update_level s pr sz b)" "ids_indexed b \<Longrightarrow> ids_indexed (update_level s pr sz b)"
      unfolding bid(2) using sorted
      by (intro remove_level_inv [OF inv]; auto simp: bid(1) book_sig_def sorted_wrt_append)+
    then show ?thesis by blast
  next
    case ask
    have "book_inv (update_level s pr sz b)" "ids_indexed b \<Longrightarrow> ids_indexed (update_level s pr sz b)"
      unfolding ask(2) using sorted
      by (intro remove_level_inv [OF inv]; auto simp: ask(1) book_sig_def sorted_wrt_append)+
    then show ?thesis by blast
  qed
qed

end
