(* ===== verification/Book_Properties.thy ===== *)
theory Book_Properties
  imports Book_Invariants
begin

text \<open>
  The properties of the order book: matching carries out the price-time plan, quantities are
  conserved, trades respect the limit price and come best price first, every operation keeps the
  book well formed and uncrossed, cancelling removes exactly the order it names, and the queries
  report what the book holds.
\<close>

section \<open>Shared facts\<close>

lemma rest_order_keeps [simp]:
  "trades (rest_order e res b) = trades b" "book_symbol (rest_order e res b) = book_symbol b"
  "next_trade_id (rest_order e res b) = next_trade_id b" "is_buy x = is_buy res \<Longrightarrow> opposite x (rest_order e res b) = opposite x b"
  by (simp_all add: rest_order_def Let_def trades_def opposite_def)

lemma set_opposite_keeps [simp]:
  "trades (set_opposite ord m b) = trades b" "opposite ord (set_opposite ord m b) = m"
  "next_trade_id (set_opposite ord m b) = next_trade_id b"
  by (simp_all add: set_opposite_def trades_def opposite_def)

lemma plan_trades_mem: "t \<in> set (plan_trades now ord sy i plan) \<Longrightarrow>
    \<exists>n r. ((trade_price t, n, r), trade_qty t) \<in> set plan"
proof (induction now ord sy i plan rule: plan_trades.induct)
  case (2 now ord sy i pr n resting q ps)
  show ?case
  proof (cases "t \<in> set (plan_trades now ord sy (s32 (i + 1)) ps)")
    case True
    with "2.IH" show ?thesis by auto
  next
    case False
    with "2.prems" have "trade_price t = pr" "trade_qty t = q" by auto
    then show ?thesis by auto
  qed
qed simp

lemma plan_trades_prices: "map trade_price (plan_trades now ord sy i plan) = map (fst \<circ> fst) plan"
  by (induction now ord sy i plan rule: plan_trades.induct) simp_all

lemma fill_plan_subset: "(x, q) \<in> set (fill_plan r qs) \<Longrightarrow> x \<in> set qs"
  by (induction r qs rule: fill_plan.induct) (auto split: if_splits)

lemma crossing_mem: "(pr, n, r) \<in> set (crossing ord m) \<Longrightarrow> \<not> cannot_cross ord pr \<and> pr \<in> fst ` set m"
  by (force simp: crossing_def quotes_mem dest: set_takeWhileD)

lemma sorted_fill_plan: "sorted_wrt P (map fst qs) \<Longrightarrow> sorted_wrt P (map (fst \<circ> fst) (fill_plan r qs))"
proof (induction r qs rule: fill_plan.induct)
  case (2 r pr n ord qs)
  then show ?case using fill_plan_subset [of _ _ "r - min r (remaining ord)" qs] by (force simp: image_iff)
qed simp

lemma sorted_quotes:
  "sorted_wrt lt (map fst m) \<Longrightarrow> (\<And>p q. p \<in> fst ` set m \<Longrightarrow> q \<in> fst ` set m \<Longrightarrow> lt p q \<or> p = q \<Longrightarrow> P p q) \<Longrightarrow>
    sorted_wrt P (map fst (quotes m))"
proof (induction m)
  case (Cons e m)
  obtain pr l where e: "e = (pr, l)" by (cases e)
  have "sorted_wrt P (map fst (quotes_of_level pr l))"
    using Cons.prems(2) [of pr pr]
    by (simp add: e quotes_of_level_def comp_def sorted_wrt_map sorted_wrt_iff_nth_less)
  moreover have "P pr q" if "q \<in> fst ` set (quotes m)" for q
  proof -
    from that have "q \<in> fst ` set m" by (force simp: quotes_mem)
    with Cons.prems show ?thesis by (auto simp: e)
  qed
  moreover have "sorted_wrt P (map fst (quotes m))" using Cons by (auto simp: e)
  ultimately show ?case by (auto simp: e sorted_wrt_append quotes_of_level_def)
qed simp

lemma sorted_crossing:
  "sorted_wrt lt (map fst m) \<Longrightarrow> (\<And>p q. p \<in> fst ` set m \<Longrightarrow> q \<in> fst ` set m \<Longrightarrow> lt p q \<or> p = q \<Longrightarrow> P p q) \<Longrightarrow>
    sorted_wrt P (map fst (crossing ord m))"
proof -
  assume "sorted_wrt lt (map fst m)"
    and "\<And>p q. p \<in> fst ` set m \<Longrightarrow> q \<in> fst ` set m \<Longrightarrow> lt p q \<or> p = q \<Longrightarrow> P p q"
  then have "sorted_wrt P (map fst (quotes m))" by (rule sorted_quotes)
  then show ?thesis unfolding crossing_beyond [of ord m, symmetric] by (simp add: sorted_wrt_append)
qed

text \<open>What \<open>add_order\<close> does, in terms of the plan.\<close>

lemma add_order_effect:
  assumes inv: "book_inv b" and ord: "order_ok ord" and run: "add_order now ord b = (res, b')"
  shows "filled_qty res = filled_qty ord + plan_qty (the_plan ord b)"
    and "trades b' = trades b @ plan_trades now ord (book_symbol b) (next_trade_id b) (the_plan ord b)"
    and "quotes (opposite ord b') = residual (remaining ord) (crossing ord (opposite ord b)) @ beyond ord (opposite ord b)"
    and "order_ok res" and "remaining res = remaining ord - plan_qty (the_plan ord b)"
    and "status res = (if is_filled res then FILLED else if 0 < filled_qty res then PARTIAL else status ord)"
proof -
  obtain m' where m:
    "match_limit_order now ord b = (final_status (fill ord (plan_qty (the_plan ord b))),
       set_opposite ord m' (fold (apply_fill now ord) (the_plan ord b) b))" (is "_ = (?r, ?b1)")
    "quotes m' = residual (remaining ord) (crossing ord (opposite ord b)) @ beyond ord (opposite ord b)"
    by (rule match_limit_order_cases [OF inv ord])
  note r = match_result [OF inv ord m(1)]
  have res: "res = ?r \<or> res = ?r\<lparr>status := PARTIAL\<rparr>"
    using run add_order_book [OF m(1)] by (auto split: if_splits)
  from res r(3) show f: "filled_qty res = filled_qty ord + plan_qty (the_plan ord b)" by auto
  from res r(2) show ok: "order_ok res" by auto
  from res f ok ord show "remaining res = remaining ord - plan_qty (the_plan ord b)"
    by (auto simp: remaining_eq)
  have b': "b' = (if \<not> is_filled ?r \<and> otype ?r = LIMIT
      then rest_order (?r\<lparr>status := (if 0 < filled_qty ?r then PARTIAL else NEW)\<rparr>) ?r ?b1 else ?b1)"
    using run add_order_book(1) [OF m(1)] by (metis snd_conv)
  show "trades b' = trades b @ plan_trades now ord (book_symbol b) (next_trade_id b) (the_plan ord b)"
    unfolding b' by (simp add: trades_fold_apply_fill)
  have "opposite ord b' = m'" unfolding b' by simp
  then show "quotes (opposite ord b') = residual (remaining ord) (crossing ord (opposite ord b)) @ beyond ord (opposite ord b)"
    by (simp add: m(2))
  show "status res = (if is_filled res then FILLED else if 0 < filled_qty res then PARTIAL else status ord)"
    using run add_order_book(2) [OF m(1)] by (auto simp: final_status_def)
qed

text \<open>The side an order rests on, and the prices that are worse than its own.\<close>

definition own_side :: "order \<Rightarrow> order_book \<Rightarrow> level_map" where
  "own_side ord b = (if is_buy ord then bids b else asks b)"

definition worse_price :: "order \<Rightarrow> double \<Rightarrow> bool" where
  "worse_price ord pr \<longleftrightarrow> (if is_buy ord then d_lt pr (price ord) else d_lt (price ord) pr)"

lemma own_side_match: "own_side ord (set_opposite ord m (fold (apply_fill now ord) plan b)) = own_side ord b"
  by (simp add: own_side_def set_opposite_def)

lemma own_side_rest: "is_buy res = is_buy ord \<Longrightarrow> own_side ord (rest_order e res b) =
    map_alter (if is_buy ord then price_greater else price_less) (price res) (\<lambda>l. l @ [(next_node b, e)]) [] (own_side ord b)"
  by (simp add: own_side_def rest_order_def Let_def)

lemma alter_queue:
  assumes "level_order lt good_price" and "sorted_wrt lt (map fst m)" and "good_price k"
    and "\<forall>x \<in> set (map fst m). good_price x"
  shows "map snd (quotes (map_alter lt k (\<lambda>l. l @ [e]) [] m)) =
    map snd (filter (\<lambda>(pr, _). \<not> lt k pr) (quotes m)) @ e # map snd (filter (\<lambda>(pr, _). lt k pr) (quotes m))"
  using assms(2-4)
proof (induction m)
  case (Cons c m)
  note ord = level_order.trans [OF assms(1)] level_order.asym [OF assms(1)] level_order.weak [OF assms(1)]
  obtain a l where c: "c = (a, l)" by (cases c)
  have lev: "filter (\<lambda>(pr, _). P pr) (quotes_of_level a l) = (if P a then quotes_of_level a l else [])" for P
    by (auto simp: quotes_of_level_def filter_empty_conv)
  have above: "\<forall>(pr, x) \<in> set (quotes m). lt k pr" if "lt k a \<or> \<not> lt a k"
  proof -
    have "lt k pr" if mem: "(pr, v) \<in> set m" for pr v
    proof -
      from Cons.prems(1) mem c have "lt a pr" by auto
      moreover have "good_price a" "good_price pr" "good_price k" using Cons.prems mem c by force+
      ultimately show ?thesis using \<open>lt k a \<or> \<not> lt a k\<close> ord(1) [of k a pr] ord(3) [of a k pr] by blast
    qed
    then show ?thesis by (auto simp: quotes_mem)
  qed
  then have rest: "filter (\<lambda>(pr, _). lt k pr) (quotes m) = quotes m" "filter (\<lambda>(pr, _). \<not> lt k pr) (quotes m) = []"
    if "lt k a \<or> \<not> lt a k" using that by (auto simp: filter_id_conv filter_empty_conv)
  consider "lt k a" | "\<not> lt k a" "lt a k" | "\<not> lt k a" "\<not> lt a k" by blast
  then show ?case
  proof cases
    case 1
    then show ?thesis using rest by (simp add: c lev quotes_of_level_def)
  next
    case 2
    then show ?thesis using Cons by (simp add: c lev)
  next
    case 3
    then show ?thesis using rest by (simp add: c lev) (simp add: quotes_of_level_def)
  qed
qed (simp add: quotes_of_level_def)

lemma queue_insert:
  assumes "book_inv b" and "\<not> is_nan (price ord)"
  shows "map snd (quotes (map_alter (if is_buy ord then price_greater else price_less) (price ord)
      (\<lambda>l. l @ [e]) [] (own_side ord b))) =
    map snd (filter (\<lambda>(pr, _). \<not> worse_price ord pr) (quotes (own_side ord b)))
    @ e # map snd (filter (\<lambda>(pr, _). worse_price ord pr) (quotes (own_side ord b)))"
proof (cases "is_buy ord")
  case True
  have "side_ok price_greater BUY (bids b)" using assms(1) by (simp add: book_inv_def)
  with True assms(2) show ?thesis
    using alter_queue [OF bid_order.level_order_axioms, of "bids b" "price ord" e] bid_side.side_good
    by (simp add: own_side_def worse_price_def side_ok_def good_price_def flip: price_greater_def)
next
  case False
  have "side_ok price_less SELL (asks b)" using assms(1) by (simp add: book_inv_def)
  with False assms(2) show ?thesis
    using alter_queue [OF ask_order.level_order_axioms, of "asks b" "price ord" e] ask_side.side_good
    by (simp add: own_side_def worse_price_def side_ok_def good_price_def flip: price_less_def)
qed

section \<open>A sample book\<close>

definition ex_now :: "int \<Rightarrow> u64" where
  "ex_now i = of_int i"

definition ex_order :: "int \<Rightarrow> side \<Rightarrow> double \<Rightarrow> int \<Rightarrow> order" where
  "ex_order i s pr q = empty_order\<lparr>oid := i, side := s, price := pr, quantity := q, symbol := ''AAPL''\<rparr>"

text \<open>A small book: 100 @ 101, 50 @ 101 (later) and 10 @ 102 for sale, 20 @ 100 bid.\<close>

definition ex_book :: order_book where
  "ex_book =
     (let add = (\<lambda>ord b. snd (add_order ex_now ord b))
      in add (ex_order 4 BUY 0x4059000000000000 20) (add (ex_order 3 SELL 0x4059800000000000 10)
           (add (ex_order 2 SELL 0x4059400000000000 50) (add (ex_order 1 SELL 0x4059400000000000 100)
              (new_book ''AAPL'')))))"

lemma ex_order_ok: "0 \<le> q \<Longrightarrow> q < 2147483648 \<Longrightarrow> order_ok (ex_order i s pr q)"
  by (simp add: ex_order_def order_ok_def empty_order_def)

lemma ex_order_price [simp]: "price (ex_order i s pr q) = pr" "oid (ex_order i s pr q) = i"
  "otype (ex_order i s pr q) = LIMIT" "is_buy (ex_order i s pr q) = (s = BUY)"
  by (simp_all add: ex_order_def is_buy_def empty_order_def)

lemma ex_book_inv: "book_inv ex_book"
  unfolding ex_book_def Let_def
  by (intro add_order_inv_aux ex_order_ok book_inv_new; simp add: good_price_def is_nan_def d_mag_def inf_mag_def)

lemmas book_run = add_order_def match_limit_order_def rest_order_def ex_order_def empty_order_def new_book_def
  is_buy_def is_filled_def remaining_def s32_def fill_def cannot_cross_def price_less_def price_greater_def
  d_eval final_status_def generate_trade_def push_trade_def erase_index_def trades_def Let_def ex_now_def

lemma ex_book_eval: "ex_book = \<lparr>book_symbol = ''AAPL'',
    bids = [(0x4059000000000000, [(3, ex_order 4 BUY 0x4059000000000000 20)])],
    asks = [(0x4059400000000000, [(0, ex_order 1 SELL 0x4059400000000000 100),
                                  (1, ex_order 2 SELL 0x4059400000000000 50)]),
            (0x4059800000000000, [(2, ex_order 3 SELL 0x4059800000000000 10)])],
    trades_buf_a = [], trades_buf_b = [], active_a = True,
    order_index = [(1, 0), (2, 1), (3, 2), (4, 3)], next_trade_id = 1, next_node = 4\<rparr>"
  by (simp add: ex_book_def Let_def book_run)

section \<open>Matching\<close>

text \<open>C10: \<open>add_order\<close> implements price-time priority matching. On a well-formed book the incoming order
  trades with exactly the quotes of the plan (best price first, oldest first within a price, up to
  its limit): one trade per planned fill, in that order, is appended to the trade buffer; the order
  is filled by the planned quantity; what is left of the opposite side is the residual queue; and the
  status returned tells a filled, a partly filled and an untouched order apart.\<close>

theorem add_order_refines_plan:
  assumes "book_inv b" and "order_ok ord" and "add_order now ord b = (res, b')"
  shows "let queue = crossing ord (opposite ord b); plan = fill_plan (remaining ord) queue in
      trades b' = trades b @ plan_trades now ord (book_symbol b) (next_trade_id b) plan
    \<and> filled_qty res = filled_qty ord + plan_qty plan
    \<and> quotes (opposite ord b') = residual (remaining ord) queue @ beyond ord (opposite ord b)
    \<and> status res = (if is_filled res then FILLED else if 0 < filled_qty res then PARTIAL else status ord)"
  using add_order_effect [OF assms] by (simp add: the_plan_def Let_def)

theorem add_order_refines_plan_witness:
  "map (\<lambda>t. (sell_order_id t, trade_qty t)) (trades (snd (add_order ex_now (ex_order 5 BUY 0x4059400000000000 120) ex_book)))
     = [(1, 100), (2, 20)]"
  using add_order_refines_plan [OF ex_book_inv, of "ex_order 5 BUY 0x4059400000000000 120" ex_now]
  by (cases "add_order ex_now (ex_order 5 BUY 0x4059400000000000 120) ex_book")
    (simp add: ex_order_ok ex_book_eval opposite_def crossing_def quotes_of_level_def book_run)

text \<open>C11: matching conserves quantity. The total of the new trades is the least of what the order asks
  for and what the crossing quotes offer; it is taken off the remaining quantity of the order and off
  the open quantity of the opposite side, and the quantity of every new trade is positive.\<close>

theorem add_order_conserves_quantity:
  assumes "book_inv b" and "order_ok ord" and "add_order now ord b = (res, b')"
  shows "\<exists>new. trades b' = trades b @ new
    \<and> sum_list (map trade_qty new) = min (remaining ord) (open_qty (crossing ord (opposite ord b)))
    \<and> remaining res + sum_list (map trade_qty new) = remaining ord
    \<and> open_qty (quotes (opposite ord b')) + sum_list (map trade_qty new) = open_qty (quotes (opposite ord b))
    \<and> (\<forall>t \<in> set new. 0 < trade_qty t)"
proof -
  let ?qs = "crossing ord (opposite ord b)"
  let ?new = "plan_trades now ord (book_symbol b) (next_trade_id b) (the_plan ord b)"
  note eff = add_order_effect [OF assms]
  have ok: "quotes_ok ?qs" by (intro quotes_ok_crossing book_inv_opposite_ok assms(1))
  have sum: "sum_list (map trade_qty ?new) = plan_qty (the_plan ord b)" by (rule plan_trades_qty)
  have plan: "plan_qty (the_plan ord b) = min (remaining ord) (open_qty ?qs)"
    unfolding the_plan_def using ok remaining_nonneg [OF assms(2)] by (rule plan_qty_demand)
  have rest: "open_qty (quotes (opposite ord b')) + plan_qty (the_plan ord b) = open_qty (quotes (opposite ord b))"
    unfolding eff(3) by (simp add: open_qty_residual [OF ok] the_plan_def flip: crossing_beyond [of ord "opposite ord b"])
  have "\<forall>t \<in> set ?new. 0 < trade_qty t"
    using plan_fill_pos [OF ok] by (auto simp: the_plan_def dest!: plan_trades_mem)
  with eff(2,5) sum plan rest show ?thesis by (intro exI [of _ ?new]) simp
qed

theorem add_order_conserves_quantity_witness:
  "\<exists>new. trades (snd (add_order ex_now (ex_order 5 BUY 0x4059400000000000 500) ex_book)) = trades ex_book @ new
    \<and> sum_list (map trade_qty new) = 150"
  using add_order_conserves_quantity [OF ex_book_inv, of "ex_order 5 BUY 0x4059400000000000 500" ex_now]
  by (cases "add_order ex_now (ex_order 5 BUY 0x4059400000000000 500) ex_book")
    (fastforce simp: ex_order_ok ex_book_eval opposite_def crossing_def quotes_of_level_def book_run)

text \<open>C12: no trade is worse than the limit, and better prices trade first. Every new trade of a limit
  order is at or inside its limit price, is at the price of a level that was resting on the opposite
  side, and the prices of the new trades never improve from one trade to the next.\<close>

theorem add_order_trade_prices:
  assumes "book_inv b" and "order_ok ord" and "otype ord = LIMIT" and "\<not> is_nan (price ord)"
    and "add_order now ord b = (res, b')"
  shows "\<exists>new. trades b' = trades b @ new
    \<and> (\<forall>t \<in> set new. (if is_buy ord then d_le (trade_price t) (price ord) else d_le (price ord) (trade_price t))
         \<and> trade_price t \<in> fst ` set (opposite ord b))
    \<and> sorted_wrt (\<lambda>p q. if is_buy ord then d_le p q else d_le q p) (map trade_price new)"
proof -
  let ?qs = "crossing ord (opposite ord b)" and ?le = "\<lambda>p q. if is_buy ord then d_le p q else d_le q p"
  let ?new = "plan_trades now ord (book_symbol b) (next_trade_id b) (the_plan ord b)"
  have tr: "trades b' = trades b @ ?new" by (rule add_order_effect(2) [OF assms(1,2,5)])
  have ok: "side_ok (if is_buy ord then price_less else price_greater) (if is_buy ord then SELL else BUY) (opposite ord b)"
    using assms(1) by (auto simp: book_inv_def opposite_def)
  have good: "\<not> is_nan p" if "p \<in> fst ` set (opposite ord b)" for p
    using ok that by (auto simp: side_ok_def levels_ok_def good_price_def)
  have "?le (trade_price t) (price ord) \<and> trade_price t \<in> fst ` set (opposite ord b)" if t: "t \<in> set ?new" for t
  proof -
    from plan_trades_mem [OF t] obtain n r q where "((trade_price t, n, r), q) \<in> set (the_plan ord b)" by blast
    then have "(trade_price t, n, r) \<in> set ?qs" unfolding the_plan_def by (rule fill_plan_subset)
    then have c: "\<not> cannot_cross ord (trade_price t)" and m: "trade_price t \<in> fst ` set (opposite ord b)"
      by (auto dest: crossing_mem)
    from c assms(3,4) good [OF m] m show ?thesis by (auto simp: cannot_cross_def d_lt_def d_le_def)
  qed
  moreover have "sorted_wrt ?le (map trade_price ?new)"
    unfolding plan_trades_prices the_plan_def
    by (intro sorted_fill_plan sorted_crossing [where lt = "if is_buy ord then price_less else price_greater"])
      (use ok in \<open>auto simp: side_ok_def levels_ok_def
        price_less_def price_greater_def d_lt_def d_le_def good_price_def split: if_splits\<close>)
  ultimately show ?thesis using tr by blast
qed

theorem add_order_trade_prices_witness:
  "\<exists>new. trades (snd (add_order ex_now (ex_order 5 BUY 0x4059800000000000 155) ex_book)) = trades ex_book @ new
    \<and> sorted_wrt d_le (map trade_price new)"
  using add_order_trade_prices [OF ex_book_inv _ _ _ surjective_pairing, of "ex_order 5 BUY 0x4059800000000000 155" ex_now]
  by (auto simp: ex_order_ok is_nan_def d_mag_def inf_mag_def)

lemma add_order_rests:
  assumes "book_inv b" and "order_ok ord" and "otype ord = LIMIT" and "\<not> is_nan (price ord)"
    and "add_order now ord b = (res, b')" and "\<not> is_filled res"
  shows "\<exists>entry n. entry = res\<lparr>status := (if 0 < filled_qty res then PARTIAL else NEW)\<rparr>
    \<and> map_of (order_index b') (oid ord) = Some n \<and> deref n b' = Some entry
    \<and> map snd (quotes (own_side ord b')) =
        map snd (filter (\<lambda>(pr, _). \<not> worse_price ord pr) (quotes (own_side ord b)))
        @ (n, entry) # map snd (filter (\<lambda>(pr, _). worse_price ord pr) (quotes (own_side ord b)))"
proof -
  obtain r b1 where run: "match_limit_order now ord b = (r, b1)" by (cases "match_limit_order now ord b")
  note r = match_result [OF assms(1,2) run]
  have res: "res = (if 0 < filled_qty r then r\<lparr>status := PARTIAL\<rparr> else r)"
    using assms(5,6) add_order_book(2) [OF run] assms(3) r(1) by (auto split: if_splits)
  let ?e = "r\<lparr>status := (if 0 < filled_qty r then PARTIAL else NEW)\<rparr>" and ?n = "next_node b1"
  have b': "b' = rest_order ?e r b1"
    using assms(3,5,6) add_order_book(1) [OF run] res r(1) by (metis final_status_simps(6,7) fill_simps(6) snd_conv status_update_simps(2))
  have own: "own_side ord b1 = own_side ord b"
    using match_limit_order_cases [OF assms(1,2), of now] run
    by (metis own_side_match prod.inject)
  have same: "is_buy r = is_buy ord" "price r = price ord" "oid r = oid ord" by (simp_all add: r(1))
  have inv': "book_inv b'" using add_order_inv_aux(1) [OF assms(1,2)] assms(3-5) by (metis good_price_def snd_conv)
  have idx: "map_of (order_index b') (oid ord) = Some ?n" unfolding b' by (simp add: rest_order_def Let_def update_conv' same)
  have q: "map snd (quotes (own_side ord b')) = map snd (filter (\<lambda>(pr, _). \<not> worse_price ord pr) (quotes (own_side ord b)))
        @ (?n, ?e) # map snd (filter (\<lambda>(pr, _). worse_price ord pr) (quotes (own_side ord b)))"
    unfolding b' own_side_rest [OF same(1)] same(2) own
    by (rule queue_insert [OF assms(1,4)])
  have "(?n, ?e) \<in> set (map snd (quotes (own_side ord b')))" unfolding q by simp
  then have "(?n, ?e) \<in> set (book_entries b')"
    by (auto simp: book_entries_def level_entries_quotes own_side_def split: if_splits)
  then have "deref ?n b' = Some ?e"
    unfolding deref_eq using book_inv_distinct [OF inv'] by (rule map_of_is_SomeI [rotated])
  with idx q show ?thesis by (intro exI [of _ ?e] exI [of _ ?n]) (simp add: res)
qed

text \<open>C13: a resting order joins the queue behind every order at its price or better and before every
  order at a worse price. When a limit order is not filled, the queue of its own side becomes exactly
  the old queue with the order inserted at that place, and the index points to it.\<close>

theorem add_order_time_priority:
  assumes "book_inv b" and "order_ok ord" and "otype ord = LIMIT" and "\<not> is_nan (price ord)"
    and "add_order now ord b = (res, b')" and "\<not> is_filled res"
  shows "\<exists>entry n. entry = res\<lparr>status := (if 0 < filled_qty res then PARTIAL else NEW)\<rparr>
    \<and> map_of (order_index b') (oid ord) = Some n \<and> deref n b' = Some entry
    \<and> map snd (quotes (own_side ord b')) =
        map snd (filter (\<lambda>(pr, _). \<not> worse_price ord pr) (quotes (own_side ord b)))
        @ (n, entry) # map snd (filter (\<lambda>(pr, _). worse_price ord pr) (quotes (own_side ord b)))"
  by (rule add_order_rests [OF assms])

theorem add_order_time_priority_witness:
  "map (oid \<circ> snd) (map snd (quotes (own_side (ex_order 5 SELL 0x4059400000000000 7)
      (snd (add_order ex_now (ex_order 5 SELL 0x4059400000000000 7) ex_book))))) = [1, 2, 5, 3]"
proof -
  let ?o = "ex_order 5 SELL 0x4059400000000000 7"
  have "\<not> is_filled (fst (add_order ex_now ?o ex_book))" by (simp add: ex_book_eval book_run)
  from add_order_time_priority [OF ex_book_inv _ _ _ surjective_pairing this] obtain n entry where
    q: "map snd (quotes (own_side ?o (snd (add_order ex_now ?o ex_book)))) =
        map snd (filter (\<lambda>(pr, _). \<not> worse_price ?o pr) (quotes (own_side ?o ex_book)))
        @ (n, entry) # map snd (filter (\<lambda>(pr, _). worse_price ?o pr) (quotes (own_side ?o ex_book)))"
    and e: "oid entry = oid (fst (add_order ex_now ?o ex_book))"
    by (auto simp: ex_order_ok is_nan_def d_mag_def inf_mag_def)
  have "oid entry = 5" unfolding e by (simp add: ex_book_eval book_run)
  then show ?thesis
    unfolding q by (simp add: ex_book_eval own_side_def worse_price_def quotes_of_level_def d_eval)
qed

section \<open>The invariant over every history\<close>

text \<open>Every state-changing call on a book, with the arguments a caller may pass: a quantity that is not
  negative and a price that is a number. With \<open>u\<close> set, the callers moreover do not submit an order
  under the id of an order that is still resting.\<close>

inductive book_step :: "bool \<Rightarrow> order_book \<Rightarrow> order_book \<Rightarrow> bool" for u where
  step_add: "order_ok ord \<Longrightarrow> \<not> is_nan (price ord) \<Longrightarrow> (u \<longrightarrow> oid ord \<notin> oid ` snd ` set (book_entries b)) \<Longrightarrow>
     book_step u b (snd (add_order now ord b))"
| step_market: "order_ok ord \<Longrightarrow> book_step u b (snd (add_market_order now ord b))"
| step_cancel: "book_step u b (snd (cancel_order i b))"
| step_modify: "0 \<le> q \<Longrightarrow> q < 2 ^ 31 \<Longrightarrow> \<not> is_nan pr \<Longrightarrow> book_step u b (snd (modify_order now i pr q b))"
| step_drain: "book_step u b (snd (drain_trades b))"
| step_update: "book_step u b (update_level s pr sz b)"

inductive book_history :: "bool \<Rightarrow> string \<Rightarrow> order_book \<Rightarrow> bool" for u s where
  history_new: "book_history u s (new_book s)"
| history_step: "book_history u s b \<Longrightarrow> book_step u b b' \<Longrightarrow> book_history u s b'"

lemma book_step_inv: "book_step u b b' \<Longrightarrow> book_inv b \<Longrightarrow> book_inv b'"
  by (induction rule: book_step.induct)
    (auto simp: drain_trades_inv_aux good_price_def update_level_inv_aux
      intro: add_order_inv_aux add_market_order_inv_aux cancel_order_inv_aux modify_order_inv_aux)

lemma book_step_ids: "book_step True b b' \<Longrightarrow> book_inv b \<Longrightarrow> ids_indexed b \<Longrightarrow> ids_indexed b'"
proof (induction rule: book_step.induct)
  case (step_add ord b now)
  then show ?case
    using add_order_inv_aux(2) [of b ord now] by (simp add: good_price_def book_sig_entries snd_sig_of)
qed (auto simp: drain_trades_inv_aux good_price_def update_level_inv_aux
      intro: add_market_order_inv_aux cancel_order_inv_aux modify_order_inv_aux)

lemma book_history_inv: "book_history u s b \<Longrightarrow> book_inv b"
  by (induction rule: book_history.induct) (auto intro: book_inv_new book_step_inv)

lemma book_history_ids: "book_history True s b \<Longrightarrow> ids_indexed b"
  by (induction rule: book_history.induct) (auto intro: book_inv_new book_history_inv book_step_ids)

lemma book_history_add: "book_history u s b \<Longrightarrow> order_ok ord \<Longrightarrow> \<not> is_nan (price ord) \<Longrightarrow>
    (u \<longrightarrow> oid ord \<notin> oid ` snd ` set (book_entries b)) \<Longrightarrow> book_history u s (snd (add_order now ord b))"
  by (rule history_step [OF _ step_add])

lemma book_inv_uncrossed: "book_inv b \<Longrightarrow> bids b \<noteq> [] \<Longrightarrow> asks b \<noteq> [] \<Longrightarrow> d_lt (best_bid b) (best_ask b)"
  by (cases "bids b"; cases "asks b") (auto simp: book_inv_def uncrossed_def best_bid_def best_ask_def)

text \<open>C14: the book is well formed after every history of calls. From a new book, any sequence of
  \<open>add_order\<close>, \<open>add_market_order\<close>, \<open>cancel_order\<close>, \<open>modify_order\<close>, \<open>drain_trades\<close> and \<open>update_level\<close>
  leaves both sides sorted by price with no empty level, only open limit orders of the right side and
  price in the levels, no dangling iterator in the index, and the best bid strictly below the best ask.\<close>

theorem book_history_well_formed:
  assumes "book_history u s b"
  shows "sorted_wrt price_greater (map fst (bids b)) \<and> sorted_wrt price_less (map fst (asks b))
    \<and> (\<forall>(pr, l) \<in> set (bids b @ asks b). l \<noteq> [])
    \<and> (\<forall>(pr, n, ord) \<in> set (quotes (bids b)). entry_ok BUY pr ord)
    \<and> (\<forall>(pr, n, ord) \<in> set (quotes (asks b)). entry_ok SELL pr ord)
    \<and> (\<forall>(i, n) \<in> set (order_index b). \<exists>ord. deref n b = Some ord \<and> oid ord = i)
    \<and> (bids b \<noteq> [] \<and> asks b \<noteq> [] \<longrightarrow> d_lt (best_bid b) (best_ask b))"
proof -
  have inv: "book_inv b" by (rule book_history_inv [OF assms])
  have "\<exists>ord. deref n b = Some ord \<and> oid ord = i" if "(i, n) \<in> set (order_index b)" for i n
  proof -
    have "map_of (order_index b) i = Some n" using inv that by (simp add: book_inv_def index_inv_def)
    then show ?thesis by (rule index_points_to_order [OF inv]) auto
  qed
  moreover have "d_lt (best_bid b) (best_ask b)" if "bids b \<noteq> []" "asks b \<noteq> []" by (rule book_inv_uncrossed [OF inv that])
  ultimately show ?thesis using inv by (auto simp: book_inv_def side_ok_def levels_ok_def)
qed

theorem book_history_well_formed_witness:
  "book_history False ''AAPL'' ex_book \<and> d_lt (best_bid ex_book) (best_ask ex_book)"
proof -
  have h: "book_history False ''AAPL'' ex_book"
    unfolding ex_book_def Let_def
    by (intro history_new book_history_add ex_order_ok; simp add: is_nan_def d_mag_def inf_mag_def)
  moreover have "bids ex_book \<noteq> []" "asks ex_book \<noteq> []" by (simp_all add: ex_book_eval)
  ultimately show ?thesis using book_history_well_formed [OF h] by blast
qed

lemma order_count_entries: "book_history True s b \<Longrightarrow> order_count b = length (book_entries b)"
proof -
  assume "book_history True s b"
  then have "book_inv b" "ids_indexed b" by (auto intro: book_history_inv book_history_ids)
  then have "length (order_index b) = length (book_sig b)"
    using index_full_length [of "book_sig b" "order_index b" "next_node b"] by (simp add: book_inv_def ids_indexed_def)
  moreover have "length (book_sig b) = length (book_entries b)" by (simp add: book_sig_entries sig_of_def)
  ultimately show ?thesis by (simp add: order_count_def)
qed

text \<open>C15: the order count is the number of resting orders. When callers do not reuse the id of a resting
  order, the id index and the price levels stay in step: \<open>order_count\<close> is the number of entries on
  both sides, and every resting order is found through the index.\<close>

theorem order_count_is_resting_orders:
  assumes "book_history True s b"
  shows "order_count b = length (book_entries b)
    \<and> (\<forall>(n, ord) \<in> set (book_entries b). map_of (order_index b) (oid ord) = Some n)"
proof -
  have ids: "ids_indexed b" using assms by (auto intro: book_history_ids)
  have "map_of (order_index b) (oid ord) = Some n" if "(n, ord) \<in> set (book_entries b)" for n ord
  proof -
    from that have "(n, oid ord) \<in> set (book_sig b)" by (force simp: book_sig_entries sig_of_def)
    then show ?thesis using ids by (simp add: ids_indexed_def index_fullD)
  qed
  then show ?thesis using order_count_entries [OF assms] by auto
qed

theorem order_count_is_resting_orders_witness:
  "book_history True ''X'' (snd (add_order ex_now (ex_order 1 BUY 0 5) (new_book ''X'')))
    \<and> order_count (snd (add_order ex_now (ex_order 1 BUY 0 5) (new_book ''X''))) = 1"
proof -
  let ?b = "snd (add_order ex_now (ex_order 1 BUY 0 5) (new_book ''X''))"
  have h: "book_history True ''X'' ?b"
    by (intro book_history_add history_new ex_order_ok)
      (simp_all add: is_nan_def d_mag_def inf_mag_def book_entries_def new_book_def level_entries_def)
  have "length (book_entries ?b) = 1" by (simp add: book_run book_entries_def level_entries_def)
  with order_count_is_resting_orders [OF h] h show ?thesis by simp
qed

section \<open>Cancelling\<close>

text \<open>C34: \<open>cancel_order\<close> removes the order it names and nothing else. For an id that is not in the index it
  returns false and changes nothing. Otherwise it returns true, exactly the indexed node leaves its
  side (every other resting order keeps its place in the queue), the id leaves the index, and no other
  id and no trade is touched.\<close>

theorem cancel_order_exact:
  assumes "book_inv b"
  shows "case map_of (order_index b) i of
      None \<Rightarrow> cancel_order i b = (False, b)
    | Some n \<Rightarrow> \<exists>b'. cancel_order i b = (True, b')
        \<and> (\<exists>ord. (n, ord) \<in> set (book_entries b) \<and> oid ord = i)
        \<and> quotes (bids b') = filter (\<lambda>(p, k, x). k \<noteq> n) (quotes (bids b))
        \<and> quotes (asks b') = filter (\<lambda>(p, k, x). k \<noteq> n) (quotes (asks b))
        \<and> (\<forall>j. map_of (order_index b') j = (if j = i then None else map_of (order_index b) j))
        \<and> trades b' = trades b \<and> book_inv b'"
proof (cases "map_of (order_index b) i")
  case (Some n)
  obtain ord where o: "deref n b = Some ord" "oid ord = i" "(n, ord) \<in> set (book_entries b)"
    by (rule index_points_to_order [OF assms Some])
  obtain bm am where c: "cancel_order i b = (True, erase_index i (b\<lparr>bids := bm, asks := am\<rparr>))"
    "quotes bm = filter (\<lambda>(p, k, x). k \<noteq> n) (quotes (bids b))"
    "quotes am = filter (\<lambda>(p, k, x). k \<noteq> n) (quotes (asks b))"
    by (rule cancel_order_cases [OF assms Some o(1)])
  have "book_inv (erase_index i (b\<lparr>bids := bm, asks := am\<rparr>))"
    using cancel_order_inv_aux(1) [OF assms, of i] by (simp add: c(1))
  with o c show ?thesis by (auto simp: Some erase_index_def delete_conv' trades_def)
qed (simp add: cancel_order_def)

theorem cancel_order_exact_witness:
  "\<exists>b'. cancel_order 2 ex_book = (True, b')
     \<and> map (oid \<circ> snd) (map snd (quotes (asks b'))) = [1, 3] \<and> book_inv b'"
  using cancel_order_exact [OF ex_book_inv, of 2]
  by (auto simp: ex_book_eval quotes_of_level_def)

lemma match_levels_no_cross: "levels_ok m \<Longrightarrow> crossing ord m = [] \<Longrightarrow> match_levels now ord m b = (ord, m, b)"
  by (cases m) (auto simp: levels_ok_def crossing_def split: if_splits)

lemma final_status_open: "open_ok ord \<Longrightarrow> final_status ord = (if 0 < filled_qty ord then ord\<lparr>status := PARTIAL\<rparr> else ord)"
  by (simp add: final_status_def open_ok_def is_filled_def)

lemma add_order_no_cross:
  assumes "book_inv b" and "open_ok ord" and "otype ord = LIMIT" and "crossing ord (opposite ord b) = []"
  shows "\<exists>e. snd (add_order now ord b) = rest_order e ord b \<and> (\<exists>st. e = ord\<lparr>status := st\<rparr>)"
proof -
  have "levels_ok (opposite ord b)" using assms(1) by (auto simp: book_inv_def side_ok_def opposite_def)
  then have "match_levels now ord (opposite ord b) b = (ord, opposite ord b, b)"
    using assms(4) by (rule match_levels_no_cross)
  then have run: "match_limit_order now ord b = (final_status ord, b)"
    by (simp add: match_limit_order_eq) (cases b; simp add: set_opposite_def opposite_def)
  have "\<not> is_filled ord" using assms(2) by (simp add: open_ok_def is_filled_def)
  then have "snd (add_order now ord b) =
      rest_order ((final_status ord)\<lparr>status := (if 0 < filled_qty ord then PARTIAL else NEW)\<rparr>) (final_status ord) b"
    using assms(3) add_order_book(1) [OF run] by simp
  moreover have "rest_order x (final_status ord) b = rest_order x ord b" for x
    by (simp add: rest_order_def Let_def)
  ultimately show ?thesis by (auto simp: final_status_open [OF assms(2)])
qed

text \<open>Adding an order that does not trade and cancelling it again is the identity on the book: both
  queues, the index and the trades are as before.\<close>

theorem add_cancel_roundtrip:
  assumes "book_inv b" and "open_ok ord" and "otype ord = LIMIT" and "\<not> is_nan (price ord)"
    and "crossing ord (opposite ord b) = []" and "map_of (order_index b) (oid ord) = None"
    and "cancel_order (oid ord) (snd (add_order now ord b)) = (r, b2)"
  shows "r \<and> bids b2 = bids b \<and> asks b2 = asks b \<and> map_of (order_index b2) = map_of (order_index b)
    \<and> trades b2 = trades b"
proof -
  obtain e st where e: "snd (add_order now ord b) = rest_order e ord b" "e = ord\<lparr>status := st\<rparr>"
    using add_order_no_cross [OF assms(1,2,3,5)] by blast
  let ?n = "next_node b" and ?b1 = "rest_order e ord b"
  have inv1: "book_inv ?b1"
    using add_order_inv_aux(1) [OF assms(1) open_ok_order_ok [OF assms(2)], of now] assms(4)
    by (simp add: good_price_def e(1))
  have idx: "map_of (order_index ?b1) (oid ord) = Some ?n" by (simp add: rest_order_def Let_def update_conv')
  have "(?n, e) \<in># mset (book_entries ?b1)"
    by (simp add: rest_order_def Let_def book_entries_def mset_entries_alter del: set_mset_mset)
  then have der: "deref ?n ?b1 = Some e"
    unfolding deref_eq using book_inv_distinct [OF inv1] by (simp add: map_of_is_SomeI)
  have fresh: "?n \<notin> fst ` set (level_entries (bids b))" "?n \<notin> fst ` set (level_entries (asks b))"
    using assms(1) by (force simp: book_inv_def index_inv_def book_sig_entries book_entries_def sig_of_def)+
  have good: "good_price (price ord)" using assms(4) by (simp add: good_price_def)
  have sides: "side_ok price_greater BUY (bids b)" "side_ok price_less SELL (asks b)"
    using assms(1) by (simp_all add: book_inv_def)
  have ent: "price e = price ord" "is_buy e = is_buy ord" by (simp_all add: e(2))
  have b2: "r" "b2 = erase_index (oid ord) (if is_buy ord
        then ?b1\<lparr>bids := erase_from_side price_greater (price ord) ?n (bids ?b1)\<rparr>
        else ?b1\<lparr>asks := erase_from_side price_less (price ord) ?n (asks ?b1)\<rparr>)"
    using assms(7) ent unfolding e(1) by (auto simp: cancel_order_def idx der)
  have "bids b2 = bids b" "asks b2 = asks b"
    unfolding b2(2) using bid_side.erase_insert [OF sides(1) good fresh(1)] ask_side.erase_insert [OF sides(2) good fresh(2)]
    by (simp_all add: rest_order_def Let_def)
  moreover have "map_of (order_index b2) = map_of (order_index b)"
    unfolding b2(2) using assms(6)
    by (rule_tac ext) (simp add: erase_index_def delete_conv' rest_order_def Let_def update_conv')
  moreover have "trades b2 = trades b" unfolding b2(2) by (simp add: rest_order_def Let_def trades_def erase_index_def)
  ultimately show ?thesis using b2(1) by simp
qed

theorem add_cancel_roundtrip_witness:
  "bids (snd (cancel_order 9 (snd (add_order ex_now (ex_order 9 BUY 0x4059000000000000 30) ex_book)))) = bids ex_book"
  using add_cancel_roundtrip [OF ex_book_inv _ _ _ _ _ surjective_pairing, of "ex_order 9 BUY 0x4059000000000000 30" ex_now]
  by (simp add: open_ok_def is_nan_def d_mag_def inf_mag_def opposite_def crossing_def cannot_cross_def d_eval ex_book_eval)
    (simp add: ex_order_def empty_order_def)

section \<open>Modifying, market orders and the trade buffers\<close>

lemma add_order_result:
  assumes "book_inv b" and "order_ok ord" and "add_order now ord b = (res, b')"
  shows "oid res = oid ord" "quantity res = quantity ord" "price res = price ord" "side res = side ord"
    "otype res = otype ord"
proof -
  obtain r b1 where run: "match_limit_order now ord b = (r, b1)" by (cases "match_limit_order now ord b")
  have "res = r \<or> res = r\<lparr>status := PARTIAL\<rparr>" using assms(3) add_order_book(2) [OF run] by (auto split: if_splits)
  then show "oid res = oid ord" "quantity res = quantity ord" "price res = price ord" "side res = side ord"
    "otype res = otype ord" using match_result(1) [OF assms(1,2) run] by auto
qed

lemma next_node_match: "book_inv b \<Longrightarrow> order_ok ord \<Longrightarrow> next_node (snd (match_limit_order now ord b)) = next_node b"
  by (rule match_limit_order_cases [of b ord now]) (simp_all add: set_opposite_def)

lemma add_order_fresh_node:
  assumes "book_inv b" and "order_ok ord" and "otype ord = LIMIT" and "add_order now ord b = (res, b')" and "\<not> is_filled res"
  shows "map_of (order_index b') (oid ord) = Some (next_node b)"
proof -
  obtain r b1 where run: "match_limit_order now ord b = (r, b1)" by (cases "match_limit_order now ord b")
  have n: "next_node b1 = next_node b" using next_node_match [OF assms(1,2), of now] by (simp add: run)
  have r: "oid r = oid ord" "otype r = otype ord" using match_result(1) [OF assms(1,2) run] by simp_all
  have "is_filled r = is_filled res" using assms(4) add_order_book(2) [OF run] by (auto split: if_splits)
  with assms(3-5) r add_order_book(1) [OF run] show ?thesis
    by (auto simp: rest_order_def Let_def update_conv' n)
qed

text \<open>C35: \<open>modify_order\<close> on an unknown id rejects and leaves the book alone. On a known id with a
  non-negative quantity and a price that is a number, the order keeps its id, takes the new price and
  quantity, and if it rests again it does so in a fresh list node, behind the queue: the old node is
  gone. The book stays well formed and the index complete.\<close>

theorem modify_order_spec:
  assumes "book_inv b" and "ids_indexed b" and "0 \<le> new_qty" and "new_qty < 2 ^ 31" and "\<not> is_nan new_price"
    and "modify_order now i new_price new_qty b = (res, b')"
  shows "case map_of (order_index b) i of
      None \<Rightarrow> status res = REJECTED \<and> oid res = INVALID_ORDER_ID \<and> b' = b
    | Some n \<Rightarrow> oid res = i \<and> price res = new_price \<and> quantity res = new_qty \<and> book_inv b' \<and> ids_indexed b'
        \<and> (\<not> is_filled res \<longrightarrow> (\<exists>n'. map_of (order_index b') i = Some n' \<and> n' \<notin> fst ` set (book_entries b)))"
proof (cases "map_of (order_index b) i")
  case None
  then show ?thesis using assms(6) by (auto simp: modify_order_def)
next
  case (Some n)
  obtain ord where o: "deref n b = Some ord" "oid ord = i" "otype ord = LIMIT"
    and m: "modify_order now i new_price new_qty b =
       add_order now (ord\<lparr>price := new_price, quantity := new_qty, filled_qty := 0, status := NEW\<rparr>)
         (snd (cancel_order i b))"
    by (rule modify_order_known [OF assms(1) Some])
  let ?o = "ord\<lparr>price := new_price, quantity := new_qty, filled_qty := 0, status := NEW\<rparr>"
  have ok: "order_ok ?o" using assms(3,4) by (simp add: order_ok_def)
  note c = cancel_order_inv_aux(1) [OF assms(1), of i]
  have run: "add_order now ?o (snd (cancel_order i b)) = (res, b')" using assms(6) by (simp add: m)
  have keeps: "next_node (snd (cancel_order i b)) = next_node b"
    by (simp add: cancel_order_def Some o(1))
  have "next_node b \<notin> fst ` set (book_entries b)"
    using assms(1) by (force simp: book_inv_def index_inv_def book_sig_entries sig_of_def)
  moreover have "map_of (order_index b') i = Some (next_node b)" if "\<not> is_filled res"
    using add_order_fresh_node [OF c ok _ run that] o keeps by simp
  moreover have "book_inv b'" "ids_indexed b'"
    using modify_order_inv_aux [OF assms(1,3,4), of new_price now i] assms(2,5,6) by (simp_all add: good_price_def)
  ultimately show ?thesis using add_order_result [OF c ok run] o Some by auto
qed

theorem modify_order_spec_witness:
  "\<exists>res b'. modify_order ex_now 1 0x4059400000000000 100 (snd (add_order ex_now (ex_order 1 BUY 0 5) (new_book ''X''))) = (res, b')
     \<and> quantity res = 100 \<and> book_inv b'"
proof -
  let ?b = "snd (add_order ex_now (ex_order 1 BUY 0 5) (new_book ''X''))"
  have "book_inv ?b" "ids_indexed ?b"
    using add_order_inv_aux [OF book_inv_new(1) [of "''X''"], of "ex_order 1 BUY 0 5" ex_now] book_inv_new(2)
    by (simp_all add: ex_order_ok good_price_def is_nan_def d_mag_def inf_mag_def book_sig_def new_book_def level_entries_def sig_of_def)
  moreover have "map_of (order_index ?b) 1 = Some 0" by (simp add: book_run)
  ultimately show ?thesis
    using modify_order_spec [of ?b 100 "0x4059400000000000" ex_now 1]
    by (cases "modify_order ex_now 1 0x4059400000000000 100 ?b") (simp add: is_nan_def d_mag_def inf_mag_def)
qed

text \<open>C36: a market order takes liquidity at any price and never rests. Its own side is untouched, it
  trades the least of its quantity and everything the opposite side offers, the opposite side keeps
  the residual queue, and no id enters the index.\<close>

theorem add_market_order_spec:
  assumes "book_inv b" and "order_ok ord" and "add_market_order now ord b = (res, b')"
  shows "own_side ord b' = own_side ord b
    \<and> filled_qty res = filled_qty ord + min (remaining ord) (open_qty (quotes (opposite ord b)))
    \<and> quotes (opposite ord b') = residual (remaining ord) (quotes (opposite ord b))
    \<and> dom (map_of (order_index b')) \<subseteq> dom (map_of (order_index b)) \<and> book_inv b'"
proof -
  let ?o = "ord\<lparr>otype := MARKET, price := 0\<rparr>"
  have same: "is_buy ?o = is_buy ord" "remaining ?o = remaining ord" "filled_qty ?o = filled_qty ord"
    by (simp_all add: is_buy_def remaining_def)
  have ok: "order_ok ?o" using assms(2) by (simp add: order_ok_def)
  have opp: "opposite ?o = opposite ord" "own_side ?o = own_side ord"
    by (rule ext, simp add: opposite_def own_side_def same)+
  have nc: "cannot_cross ?o pr = False" for pr by (simp add: cannot_cross_def)
  have cr: "crossing ?o m = quotes m" "beyond ?o m = []" for m
    by (simp_all add: crossing_def beyond_def nc split_beta takeWhile_eq_all_conv [THEN iffD2] dropWhile_eq_Nil_conv [THEN iffD2])
  obtain m' where m:
    "match_limit_order now ?o b = (final_status (fill ?o (plan_qty (the_plan ?o b))),
       set_opposite ?o m' (fold (apply_fill now ?o) (the_plan ?o b) b))"
    "quotes m' = residual (remaining ?o) (crossing ?o (opposite ?o b)) @ beyond ?o (opposite ?o b)"
    by (rule match_limit_order_cases [OF assms(1) ok])
  have run: "match_limit_order now ?o b = (res, b')"
    using assms(3) by (simp add: add_market_order_def match_market_order_def)
  have b': "b' = set_opposite ?o m' (fold (apply_fill now ?o) (the_plan ?o b) b)" using m(1) run by simp
  have "own_side ord b' = own_side ord b" unfolding b' by (simp only: own_side_match flip: opp)
  moreover have "quotes (opposite ord b') = residual (remaining ord) (quotes (opposite ord b))"
    unfolding b' using m(2) by (simp only: set_opposite_keeps cr same append_Nil2 flip: opp(1))
  moreover have "plan_qty (the_plan ?o b) = min (remaining ord) (open_qty (quotes (opposite ord b)))"
    unfolding the_plan_def cr opp same
    using book_inv_opposite_ok [OF assms(1)] remaining_nonneg [OF assms(2)] by (rule plan_qty_demand)
  then have "filled_qty res = filled_qty ord + min (remaining ord) (open_qty (quotes (opposite ord b)))"
    using match_result(3) [OF assms(1) ok run] by (simp add: same)
  moreover have "dom (map_of (order_index b')) \<subseteq> dom (map_of (order_index b))"
    unfolding b' by (auto simp: set_opposite_def order_index_fold_apply_fill split: if_splits)
  ultimately show ?thesis using match_limit_order_inv(1) [OF assms(1) ok run] by blast
qed

theorem add_market_order_spec_witness:
  "filled_qty (fst (add_market_order ex_now (ex_order 5 BUY 0 500) ex_book)) = 160"
  using add_market_order_spec [OF ex_book_inv _ surjective_pairing, of "ex_order 5 BUY 0 500" ex_now]
  by (simp add: ex_order_ok ex_book_eval opposite_def quotes_of_level_def)
    (simp add: ex_order_def empty_order_def remaining_def s32_def)

text \<open>\<open>drain_trades\<close> hands over every trade exactly once. Draining, adding an order and draining again
  yields, in order, the trades that were pending and then the trades of the new order; afterwards the
  active buffer is empty, and draining changes neither the levels nor the index.\<close>

theorem drain_trades_exactly_once:
  assumes "book_inv b" and "order_ok ord" and "drain_trades b = (ts1, b1)" and "add_order now ord b1 = (res, b2)"
    and "drain_trades b2 = (ts2, b3)"
  shows "ts1 = trades b \<and> ts2 = plan_trades now ord (book_symbol b) (next_trade_id b)
        (fill_plan (remaining ord) (crossing ord (opposite ord b)))
    \<and> trades b3 = [] \<and> trades b1 = [] \<and> bids b1 = bids b \<and> asks b1 = asks b \<and> order_index b1 = order_index b"
proof -
  have d: "fst (drain_trades x) = trades x" "trades (snd (drain_trades x)) = []" for x
    by (simp_all add: drain_trades_def trades_def)
  have b1: "b1 = snd (drain_trades b)" and b3: "b3 = snd (drain_trades b2)" and ts: "ts1 = trades b" "ts2 = trades b2"
    using assms(3,5) d(1) by (metis fst_conv snd_conv)+
  have inv1: "book_inv b1" using assms(1) by (simp add: b1 drain_trades_inv_aux)
  have "the_plan ord b1 = the_plan ord b" by (simp add: the_plan_def opposite_def b1)
  then have "trades b2 = plan_trades now ord (book_symbol b) (next_trade_id b) (the_plan ord b)"
    using add_order_effect(2) [OF inv1 assms(2,4)] by (simp add: b1 d)
  then show ?thesis using ts by (simp add: b1 b3 d the_plan_def)
qed

theorem drain_trades_exactly_once_witness:
  "map trade_qty (fst (drain_trades (snd (add_order ex_now (ex_order 5 BUY 0x4059400000000000 120)
      (snd (drain_trades ex_book)))))) = [100, 20]"
proof -
  let ?o = "ex_order 5 BUY 0x4059400000000000 120"
  have ok: "order_ok ?o" by (simp add: ex_order_ok)
  have "fst (drain_trades (snd (add_order ex_now ?o (snd (drain_trades ex_book))))) =
      plan_trades ex_now ?o (book_symbol ex_book) (next_trade_id ex_book)
        (fill_plan (remaining ?o) (crossing ?o (opposite ?o ex_book)))"
    using drain_trades_exactly_once
      [OF ex_book_inv ok surjective_pairing surjective_pairing surjective_pairing, of ex_now] by blast
  then show ?thesis
    by (simp only:) (simp add: ex_book_eval opposite_def crossing_def quotes_of_level_def book_run)
qed

section \<open>Queries\<close>

definition level_open :: "order_list \<Rightarrow> int" where
  "level_open l = sum_list (map (remaining \<circ> snd) l)"

lemma level_open_nonneg: "\<forall>(n, ord) \<in> set l. 0 < remaining ord \<Longrightarrow> 0 \<le> level_open l"
  by (induction l) (auto simp: level_open_def)

lemma level_total_aux: "\<forall>(n, ord) \<in> set l. 0 < remaining ord \<Longrightarrow> 0 \<le> acc \<Longrightarrow> acc + level_open l < 2147483648 \<Longrightarrow>
    foldl (\<lambda>total e. s32 (total + remaining (snd e))) acc l = acc + level_open l"
proof (induction l arbitrary: acc)
  case (Cons e l)
  have "0 \<le> level_open l" using Cons.prems(1) by (intro level_open_nonneg) simp
  moreover have "0 < remaining (snd e)" "level_open (e # l) = remaining (snd e) + level_open l"
    using Cons.prems(1) by (auto simp: level_open_def)
  ultimately show ?case using Cons by (simp add: s32_id)
qed (simp add: level_open_def)

lemma side_ok_level:
  assumes "side_ok lt s m" and "(pr, l) \<in> set m"
  shows "\<forall>(n, ord) \<in> set l. 0 < remaining ord" and "l \<noteq> []"
proof -
  have "open_ok ord" if "(n, ord) \<in> set l" for n ord
  proof -
    have "(pr, n, ord) \<in> set (quotes m)" using that assms(2) by (auto simp: quotes_mem)
    then show ?thesis using assms(1) by (auto simp: side_ok_def entry_ok_def)
  qed
  then show "\<forall>(n, ord) \<in> set l. 0 < remaining ord" by (auto intro: remaining_pos)
  show "l \<noteq> []" using assms by (auto simp: side_ok_def levels_ok_def)
qed

lemma level_total_open: "side_ok lt s m \<Longrightarrow> (pr, l) \<in> set m \<Longrightarrow> level_open l < 2147483648 \<Longrightarrow>
    level_total l = level_open l \<and> 0 < level_total l"
proof -
  assume a: "side_ok lt s m" "(pr, l) \<in> set m" "level_open l < 2147483648"
  have "level_total l = level_open l"
    using level_total_aux [OF side_ok_level(1) [OF a(1,2)], of 0] a(3) by (simp add: level_total_def)
  moreover have "0 < level_open l"
  proof -
    obtain n ord k where l: "l = (n, ord) # k" using side_ok_level(2) [OF a(1,2)] by (cases l) auto
    have "0 \<le> level_open k" using side_ok_level(1) [OF a(1,2)] by (intro level_open_nonneg) (simp add: l)
    then show ?thesis using side_ok_level(1) [OF a(1,2)] by (simp add: l level_open_def)
  qed
  ultimately show ?thesis by simp
qed

text \<open>The depth query reports the book. While the open quantity of each bid level fits in 32 bits,
  \<open>get_bid_levels\<close> lists the best \<open>depth\<close> prices in strictly falling order, each with the exact sum of
  the open quantities at that price, all positive; its first row is the best bid with its size.\<close>

theorem get_bid_levels_spec:
  assumes "book_inv b" and "\<forall>(pr, l) \<in> set (bids b). level_open l < 2 ^ 31"
  shows "get_bid_levels depth b = map (\<lambda>(pr, l). (pr, level_open l)) (take depth (bids b))
    \<and> sorted_wrt (\<lambda>p q. d_lt q p) (map fst (get_bid_levels depth b))
    \<and> (\<forall>(pr, q) \<in> set (get_bid_levels depth b). 0 < q)
    \<and> length (get_bid_levels depth b) = min depth (bid_levels b)
    \<and> (0 < depth \<and> bids b \<noteq> [] \<longrightarrow> hd (get_bid_levels depth b) = (best_bid b, bid_size b))"
proof -
  have ok: "side_ok price_greater BUY (bids b)" using assms(1) by (simp add: book_inv_def)
  have tot: "level_total l = level_open l \<and> 0 < level_total l" if "(pr, l) \<in> set (bids b)" for pr l
    using level_total_open [OF ok that] assms(2) that by auto
  have map_eq: "get_bid_levels depth b = map (\<lambda>(pr, l). (pr, level_open l)) (take depth (bids b))"
    unfolding get_bid_levels_def using tot by (auto dest!: in_set_takeD)
  have "map fst (get_bid_levels depth b) = take depth (map fst (bids b))"
    by (simp add: get_bid_levels_def comp_def split_beta take_map)
  moreover have "sorted_wrt price_greater (map fst (bids b))" using ok by (simp add: side_ok_def)
  ultimately have "sorted_wrt (\<lambda>p q. d_lt q p) (map fst (get_bid_levels depth b))"
    by (simp add: sorted_wrt_take price_greater_def [abs_def])
  moreover have "\<forall>(pr, q) \<in> set (get_bid_levels depth b). 0 < q"
    using tot by (auto simp: get_bid_levels_def dest!: in_set_takeD)
  moreover have "hd (get_bid_levels depth b) = (best_bid b, bid_size b)" if "0 < depth" "bids b \<noteq> []"
    using that by (cases depth; cases "bids b") (auto simp: get_bid_levels_def best_bid_def bid_size_def)
  ultimately show ?thesis using map_eq by (auto simp: get_bid_levels_def bid_levels_def)
qed

theorem get_bid_levels_spec_witness:
  "get_bid_levels 10 ex_book = [(0x4059000000000000, 20)]"
  using get_bid_levels_spec [OF ex_book_inv, of 10]
  by (simp add: ex_book_eval level_open_def) (simp add: ex_order_def empty_order_def remaining_def s32_def)

text \<open>Spread and mid price of a two-sided book. After any history, when both best prices are positive
  finite numbers whose sum is finite, the spread is positive and the mid price lies between the best
  bid and the best ask, rounding included.\<close>

theorem spread_and_mid_price:
  assumes "book_history u s b" and "bids b \<noteq> []" and "asks b \<noteq> []" and "d_lt 0 (best_bid b)"
    and "d_finite (best_ask b)" and "d_finite (d_add (best_bid b) (best_ask b))"
  shows "d_lt 0 (spread b) \<and> d_le (best_bid b) (mid_price b) \<and> d_le (mid_price b) (best_ask b)"
proof -
  have inv: "book_inv b" by (rule book_history_inv [OF assms(1)])
  have lt: "d_lt (best_bid b) (best_ask b)"
    using inv assms(2,3) by (cases "bids b"; cases "asks b") (auto simp: book_inv_def uncrossed_def best_bid_def best_ask_def)
  have z: "\<not> is_nan 0" "d_int 0 = 0" by (simp_all add: is_nan_def d_mag_def d_int_def d_sign_def)
  have pos: "0 < d_int (best_bid b)" "d_int (best_bid b) < d_int (best_ask b)" using assms(4) lt by (simp_all add: d_lt_def z)
  have fin: "d_finite (best_bid b)"
  proof -
    have "\<not> is_inf (best_bid b)"
    proof
      assume "is_inf (best_bid b)"
      then have "d_int (best_bid b) = int (mag_val inf_mag)" using pos by (auto simp: is_inf_def d_int_def split: if_splits)
      then show False using pos d_int_finite_bound [OF assms(5)] by simp
    qed
    then show ?thesis unfolding d_finite_iff using lt by (simp add: d_lt_def)
  qed
  have nz: "\<not> d_eq (best_bid b) 0" "\<not> d_eq (best_ask b) 0" using pos by (simp_all add: d_eq_def z)
  have "d_lt 0 (spread b)"
    using d_sub_pos [OF assms(5) fin lt] nz fin assms(5) by (simp add: spread_def d_lt_def z)
  moreover have "d_le (best_bid b) (mid_price b) \<and> d_le (mid_price b) (best_ask b)"
    using d_mid_between [OF fin assms(5,6) _ _ d_int_two] pos nz by (simp add: mid_price_def)
  ultimately show ?thesis by blast
qed

theorem spread_and_mid_price_witness:
  "d_lt 0 (spread ex_book) \<and> d_le (best_bid ex_book) (mid_price ex_book) \<and> d_le (mid_price ex_book) (best_ask ex_book)"
proof -
  have h: "book_history False ''AAPL'' ex_book"
    unfolding ex_book_def Let_def
    by (intro history_new book_history_add ex_order_ok; simp add: is_nan_def d_mag_def inf_mag_def)
  have ba: "best_bid ex_book = 0x4059000000000000" "best_ask ex_book = 0x4059400000000000"
    by (simp_all add: best_bid_def best_ask_def ex_book_eval)
  have v: "d_int 0x4059000000000000 = int (mag_val 0x4059000000000000)" "d_int 0x4059400000000000 = int (mag_val 0x4059400000000000)"
    by (simp_all add: d_int_def d_sign_def d_mag_def)
  have fin: "d_finite 0x4059400000000000" "d_finite 0x4059000000000000" by (simp_all add: d_finite_def d_mag_def inf_mag_def)
  have "mag_val 0x4059000000000000 + mag_val 0x4059400000000000 = mag_val 0x4069200000000000"
    by (simp add: mag_val_def)
  then have "d_add 0x4059000000000000 0x4059400000000000 = d_mk False 0x4069200000000000"
    using fin round_mag_mag_val [of "0x4069200000000000"]
    by (simp add: d_add_def v d_round_def nat_add_distrib flip: of_nat_add) (simp add: inf_mag_def d_sign_def)
  then have "d_finite (d_add (best_bid ex_book) (best_ask ex_book))" by (simp add: ba d_finite_def inf_mag_def)
  moreover have "bids ex_book \<noteq> []" "asks ex_book \<noteq> []" by (simp_all add: ex_book_eval)
  moreover have "d_lt 0 (best_bid ex_book)" by (simp add: ba d_eval)
  moreover have "d_finite (best_ask ex_book)" by (simp add: ba fin)
  ultimately show ?thesis using spread_and_mid_price [OF h] by blast
qed

text \<open>A limit order whose price is a NaN is not held back by any price: it may trade with every
  quote of the opposite side, like a market order, since no comparison with its price succeeds.\<close>

theorem nan_limit_order_sweeps:
  assumes "is_nan (price ord)"
  shows "crossing ord m = quotes m \<and> beyond ord m = []"
  using assms
  by (simp add: crossing_def beyond_def cannot_cross_def split_beta
      takeWhile_eq_all_conv [THEN iffD2] dropWhile_eq_Nil_conv [THEN iffD2])

theorem nan_limit_order_sweeps_witness:
  "is_nan d_nan \<and> crossing (ex_order 5 BUY d_nan 500) (asks ex_book) = quotes (asks ex_book)"
proof -
  have "is_nan d_nan" by (simp add: d_nan_def is_nan_def inf_mag_def)
  then show ?thesis using nan_limit_order_sweeps [of "ex_order 5 BUY d_nan 500" "asks ex_book"] by simp
qed

end
