(* ===== verification/Ring_Buffer.thy ===== *)
theory Ring_Buffer
  imports Prelude
begin

text \<open>
  The single-producer single-consumer ring buffer of \<open>include/ring_buffer.h\<close> and \<open>src/ring_buffer.c\<close>.

  The stored pointers are 64-bit words, \<open>NULL\<close> is 0. \<open>head\<close> and \<open>tail\<close> are \<open>uint_fast32_t\<close>, which has
  64 bits on the target, and are read into 32-bit locals, as in the source. The storage is the list of
  its slots, \<open>None\<close> for a \<open>NULL\<close> pointer. An access outside the storage is an explicit failure
  (\<open>None\<close>), so that memory safety is something to prove. A possibly null \<open>ring_buffer_t *\<close> argument
  is an option. \<open>calloc\<close> is \<open>alloc\<close>, which says of a number of slots whether the request is granted.
\<close>

section \<open>State and operations\<close>

type_synonym ptr = u64

record ring_buffer =
  head :: u64
  tail :: u64
  buffer :: "ptr list option"
  rb_capacity :: u32
  rb_mask :: u32

definition is_power_of_two :: "u32 \<Rightarrow> bool" where
  "is_power_of_two n \<longleftrightarrow> 0 < n \<and> n AND (n - 1) = 0"

definition next_power_of_two :: "u32 \<Rightarrow> u32" where
  "next_power_of_two n =
     (if n = 0 then 1
      else let n = n - 1;
               n = n OR drop_bit 1 n;
               n = n OR drop_bit 2 n;
               n = n OR drop_bit 4 n;
               n = n OR drop_bit 8 n;
               n = n OR drop_bit 16 n
           in n + 1)"

definition ring_buffer_init :: "(nat \<Rightarrow> bool) \<Rightarrow> ring_buffer option \<Rightarrow> u32 \<Rightarrow> int \<times> ring_buffer option" where
  "ring_buffer_init alloc rb cap = (case rb of
     None \<Rightarrow> (-1, None)
   | Some rb \<Rightarrow>
      if cap = 0 then (-1, Some rb)
      else let cap = (if \<not> is_power_of_two cap then next_power_of_two cap else cap)
           in if \<not> alloc (unat cap) then (-1, Some (rb\<lparr>buffer := None\<rparr>))
              else (0, Some (rb\<lparr>buffer := Some (replicate (unat cap) 0), rb_capacity := cap, rb_mask := cap - 1,
                                 head := 0, tail := 0\<rparr>)))"

definition ring_buffer_destroy :: "ring_buffer option \<Rightarrow> ring_buffer option" where
  "ring_buffer_destroy rb = map_option (\<lambda>rb. rb\<lparr>buffer := None, rb_capacity := 0, rb_mask := 0\<rparr>) rb"

text \<open>Reading and writing a slot; \<open>None\<close> is an access outside the storage.\<close>

definition load_slot :: "ring_buffer \<Rightarrow> u32 \<Rightarrow> ptr option" where
  "load_slot rb i = (case buffer rb of None \<Rightarrow> None
     | Some buf \<Rightarrow> if unat i < length buf then Some (buf ! unat i) else None)"

definition store_slot :: "u32 \<Rightarrow> ptr \<Rightarrow> ring_buffer \<Rightarrow> ring_buffer option" where
  "store_slot i x rb = (case buffer rb of None \<Rightarrow> None
     | Some buf \<Rightarrow> if unat i < length buf then Some (rb\<lparr>buffer := Some (buf[unat i := x])\<rparr>) else None)"

definition ring_buffer_push :: "ring_buffer \<Rightarrow> ptr \<Rightarrow> (bool \<times> ring_buffer) option" where
  "ring_buffer_push rb data =
     (let hd = ucast (head rb) :: u32;
          tl = ucast (tail rb) :: u32;
          nxt = (hd + 1) AND rb_mask rb
      in if nxt = tl then Some (False, rb)
         else (case store_slot hd data rb of
                 None \<Rightarrow> None
               | Some rb' \<Rightarrow> Some (True, rb'\<lparr>head := ucast nxt\<rparr>)))"

definition ring_buffer_pop :: "ring_buffer \<Rightarrow> (ptr \<times> ring_buffer) option" where
  "ring_buffer_pop rb =
     (let tl = ucast (tail rb) :: u32;
          hd = ucast (head rb) :: u32
      in if tl = hd then Some (0, rb)
         else (case load_slot rb tl of
                 None \<Rightarrow> None
               | Some data \<Rightarrow> Some (data, rb\<lparr>tail := ucast ((tl + 1) AND rb_mask rb)\<rparr>)))"

definition ring_buffer_count :: "ring_buffer option \<Rightarrow> u32" where
  "ring_buffer_count rb = (case rb of None \<Rightarrow> 0
     | Some rb \<Rightarrow> (ucast (head rb) - ucast (tail rb)) AND rb_mask rb)"

definition ring_buffer_empty :: "ring_buffer option \<Rightarrow> bool" where
  "ring_buffer_empty rb = (case rb of None \<Rightarrow> True
     | Some rb \<Rightarrow> (ucast (head rb) :: u32) = ucast (tail rb))"

definition ring_buffer_full :: "ring_buffer option \<Rightarrow> bool" where
  "ring_buffer_full rb = (case rb of None \<Rightarrow> False
     | Some rb \<Rightarrow> (ucast (head rb) + 1) AND rb_mask rb = (ucast (tail rb) :: u32))"

section \<open>The bounded queue a ring buffer promises\<close>

locale bounded_queue =
  fixes push :: "'q \<Rightarrow> ptr \<Rightarrow> (bool \<times> 'q) option"
    and pop :: "'q \<Rightarrow> (ptr \<times> 'q) option"
    and contents :: "'q \<Rightarrow> ptr list"
    and bound :: "'q \<Rightarrow> nat"
    and ok :: "'q \<Rightarrow> bool"
  assumes bounded: "ok q \<Longrightarrow> length (contents q) \<le> bound q"
    and push_full: "ok q \<Longrightarrow> length (contents q) = bound q \<Longrightarrow> push q x = Some (False, q)"
    and push_room: "ok q \<Longrightarrow> length (contents q) < bound q \<Longrightarrow>
      \<exists>q'. push q x = Some (True, q') \<and> ok q' \<and> contents q' = contents q @ [x] \<and> bound q' = bound q"
    and pop_empty: "ok q \<Longrightarrow> contents q = [] \<Longrightarrow> pop q = Some (0, q)"
    and pop_item: "ok q \<Longrightarrow> contents q = x # xs \<Longrightarrow>
      \<exists>q'. pop q = Some (x, q') \<and> ok q' \<and> contents q' = xs \<and> bound q' = bound q"
begin

text \<open>The loops the clients run: pushing a list of pointers and ignoring the results, and popping until
  \<open>NULL\<close> comes back or \<open>n\<close> items were taken.\<close>

fun push_all :: "ptr list \<Rightarrow> 'q \<Rightarrow> 'q option" where
  "push_all [] q = Some q"
| "push_all (x # xs) q = (case push q x of None \<Rightarrow> None | Some (_, q') \<Rightarrow> push_all xs q')"

fun pop_upto :: "nat \<Rightarrow> 'q \<Rightarrow> (ptr list \<times> 'q) option" where
  "pop_upto 0 q = Some ([], q)"
| "pop_upto (Suc n) q = (case pop q of None \<Rightarrow> None
     | Some (x, q') \<Rightarrow> if x = 0 then Some ([], q')
         else map_option (\<lambda>(xs, q''). (x # xs, q'')) (pop_upto n q'))"

lemma push_total: "ok q \<Longrightarrow> \<exists>r q'. push q x = Some (r, q') \<and> ok q' \<and> bound q' = bound q
    \<and> contents q' = contents q @ (if r then [x] else []) \<and> (r \<longleftrightarrow> length (contents q) < bound q)"
  using bounded [of q] push_full [of q x] push_room [of q x] by (cases "length (contents q) = bound q") force+

lemma pop_total: "ok q \<Longrightarrow> \<exists>x q'. pop q = Some (x, q') \<and> ok q' \<and> bound q' = bound q
    \<and> contents q' = tl (contents q) \<and> x = (case contents q of [] \<Rightarrow> 0 | y # _ \<Rightarrow> y)"
  using pop_empty [of q] pop_item [of q] by (cases "contents q") fastforce+

lemma push_all_contents: "ok q \<Longrightarrow> \<exists>q'. push_all xs q = Some q' \<and> ok q' \<and> bound q' = bound q
    \<and> contents q' = contents q @ take (bound q - length (contents q)) xs"
proof (induction xs arbitrary: q)
  case (Cons x xs)
  from push_total [OF Cons.prems, of x] obtain r q1 where
    1: "push q x = Some (r, q1)" "ok q1" "bound q1 = bound q"
      "contents q1 = contents q @ (if r then [x] else [])" "r \<longleftrightarrow> length (contents q) < bound q" by blast
  from Cons.IH [OF 1(2)] obtain q2 where
    2: "push_all xs q1 = Some q2" "ok q2" "bound q2 = bound q1"
      "contents q2 = contents q1 @ take (bound q1 - length (contents q1)) xs" by blast
  from 1 2 show ?case by (cases r) (auto simp: take_Cons' Suc_diff_Suc)
qed simp

lemma pop_upto_contents: "ok q \<Longrightarrow> 0 \<notin> set (contents q) \<Longrightarrow> \<exists>q'. pop_upto n q = Some (take n (contents q), q')
    \<and> ok q' \<and> bound q' = bound q \<and> contents q' = drop n (contents q)"
proof (induction n arbitrary: q)
  case (Suc n)
  from pop_total [OF Suc.prems(1)] obtain x q1 where
    1: "pop q = Some (x, q1)" "ok q1" "bound q1 = bound q" "contents q1 = tl (contents q)"
      "x = (case contents q of [] \<Rightarrow> 0 | y # _ \<Rightarrow> y)" by blast
  show ?case
  proof (cases "contents q")
    case Nil
    with 1 show ?thesis by simp
  next
    case (Cons y ys)
    with Suc.prems 1 have "0 \<notin> set (contents q1)" by simp
    from Suc.IH [OF 1(2) this] obtain q2 where
      "pop_upto n q1 = Some (take n (contents q1), q2)" "ok q2" "bound q2 = bound q1"
      "contents q2 = drop n (contents q1)" by blast
    with 1 Cons Suc.prems(2) show ?thesis by auto
  qed
qed simp

end

section \<open>Powers of two\<close>

lemma bit_unat: "bit (unat (w :: u32)) k \<longleftrightarrow> bit w k"
  by (auto simp: bit_unsigned_iff possible_bit_def dest: bit_imp_possible_bit)

lemma bit_top: "2 ^ k \<le> unat (w :: u32) \<Longrightarrow> unat w < 2 ^ Suc k \<Longrightarrow> bit w k"
proof -
  assume "2 ^ k \<le> unat w" "unat w < 2 ^ Suc k"
  then have "unat w div 2 ^ k = 1" by (intro div_nat_eqI) simp_all
  then have "bit (unat w) k" by (simp add: bit_iff_odd)
  then show ?thesis by (simp add: bit_unat)
qed

lemma top_bit:
  assumes "(w :: u32) \<noteq> 0"
  obtains k where "k < 32" "2 ^ k \<le> unat w" "unat w < 2 ^ Suc k" "bit w k" "\<forall>j > k. \<not> bit w j"
proof -
  have w: "0 < unat w" using assms by (simp add: unat_gt_0)
  define k where "k = Max {k. 2 ^ k \<le> unat w}"
  have fin: "finite {k. 2 ^ k \<le> unat w}"
    by (rule finite_subset [of _ "{.. unat w}"]) (auto intro: less_imp_le less_le_trans [OF less_exp])
  have "0 \<in> {k. 2 ^ k \<le> unat w}" using w by simp
  then have lo: "2 ^ k \<le> unat w" unfolding k_def using Max_in [OF fin] by blast
  have hi: "unat w < 2 ^ Suc k"
  proof (rule ccontr)
    assume "\<not> unat w < 2 ^ Suc k"
    then have "Suc k \<le> k" unfolding k_def using Max_ge [OF fin, of "Suc (Max {k. 2 ^ k \<le> unat w})"] by simp
    then show False by simp
  qed
  have "(2::nat) ^ k < 2 ^ 32" using le_less_trans [OF lo unat_u32_less [of w]] by simp
  then have "k < 32" by (rule power_less_imp_less_exp [rotated]) simp
  moreover have "\<not> bit w j" if "k < j" for j
  proof -
    have "unat w < 2 ^ j" using hi that by (meson Suc_leI less_le_trans one_le_numeral power_increasing)
    then have "\<not> bit (unat w) j" by (simp add: bit_iff_odd)
    then show ?thesis by (simp add: bit_unat)
  qed
  ultimately show thesis using that lo hi bit_top [OF lo hi] by blast
qed

lemma is_power_of_two_iff: "is_power_of_two n \<longleftrightarrow> (\<exists>k < 32. unat n = 2 ^ k)"
proof
  assume p: "is_power_of_two n"
  then have "n \<noteq> 0" by (auto simp: is_power_of_two_def)
  then obtain k where k: "k < 32" "2 ^ k \<le> unat n" "unat n < 2 ^ Suc k" "bit n k" by (rule top_bit)
  have "unat n = 2 ^ k"
  proof (rule ccontr)
    assume "unat n \<noteq> 2 ^ k"
    moreover have "unat (n - 1) = unat n - 1" using \<open>n \<noteq> 0\<close> by (simp add: unat_minus_one)
    ultimately have "bit (n - 1) k" using k by (intro bit_top) simp_all
    with k(4) have "bit (n AND (n - 1)) k" by (simp add: bit_and_iff)
    with p show False by (simp add: is_power_of_two_def)
  qed
  with k(1) show "\<exists>k < 32. unat n = 2 ^ k" by blast
next
  assume "\<exists>k < 32. unat n = 2 ^ k"
  then obtain k where k: "k < 32" "unat n = 2 ^ k" by blast
  have "n = of_nat (unat n)" by simp
  then have n: "n = 2 ^ k" unfolding k(2) by simp
  have "0 < unat n" using k(2) by simp
  then have "0 < n" by (simp add: unat_gt_0 word_neq_0_conv)
  moreover have "n AND (n - 1) = 0"
    by (rule bit_eqI) (auto simp: n bit_and_iff bit_exp_iff simp flip: mask_eq_exp_minus_1 simp: bit_mask_iff)
  ultimately show "is_power_of_two n" by (simp add: is_power_of_two_def)
qed

lemma smear_step: "\<forall>i. bit w i \<longleftrightarrow> (\<exists>j < d. bit m (i + j)) \<Longrightarrow>
    \<forall>i. bit (w OR drop_bit d w) i \<longleftrightarrow> (\<exists>j < 2 * d. bit (m :: u32) (i + j))"
proof (rule allI)
  fix i assume w: "\<forall>i. bit w i \<longleftrightarrow> (\<exists>j < d. bit m (i + j))"
  have "(\<exists>j < 2 * d. bit m (i + j)) \<longleftrightarrow> (\<exists>j < d. bit m (i + j)) \<or> (\<exists>j < d. bit m (i + (d + j)))"
    (is "?l \<longleftrightarrow> ?r")
  proof
    assume ?l
    then obtain j where j: "j < 2 * d" "bit m (i + j)" by blast
    show ?r
    proof (cases "j < d")
      case False
      with j have "j - d < d" "bit m (i + (d + (j - d)))" by simp_all
      then show ?thesis by blast
    qed (use j in blast)
  next
    assume ?r
    then show ?l
    proof
      assume "\<exists>j < d. bit m (i + (d + j))"
      then obtain j where "j < d" "bit m (i + (d + j))" by blast
      then show ?l by (intro exI [of _ "d + j"]) simp
    next
      assume "\<exists>j < d. bit m (i + j)"
      then obtain j where "j < d" "bit m (i + j)" by blast
      then show ?l by (intro exI [of _ j]) simp
    qed
  qed
  then show "bit (w OR drop_bit d w) i \<longleftrightarrow> ?l" by (simp add: bit_or_iff bit_drop_bit_eq w ac_simps)
qed

text \<open>The five shift-and-or steps fill every bit below the top one.\<close>

lemma smear_mask:
  assumes "(m :: u32) \<noteq> 0" and "k < 32" "bit m k" "\<forall>j > k. \<not> bit m j"
  shows "(let n = m; n = n OR drop_bit 1 n; n = n OR drop_bit 2 n; n = n OR drop_bit 4 n;
              n = n OR drop_bit 8 n; n = n OR drop_bit 16 n in n) = mask (Suc k)"
proof -
  define a where "a = m OR drop_bit 1 m"
  define b where "b = a OR drop_bit 2 a"
  define c where "c = b OR drop_bit 4 b"
  define d where "d = c OR drop_bit 8 c"
  define e where "e = d OR drop_bit 16 d"
  have one: "\<forall>i. bit m i \<longleftrightarrow> (\<exists>j < 1. bit m (i + j))" by simp
  have a: "\<forall>i. bit a i \<longleftrightarrow> (\<exists>j < 2 * 1. bit m (i + j))" unfolding a_def by (rule smear_step [OF one])
  have b: "\<forall>i. bit b i \<longleftrightarrow> (\<exists>j < 2 * 2. bit m (i + j))"
    unfolding b_def by (rule smear_step) (fact a [unfolded mult_1_right])
  have c: "\<forall>i. bit c i \<longleftrightarrow> (\<exists>j < 2 * 4. bit m (i + j))"
    unfolding c_def by (rule smear_step) (use b in simp)
  have d: "\<forall>i. bit d i \<longleftrightarrow> (\<exists>j < 2 * 8. bit m (i + j))"
    unfolding d_def by (rule smear_step) (use c in simp)
  have e: "\<forall>i. bit e i \<longleftrightarrow> (\<exists>j < 2 * 16. bit m (i + j))"
    unfolding e_def by (rule smear_step) (use d in simp)
  have "bit e i \<longleftrightarrow> i \<le> k" for i
  proof
    assume "bit e i"
    then obtain j where "bit m (i + j)" using e by blast
    with assms(4) have "\<not> k < i + j" by blast
    then show "i \<le> k" by simp
  next
    assume "i \<le> k"
    with assms(2,3) show "bit e i" by (intro e [rule_format, THEN iffD2] exI [of _ "k - i"]) simp
  qed
  then have "e = mask (Suc k)"
    by (intro bit_eqI) (simp only: bit_mask_iff less_Suc_eq_le simp_thms)
  then show ?thesis by (simp only: Let_def a_def b_def c_def d_def e_def)
qed

lemma next_power_of_two_cases:
  assumes "1 < unat n"
  obtains k where "k < 32" "next_power_of_two n = 2 ^ Suc k" "2 ^ k < unat n" "unat n \<le> 2 ^ Suc k"
proof -
  have "n \<noteq> 0" using assms by auto
  then have n: "n \<noteq> 0" "unat (n - 1) = unat n - 1" by (simp_all add: unat_minus_one)
  then have "n - 1 \<noteq> 0" using assms by (metis unat_0 zero_less_diff less_irrefl)
  then obtain k where k: "k < 32" "2 ^ k \<le> unat (n - 1)" "unat (n - 1) < 2 ^ Suc k" "bit (n - 1) k" "\<forall>j > k. \<not> bit (n - 1) j"
    by (rule top_bit)
  have "next_power_of_two n = mask (Suc k) + 1"
    using n(1) smear_mask [OF \<open>n - 1 \<noteq> 0\<close> k(1,4,5)] by (simp add: next_power_of_two_def Let_def)
  then have "next_power_of_two n = 2 ^ Suc k" by (simp add: mask_eq_exp_minus_1)
  with k n(2) assms show thesis by (intro that [of k]) auto
qed

section \<open>Well-formed buffers and what they hold\<close>

definition rb_ok :: "ring_buffer \<Rightarrow> bool" where
  "rb_ok rb \<longleftrightarrow> is_power_of_two (rb_capacity rb) \<and> rb_mask rb = rb_capacity rb - 1 \<and>
     (case buffer rb of None \<Rightarrow> False | Some buf \<Rightarrow> length buf = unat (rb_capacity rb)) \<and>
     unat (head rb) < unat (rb_capacity rb) \<and> unat (tail rb) < unat (rb_capacity rb)"

definition rb_len :: "ring_buffer \<Rightarrow> nat" where
  "rb_len rb = (unat (head rb) + unat (rb_capacity rb) - unat (tail rb)) mod unat (rb_capacity rb)"

definition rb_contents :: "ring_buffer \<Rightarrow> ptr list" where
  "rb_contents rb = (case buffer rb of None \<Rightarrow> []
     | Some buf \<Rightarrow> map (\<lambda>i. buf ! ((unat (tail rb) + i) mod unat (rb_capacity rb))) [0..<rb_len rb])"

definition rb_bound :: "ring_buffer \<Rightarrow> nat" where
  "rb_bound rb = unat (rb_capacity rb) - 1"

lemma u32_mod: "c dvd 4294967296 \<Longrightarrow> x mod 4294967296 mod c = x mod (c :: nat)"
  by (simp add: mod_mod_cancel)

lemma and_mask_mod:
  assumes "is_power_of_two cap" and "m = cap - 1"
  shows "unat (w AND m) = unat w mod unat cap"
proof -
  obtain k where k: "k < 32" "unat cap = 2 ^ k" using assms(1) by (auto simp: is_power_of_two_iff)
  have "cap = of_nat (unat cap)" by simp
  then have "m = Bit_Operations.mask k" unfolding assms(2) k(2) by (simp add: mask_eq_exp_minus_1)
  then have "w AND m = take_bit k w" by (simp add: take_bit_eq_mask)
  moreover have "unat (take_bit k w) = unat w mod 2 ^ k"
    unfolding unsigned_take_bit_eq by (rule take_bit_eq_mod)
  ultimately show ?thesis by (simp add: k(2))
qed

lemma power_dvd: "is_power_of_two cap \<Longrightarrow> unat cap dvd 4294967296"
proof -
  assume "is_power_of_two cap"
  then obtain k where k: "k < 32" "unat cap = 2 ^ k" by (auto simp: is_power_of_two_iff)
  then have "(2 :: nat) ^ k dvd 2 ^ 32" by (intro le_imp_power_dvd) simp
  then show ?thesis unfolding k(2) by simp
qed

text \<open>What the 32-bit index arithmetic computes on a well-formed buffer.\<close>

lemma rb_indices:
  assumes "rb_ok rb"
  shows "unat (ucast (head rb) :: u32) = unat (head rb)" "unat (ucast (tail rb) :: u32) = unat (tail rb)"
    and "unat ((ucast (head rb) + 1 :: u32) AND rb_mask rb) = (unat (head rb) + 1) mod unat (rb_capacity rb)"
    and "unat ((ucast (tail rb) + 1 :: u32) AND rb_mask rb) = (unat (tail rb) + 1) mod unat (rb_capacity rb)"
    and "unat ((ucast (head rb) - ucast (tail rb) :: u32) AND rb_mask rb) = rb_len rb"
proof -
  let ?c = "unat (rb_capacity rb)"
  have p: "is_power_of_two (rb_capacity rb)" "rb_mask rb = rb_capacity rb - 1"
    and lt: "unat (head rb) < ?c" "unat (tail rb) < ?c" using assms by (simp_all add: rb_ok_def)
  note dvd = power_dvd [OF p(1)] and am = and_mask_mod [OF p]
  have lt32: "unat (head rb) < 4294967296" "unat (tail rb) < 4294967296"
    using lt unat_u32_less [of "rb_capacity rb"] by linarith+
  have u: "unat (ucast w :: u32) = unat w" if "unat (w :: u64) < 4294967296" for w
    using that by (simp add: unsigned_ucast_eq take_bit_eq_mod)
  show h: "unat (ucast (head rb) :: u32) = unat (head rb)" and t: "unat (ucast (tail rb) :: u32) = unat (tail rb)"
    using lt32 by (simp_all add: u)
  show "unat ((ucast (head rb) + 1 :: u32) AND rb_mask rb) = (unat (head rb) + 1) mod ?c"
    unfolding am by (simp add: unat_word_ariths(1) h u32_mod [OF dvd])
  show "unat ((ucast (tail rb) + 1 :: u32) AND rb_mask rb) = (unat (tail rb) + 1) mod ?c"
    unfolding am by (simp add: unat_word_ariths(1) t u32_mod [OF dvd])
  show "unat ((ucast (head rb) - ucast (tail rb) :: u32) AND rb_mask rb) = rb_len rb"
  proof (cases "unat (tail rb) \<le> unat (head rb)")
    case True
    then have "unat (head rb) + ?c - unat (tail rb) = unat (head rb) - unat (tail rb) + ?c" by simp
    then have "rb_len rb = (unat (head rb) - unat (tail rb)) mod ?c" by (simp only: rb_len_def mod_add_self2)
    then show ?thesis unfolding am using True by (simp add: unat_sub_if_size h t)
  next
    case False
    obtain q where q: "4294967296 = ?c * q" using dvd by (rule dvdE)
    then obtain r where r: "q = Suc r" by (cases q) auto
    have "unat (ucast (head rb) - ucast (tail rb) :: u32) = unat (head rb) + 4294967296 - unat (tail rb)"
      using False by (simp add: unat_sub_if_size h t word_size)
    also have "\<dots> = unat (head rb) + ?c - unat (tail rb) + ?c * r"
      using lt q by (simp add: r)
    finally show ?thesis unfolding am by (simp add: rb_len_def)
  qed
qed

text \<open>Positions on the ring, as natural numbers: \<open>h\<close> is ahead of \<open>t\<close> by \<open>(h + c - t) mod c\<close>.\<close>

lemma ring_len:
  assumes "h < c" "t < (c :: nat)"
  shows "(h + c - t) mod c = (if t \<le> h then h - t else h + c - t)"
proof (cases "t \<le> h")
  case True
  then have "h + c - t = h - t + c" by simp
  then have "(h + c - t) mod c = (h - t) mod c" by (simp only: mod_add_self2)
  then show ?thesis using True assms by simp
qed (use assms in simp)

lemma ring_add: "t < c \<Longrightarrow> i < c \<Longrightarrow> (t + i) mod c = (if t + i < c then t + i else t + i - (c :: nat))"
  by (simp add: mod_if)

lemma ring_ahead: "h < c \<Longrightarrow> t < (c :: nat) \<Longrightarrow> (t + (h + c - t) mod c) mod c = h"
  by (auto simp: ring_len)

lemma ring_full: "h < c \<Longrightarrow> t < (c :: nat) \<Longrightarrow> (h + 1) mod c = t \<longleftrightarrow> (h + c - t) mod c = c - 1"
  by (auto simp: ring_len mod_Suc split: if_splits)

lemma ring_push: "h < c \<Longrightarrow> t < (c :: nat) \<Longrightarrow> (h + 1) mod c \<noteq> t \<Longrightarrow>
    ((h + 1) mod c + c - t) mod c = Suc ((h + c - t) mod c)"
  by (subst ring_len) (auto simp: ring_len mod_Suc split: if_splits)

lemma ring_pop: "h < c \<Longrightarrow> t < (c :: nat) \<Longrightarrow> h \<noteq> t \<Longrightarrow>
    (h + c - (t + 1) mod c) mod c = (h + c - t) mod c - 1"
  by (subst ring_len) (auto simp: ring_len mod_Suc split: if_splits)

lemma ring_distinct: "t < (c :: nat) \<Longrightarrow> i < c \<Longrightarrow> j < c \<Longrightarrow> (t + i) mod c = (t + j) mod c \<Longrightarrow> i = j"
  by (auto simp: ring_add split: if_splits)

section \<open>The ring buffer is a bounded queue\<close>

lemma rb_okD:
  assumes "rb_ok rb"
  obtains buf where "buffer rb = Some buf" "length buf = unat (rb_capacity rb)"
    "unat (head rb) < unat (rb_capacity rb)" "unat (tail rb) < unat (rb_capacity rb)"
    "unat (ucast (head rb) :: u32) < length buf" "unat (ucast (tail rb) :: u32) < length buf"
  using assms rb_indices(1,2) [OF assms] by (auto simp: rb_ok_def split: option.splits)

lemma length_rb_contents [simp]: "rb_ok rb \<Longrightarrow> length (rb_contents rb) = rb_len rb"
  by (auto simp: rb_ok_def rb_contents_def split: option.splits)

lemma rb_full_iff:
  assumes "rb_ok rb"
  shows "(ucast (head rb) + 1) AND rb_mask rb = (ucast (tail rb) :: u32) \<longleftrightarrow> rb_len rb = rb_bound rb"
proof -
  have "(ucast (head rb) + 1) AND rb_mask rb = (ucast (tail rb) :: u32) \<longleftrightarrow>
      unat ((ucast (head rb) + 1 :: u32) AND rb_mask rb) = unat (ucast (tail rb) :: u32)"
    by (rule word_unat_eq_iff)
  also have "\<dots> \<longleftrightarrow> (unat (head rb) + 1) mod unat (rb_capacity rb) = unat (tail rb)"
    unfolding rb_indices [OF assms] ..
  also have "\<dots> \<longleftrightarrow> rb_len rb = rb_bound rb"
    unfolding rb_len_def rb_bound_def by (rule ring_full) (use assms in \<open>simp_all add: rb_ok_def\<close>)
  finally show ?thesis .
qed

lemma rb_empty_iff:
  assumes "rb_ok rb"
  shows "(ucast (tail rb) :: u32) = ucast (head rb) \<longleftrightarrow> rb_len rb = 0"
proof -
  have "(ucast (tail rb) :: u32) = ucast (head rb) \<longleftrightarrow> unat (tail rb) = unat (head rb)"
    unfolding word_unat_eq_iff rb_indices [OF assms] ..
  moreover have "unat (head rb) < unat (rb_capacity rb)" "unat (tail rb) < unat (rb_capacity rb)"
    using assms by (simp_all add: rb_ok_def)
  ultimately show ?thesis unfolding rb_len_def by (subst ring_len) auto
qed

lemma rb_len_bound: "rb_ok rb \<Longrightarrow> rb_len rb \<le> rb_bound rb"
  unfolding rb_ok_def rb_len_def rb_bound_def
  using mod_less_divisor [of "unat (rb_capacity rb)" "unat (head rb) + unat (rb_capacity rb) - unat (tail rb)"] by linarith

text \<open>The two halves of a push: storing into the slot at \<open>head\<close> changes nothing that is visible, and
  publishing the new \<open>head\<close> appends that slot. Publishing the new \<open>tail\<close> removes the front.\<close>

lemma rb_len_less: "rb_ok rb \<Longrightarrow> rb_len rb < unat (rb_capacity rb)"
  unfolding rb_len_def rb_ok_def by (intro mod_less_divisor) auto

lemma rb_ahead: "rb_ok rb \<Longrightarrow> (unat (tail rb) + rb_len rb) mod unat (rb_capacity rb) = unat (head rb)"
  unfolding rb_len_def by (rule ring_ahead) (simp_all add: rb_ok_def)

lemma rb_slot_not_head:
  "rb_ok rb \<Longrightarrow> i < rb_len rb \<Longrightarrow> (unat (tail rb) + i) mod unat (rb_capacity rb) \<noteq> unat (head rb)"
proof
  assume ok: "rb_ok rb" and i: "i < rb_len rb"
    and eq: "(unat (tail rb) + i) mod unat (rb_capacity rb) = unat (head rb)"
  have t: "unat (tail rb) < unat (rb_capacity rb)" using ok by (simp add: rb_ok_def)
  have "(unat (tail rb) + i) mod unat (rb_capacity rb) = (unat (tail rb) + rb_len rb) mod unat (rb_capacity rb)"
    unfolding eq rb_ahead [OF ok] ..
  then have "i = rb_len rb"
    by (rule ring_distinct [OF t less_trans [OF i rb_len_less [OF ok]] rb_len_less [OF ok]])
  then show False using i by simp
qed

lemma store_head_rb:
  assumes ok: "rb_ok rb"
  obtains buf where "buffer rb = Some buf"
    "store_slot (ucast (head rb)) x rb = Some (rb\<lparr>buffer := Some (buf[unat (head rb) := x])\<rparr>)"
    "rb_ok (rb\<lparr>buffer := Some (buf[unat (head rb) := x])\<rparr>)"
    "rb_contents (rb\<lparr>buffer := Some (buf[unat (head rb) := x])\<rparr>) = rb_contents rb"
    "buf[unat (head rb) := x] ! unat (head rb) = x"
proof -
  obtain buf where buf: "buffer rb = Some buf" "length buf = unat (rb_capacity rb)"
    "unat (head rb) < unat (rb_capacity rb)" by (rule rb_okD [OF ok])
  let ?rb = "rb\<lparr>buffer := Some (buf[unat (head rb) := x])\<rparr>"
  have len: "rb_len ?rb = rb_len rb" by (simp add: rb_len_def)
  have "buf[unat (head rb) := x] ! ((unat (tail rb) + i) mod unat (rb_capacity rb)) =
      buf ! ((unat (tail rb) + i) mod unat (rb_capacity rb))" if "i < rb_len rb" for i
    using not_sym [OF rb_slot_not_head [OF ok that]] by (rule nth_list_update_neq)
  then have "rb_contents ?rb = rb_contents rb" by (simp add: rb_contents_def buf(1) len)
  moreover have "rb_ok ?rb" using ok buf by (simp add: rb_ok_def)
  ultimately show thesis
    using buf by (intro that [of buf]) (simp_all add: store_slot_def rb_indices [OF ok])
qed

lemma publish_head_rb:
  assumes ok: "rb_ok rb" and room: "rb_len rb \<noteq> rb_bound rb" and buf: "buffer rb = Some buf"
  shows "rb_ok (rb\<lparr>head := ucast ((ucast (head rb) + 1 :: u32) AND rb_mask rb)\<rparr>)"
    and "rb_contents (rb\<lparr>head := ucast ((ucast (head rb) + 1 :: u32) AND rb_mask rb)\<rparr>) = rb_contents rb @ [buf ! unat (head rb)]"
proof -
  let ?rb = "rb\<lparr>head := ucast ((ucast (head rb) + 1 :: u32) AND rb_mask rb)\<rparr>"
  let ?c = "unat (rb_capacity rb)" and ?h = "unat (head rb)" and ?t = "unat (tail rb)"
  have lt: "?h < ?c" "?t < ?c" using ok by (simp_all add: rb_ok_def)
  have nxt: "unat (head ?rb) = (?h + 1) mod ?c" by (simp add: unat_ucast_u64 rb_indices [OF ok])
  show "rb_ok ?rb" using ok lt nxt by (simp add: rb_ok_def buf)
  have notfull: "(?h + 1) mod ?c \<noteq> ?t"
    using room ring_full [OF lt] by (simp add: rb_len_def rb_bound_def)
  have len: "rb_len ?rb = Suc (rb_len rb)"
    unfolding rb_len_def nxt using ring_push [OF lt notfull] by simp
  show "rb_contents ?rb = rb_contents rb @ [buf ! ?h]"
    using rb_ahead [OF ok] by (simp add: rb_contents_def buf len)
qed

lemma publish_tail_rb:
  assumes ok: "rb_ok rb" and ne: "rb_contents rb \<noteq> []"
  shows "rb_ok (rb\<lparr>tail := ucast ((ucast (tail rb) + 1 :: u32) AND rb_mask rb)\<rparr>)"
    and "rb_contents (rb\<lparr>tail := ucast ((ucast (tail rb) + 1 :: u32) AND rb_mask rb)\<rparr>) = tl (rb_contents rb)"
proof -
  obtain buf where buf: "buffer rb = Some buf" by (rule rb_okD [OF ok])
  let ?rb = "rb\<lparr>tail := ucast ((ucast (tail rb) + 1 :: u32) AND rb_mask rb)\<rparr>"
  let ?c = "unat (rb_capacity rb)" and ?h = "unat (head rb)" and ?t = "unat (tail rb)"
  have lt: "?h < ?c" "?t < ?c" using ok by (simp_all add: rb_ok_def)
  have nxt: "unat (tail ?rb) = (?t + 1) mod ?c" by (simp add: unat_ucast_u64 rb_indices [OF ok])
  show ok': "rb_ok ?rb" using ok lt nxt by (simp add: rb_ok_def buf)
  have pos: "0 < rb_len rb" unfolding length_rb_contents [OF ok, symmetric] using ne by simp
  have "?h \<noteq> ?t" using pos lt by (auto simp: rb_len_def ring_len)
  then have len: "rb_len ?rb = rb_len rb - 1"
    using ring_pop [OF lt] unfolding rb_len_def nxt by simp
  show "rb_contents ?rb = tl (rb_contents rb)"
  proof (rule nth_equalityI)
    show "length (rb_contents ?rb) = length (tl (rb_contents rb))" using ok ok' len by simp
  next
    fix i assume "i < length (rb_contents ?rb)"
    then have i: "Suc i < rb_len rb" "i < rb_len rb - Suc 0" using ok' len by simp_all
    have "((?t + 1) mod ?c + i) mod ?c = (?t + Suc i) mod ?c" by (simp add: mod_add_left_eq)
    then show "rb_contents ?rb ! i = tl (rb_contents rb) ! i"
      using i len nxt ok by (simp add: rb_contents_def buf nth_tl del: upt_Suc)
  qed
qed

lemma load_tail_rb:
  assumes ok: "rb_ok rb" and ne: "rb_contents rb \<noteq> []"
  shows "load_slot rb (ucast (tail rb)) = Some (hd (rb_contents rb))"
proof -
  obtain buf where buf: "buffer rb = Some buf" "length buf = unat (rb_capacity rb)"
    "unat (tail rb) < unat (rb_capacity rb)" by (rule rb_okD [OF ok])
  have "0 < rb_len rb" unfolding length_rb_contents [OF ok, symmetric] using ne by simp
  then show ?thesis
    using buf by (simp add: load_slot_def rb_indices [OF ok] rb_contents_def hd_conv_nth)
qed

lemma push_room_rb:
  assumes ok: "rb_ok rb" and room: "rb_len rb \<noteq> rb_bound rb"
  shows "\<exists>rb'. ring_buffer_push rb x = Some (True, rb') \<and> rb_ok rb' \<and> rb_contents rb' = rb_contents rb @ [x]
    \<and> rb_bound rb' = rb_bound rb"
proof -
  obtain buf where st: "buffer rb = Some buf"
    "store_slot (ucast (head rb)) x rb = Some (rb\<lparr>buffer := Some (buf[unat (head rb) := x])\<rparr>)"
    "rb_ok (rb\<lparr>buffer := Some (buf[unat (head rb) := x])\<rparr>)"
    "rb_contents (rb\<lparr>buffer := Some (buf[unat (head rb) := x])\<rparr>) = rb_contents rb"
    "buf[unat (head rb) := x] ! unat (head rb) = x"
    by (rule store_head_rb [OF ok])
  let ?rb1 = "rb\<lparr>buffer := Some (buf[unat (head rb) := x])\<rparr>"
  have "rb_len ?rb1 \<noteq> rb_bound ?rb1" using room by (simp add: rb_len_def rb_bound_def)
  note pub = publish_head_rb [OF st(3) this, of "buf[unat (head rb) := x]"]
  show ?thesis
    using rb_full_iff [OF ok] room pub st by (simp add: ring_buffer_push_def Let_def rb_bound_def)
qed

lemma pop_item_rb:
  assumes ok: "rb_ok rb" and ne: "rb_contents rb = x # xs"
  shows "\<exists>rb'. ring_buffer_pop rb = Some (x, rb') \<and> rb_ok rb' \<and> rb_contents rb' = xs \<and> rb_bound rb' = rb_bound rb"
proof -
  have nonempty: "rb_contents rb \<noteq> []" using ne by simp
  have "rb_len rb \<noteq> 0" using length_rb_contents [OF ok] ne by auto
  then show ?thesis
    using rb_empty_iff [OF ok] load_tail_rb [OF ok nonempty] publish_tail_rb [OF ok nonempty]
    by (simp add: ring_buffer_pop_def Let_def rb_bound_def ne)
qed

interpretation rbq: bounded_queue ring_buffer_push ring_buffer_pop rb_contents rb_bound rb_ok
proof
  fix q x
  assume ok: "rb_ok q"
  show "length (rb_contents q) \<le> rb_bound q" using ok rb_len_bound by simp
  show "ring_buffer_push q x = Some (False, q)" if "length (rb_contents q) = rb_bound q"
    using that ok rb_full_iff [OF ok] by (simp add: ring_buffer_push_def Let_def)
  show "\<exists>q'. ring_buffer_push q x = Some (True, q') \<and> rb_ok q' \<and> rb_contents q' = rb_contents q @ [x] \<and> rb_bound q' = rb_bound q"
    if "length (rb_contents q) < rb_bound q" using that ok by (intro push_room_rb) simp_all
  show "ring_buffer_pop q = Some (0, q)" if "rb_contents q = []"
    using that rb_empty_iff [OF ok] length_rb_contents [OF ok] by (simp add: ring_buffer_pop_def Let_def)
next
  fix q x xs
  assume "rb_ok q" "rb_contents q = x # xs"
  then show "\<exists>q'. ring_buffer_pop q = Some (x, q') \<and> rb_ok q' \<and> rb_contents q' = xs \<and> rb_bound q' = rb_bound q"
    by (rule pop_item_rb)
qed

section \<open>Initialisation\<close>

definition rounded_capacity :: "u32 \<Rightarrow> u32" where
  "rounded_capacity cap = (if is_power_of_two cap then cap else next_power_of_two cap)"

lemma rounded_capacity_spec:
  assumes "0 < cap" and "unat cap \<le> 2147483648"
  shows "is_power_of_two (rounded_capacity cap) \<and> cap \<le> rounded_capacity cap \<and> unat (rounded_capacity cap) < 2 * unat cap"
proof (cases "is_power_of_two cap")
  case True
  then show ?thesis using assms(1) by (simp add: rounded_capacity_def unat_gt_0 word_neq_0_conv)
next
  case False
  then have "unat cap \<noteq> 1" using is_power_of_two_iff [of cap] by (metis power_0 zero_less_numeral)
  moreover have "0 < unat cap" using assms(1) by (simp add: unat_gt_0 word_neq_0_conv)
  ultimately have "1 < unat cap" by linarith
  then obtain k where k: "k < 32" "next_power_of_two cap = 2 ^ Suc k" "2 ^ k < unat cap" "unat cap \<le> 2 ^ Suc k"
    by (rule next_power_of_two_cases)
  have "(2 :: nat) ^ k < 2 ^ 31" using less_le_trans [OF k(3) assms(2)] by simp
  then have "k < 31" by (rule power_less_imp_less_exp [rotated]) simp
  then have "(2 :: nat) ^ Suc k \<le> 2 ^ 31" by (intro power_increasing) simp_all
  then have "unat (of_nat (2 ^ Suc k) :: u32) = 2 ^ Suc k" by (intro unat_of_nat_u32) simp
  then have u: "unat (next_power_of_two cap) = 2 ^ Suc k" by (simp add: k(2))
  then have "is_power_of_two (next_power_of_two cap)" using \<open>k < 31\<close> unfolding is_power_of_two_iff by (intro exI [of _ "Suc k"]) simp
  moreover have "cap \<le> next_power_of_two cap" unfolding word_le_nat_alt u by (rule k(4))
  ultimately show ?thesis using False k(3) u by (simp add: rounded_capacity_def)
qed

lemma rounded_capacity_overflow: "2147483648 < unat cap \<Longrightarrow> rounded_capacity cap = 0"
proof -
  assume big: "2147483648 < unat cap"
  then have "1 < unat cap" by simp
  then obtain k where k: "k < 32" "next_power_of_two cap = 2 ^ Suc k" "2 ^ k < unat cap" "unat cap \<le> 2 ^ Suc k"
    by (rule next_power_of_two_cases)
  have "(2 :: nat) ^ 31 < 2 ^ Suc k" using less_le_trans [OF big k(4)] by simp
  then have "31 < Suc k" by (rule power_less_imp_less_exp [rotated]) simp
  then have "k = 31" using k(1) by simp
  then have "next_power_of_two cap = 2 ^ Suc 31" by (simp only: k(2))
  then have z: "next_power_of_two cap = 0" by simp
  have "\<not> is_power_of_two cap"
  proof
    assume "is_power_of_two cap"
    then obtain j where j: "j < 32" "unat cap = 2 ^ j" by (auto simp: is_power_of_two_iff)
    then have "(2 :: nat) ^ j \<le> 2 ^ 31" by (intro power_increasing) simp_all
    with big j(2) show False by simp
  qed
  then show ?thesis by (simp add: rounded_capacity_def z)
qed

lemma ring_buffer_init_ok:
  assumes "0 < cap" and "unat cap \<le> 2147483648" and "alloc (unat (rounded_capacity cap))"
  shows "\<exists>rb'. ring_buffer_init alloc (Some rb) cap = (0, Some rb') \<and> rb_ok rb' \<and> rb_contents rb' = []
    \<and> rb_bound rb' = unat (rounded_capacity cap) - 1"
proof -
  have spec: "is_power_of_two (rounded_capacity cap)" using rounded_capacity_spec [OF assms(1,2)] by blast
  then have "0 < unat (rounded_capacity cap)" by (auto simp: is_power_of_two_iff)
  then show ?thesis
    using assms spec
    by (auto simp: ring_buffer_init_def Let_def rb_ok_def rb_contents_def rb_len_def rb_bound_def rounded_capacity_def)
qed

end
