(* ===== verification/Ring_Concurrent.thy ===== *)
theory Ring_Concurrent
  imports Ring_Buffer
begin

text \<open>
  One producer thread and one consumer thread on a ring buffer. Each atomic access of
  \<open>ring_buffer_push\<close> and \<open>ring_buffer_pop\<close> (two index loads, one slot access, one index store) is a step
  of its own, the locals of a call in progress are kept in the program counter of its thread, and the
  steps of the two threads interleave freely (sequentially consistent memory). \<open>pushed\<close> and \<open>popped\<close>
  record the pointers of the completed calls.
\<close>

section \<open>Steps\<close>

datatype producer = PIdle | PHead ptr u32 | PTail ptr u32 u32 | PStored ptr u32

datatype consumer = CIdle | CTail u32 | CHead u32 u32 | CRead u32 ptr

record spsc =
  ring :: ring_buffer
  ppc :: producer
  cpc :: consumer
  pushed :: "ptr list"
  popped :: "ptr list"

inductive spsc_step :: "spsc \<Rightarrow> spsc \<Rightarrow> bool" where
  p_head: "ppc s = PIdle \<Longrightarrow> spsc_step s (s\<lparr>ppc := PHead x (ucast (head (ring s)))\<rparr>)"
| p_tail: "ppc s = PHead x h \<Longrightarrow> spsc_step s (s\<lparr>ppc := PTail x h (ucast (tail (ring s)))\<rparr>)"
| p_full: "ppc s = PTail x h t \<Longrightarrow> (h + 1) AND rb_mask (ring s) = t \<Longrightarrow> spsc_step s (s\<lparr>ppc := PIdle\<rparr>)"
| p_store: "ppc s = PTail x h t \<Longrightarrow> (h + 1) AND rb_mask (ring s) \<noteq> t \<Longrightarrow> store_slot h x (ring s) = Some r \<Longrightarrow>
    spsc_step s (s\<lparr>ring := r, ppc := PStored x ((h + 1) AND rb_mask (ring s))\<rparr>)"
| p_publish: "ppc s = PStored x nxt \<Longrightarrow>
    spsc_step s (s\<lparr>ring := (ring s)\<lparr>head := ucast nxt\<rparr>, ppc := PIdle, pushed := pushed s @ [x]\<rparr>)"
| c_tail: "cpc s = CIdle \<Longrightarrow> spsc_step s (s\<lparr>cpc := CTail (ucast (tail (ring s)))\<rparr>)"
| c_head: "cpc s = CTail t \<Longrightarrow> spsc_step s (s\<lparr>cpc := CHead t (ucast (head (ring s)))\<rparr>)"
| c_empty: "cpc s = CHead t h \<Longrightarrow> t = h \<Longrightarrow> spsc_step s (s\<lparr>cpc := CIdle\<rparr>)"
| c_load: "cpc s = CHead t h \<Longrightarrow> t \<noteq> h \<Longrightarrow> load_slot (ring s) t = Some x \<Longrightarrow> spsc_step s (s\<lparr>cpc := CRead t x\<rparr>)"
| c_publish: "cpc s = CRead t x \<Longrightarrow>
    spsc_step s (s\<lparr>ring := (ring s)\<lparr>tail := ucast ((t + 1) AND rb_mask (ring s))\<rparr>, cpc := CIdle, popped := popped s @ [x]\<rparr>)"

inductive spsc_reachable :: "ring_buffer \<Rightarrow> spsc \<Rightarrow> bool" for rb where
  spsc_start: "spsc_reachable rb \<lparr>ring = rb, ppc = PIdle, cpc = CIdle, pushed = [], popped = []\<rparr>"
| spsc_run: "spsc_reachable rb s \<Longrightarrow> spsc_step s s' \<Longrightarrow> spsc_reachable rb s'"

inductive_cases spsc_stepE: "spsc_step s s'"

section \<open>Invariant\<close>

text \<open>A producer between its tail load and its store knows a lower bound of the free space, a consumer
  between its head load and its read a lower bound of what is stored: the other thread can only make
  more room, or more items.\<close>

definition ring_dist :: "ring_buffer \<Rightarrow> nat \<Rightarrow> nat \<Rightarrow> nat" where
  "ring_dist rb t h = (h + unat (rb_capacity rb) - t) mod unat (rb_capacity rb)"

definition producer_ok :: "ring_buffer \<Rightarrow> producer \<Rightarrow> bool" where
  "producer_ok rb p = (case p of
     PIdle \<Rightarrow> True
   | PHead x h \<Rightarrow> h = ucast (head rb)
   | PTail x h t \<Rightarrow> h = ucast (head rb) \<and> unat t < unat (rb_capacity rb) \<and> rb_len rb \<le> ring_dist rb (unat t) (unat (head rb))
   | PStored x nxt \<Rightarrow> nxt = (ucast (head rb) + 1) AND rb_mask rb \<and> rb_len rb \<noteq> rb_bound rb
       \<and> (case buffer rb of None \<Rightarrow> False | Some buf \<Rightarrow> buf ! unat (head rb) = x))"

definition consumer_ok :: "ring_buffer \<Rightarrow> consumer \<Rightarrow> bool" where
  "consumer_ok rb c = (case c of
     CIdle \<Rightarrow> True
   | CTail t \<Rightarrow> t = ucast (tail rb)
   | CHead t h \<Rightarrow> t = ucast (tail rb) \<and> unat h < unat (rb_capacity rb) \<and> ring_dist rb (unat (tail rb)) (unat h) \<le> rb_len rb
   | CRead t x \<Rightarrow> t = ucast (tail rb) \<and> rb_contents rb \<noteq> [] \<and> x = hd (rb_contents rb))"

definition spsc_inv :: "spsc \<Rightarrow> bool" where
  "spsc_inv s \<longleftrightarrow> rb_ok (ring s) \<and> popped s @ rb_contents (ring s) = pushed s \<and>
     producer_ok (ring s) (ppc s) \<and> consumer_ok (ring s) (cpc s)"

lemma rb_len_dist: "rb_len rb = ring_dist rb (unat (tail rb)) (unat (head rb))"
  by (simp add: rb_len_def ring_dist_def)

lemma producer_room:
  assumes ok: "rb_ok rb" and p: "producer_ok rb (PTail x h t)" and ne: "(h + 1) AND rb_mask rb \<noteq> t"
  shows "rb_len rb \<noteq> rb_bound rb"
proof
  assume full: "rb_len rb = rb_bound rb"
  let ?c = "unat (rb_capacity rb)"
  have h: "h = ucast (head rb)" "unat t < ?c" "rb_len rb \<le> ring_dist rb (unat t) (unat (head rb))"
    using p by (simp_all add: producer_ok_def)
  have lt: "unat (head rb) < ?c" using ok by (simp add: rb_ok_def)
  have "ring_dist rb (unat t) (unat (head rb)) < ?c" unfolding ring_dist_def using lt by (intro mod_less_divisor) simp
  then have "ring_dist rb (unat t) (unat (head rb)) = ?c - 1" using full h(3) by (simp add: rb_bound_def)
  then have "(unat (head rb) + 1) mod ?c = unat t" using ring_full [OF lt h(2)] by (simp add: ring_dist_def)
  then have "unat ((h + 1) AND rb_mask rb) = unat t" using rb_indices(3) [OF ok] by (simp add: h(1))
  then show False using ne by (simp add: word_unat_eq_iff)
qed

lemma consumer_item:
  assumes ok: "rb_ok rb" and c: "consumer_ok rb (CHead t h)" and ne: "t \<noteq> h"
  shows "rb_contents rb \<noteq> []"
proof
  assume "rb_contents rb = []"
  then have "rb_len rb = 0" using length_rb_contents [OF ok] by simp
  then have "ring_dist rb (unat (tail rb)) (unat h) = 0" "unat h < unat (rb_capacity rb)" "t = ucast (tail rb)"
    using c by (simp_all add: consumer_ok_def)
  moreover have lt: "unat (tail rb) < unat (rb_capacity rb)" using ok by (simp add: rb_ok_def)
  ultimately have "unat h = unat t"
    using rb_indices(2) [OF ok] by (simp add: ring_dist_def ring_len split: if_splits)
  then show False using ne by (simp add: word_unat_eq_iff)
qed

text \<open>What a step of one thread does to what the other thread knows.\<close>

lemma consumer_ok_store: "rb_contents (rb\<lparr>buffer := m\<rparr>) = rb_contents rb \<Longrightarrow>
    consumer_ok (rb\<lparr>buffer := m\<rparr>) c = consumer_ok rb c"
  by (cases c) (simp_all add: consumer_ok_def ring_dist_def rb_len_def)

lemma consumer_ok_publish:
  assumes "rb_ok rb" "rb_ok (rb\<lparr>head := w\<rparr>)" "rb_contents (rb\<lparr>head := w\<rparr>) = rb_contents rb @ [x]" "consumer_ok rb c"
  shows "consumer_ok (rb\<lparr>head := w\<rparr>) c"
proof -
  have "rb_len (rb\<lparr>head := w\<rparr>) = Suc (rb_len rb)"
    by (simp only: length_rb_contents [OF assms(2), symmetric] length_rb_contents [OF assms(1), symmetric]
        assms(3) length_append_singleton)
  then show ?thesis using assms(3,4) by (cases c) (auto simp: consumer_ok_def ring_dist_def)
qed

lemma producer_ok_publish:
  assumes "rb_ok rb" "rb_ok (rb\<lparr>tail := w\<rparr>)" "rb_contents (rb\<lparr>tail := w\<rparr>) = tl (rb_contents rb)" "rb_contents rb \<noteq> []"
    and "producer_ok rb p"
  shows "producer_ok (rb\<lparr>tail := w\<rparr>) p"
proof -
  have "rb_len (rb\<lparr>tail := w\<rparr>) = length (tl (rb_contents rb))"
    by (simp only: length_rb_contents [OF assms(2), symmetric] assms(3))
  moreover have "0 < rb_len rb" unfolding length_rb_contents [OF assms(1), symmetric] using assms(4) by simp
  ultimately have len: "Suc (rb_len (rb\<lparr>tail := w\<rparr>)) = rb_len rb"
    by (simp only: length_tl length_rb_contents [OF assms(1)])
  moreover have "rb_len rb \<le> rb_bound rb" by (rule rb_len_bound [OF assms(1)])
  ultimately have "rb_len (rb\<lparr>tail := w\<rparr>) \<noteq> rb_bound (rb\<lparr>tail := w\<rparr>)" by (simp add: rb_bound_def)
  then show ?thesis using assms(5) len by (cases p) (auto simp: producer_ok_def ring_dist_def split: option.splits)
qed

lemma spsc_step_inv:
  assumes "spsc_step s s'" and inv: "spsc_inv s"
  shows "spsc_inv s'"
proof -
  let ?r = "ring s"
  have ok: "rb_ok ?r" and hist: "popped s @ rb_contents ?r = pushed s"
    and p: "producer_ok ?r (ppc s)" and c: "consumer_ok ?r (cpc s)" using inv by (simp_all add: spsc_inv_def)
  have lt: "unat (head ?r) < unat (rb_capacity ?r)" "unat (tail ?r) < unat (rb_capacity ?r)"
    using ok by (simp_all add: rb_ok_def)
  note ix = rb_indices(1,2) [OF ok]
  show ?thesis
    using assms(1)
  proof (cases rule: spsc_step.cases)
    case (p_tail x h)
    then show ?thesis using inv lt ix by (simp add: spsc_inv_def producer_ok_def rb_len_dist)
  next
    case (p_store x h t r)
    have room: "rb_len ?r \<noteq> rb_bound ?r" using producer_room [OF ok] p p_store by simp
    have h: "h = ucast (head ?r)" using p p_store by (simp add: producer_ok_def)
    obtain buf where st: "buffer ?r = Some buf"
      "store_slot (ucast (head ?r)) x ?r = Some (?r\<lparr>buffer := Some (buf[unat (head ?r) := x])\<rparr>)"
      "rb_ok (?r\<lparr>buffer := Some (buf[unat (head ?r) := x])\<rparr>)"
      "rb_contents (?r\<lparr>buffer := Some (buf[unat (head ?r) := x])\<rparr>) = rb_contents ?r"
      "buf[unat (head ?r) := x] ! unat (head ?r) = x" by (rule store_head_rb [OF ok])
    have r: "r = ?r\<lparr>buffer := Some (buf[unat (head ?r) := x])\<rparr>" using p_store(4) st(2) by (simp add: h)
    have "producer_ok r (PStored x ((h + 1) AND rb_mask ?r))"
      using room st(5) by (simp add: producer_ok_def r h rb_len_def rb_bound_def)
    moreover have "consumer_ok r (cpc s)" using c consumer_ok_store [OF st(4)] by (simp add: r)
    ultimately show ?thesis using st hist p_store(1) by (simp add: spsc_inv_def r)
  next
    case (p_publish x nxt)
    then have nxt: "nxt = (ucast (head ?r) + 1) AND rb_mask ?r" and room: "rb_len ?r \<noteq> rb_bound ?r"
      and "case buffer ?r of None \<Rightarrow> False | Some buf \<Rightarrow> buf ! unat (head ?r) = x"
      using p by (simp_all add: producer_ok_def)
    then obtain buf where buf: "buffer ?r = Some buf" "buf ! unat (head ?r) = x" by (cases "buffer ?r") auto
    note pub = publish_head_rb [OF ok room buf(1), folded nxt, unfolded buf(2)]
    show ?thesis
      using p_publish hist pub consumer_ok_publish [OF ok pub c]
      by (simp add: spsc_inv_def producer_ok_def flip: append_assoc)
  next
    case (c_head t)
    then show ?thesis using inv lt ix by (simp add: spsc_inv_def consumer_ok_def rb_len_dist)
  next
    case (c_load t h x)
    have ne: "rb_contents ?r \<noteq> []" using consumer_item [OF ok] c c_load by simp
    have t: "t = ucast (tail ?r)" using c c_load by (simp add: consumer_ok_def)
    show ?thesis using inv c_load load_tail_rb [OF ok ne] ne by (simp add: spsc_inv_def consumer_ok_def t)
  next
    case (c_publish t x)
    then have t: "t = ucast (tail ?r)" and ne: "rb_contents ?r \<noteq> []" and x: "x = hd (rb_contents ?r)"
      using c by (simp_all add: consumer_ok_def)
    note pub = publish_tail_rb [OF ok ne, folded t]
    show ?thesis
      using c_publish hist pub producer_ok_publish [OF ok pub ne p] ne
      by (simp add: spsc_inv_def consumer_ok_def x)
  qed (use inv in \<open>simp_all add: spsc_inv_def producer_ok_def consumer_ok_def\<close>)
qed

lemma spsc_reachable_inv: "spsc_reachable rb s \<Longrightarrow> rb_ok rb \<Longrightarrow> rb_contents rb = [] \<Longrightarrow> spsc_inv s"
proof (induction rule: spsc_reachable.induct)
  case spsc_start
  then show ?case by (simp add: spsc_inv_def producer_ok_def consumer_ok_def)
qed (rule spsc_step_inv)

text \<open>A call that is not interrupted is the sequential operation.\<close>

lemma push_by_steps:
  assumes "ppc s = PIdle" and "ring_buffer_push (ring s) x = Some (r, rb')"
  shows "spsc_step\<^sup>*\<^sup>* s (s\<lparr>ring := rb', pushed := pushed s @ (if r then [x] else [])\<rparr>)"
proof -
  let ?h = "ucast (head (ring s)) :: u32" and ?t = "ucast (tail (ring s)) :: u32"
  let ?s1 = "s\<lparr>ppc := PHead x ?h\<rparr>" and ?s2 = "s\<lparr>ppc := PTail x ?h ?t\<rparr>"
  have "spsc_step s ?s1" by (rule p_head [OF assms(1)])
  moreover have "spsc_step ?s1 ?s2" using p_tail [of ?s1 x ?h] by simp
  ultimately have two: "spsc_step\<^sup>*\<^sup>* s ?s2" by simp
  have idle: "s\<lparr>ppc := PIdle\<rparr> = s" using assms(1) by (cases s) simp
  show ?thesis
  proof (cases "(?h + 1) AND rb_mask (ring s) = ?t")
    case True
    then have "spsc_step ?s2 s" using p_full [of ?s2 x ?h ?t] idle by simp
    moreover have "rb' = ring s" "\<not> r" using assms(2) True by (simp_all add: ring_buffer_push_def Let_def)
    ultimately show ?thesis using two by simp
  next
    case False
    then obtain rb1 where 1: "store_slot ?h x (ring s) = Some rb1" "r"
      "rb' = rb1\<lparr>head := ucast ((?h + 1) AND rb_mask (ring s))\<rparr>"
      using assms(2) by (auto simp: ring_buffer_push_def Let_def split: option.splits)
    let ?s3 = "s\<lparr>ring := rb1, ppc := PStored x ((?h + 1) AND rb_mask (ring s))\<rparr>"
    have "spsc_step ?s2 ?s3" using p_store [of ?s2 x ?h ?t rb1] 1(1) False by simp
    moreover have "spsc_step ?s3 (s\<lparr>ring := rb', pushed := pushed s @ [x]\<rparr>)"
      using p_publish [of ?s3 x "(?h + 1) AND rb_mask (ring s)"] idle 1(3) assms(1) by (cases s) simp
    ultimately show ?thesis using two 1(2) by (simp add: rtranclp.rtrancl_into_rtrancl)
  qed
qed

section \<open>Properties of the ring buffer\<close>

text \<open>Sequentially, the ring buffer is a bounded FIFO queue. On a well-formed buffer a push never
  touches memory outside the storage; it appends the pointer and returns true when fewer than
  capacity - 1 are stored, and otherwise returns false and changes nothing. A pop returns the oldest
  pointer and removes it, or \<open>NULL\<close> without effect when nothing is stored.\<close>

theorem ring_buffer_fifo:
  assumes "rb_ok rb"
  shows "(\<exists>rb'. ring_buffer_push rb x = Some (rb_len rb < unat (rb_capacity rb) - 1, rb') \<and> rb_ok rb'
      \<and> rb_contents rb' = rb_contents rb @ (if rb_len rb < unat (rb_capacity rb) - 1 then [x] else [])
      \<and> (rb_len rb = unat (rb_capacity rb) - 1 \<longrightarrow> rb' = rb))
    \<and> (\<exists>rb'. ring_buffer_pop rb = Some (case rb_contents rb of [] \<Rightarrow> 0 | y # _ \<Rightarrow> y, rb') \<and> rb_ok rb'
      \<and> rb_contents rb' = tl (rb_contents rb) \<and> (rb_contents rb = [] \<longrightarrow> rb' = rb))"
proof -
  have len: "length (rb_contents rb) = rb_len rb" using assms by simp
  have "\<exists>rb'. ring_buffer_push rb x = Some (rb_len rb < unat (rb_capacity rb) - 1, rb') \<and> rb_ok rb'
      \<and> rb_contents rb' = rb_contents rb @ (if rb_len rb < unat (rb_capacity rb) - 1 then [x] else [])
      \<and> (rb_len rb = unat (rb_capacity rb) - 1 \<longrightarrow> rb' = rb)"
    using rbq.push_full [OF assms, of x] rbq.push_room [OF assms, of x] rbq.bounded [OF assms] assms
    unfolding len by (cases "rb_len rb < rb_bound rb") (auto simp: rb_bound_def)
  moreover have "\<exists>rb'. ring_buffer_pop rb = Some (case rb_contents rb of [] \<Rightarrow> 0 | y # _ \<Rightarrow> y, rb') \<and> rb_ok rb'
      \<and> rb_contents rb' = tl (rb_contents rb) \<and> (rb_contents rb = [] \<longrightarrow> rb' = rb)"
    using rbq.pop_empty [OF assms] rbq.pop_item [OF assms] assms by (cases "rb_contents rb") auto
  ultimately show ?thesis by blast
qed

definition ex_ring :: ring_buffer where
  "ex_ring = \<lparr>head = 1, tail = 3, buffer = Some [8, 0, 0, 7], rb_capacity = 4, rb_mask = 3\<rparr>"

lemma ex_ring_ok: "rb_ok ex_ring" "rb_contents ex_ring = [7, 8]" "rb_len ex_ring = 2"
  by (simp_all add: ex_ring_def rb_ok_def is_power_of_two_def rb_contents_def rb_len_def upt_rec)

theorem ring_buffer_fifo_witness:
  "\<exists>rb'. ring_buffer_push ex_ring 9 = Some (True, rb') \<and> rb_contents rb' = [7, 8, 9]"
  using ring_buffer_fifo [OF ex_ring_ok(1), of 9] ex_ring_ok by (auto simp: ex_ring_def)

text \<open>C16: with one producer and one consumer, every interleaving of their atomic steps is a FIFO queue.
  Whatever the schedule, the pointers popped so far followed by those stored are exactly the pointers
  pushed so far, in order; the number stored never exceeds capacity - 1; the slot accesses stay inside
  the storage; and a producer about to write and a consumer about to read are at different slots.\<close>

theorem spsc_linearizable:
  assumes "rb_ok rb" and "rb_contents rb = []" and "spsc_reachable rb s"
  shows "popped s @ rb_contents (ring s) = pushed s
    \<and> rb_len (ring s) \<le> unat (rb_capacity (ring s)) - 1
    \<and> (\<forall>x h t. ppc s = PTail x h t \<and> (h + 1) AND rb_mask (ring s) \<noteq> t \<longrightarrow> store_slot h x (ring s) \<noteq> None)
    \<and> (\<forall>t h. cpc s = CHead t h \<and> t \<noteq> h \<longrightarrow> load_slot (ring s) t \<noteq> None)
    \<and> (\<forall>x h t t' h'. ppc s = PTail x h t \<and> (h + 1) AND rb_mask (ring s) \<noteq> t \<and> cpc s = CHead t' h' \<and> t' \<noteq> h'
          \<longrightarrow> h \<noteq> t')"
proof -
  let ?r = "ring s"
  have inv: "spsc_inv s" by (rule spsc_reachable_inv [OF assms(3,1,2)])
  then have ok: "rb_ok ?r" and p: "producer_ok ?r (ppc s)" and c: "consumer_ok ?r (cpc s)" by (simp_all add: spsc_inv_def)
  have A: "store_slot h x ?r \<noteq> None" if "ppc s = PTail x h t" for x h t
  proof -
    have "h = ucast (head ?r)" using p that by (simp add: producer_ok_def)
    then show ?thesis using store_head_rb [OF ok, of x] by (metis option.distinct(1))
  qed
  have item: "rb_contents ?r \<noteq> [] \<and> t = ucast (tail ?r)" if "cpc s = CHead t h" "t \<noteq> h" for t h
  proof -
    have ct: "consumer_ok ?r (CHead t h)" using c that by simp
    then show ?thesis using consumer_item [OF ok ct that(2)] by (simp add: consumer_ok_def)
  qed
  have L: "load_slot ?r t \<noteq> None" if "cpc s = CHead t h" "t \<noteq> h" for t h
    using load_tail_rb [OF ok] item [OF that] by simp
  have D: "h \<noteq> t'" if "ppc s = PTail x h t" "cpc s = CHead t' h'" "t' \<noteq> h'" for x h t t' h'
  proof
    assume "h = t'"
    moreover have "h = ucast (head ?r)" using p that by (simp add: producer_ok_def)
    ultimately have "(ucast (tail ?r) :: u32) = ucast (head ?r)" using item [OF that(2,3)] by simp
    then have "rb_len ?r = 0" using rb_empty_iff [OF ok] by simp
    then show False using item [OF that(2,3)] length_rb_contents [OF ok] by (metis length_0_conv)
  qed
  have "popped s @ rb_contents ?r = pushed s" "rb_len ?r \<le> unat (rb_capacity ?r) - 1"
    using inv rb_len_bound [OF ok] by (simp_all add: spsc_inv_def rb_bound_def)
  with A L D show ?thesis by blast
qed

lemma spsc_reachable_star: "spsc_step\<^sup>*\<^sup>* s s' \<Longrightarrow> spsc_reachable rb s \<Longrightarrow> spsc_reachable rb s'"
  by (induction rule: rtranclp_induct) (auto intro: spsc_run)

definition ex_ring0 :: ring_buffer where
  "ex_ring0 = \<lparr>head = 0, tail = 0, buffer = Some [0, 0], rb_capacity = 2, rb_mask = 1\<rparr>"

theorem spsc_linearizable_witness:
  "\<exists>s. spsc_reachable ex_ring0 s \<and> pushed s = [5] \<and> popped s = [] \<and> rb_contents (ring s) = [5]"
proof -
  have ok: "rb_ok ex_ring0" "rb_contents ex_ring0 = []"
    by (simp_all add: ex_ring0_def rb_ok_def is_power_of_two_def rb_contents_def rb_len_def)
  let ?s = "\<lparr>ring = ex_ring0, ppc = PIdle, cpc = CIdle, pushed = [], popped = []\<rparr>"
  have push: "ring_buffer_push (ring ?s) 5 = Some (True, ex_ring0\<lparr>buffer := Some [5, 0], head := 1\<rparr>)"
    by (simp add: ring_buffer_push_def store_slot_def ex_ring0_def)
  let ?s' = "?s\<lparr>ring := ex_ring0\<lparr>buffer := Some [5, 0], head := 1\<rparr>, pushed := [5]\<rparr>"
  have "spsc_step\<^sup>*\<^sup>* ?s ?s'" using push_by_steps [OF _ push] by simp
  then have reach: "spsc_reachable ex_ring0 ?s'" by (rule spsc_reachable_star) (rule spsc_start)
  have "popped ?s' @ rb_contents (ring ?s') = pushed ?s'"
    using spsc_linearizable [OF ok reach] by blast
  then show ?thesis using reach by (intro exI [of _ ?s']) simp
qed

text \<open>Initialisation. A request between 1 and \<open>2\<^sup>3\<^sup>1\<close> whose storage is granted gives an empty,
  well-formed buffer; its capacity is a power of two, at least the request and less than twice the
  request. A null buffer, a request of 0 and a refused allocation are reported as -1.\<close>

theorem ring_buffer_init_spec:
  assumes "0 < cap" and "unat cap \<le> 2 ^ 31"
  shows "(case ring_buffer_init alloc (Some rb) cap of
      (rc, Some rb') \<Rightarrow>
        (\<exists>k. let c = 2 ^ k in unat cap \<le> c \<and> c < 2 * unat cap
          \<and> (if alloc c then rc = 0 \<and> rb_ok rb' \<and> unat (rb_capacity rb') = c \<and> rb_contents rb' = []
             else rc = -1 \<and> buffer rb' = None))
    | (rc, None) \<Rightarrow> False)
    \<and> ring_buffer_init alloc None cap = (-1, None) \<and> ring_buffer_init alloc (Some rb) 0 = (-1, Some rb)"
proof -
  let ?c = "rounded_capacity cap"
  have spec: "is_power_of_two ?c" "cap \<le> ?c" "unat ?c < 2 * unat cap" using rounded_capacity_spec [of cap] assms by auto
  then obtain k where k: "unat ?c = 2 ^ k" by (auto simp: is_power_of_two_iff)
  have le: "unat cap \<le> 2 ^ k" using spec(2) by (simp add: word_le_nat_alt k)
  have nz: "cap \<noteq> 0" using assms(1) by auto
  have run: "ring_buffer_init alloc (Some rb) cap = (if alloc (2 ^ k)
      then (0, Some (rb\<lparr>buffer := Some (replicate (2 ^ k) 0), rb_capacity := ?c, rb_mask := ?c - 1, head := 0, tail := 0\<rparr>))
      else (-1, Some (rb\<lparr>buffer := None\<rparr>)))"
  proof -
    have c: "(if \<not> is_power_of_two cap then next_power_of_two cap else cap) = ?c" by (simp add: rounded_capacity_def)
    show ?thesis using nz unfolding ring_buffer_init_def option.case c Let_def by (simp add: k)
  qed
  have "rb_ok (rb\<lparr>buffer := Some (replicate (2 ^ k) 0), rb_capacity := ?c, rb_mask := ?c - 1, head := 0, tail := 0\<rparr>)"
    using spec(1) k by (simp add: rb_ok_def)
  moreover have "rb_contents (rb\<lparr>buffer := Some (replicate (2 ^ k) 0), rb_capacity := ?c, rb_mask := ?c - 1, head := 0, tail := 0\<rparr>) = []"
    by (simp add: rb_contents_def rb_len_def)
  moreover have "ring_buffer_init alloc None cap = (-1, None)" "ring_buffer_init alloc (Some rb) 0 = (-1, Some rb)"
    by (simp_all add: ring_buffer_init_def)
  ultimately show ?thesis
    using le spec(3) k by (auto simp: run Let_def intro!: exI [of _ k])
qed

theorem ring_buffer_init_spec_witness:
  "0 < (1000 :: u32) \<and> (\<exists>rc rb'. ring_buffer_init (\<lambda>_. True) (Some ex_ring) 1000 = (rc, Some rb') \<and> rc = 0 \<and> rb_ok rb')"
  using ring_buffer_init_spec [of 1000 "\<lambda>_. True" ex_ring]
  by (auto simp: Let_def split: prod.splits option.splits)

text \<open>A request above \<open>2\<^sup>3\<^sup>1\<close> that is not a power of two wraps to capacity 0: when the empty
  allocation is granted, initialisation reports success, and the very first push writes outside the
  storage.\<close>

theorem ring_buffer_init_overflow:
  assumes "2 ^ 31 < unat cap" and "alloc 0"
  shows "\<exists>rb'. ring_buffer_init alloc (Some rb) cap = (0, Some rb') \<and> rb_capacity rb' = 0 \<and> ring_buffer_push rb' x = None"
proof -
  have z: "rounded_capacity cap = 0" using rounded_capacity_overflow [of cap] assms(1) by simp
  have nz: "cap \<noteq> 0" using assms(1) by auto
  have cap: "(if \<not> is_power_of_two cap then next_power_of_two cap else cap) = 0"
    using z by (auto simp: rounded_capacity_def split: if_splits)
  have "ring_buffer_init alloc (Some rb) cap =
      (0, Some (rb\<lparr>buffer := Some [], rb_capacity := 0, rb_mask := - 1, head := 0, tail := 0\<rparr>))"
    using nz assms(2) unfolding ring_buffer_init_def option.case cap Let_def by simp
  then show ?thesis by (simp add: ring_buffer_push_def store_slot_def)
qed

theorem ring_buffer_init_overflow_witness:
  "\<exists>rb'. ring_buffer_init (\<lambda>_. True) (Some ex_ring) 0x80000001 = (0, Some rb') \<and> ring_buffer_push rb' 1 = None"
  using ring_buffer_init_overflow [of "0x80000001" "\<lambda>_. True" ex_ring 1] by auto

text \<open>The snapshot queries. On a well-formed buffer \<open>ring_buffer_count\<close> is the number of stored
  pointers, in spite of the wrap-around of \<open>head - tail\<close>; \<open>ring_buffer_empty\<close> and \<open>ring_buffer_full\<close> hold
  exactly when nothing and capacity - 1 pointers are stored.\<close>

theorem ring_buffer_queries:
  assumes "rb_ok rb"
  shows "unat (ring_buffer_count (Some rb)) = length (rb_contents rb)
    \<and> (ring_buffer_empty (Some rb) \<longleftrightarrow> rb_contents rb = [])
    \<and> (ring_buffer_full (Some rb) \<longleftrightarrow> length (rb_contents rb) = unat (rb_capacity rb) - 1)"
proof -
  have "rb_contents rb = [] \<longleftrightarrow> rb_len rb = 0" unfolding length_rb_contents [OF assms, symmetric] by simp
  moreover have "ring_buffer_empty (Some rb) \<longleftrightarrow> rb_len rb = 0"
    using rb_empty_iff [OF assms] by (auto simp: ring_buffer_empty_def)
  ultimately show ?thesis
    using rb_indices(5) [OF assms] rb_full_iff [OF assms] assms
    by (simp add: ring_buffer_count_def ring_buffer_full_def rb_bound_def)
qed

theorem ring_buffer_queries_witness: "unat (ring_buffer_count (Some ex_ring)) = 2"
  using ring_buffer_queries [OF ex_ring_ok(1)] ex_ring_ok by simp

end
