(* ===== verification/Memory_Pool.thy ===== *)
theory Memory_Pool
  imports Prelude
begin

text \<open>
  The fixed-size object pool of \<open>include/memory_pool.h\<close> and \<open>src/memory_pool.c\<close>.

  Addresses are 64-bit words. \<open>free_list\<close> is the array of indices, \<open>None\<close> for a null pointer; an access
  outside it and a division by a zero \<open>object_size\<close> are explicit failures (\<open>None\<close> as a result). The two
  allocations of \<open>mempool_init\<close> are parameters: the address \<open>calloc\<close> returns (0 when it fails) and
  whether \<open>malloc\<close> succeeds. Both files define \<open>mempool_alloc\<close> and \<open>mempool_free\<close>; the bodies agree but for
  the null checks, which are those of the source file here. The operations are first taken one at a time; the last section splits
  them into their atomic accesses and interleaves an allocating and a freeing thread.
\<close>

section \<open>State and operations\<close>

type_synonym address = u64

record mempool =
  free_top :: u32
  pool :: address
  object_size :: u32
  mp_capacity :: u32
  free_list :: "u32 list option"

definition mempool_init :: "address \<Rightarrow> bool \<Rightarrow> mempool option \<Rightarrow> u64 \<Rightarrow> u32 \<Rightarrow> int \<times> mempool option" where
  "mempool_init calloc_result malloc_ok mp sz cap = (case mp of
     None \<Rightarrow> (-1, None)
   | Some mp \<Rightarrow>
      if sz = 0 \<or> cap = 0 then (-1, Some mp)
      else let sz = (if sz < 4 then 4 else sz) in
        if calloc_result = 0 then (-1, Some (mp\<lparr>pool := 0\<rparr>))
        else if \<not> malloc_ok then (-1, Some (mp\<lparr>free_list := None, pool := 0\<rparr>))
        else (0, Some (mp\<lparr>pool := calloc_result,
               free_list := Some (map (\<lambda>i. cap - 1 - of_nat i) [0..<unat cap]),
               object_size := ucast sz, mp_capacity := cap, free_top := cap\<rparr>)))"

definition mempool_destroy :: "mempool option \<Rightarrow> mempool option" where
  "mempool_destroy mp = map_option (\<lambda>mp. mp\<lparr>pool := 0, free_list := None, mp_capacity := 0, object_size := 0\<rparr>) mp"

definition object_address :: "mempool \<Rightarrow> u32 \<Rightarrow> address" where
  "object_address mp idx = pool mp + ucast idx * ucast (object_size mp)"

definition load_index :: "mempool \<Rightarrow> u32 \<Rightarrow> u32 option" where
  "load_index mp i = (case free_list mp of None \<Rightarrow> None
     | Some l \<Rightarrow> if unat i < length l then Some (l ! unat i) else None)"

definition store_index :: "u32 \<Rightarrow> u32 \<Rightarrow> mempool \<Rightarrow> mempool option" where
  "store_index i v mp = (case free_list mp of None \<Rightarrow> None
     | Some l \<Rightarrow> if unat i < length l then Some (mp\<lparr>free_list := Some (l[unat i := v])\<rparr>) else None)"

definition mempool_alloc :: "mempool \<Rightarrow> (address \<times> mempool) option" where
  "mempool_alloc mp =
     (let old_top = free_top mp;
          mp1 = mp\<lparr>free_top := old_top - 1\<rparr>
      in if old_top = 0 then Some (0, mp1\<lparr>free_top := free_top mp1 + 1\<rparr>)
         else map_option (\<lambda>idx. (object_address mp1 idx, mp1)) (load_index mp1 (old_top - 1)))"

text \<open>The index of the object a pointer points into.\<close>

definition object_index :: "mempool \<Rightarrow> address \<Rightarrow> u32" where
  "object_index mp p = ucast ((p - pool mp) div ucast (object_size mp))"

definition mempool_free :: "mempool \<Rightarrow> address \<Rightarrow> mempool option" where
  "mempool_free mp p =
     (if p = 0 then Some mp
      else if object_size mp = 0 then None
      else let idx = object_index mp p in
        if mp_capacity mp \<le> idx then Some mp
        else let slot = free_top mp;
                 mp1 = mp\<lparr>free_top := slot + 1\<rparr>
             in if mp_capacity mp \<le> slot then Some (mp1\<lparr>free_top := free_top mp1 - 1\<rparr>)
                else store_index slot idx mp1)"

definition mempool_available :: "mempool option \<Rightarrow> u32" where
  "mempool_available mp = (case mp of None \<Rightarrow> 0 | Some mp \<Rightarrow> free_top mp)"

definition mempool_capacity :: "mempool option \<Rightarrow> u32" where
  "mempool_capacity mp = (case mp of None \<Rightarrow> 0 | Some mp \<Rightarrow> mp_capacity mp)"

section \<open>What an object pool promises\<close>

locale object_pool =
  fixes alloc :: "'p \<Rightarrow> (address \<times> 'p) option"
    and free :: "'p \<Rightarrow> address \<Rightarrow> 'p option"
    and avail :: "'p \<Rightarrow> address set"
    and slots :: "'p \<Rightarrow> address set"
    and ok :: "'p \<Rightarrow> bool"
  assumes avail_slots: "ok p \<Longrightarrow> avail p \<subseteq> slots p"
    and finite_slots: "ok p \<Longrightarrow> finite (slots p)"
    and no_null: "ok p \<Longrightarrow> 0 \<notin> slots p"
    and alloc_none: "ok p \<Longrightarrow> avail p = {} \<Longrightarrow> alloc p = Some (0, p)"
    and alloc_some: "ok p \<Longrightarrow> avail p \<noteq> {} \<Longrightarrow>
      \<exists>x p'. alloc p = Some (x, p') \<and> ok p' \<and> x \<in> avail p \<and> avail p' = avail p - {x} \<and> slots p' = slots p"
    and free_live: "ok p \<Longrightarrow> x \<in> slots p \<Longrightarrow> x \<notin> avail p \<Longrightarrow>
      \<exists>p'. free p x = Some p' \<and> ok p' \<and> avail p' = insert x (avail p) \<and> slots p' = slots p"
begin

text \<open>Allocating repeatedly never hands out one object twice.\<close>

fun alloc_many :: "nat \<Rightarrow> 'p \<Rightarrow> (address list \<times> 'p) option" where
  "alloc_many 0 p = Some ([], p)"
| "alloc_many (Suc n) p = (case alloc p of None \<Rightarrow> None
     | Some (x, p') \<Rightarrow> map_option (\<lambda>(xs, q). (x # xs, q)) (alloc_many n p'))"

lemma alloc_many_distinct: "ok p \<Longrightarrow> n \<le> card (avail p) \<Longrightarrow>
    \<exists>xs p'. alloc_many n p = Some (xs, p') \<and> ok p' \<and> distinct xs \<and> length xs = n \<and> set xs \<subseteq> avail p
      \<and> avail p' = avail p - set xs \<and> slots p' = slots p"
proof (induction n arbitrary: p)
  case (Suc n)
  have fin: "finite (avail p)"
    by (rule finite_subset [OF avail_slots [OF Suc.prems(1)] finite_slots [OF Suc.prems(1)]])
  have "avail p \<noteq> {}" using Suc.prems(2) by auto
  then obtain x q where q: "alloc p = Some (x, q)" "ok q" "x \<in> avail p" "avail q = avail p - {x}" "slots q = slots p"
    using alloc_some [OF Suc.prems(1)] by blast
  have "n \<le> card (avail q)" using Suc.prems(2) fin q by simp
  with Suc.IH [OF q(2)] obtain xs p' where
    m: "alloc_many n q = Some (xs, p')" "ok p'" "distinct xs" "length xs = n" "set xs \<subseteq> avail q"
      "avail p' = avail q - set xs" "slots p' = slots q" by blast
  have "alloc_many (Suc n) p = Some (x # xs, p')" by (simp add: q(1) m(1))
  moreover have "distinct (x # xs)" "set (x # xs) \<subseteq> avail p" "avail p' = avail p - set (x # xs)"
    using m(3,5,6) q(3,4) by auto
  ultimately show ?case using m(2,4,7) q(5) by (intro exI [of _ "x # xs"] exI [of _ p']) simp
qed simp

lemma alloc_free: "ok p \<Longrightarrow> avail p \<noteq> {} \<Longrightarrow>
    \<exists>x q p'. alloc p = Some (x, q) \<and> free q x = Some p' \<and> ok p' \<and> avail p' = avail p \<and> slots p' = slots p"
proof -
  assume ok: "ok p" and ne: "avail p \<noteq> {}"
  then obtain x q where q: "alloc p = Some (x, q)" "ok q" "x \<in> avail p" "avail q = avail p - {x}" "slots q = slots p"
    using alloc_some by blast
  have "x \<in> slots q" "x \<notin> avail q" using q avail_slots [OF ok] by auto
  then obtain p' where "free q x = Some p'" "ok p'" "avail p' = insert x (avail q)" "slots p' = slots q"
    using free_live [OF q(2)] by blast
  with q show ?thesis by (metis insert_Diff)
qed

end

section \<open>The pool implements it\<close>

definition free_indices :: "mempool \<Rightarrow> u32 list" where
  "free_indices mp = (case free_list mp of None \<Rightarrow> [] | Some l \<Rightarrow> take (unat (free_top mp)) l)"

definition mp_ok :: "mempool \<Rightarrow> bool" where
  "mp_ok mp \<longleftrightarrow> 0 < unat (object_size mp) \<and> pool mp \<noteq> 0 \<and>
     unat (pool mp) + unat (mp_capacity mp) * unat (object_size mp) \<le> 2 ^ 64 \<and>
     (case free_list mp of None \<Rightarrow> False | Some l \<Rightarrow> length l = unat (mp_capacity mp)) \<and>
     free_top mp \<le> mp_capacity mp \<and> distinct (free_indices mp) \<and> (\<forall>i \<in> set (free_indices mp). i < mp_capacity mp)"

definition mp_avail :: "mempool \<Rightarrow> address set" where
  "mp_avail mp = object_address mp ` set (free_indices mp)"

definition mp_slots :: "mempool \<Rightarrow> address set" where
  "mp_slots mp = object_address mp ` {i. i < mp_capacity mp}"

lemma object_address_unat:
  assumes ok: "mp_ok mp" and i: "i < mp_capacity mp"
  shows "unat (object_address mp i) = unat (pool mp) + unat i * unat (object_size mp)"
proof -
  let ?s = "unat (object_size mp)"
  have "(unat i + 1) * ?s \<le> unat (mp_capacity mp) * ?s"
    using i by (intro mult_right_mono) (simp_all add: word_less_nat_alt)
  then have lt: "unat (pool mp) + unat i * ?s < 18446744073709551616"
    using ok by (simp add: mp_ok_def algebra_simps)
  have "object_address mp i = of_nat (unat (pool mp) + unat i * ?s)"
    unfolding object_address_def ucast_u64_of_nat of_nat_add of_nat_mult by simp
  then show ?thesis using lt by (simp only: unat_of_nat_u64)
qed

lemma object_index_address:
  assumes ok: "mp_ok mp" and i: "i < mp_capacity mp"
  shows "object_index mp (object_address mp i) = i"
proof -
  let ?s = "unat (object_size mp)"
  have s: "0 < ?s" using ok by (simp add: mp_ok_def)
  have "unat (pool mp) \<le> unat (object_address mp i)" by (simp add: object_address_unat [OF ok i])
  then have "unat (object_address mp i - pool mp) = unat i * ?s"
    by (simp add: unat_sub_if_size object_address_unat [OF ok i])
  then have "unat ((object_address mp i - pool mp) div ucast (object_size mp)) = unat i"
    using s by (simp add: unat_div unat_ucast_u64)
  then show ?thesis by (simp add: object_index_def word_unat_eq_iff unsigned_ucast_eq take_bit_eq_mod)
qed

lemma object_address_inj: "mp_ok mp \<Longrightarrow> inj_on (object_address mp) {i. i < mp_capacity mp}"
  by (rule inj_on_inverseI [of _ "object_index mp"]) (simp add: object_index_address)

lemma object_address_keeps [simp]:
  "object_address (mp\<lparr>free_top := t\<rparr>) = object_address mp" "object_address (mp\<lparr>free_list := l\<rparr>) = object_address mp"
  "object_index (mp\<lparr>free_top := t\<rparr>) = object_index mp"
  by (rule ext, simp add: object_address_def object_index_def)+

lemma mp_ok_null: "mp_ok mp \<Longrightarrow> 0 \<notin> mp_slots mp"
proof
  assume ok: "mp_ok mp" and "0 \<in> mp_slots mp"
  then obtain i where "i < mp_capacity mp" "object_address mp i = 0" by (auto simp: mp_slots_def)
  with object_address_unat [OF ok] have "unat (pool mp) = 0" by force
  then show False using ok by (simp add: mp_ok_def unat_eq_zero)
qed

lemma mempool_alloc_cases:
  assumes ok: "mp_ok mp"
  shows "free_indices mp = [] \<Longrightarrow> mempool_alloc mp = Some (0, mp)"
    and "free_indices mp \<noteq> [] \<Longrightarrow> mempool_alloc mp = Some (object_address mp (last (free_indices mp)), mp\<lparr>free_top := free_top mp - 1\<rparr>)
      \<and> free_indices (mp\<lparr>free_top := free_top mp - 1\<rparr>) = butlast (free_indices mp) \<and> mp_ok (mp\<lparr>free_top := free_top mp - 1\<rparr>)"
proof -
  obtain l where l: "free_list mp = Some l" "length l = unat (mp_capacity mp)"
    using ok by (auto simp: mp_ok_def split: option.splits)
  have top: "unat (free_top mp) \<le> length l" using ok l by (simp add: mp_ok_def word_le_nat_alt)
  have fi: "free_indices mp = take (unat (free_top mp)) l" by (simp add: free_indices_def l)
  show "mempool_alloc mp = Some (0, mp)" if "free_indices mp = []"
  proof -
    have "unat (free_top mp) = 0" using that top fi by (cases l) auto
    then have "free_top mp = 0" by (simp add: unat_eq_zero)
    then show ?thesis by (simp add: mempool_alloc_def)
  qed
  show "mempool_alloc mp = Some (object_address mp (last (free_indices mp)), mp\<lparr>free_top := free_top mp - 1\<rparr>)
      \<and> free_indices (mp\<lparr>free_top := free_top mp - 1\<rparr>) = butlast (free_indices mp) \<and> mp_ok (mp\<lparr>free_top := free_top mp - 1\<rparr>)"
    if "free_indices mp \<noteq> []"
  proof -
    have ne: "free_top mp \<noteq> 0" using that fi by auto
    then have u: "unat (free_top mp - 1) = unat (free_top mp) - 1" by (simp add: unat_minus_one)
    have pos: "0 < unat (free_top mp)" using ne by (simp add: unat_gt_0)
    have last: "last (free_indices mp) = l ! (unat (free_top mp) - 1)"
      using that top pos by (simp add: fi last_conv_nth)
    have fi': "free_indices (mp\<lparr>free_top := free_top mp - 1\<rparr>) = butlast (free_indices mp)"
      using top u by (simp add: free_indices_def l butlast_take)
    have "free_top mp - 1 \<le> mp_capacity mp" using top l u by (simp add: word_le_nat_alt)
    then have "mp_ok (mp\<lparr>free_top := free_top mp - 1\<rparr>)"
      using ok l fi' by (auto simp: mp_ok_def distinct_butlast dest: in_set_butlastD)
    moreover have "mempool_alloc mp = Some (object_address mp (last (free_indices mp)), mp\<lparr>free_top := free_top mp - 1\<rparr>)"
      using ne u top pos by (simp add: mempool_alloc_def Let_def load_index_def l last)
    ultimately show ?thesis using fi' by blast
  qed
qed

lemma mempool_free_live:
  assumes ok: "mp_ok mp" and i: "i < mp_capacity mp" "i \<notin> set (free_indices mp)"
  shows "\<exists>mp'. mempool_free mp (object_address mp i) = Some mp' \<and> mp_ok mp' \<and> free_indices mp' = free_indices mp @ [i]
    \<and> object_address mp' = object_address mp \<and> mp_capacity mp' = mp_capacity mp"
proof -
  obtain l where l: "free_list mp = Some l" "length l = unat (mp_capacity mp)"
    using ok by (auto simp: mp_ok_def split: option.splits)
  have top: "unat (free_top mp) \<le> length l" using ok l by (simp add: mp_ok_def word_le_nat_alt)
  have fi: "free_indices mp = take (unat (free_top mp)) l" by (simp add: free_indices_def l)
  have nz: "object_address mp i \<noteq> 0" using mp_ok_null [OF ok] i by (auto simp: mp_slots_def)
  have sz: "object_size mp \<noteq> 0" using ok by (auto simp: mp_ok_def)
  have room: "unat (free_top mp) < unat (mp_capacity mp)"
  proof -
    have "distinct (map unat (free_indices mp))" using ok by (simp add: mp_ok_def distinct_map inj_on_def word_unat_eq_iff)
    then have "card (unat ` set (free_indices mp)) = length (free_indices mp)" by (metis distinct_card length_map set_map)
    moreover have "unat ` set (free_indices mp) \<subset> {..< unat (mp_capacity mp)}"
    proof (rule psubsetI)
      show "unat ` set (free_indices mp) \<subseteq> {..< unat (mp_capacity mp)}"
        using ok by (auto simp: mp_ok_def word_less_nat_alt)
      have "unat i \<notin> unat ` set (free_indices mp)" using i(2) by (metis imageE word_unat_eq_iff)
      moreover have "unat i \<in> {..< unat (mp_capacity mp)}" using i(1) by (simp add: word_less_nat_alt)
      ultimately show "unat ` set (free_indices mp) \<noteq> {..< unat (mp_capacity mp)}" by blast
    qed
    from psubset_card_mono [OF finite_lessThan this]
    have "card (unat ` set (free_indices mp)) < unat (mp_capacity mp)" by simp
    ultimately show ?thesis using top by (simp add: fi)
  qed
  then have lt: "free_top mp < mp_capacity mp" by (simp add: word_less_nat_alt)
  have u: "unat (free_top mp + 1) = Suc (unat (free_top mp))"
    using le_less_trans [OF Suc_leI [OF room] unat_u32_less] by (simp add: unat_word_ariths(1))
  let ?mp = "mp\<lparr>free_top := free_top mp + 1, free_list := Some (l[unat (free_top mp) := i])\<rparr>"
  have fi': "free_indices ?mp = free_indices mp @ [i]"
    using room l u by (simp add: free_indices_def take_Suc_conv_app_nth)
  have "free_top mp + 1 \<le> mp_capacity mp" using room u by (simp add: word_le_nat_alt)
  then have "mp_ok ?mp" using ok l fi' i by (auto simp: mp_ok_def)
  moreover have "mempool_free mp (object_address mp i) = Some ?mp"
    using nz sz i lt room l
    by (simp add: mempool_free_def Let_def object_index_address [OF ok i(1)] store_index_def not_le)
  ultimately show ?thesis using fi' by (intro exI [of _ ?mp]) simp
qed

interpretation mpool: object_pool mempool_alloc mempool_free mp_avail mp_slots mp_ok
proof
  fix p assume ok: "mp_ok p"
  have sub: "set (free_indices p) \<subseteq> {i. i < mp_capacity p}" using ok by (auto simp: mp_ok_def)
  show "mp_avail p \<subseteq> mp_slots p" using sub by (auto simp: mp_avail_def mp_slots_def)
  show "finite (mp_slots p)" by (simp add: mp_slots_def)
  show "0 \<notin> mp_slots p" by (rule mp_ok_null [OF ok])
  show "mempool_alloc p = Some (0, p)" if "mp_avail p = {}"
    using that mempool_alloc_cases(1) [OF ok] by (simp add: mp_avail_def)
  show "\<exists>x p'. mempool_alloc p = Some (x, p') \<and> mp_ok p' \<and> x \<in> mp_avail p \<and> mp_avail p' = mp_avail p - {x} \<and> mp_slots p' = mp_slots p"
    if "mp_avail p \<noteq> {}"
  proof -
    have ne: "free_indices p \<noteq> []" using that by (auto simp: mp_avail_def)
    let ?i = "last (free_indices p)" and ?p = "p\<lparr>free_top := free_top p - 1\<rparr>"
    have split: "free_indices p = butlast (free_indices p) @ [?i]" using ne by simp
    have "distinct (butlast (free_indices p) @ [?i])" using ok ne by (simp add: mp_ok_def)
    then have "set (butlast (free_indices p)) = set (free_indices p) - {?i}" using split by (metis Diff_insert_absorb distinct_append
          list.set(1) list.simps(15) set_append Un_insert_right distinct.simps(2) disjoint_insert(2) sup_bot.right_neutral)
    moreover have "?i \<in> set (free_indices p)" using ne by simp
    ultimately have "mp_avail ?p = mp_avail p - {object_address p ?i}"
      using mempool_alloc_cases(2) [OF ok ne] inj_on_image_set_diff [OF object_address_inj [OF ok], of "set (free_indices p)" "{?i}"] sub
      by (auto simp: mp_avail_def)
    with mempool_alloc_cases(2) [OF ok ne] ne show ?thesis by (auto simp: mp_avail_def mp_slots_def)
  qed
next
  fix p x assume ok: "mp_ok p" and x: "x \<in> mp_slots p" "x \<notin> mp_avail p"
  then obtain i where i: "i < mp_capacity p" "x = object_address p i" "i \<notin> set (free_indices p)"
    by (auto simp: mp_slots_def mp_avail_def)
  from mempool_free_live [OF ok i(1,3)] obtain p' where
    "mempool_free p x = Some p'" "mp_ok p'" "free_indices p' = free_indices p @ [i]"
    "object_address p' = object_address p" "mp_capacity p' = mp_capacity p" by (auto simp: i(2))
  then show "\<exists>p'. mempool_free p x = Some p' \<and> mp_ok p' \<and> mp_avail p' = insert x (mp_avail p) \<and> mp_slots p' = mp_slots p"
    by (auto simp: mp_avail_def mp_slots_def i(2))
qed

lemma mempool_init_ok:
  assumes "0 < sz" and "sz < 2 ^ 32" and "0 < cap" and "addr \<noteq> 0"
    and "unat addr + unat cap * max 4 (unat sz) \<le> 2 ^ 64"
  shows "\<exists>mp'. mempool_init addr True (Some mp) sz cap = (0, Some mp') \<and> mp_ok mp' \<and> mp_capacity mp' = cap
    \<and> rev (free_indices mp') = map of_nat [0..<unat cap] \<and> pool mp' = addr \<and> unat (object_size mp') = max 4 (unat sz)"
proof -
  let ?sz = "if sz < 4 then 4 else sz"
  have sz: "unat ?sz = max 4 (unat sz)" by (simp add: word_less_nat_alt)
  have "unat sz < 4294967296" using assms(2) by (simp add: word_less_nat_alt)
  then have u: "unat (ucast ?sz :: u32) = max 4 (unat sz)"
    using sz by (simp add: unsigned_ucast_eq take_bit_eq_mod)
  let ?l = "map (\<lambda>i. cap - 1 - of_nat i) [0..<unat cap]"
  have rev: "rev ?l = map of_nat [0..<unat cap]"
  proof (rule nth_equalityI)
    fix i assume "i < length (rev ?l)"
    then have i: "i < unat cap" by simp
    then have "rev ?l ! i = cap - 1 - of_nat (unat cap - Suc i)" by (simp add: rev_nth)
    also have "\<dots> = of_nat i" using i by (simp add: of_nat_diff)
    finally show "rev ?l ! i = map of_nat [0..<unat cap] ! i" using i by simp
  qed simp
  then have l: "?l = rev (map of_nat [0..<unat cap])" by (metis rev_rev_ident)
  have inv: "unat (of_nat i :: u32) = i" if "i < unat cap" for i
    using less_trans [OF that unat_u32_less] by (rule unat_of_nat_u32)
  have "inj_on (of_nat :: nat \<Rightarrow> u32) {0..<unat cap}"
    by (rule inj_on_inverseI [of _ unat]) (simp add: inv)
  then have dist: "distinct ?l" unfolding l by (simp add: distinct_map)
  have small: "\<forall>i \<in> set ?l. i < cap" unfolding l
    by (auto simp: word_less_nat_alt inv)
  let ?mp = "mp\<lparr>pool := addr, free_list := Some ?l, object_size := ucast ?sz, mp_capacity := cap, free_top := cap\<rparr>"
  have fi: "free_indices ?mp = ?l" by (simp add: free_indices_def)
  have "mempool_init addr True (Some mp) sz cap = (0, Some ?mp)"
    using assms(1,3,4) by (auto simp: mempool_init_def Let_def)
  moreover have "mp_ok ?mp" unfolding mp_ok_def fi using assms(4,5) u dist small by simp
  ultimately show ?thesis using fi rev u by (intro exI [of _ ?mp]) simp
qed

section \<open>Interleaving\<close>

text \<open>One thread allocates, another frees, as the feed thread and the strategy thread do with feed
  messages. Each atomic access is a step. \<open>live\<close> lists the objects that are handed out: an object
  enters when an allocation returns it and leaves when its owner calls \<open>mempool_free\<close>.\<close>

datatype alloc_pc = AIdle | ASub u32

datatype free_pc = FIdle | FAdd u32 u32

record pool_system =
  the_pool :: mempool
  apc :: alloc_pc
  fpc :: free_pc
  live :: "address list"

inductive pool_step :: "pool_system \<Rightarrow> pool_system \<Rightarrow> bool" where
  a_sub: "apc s = AIdle \<Longrightarrow>
    pool_step s (s\<lparr>apc := ASub (free_top (the_pool s)), the_pool := (the_pool s)\<lparr>free_top := free_top (the_pool s) - 1\<rparr>\<rparr>)"
| a_null: "apc s = ASub 0 \<Longrightarrow> pool_step s (s\<lparr>apc := AIdle, the_pool := (the_pool s)\<lparr>free_top := free_top (the_pool s) + 1\<rparr>\<rparr>)"
| a_load: "apc s = ASub t \<Longrightarrow> t \<noteq> 0 \<Longrightarrow> load_index (the_pool s) (t - 1) = Some idx \<Longrightarrow>
    pool_step s (s\<lparr>apc := AIdle, live := object_address (the_pool s) idx # live s\<rparr>)"
| f_add: "fpc s = FIdle \<Longrightarrow> p \<in> set (live s) \<Longrightarrow> object_index (the_pool s) p < mp_capacity (the_pool s) \<Longrightarrow>
    pool_step s (s\<lparr>fpc := FAdd (object_index (the_pool s) p) (free_top (the_pool s)), live := remove1 p (live s),
                  the_pool := (the_pool s)\<lparr>free_top := free_top (the_pool s) + 1\<rparr>\<rparr>)"
| f_undo: "fpc s = FAdd idx slot \<Longrightarrow> mp_capacity (the_pool s) \<le> slot \<Longrightarrow>
    pool_step s (s\<lparr>fpc := FIdle, the_pool := (the_pool s)\<lparr>free_top := free_top (the_pool s) - 1\<rparr>\<rparr>)"
| f_store: "fpc s = FAdd idx slot \<Longrightarrow> slot < mp_capacity (the_pool s) \<Longrightarrow> store_index slot idx (the_pool s) = Some m \<Longrightarrow>
    pool_step s (s\<lparr>fpc := FIdle, the_pool := m\<rparr>)"

text \<open>A pool of two objects of 64 bytes at address 4096, as \<open>mempool_init\<close> leaves it.\<close>

definition two_objects :: pool_system where
  "two_objects = \<lparr>the_pool = \<lparr>free_top = 2, pool = 4096, object_size = 64, mp_capacity = 2, free_list = Some [1, 0]\<rparr>,
     apc = AIdle, fpc = FIdle, live = []\<rparr>"

section \<open>Properties of the pool\<close>

lemma card_mp_avail: "mp_ok mp \<Longrightarrow> card (mp_avail mp) = unat (free_top mp)"
proof -
  assume ok: "mp_ok mp"
  then have sub: "set (free_indices mp) \<subseteq> {i. i < mp_capacity mp}" by (auto simp: mp_ok_def)
  have "card (mp_avail mp) = card (set (free_indices mp))"
    unfolding mp_avail_def by (rule card_image [OF inj_on_subset [OF object_address_inj [OF ok] sub]])
  also have "\<dots> = length (free_indices mp)" using ok by (simp add: mp_ok_def distinct_card)
  also have "\<dots> = unat (free_top mp)"
    using ok by (auto simp: mp_ok_def free_indices_def word_le_nat_alt split: option.splits)
  finally show ?thesis .
qed

text \<open>C30: taken one at a time, the pool operations are a correct allocator. An allocation from a pool with
  free objects returns one of them, never \<open>NULL\<close>, and takes exactly it off the free set; an exhausted pool
  returns \<open>NULL\<close> unchanged; freeing a handed-out object puts exactly it back; no operation reads or
  writes outside the free list; and \<open>mempool_available\<close> counts the free objects.\<close>

theorem mempool_allocator:
  assumes "mp_ok mp"
  shows "(mp_avail mp = {} \<longrightarrow> mempool_alloc mp = Some (0, mp))
    \<and> (mp_avail mp \<noteq> {} \<longrightarrow> (\<exists>x mp'. mempool_alloc mp = Some (x, mp') \<and> x \<noteq> 0 \<and> x \<in> mp_avail mp
          \<and> mp_ok mp' \<and> mp_avail mp' = mp_avail mp - {x}))
    \<and> (\<forall>x \<in> mp_slots mp - mp_avail mp. \<exists>mp'. mempool_free mp x = Some mp' \<and> mp_ok mp'
          \<and> mp_avail mp' = insert x (mp_avail mp))
    \<and> unat (mempool_available (Some mp)) = card (mp_avail mp)"
proof -
  have "\<exists>x mp'. mempool_alloc mp = Some (x, mp') \<and> x \<noteq> 0 \<and> x \<in> mp_avail mp \<and> mp_ok mp' \<and> mp_avail mp' = mp_avail mp - {x}"
    if "mp_avail mp \<noteq> {}"
    using mpool.alloc_some [OF assms that] mpool.no_null [OF assms] mpool.avail_slots [OF assms] by (metis subsetD)
  moreover have "\<exists>mp'. mempool_free mp x = Some mp' \<and> mp_ok mp' \<and> mp_avail mp' = insert x (mp_avail mp)"
    if "x \<in> mp_slots mp - mp_avail mp" for x using mpool.free_live [OF assms] that by blast
  ultimately show ?thesis
    using mpool.alloc_none [OF assms] card_mp_avail [OF assms] by (simp add: mempool_available_def)
qed

definition ex_pool :: mempool where
  "ex_pool = \<lparr>free_top = 1, pool = 4096, object_size = 64, mp_capacity = 2, free_list = Some [1, 0]\<rparr>"

theorem mempool_allocator_witness:
  "mp_ok ex_pool \<and> (\<exists>x mp'. mempool_alloc ex_pool = Some (x, mp') \<and> x \<in> mp_avail ex_pool)
     \<and> unat (mempool_available (Some ex_pool)) = card (mp_avail ex_pool)"
proof -
  have ok: "mp_ok ex_pool" by (simp add: ex_pool_def mp_ok_def free_indices_def)
  have "mp_avail ex_pool \<noteq> {}" by (simp add: ex_pool_def mp_avail_def free_indices_def)
  with mempool_allocator [OF ok] ok show ?thesis by blast
qed

lemma mempool_init_fresh:
  assumes "0 < sz" and "sz < 2 ^ 32" and "0 < cap" and "addr \<noteq> 0" and "unat addr + unat cap * max 4 (unat sz) \<le> 2 ^ 64"
  shows "\<exists>m. mempool_init addr True (Some old) sz cap = (0, Some m) \<and> mp_ok m \<and> mp_avail m = mp_slots m
    \<and> card (mp_avail m) = unat cap"
proof -
  from mempool_init_ok [OF assms, of old] obtain m where m: "mempool_init addr True (Some old) sz cap = (0, Some m)"
    "mp_ok m" "mp_capacity m = cap" "rev (free_indices m) = map of_nat [0..<unat cap]" by blast
  have "set (free_indices m) = of_nat ` {0..<unat cap}" using m(4) by (metis set_rev set_map set_upt)
  also have "\<dots> = {i. i < cap}"
    by (force simp: word_less_nat_alt unat_of_nat intro!: image_eqI [of _ _ "unat _"] intro: le_less_trans [OF mod_less_eq_dividend])
  finally have "mp_avail m = mp_slots m" by (simp add: mp_avail_def mp_slots_def m(3))
  moreover have "length (free_indices m) = unat cap" using arg_cong [OF m(4), of length] by simp
  then have "unat (free_top m) = unat cap"
    using m(2) by (auto simp: mp_ok_def free_indices_def word_le_nat_alt m(3) split: option.splits)
  ultimately show ?thesis using m(1,2) card_mp_avail [OF m(2)] by simp
qed

text \<open>A fresh pool hands out each of its objects once. After \<open>mempool_init\<close> of \<open>cap\<close> objects at a
  non-null address that leaves room for them, \<open>cap\<close> allocations in a row succeed with pairwise different
  objects of the pool, and the next one returns \<open>NULL\<close>.\<close>

theorem mempool_init_capacity:
  assumes "0 < sz" and "sz < 2 ^ 32" and "0 < cap" and "addr \<noteq> 0" and "unat addr + unat cap * max 4 (unat sz) \<le> 2 ^ 64"
  shows "\<exists>m xs m'. mempool_init addr True (Some old) sz cap = (0, Some m)
    \<and> mpool.alloc_many (unat cap) m = Some (xs, m') \<and> distinct xs \<and> length xs = unat cap
    \<and> set xs = mp_slots m \<and> mempool_alloc m' = Some (0, m')"
proof -
  from mempool_init_fresh [OF assms, of old] obtain m where m: "mempool_init addr True (Some old) sz cap = (0, Some m)"
    "mp_ok m" "mp_avail m = mp_slots m" "card (mp_avail m) = unat cap" by blast
  then obtain xs m' where xs: "mpool.alloc_many (unat cap) m = Some (xs, m')" "mp_ok m'" "distinct xs"
    "length xs = unat cap" "set xs \<subseteq> mp_slots m" "mp_avail m' = mp_slots m - set xs"
    using mpool.alloc_many_distinct [OF m(2), of "unat cap"] by auto
  have "card (set xs) = card (mp_slots m)" using xs m(3,4) by (simp add: distinct_card)
  then have "set xs = mp_slots m" using xs(5) mpool.finite_slots [OF m(2)] by (simp add: card_subset_eq)
  with xs m(1) show ?thesis using mpool.alloc_none [OF xs(2)] by blast
qed

theorem mempool_init_capacity_witness:
  "\<exists>m xs m'. mempool_init 4096 True (Some ex_pool) 64 8192 = (0, Some m)
    \<and> mpool.alloc_many 8192 m = Some (xs, m') \<and> distinct xs"
  using mempool_init_capacity [of 64 8192 4096 ex_pool] by auto

text \<open>With an allocating and a freeing thread, the pool can hand out one object twice. From a fresh
  pool of two objects there is a schedule after which the object at 4160 is live twice: the freeing
  thread has claimed its slot of the free list but not yet stored into it, and the allocating thread
  reads the old content of that slot.\<close>

theorem mempool_double_allocation:
  "mempool_init 4096 True (Some old) 64 2 = (0, Some (the_pool two_objects)) \<and>
   (\<exists>s. pool_step\<^sup>*\<^sup>* two_objects s \<and> live s = [4160, 4160])"
proof -
  let ?m = "the_pool two_objects"
  let ?f = "\<lambda>t. ?m\<lparr>free_top := t\<rparr>"
  let ?s = "\<lambda>t a f l. \<lparr>the_pool = ?f t, apc = a, fpc = f, live = l\<rparr>"
  have "pool_step two_objects (?s 1 (ASub 2) FIdle [])" using a_sub [of two_objects] by (simp add: two_objects_def)
  moreover have "pool_step (?s 1 (ASub 2) FIdle []) (?s 1 AIdle FIdle [4096])"
    using a_load [of "?s 1 (ASub 2) FIdle []" 2 0] by (simp add: two_objects_def load_index_def object_address_def)
  moreover have "pool_step (?s 1 AIdle FIdle [4096]) (?s 0 (ASub 1) FIdle [4096])"
    using a_sub [of "?s 1 AIdle FIdle [4096]"] by (simp add: two_objects_def)
  moreover have "pool_step (?s 0 (ASub 1) FIdle [4096]) (?s 0 AIdle FIdle [4160, 4096])"
    using a_load [of "?s 0 (ASub 1) FIdle [4096]" 1 1] by (simp add: two_objects_def load_index_def object_address_def)
  moreover have "pool_step (?s 0 AIdle FIdle [4160, 4096]) (?s 1 AIdle (FAdd 0 0) [4160])"
    using f_add [of "?s 0 AIdle FIdle [4160, 4096]" 4096] by (simp add: two_objects_def object_index_def)
  moreover have "pool_step (?s 1 AIdle (FAdd 0 0) [4160]) (?s 0 (ASub 1) (FAdd 0 0) [4160])"
    using a_sub [of "?s 1 AIdle (FAdd 0 0) [4160]"] by (simp add: two_objects_def)
  moreover have "pool_step (?s 0 (ASub 1) (FAdd 0 0) [4160]) (?s 0 AIdle (FAdd 0 0) [4160, 4160])"
    using a_load [of "?s 0 (ASub 1) (FAdd 0 0) [4160]" 1 1] by (simp add: two_objects_def load_index_def object_address_def)
  ultimately have "pool_step\<^sup>*\<^sup>* two_objects (?s 0 AIdle (FAdd 0 0) [4160, 4160])"
    by (meson converse_rtranclp_into_rtranclp rtranclp.rtrancl_refl)
  moreover have "mempool_init 4096 True (Some old) 64 2 = (0, Some (the_pool two_objects))"
    by (simp add: mempool_init_def two_objects_def upt_rec)
  ultimately show ?thesis by (intro conjI exI [of _ "?s 0 AIdle (FAdd 0 0) [4160, 4160]"]) simp_all
qed

text \<open>With an allocating and a freeing thread, the pool can lose an object. There is a schedule after
  which both threads are idle, only the object at 4160 is live, and yet no object is free: a failing
  allocation had taken the counter below zero when the freeing thread claimed its slot, so the freed
  object was dropped as if it were a double free.\<close>

theorem mempool_lost_object:
  "\<exists>s. pool_step\<^sup>*\<^sup>* two_objects s \<and> apc s = AIdle \<and> fpc s = FIdle \<and> live s = [4160] \<and> free_indices (the_pool s) = []"
proof -
  let ?m = "the_pool two_objects"
  let ?s = "\<lambda>t a f l. \<lparr>the_pool = ?m\<lparr>free_top := t\<rparr>, apc = a, fpc = f, live = l\<rparr>"
  let ?max = "- 1 :: u32"
  have "pool_step two_objects (?s 1 (ASub 2) FIdle [])" using a_sub [of two_objects] by (simp add: two_objects_def)
  moreover have "pool_step (?s 1 (ASub 2) FIdle []) (?s 1 AIdle FIdle [4096])"
    using a_load [of "?s 1 (ASub 2) FIdle []" 2 0] by (simp add: two_objects_def load_index_def object_address_def)
  moreover have "pool_step (?s 1 AIdle FIdle [4096]) (?s 0 (ASub 1) FIdle [4096])"
    using a_sub [of "?s 1 AIdle FIdle [4096]"] by (simp add: two_objects_def)
  moreover have "pool_step (?s 0 (ASub 1) FIdle [4096]) (?s 0 AIdle FIdle [4160, 4096])"
    using a_load [of "?s 0 (ASub 1) FIdle [4096]" 1 1] by (simp add: two_objects_def load_index_def object_address_def)
  moreover have "pool_step (?s 0 AIdle FIdle [4160, 4096]) (?s ?max (ASub 0) FIdle [4160, 4096])"
    using a_sub [of "?s 0 AIdle FIdle [4160, 4096]"] by (simp add: two_objects_def)
  moreover have "pool_step (?s ?max (ASub 0) FIdle [4160, 4096]) (?s 0 (ASub 0) (FAdd 0 ?max) [4160])"
    using f_add [of "?s ?max (ASub 0) FIdle [4160, 4096]" 4096] by (simp add: two_objects_def object_index_def)
  moreover have "pool_step (?s 0 (ASub 0) (FAdd 0 ?max) [4160]) (?s 1 AIdle (FAdd 0 ?max) [4160])"
    using a_null [of "?s 0 (ASub 0) (FAdd 0 ?max) [4160]"] by (simp add: two_objects_def)
  moreover have "pool_step (?s 1 AIdle (FAdd 0 ?max) [4160]) (?s 0 AIdle FIdle [4160])"
    using f_undo [of "?s 1 AIdle (FAdd 0 ?max) [4160]" 0 ?max] by (simp add: two_objects_def)
  ultimately have "pool_step\<^sup>*\<^sup>* two_objects (?s 0 AIdle FIdle [4160])"
    by (meson converse_rtranclp_into_rtranclp rtranclp.rtrancl_refl)
  then show ?thesis
    by (intro exI [of _ "?s 0 AIdle FIdle [4160]"]) (simp add: two_objects_def free_indices_def)
qed

end
