(* ===== verification/Printf.thy ===== *)
theory Printf
  imports Binary64
begin

text \<open>
  The conversions of the C \<open>printf\<close> family that the sources use: \<open>%d\<close>, \<open>%u\<close>, \<open>%.<p>f\<close> and \<open>%.<p>s\<close>.

  \<open>%.<p>f\<close> prints the exact value of the double rounded to \<open>p\<close> decimals, ties to even, as the C library
  does in the default rounding mode. \<open>snprintf\<close> stores at most \<open>n - 1\<close> characters of its result.
\<close>

section \<open>Conversions\<close>

definition digit :: "nat \<Rightarrow> char" where
  "digit d = char_of (48 + d)"

fun show_nat :: "nat \<Rightarrow> string" where
  "show_nat n = (if n < 10 then [digit n] else show_nat (n div 10) @ [digit (n mod 10)])"

declare show_nat.simps [simp del]

definition show_int :: "int \<Rightarrow> string" where
  "show_int i = (if i < 0 then ''-'' @ show_nat (nat (- i)) else show_nat (nat i))"

text \<open>Exactly \<open>p\<close> digits, with leading zeros.\<close>

fun show_digits :: "nat \<Rightarrow> nat \<Rightarrow> string" where
  "show_digits 0 n = []"
| "show_digits (Suc p) n = show_digits p (n div 10) @ [digit (n mod 10)]"

definition show_fixed :: "nat \<Rightarrow> double \<Rightarrow> string" where
  "show_fixed p x =
     (if d_sign x then ''-'' else '''') @
     (if is_nan x then ''nan''
      else if is_inf x then ''inf''
      else let n = rne (mag_val (d_mag x) * 10 ^ p) d_unit
           in show_nat (n div 10 ^ p) @ (if p = 0 then '''' else ''.'' @ show_digits p (n mod 10 ^ p)))"

text \<open>What \<open>snprintf (buf, n, ...)\<close> leaves in the buffer.\<close>

definition snprintf :: "nat \<Rightarrow> string \<Rightarrow> string" where
  "snprintf n s = take (n - 1) s"

text \<open>The count \<open>snprintf\<close> returns; one that does not fit an \<open>int\<close> is an error.\<close>

definition printf_count :: "string \<Rightarrow> int" where
  "printf_count s = (if length s < 2 ^ 31 then int (length s) else -1)"

section \<open>Reading back\<close>

definition digit_value :: "char \<Rightarrow> nat" where
  "digit_value c = of_char c - 48"

definition is_digit :: "char \<Rightarrow> bool" where
  "is_digit c \<longleftrightarrow> 48 \<le> (of_char c :: nat) \<and> (of_char c :: nat) \<le> 57"

definition read_nat :: "string \<Rightarrow> nat" where
  "read_nat s = foldl (\<lambda>n c. 10 * n + digit_value c) 0 s"

definition read_int :: "string \<Rightarrow> int" where
  "read_int s = (case s of c # cs \<Rightarrow> if c = CHR ''-'' then - int (read_nat cs) else int (read_nat s) | [] \<Rightarrow> 0)"

lemma of_char_digit: "d < 10 \<Longrightarrow> of_char (digit d) = 48 + d"
  by (simp add: digit_def)

lemma digit_value_digit [simp]: "d < 10 \<Longrightarrow> digit_value (digit d) = d"
  by (simp add: digit_value_def of_char_digit)

lemma is_digit_digit [simp]: "d < 10 \<Longrightarrow> is_digit (digit d)"
  by (simp add: is_digit_def of_char_digit)

lemma read_nat_snoc [simp]: "read_nat (s @ [c]) = 10 * read_nat s + digit_value c"
  by (simp add: read_nat_def)

lemma read_show_nat [simp]: "read_nat (show_nat n) = n"
proof (induction n rule: show_nat.induct)
  case (1 n)
  show ?case
  proof (cases "n < 10")
    case True
    then show ?thesis by (subst show_nat.simps) (simp add: read_nat_def)
  next
    case False
    then show ?thesis using 1 by (subst show_nat.simps) simp
  qed
qed

lemma show_nat_nonempty [simp]: "show_nat n \<noteq> []"
  by (subst show_nat.simps) simp

lemma show_nat_digits: "c \<in> set (show_nat n) \<Longrightarrow> is_digit c"
proof (induction n rule: show_nat.induct)
  case (1 n)
  then show ?case
  proof (cases "n < 10")
    case True
    then show ?thesis using "1.prems" by (simp add: show_nat.simps [of n])
  next
    case False
    then show ?thesis using 1 by (auto simp: show_nat.simps [of n])
  qed
qed

lemma is_digit_not_minus: "\<not> is_digit CHR ''-''" "\<not> is_digit CHR ''.''" "\<not> is_digit CHR '',''" "\<not> is_digit NUL"
    "\<not> is_digit CHR ''|''" "\<not> is_digit CHR 0x01"
  by (simp_all add: is_digit_def NUL_def)

lemma read_show_int [simp]: "read_int (show_int i) = i"
proof (cases "i < 0")
  case True
  then show ?thesis by (simp add: show_int_def read_int_def)
next
  case False
  obtain c cs where s: "show_nat (nat i) = c # cs" by (cases "show_nat (nat i)") auto
  then have "is_digit c" using show_nat_digits [of c "nat i"] by simp
  then have "c \<noteq> CHR ''-''" using is_digit_not_minus(1) by auto
  then show ?thesis using False read_show_nat [of "nat i"] by (simp add: show_int_def read_int_def s)
qed

lemma length_show_digits [simp]: "length (show_digits p n) = p"
  by (induction p arbitrary: n) simp_all

lemma read_show_digits: "n < 10 ^ p \<Longrightarrow> read_nat (show_digits p n) = n"
  by (induction p arbitrary: n) (simp_all add: read_nat_def [of "[]"])

lemma show_digits_digits: "c \<in> set (show_digits p n) \<Longrightarrow> is_digit c"
  by (induction p arbitrary: n) auto

lemma show_digits_numeral: "show_digits (numeral k) n = show_digits (pred_numeral k) (n div 10) @ [digit (n mod 10)]"
  by (metis numeral_eq_Suc show_digits.simps(2))

lemma digit_chars: "digit 0 = CHR ''0''" "digit 1 = CHR ''1''" "digit (Suc 0) = CHR ''1''" "digit 2 = CHR ''2''"
    "digit 3 = CHR ''3''" "digit 4 = CHR ''4''" "digit 5 = CHR ''5''" "digit 6 = CHR ''6''" "digit 7 = CHR ''7''"
    "digit 8 = CHR ''8''" "digit 9 = CHR ''9''"
  by (simp_all add: digit_def char_of_def bit_Suc_0_iff)

text \<open>How long a number prints.\<close>

lemma length_show_nat: "n < 10 ^ Suc k \<Longrightarrow> length (show_nat n) \<le> Suc k"
proof (induction k arbitrary: n)
  case 0
  then show ?case by (simp add: show_nat.simps)
next
  case (Suc k)
  have "n div 10 < 10 ^ Suc k" using Suc.prems by (simp add: less_mult_imp_div_less)
  from Suc.IH [OF this] show ?case by (subst show_nat.simps) simp
qed

lemma length_show_int: "- (10 ^ Suc k) < i \<Longrightarrow> i < 10 ^ Suc k \<Longrightarrow> length (show_int i) \<le> Suc (Suc k)"
proof (cases "i < 0")
  case True
  assume "- (10 ^ Suc k) < i"
  then have "nat (- i) < 10 ^ Suc k" using True by (simp add: nat_less_iff)
  from length_show_nat [OF this] True show ?thesis by (simp add: show_int_def)
next
  case False
  assume "i < 10 ^ Suc k"
  then have "nat i < 10 ^ Suc k" using False by (simp add: nat_less_iff)
  from length_show_nat [OF this] False show ?thesis by (simp add: show_int_def)
qed

end
