(* ===== verification/Risk_Engine.thy ===== *)
theory Risk_Engine
  imports Orders Printf
begin

text \<open>
  The pre-trade risk engine of \<open>include/risk_engine.h\<close> and \<open>src/risk_engine.cpp\<close>.

  A \<open>SymbolKey\<close> is its 16 characters. The \<open>unordered_map\<close> of positions is an association list keyed by
  symbol keys (its iteration order is never used). Each \<open>check_*\<close> function yields the text it prints into
  \<open>last_reject_\<close>, or \<open>None\<close> when the order passes. \<open>validate\<close> takes the seconds of the clock reading of
  \<open>update_rate_window\<close> as \<open>now_sec\<close>.
\<close>

section \<open>Symbol keys\<close>

type_synonym symbol_key = "char list"

text \<open>The constructors from a C string and from a \<open>std::string\<close>.\<close>

definition key_of_cstr :: "string \<Rightarrow> symbol_key" where
  "key_of_cstr s = strncpy 16 (cstr s)"

definition key_of_string :: "string \<Rightarrow> symbol_key" where
  "key_of_string s = strncpy 16 s"

definition fnv_step :: "u64 \<Rightarrow> char \<Rightarrow> u64" where
  "fnv_step h c = (h XOR of_char c) * 1099511628211"

definition symbol_hash :: "symbol_key \<Rightarrow> u64" where
  "symbol_hash key = foldl fnv_step 14695981039346656037 (cstr key)"

section \<open>State\<close>

record position =
  net_position :: int
  gross_exposure :: int
  total_notional :: double

definition no_position :: position where
  "no_position = \<lparr>net_position = 0, gross_exposure = 0, total_notional = 0\<rparr>"

record risk_limits =
  max_order_qty :: int
  max_position :: int
  max_exposure :: int
  max_notional :: double
  price_band_pct :: double
  max_orders_per_sec :: int
  enabled :: bool

definition default_limits :: risk_limits where
  "default_limits = \<lparr>max_order_qty = 10000, max_position = 100000, max_exposure = 500000,
     max_notional = d_lit 10000000 1, price_band_pct = d_lit 5 1, max_orders_per_sec = 1000, enabled = True\<rparr>"

record risk_engine =
  limits :: risk_limits
  last_reject :: string
  positions :: "(symbol_key \<times> position) list"
  order_count_this_sec :: int
  sec_window_start :: u64
  killed :: bool

definition new_risk_engine :: risk_engine where
  "new_risk_engine = \<lparr>limits = default_limits, last_reject = '''', positions = [],
     order_count_this_sec = 0, sec_window_start = 0, killed = False\<rparr>"

definition set_limits :: "risk_limits \<Rightarrow> risk_engine \<Rightarrow> risk_engine" where
  "set_limits l e = e\<lparr>limits := l\<rparr>"

text \<open>\<open>positions_.find\<close>, with a default position when the symbol is absent.\<close>

definition position_of :: "risk_engine \<Rightarrow> symbol_key \<Rightarrow> position" where
  "position_of e key = (case map_of (positions e) key of None \<Rightarrow> no_position | Some p \<Rightarrow> p)"

section \<open>Checks\<close>

definition update_rate_window :: "u64 \<Rightarrow> risk_engine \<Rightarrow> risk_engine" where
  "update_rate_window now_sec e =
     (if now_sec \<noteq> sec_window_start e then e\<lparr>sec_window_start := now_sec, order_count_this_sec := 0\<rparr> else e)"

definition check_order_size :: "risk_engine \<Rightarrow> order \<Rightarrow> string option" where
  "check_order_size e ord =
     (if max_order_qty (limits e) < quantity ord then
        Some (''Order size '' @ show_int (quantity ord) @ '' exceeds limit '' @ show_int (max_order_qty (limits e)))
      else if quantity ord \<le> 0 then Some ''Order quantity must be positive''
      else None)"

definition check_position_limit :: "risk_engine \<Rightarrow> order \<Rightarrow> symbol_key \<Rightarrow> string option" where
  "check_position_limit e ord key =
     (let current_pos = net_position (position_of e key);
          new_pos = (if is_buy ord then s32 (current_pos + quantity ord) else s32 (current_pos - quantity ord))
      in if max_position (limits e) < s32 \<bar>new_pos\<bar> then
           Some (''Position '' @ show_int new_pos @ '' exceeds limit '' @ show_int (max_position (limits e))
             @ '' for '' @ cstr key)
         else None)"

definition check_exposure_limit :: "risk_engine \<Rightarrow> order \<Rightarrow> symbol_key \<Rightarrow> string option" where
  "check_exposure_limit e ord key =
     (let new_exp = s32 (gross_exposure (position_of e key) + quantity ord)
      in if max_exposure (limits e) < new_exp then
           Some (''Gross exposure '' @ show_int new_exp @ '' exceeds limit '' @ show_int (max_exposure (limits e))
             @ '' for '' @ cstr key)
         else None)"

definition check_notional_limit :: "risk_engine \<Rightarrow> order \<Rightarrow> symbol_key \<Rightarrow> string option" where
  "check_notional_limit e ord key =
     (if d_le (price ord) 0 \<and> otype ord = LIMIT then None
      else let pr = (if d_lt 0 (price ord) then price ord else d_lit 1 1);
               notional = d_mul pr (d_of_int (quantity ord));
               current_notional = total_notional (position_of e key)
           in if d_lt (max_notional (limits e)) (d_add current_notional notional) then
                Some (''Notional value '' @ show_fixed 2 notional @ '' exceeds limit ''
                  @ show_fixed 2 (max_notional (limits e)) @ '' for '' @ cstr key)
              else None)"

definition check_price_band :: "risk_engine \<Rightarrow> order \<Rightarrow> double \<Rightarrow> string option" where
  "check_price_band e ord mid =
     (if d_le mid 0 \<or> d_le (price ord) 0 then None
      else if otype ord = MARKET then None
      else let deviation = d_mul (d_div (d_abs (d_sub (price ord) mid)) mid) (d_lit 100 1)
           in if d_lt (price_band_pct (limits e)) deviation then
                Some (''Price '' @ show_fixed 4 (price ord) @ '' deviates '' @ show_fixed 2 deviation @ ''% from mid ''
                  @ show_fixed 4 mid @ '' (limit '' @ show_fixed 2 (price_band_pct (limits e)) @ ''%)'')
              else None)"

definition check_rate_limit :: "risk_engine \<Rightarrow> string option" where
  "check_rate_limit e =
     (if max_orders_per_sec (limits e) \<le> 0 then None
      else if max_orders_per_sec (limits e) \<le> order_count_this_sec e then
        Some (''Rate limit exceeded: '' @ show_int (order_count_this_sec e) @ '' orders in current second'')
      else None)"

text \<open>The sequence of checks in \<open>validate\<close>, stopping at the first failure.\<close>

definition first_failure :: "string option list \<Rightarrow> string option" where
  "first_failure cs = (case dropWhile (\<lambda>c. c = None) cs of [] \<Rightarrow> None | c # _ \<Rightarrow> c)"

definition validate :: "u64 \<Rightarrow> order \<Rightarrow> double \<Rightarrow> risk_engine \<Rightarrow> bool \<times> risk_engine" where
  "validate now_sec ord mid e0 =
     (let e = e0\<lparr>last_reject := ''''\<rparr> in
      if killed e then
        (False, e\<lparr>last_reject := snprintf 256 (''Risk engine killed '' @ [CHR 0xE2, CHR 0x80, CHR 0x94] @ '' all orders rejected'')\<rparr>)
      else if \<not> enabled (limits e) then (True, e)
      else let e = update_rate_window now_sec e;
               key = key_of_cstr (symbol ord)
           in case first_failure [check_rate_limit e, check_order_size e ord, check_position_limit e ord key,
                check_exposure_limit e ord key, check_notional_limit e ord key, check_price_band e ord mid] of
                Some msg \<Rightarrow> (False, e\<lparr>last_reject := snprintf 256 msg\<rparr>)
              | None \<Rightarrow> (True, e\<lparr>order_count_this_sec := s32 (order_count_this_sec e + 1)\<rparr>))"

section \<open>Positions and control\<close>

definition on_order_executed :: "order \<Rightarrow> int \<Rightarrow> double \<Rightarrow> risk_engine \<Rightarrow> risk_engine" where
  "on_order_executed ord qty pr e =
     (let key = key_of_cstr (symbol ord);
          pos = position_of e key;
          pos' = \<lparr>net_position = (if is_buy ord then s32 (net_position pos + qty) else s32 (net_position pos - qty)),
                  gross_exposure = s32 (gross_exposure pos + qty),
                  total_notional = d_add (total_notional pos) (d_mul pr (d_of_int qty))\<rparr>
      in e\<lparr>positions := AList.update key pos' (positions e)\<rparr>)"

definition on_order_cancelled :: "order \<Rightarrow> risk_engine \<Rightarrow> risk_engine" where
  "on_order_cancelled ord e = e"

definition get_position_string :: "string \<Rightarrow> risk_engine \<Rightarrow> position" where
  "get_position_string s e = position_of e (key_of_string s)"

definition get_position_cstr :: "string \<Rightarrow> risk_engine \<Rightarrow> position" where
  "get_position_cstr s e = position_of e (key_of_cstr s)"

definition risk_reset :: "risk_engine \<Rightarrow> risk_engine" where
  "risk_reset e = e\<lparr>positions := [], order_count_this_sec := 0, sec_window_start := 0, killed := False\<rparr>"

definition kill_switch :: "bool \<Rightarrow> risk_engine \<Rightarrow> risk_engine" where
  "kill_switch b e = e\<lparr>killed := b\<rparr>"

definition is_killed :: "risk_engine \<Rightarrow> bool" where
  "is_killed e = killed e"

definition current_rate :: "risk_engine \<Rightarrow> int" where
  "current_rate e = order_count_this_sec e"

end
