(* ===== verification/Risk_Properties.thy ===== *)
theory Risk_Properties
  imports Risk_Engine
begin

text \<open>
  Properties of the risk engine: when \<open>validate\<close> accepts, that positions stay inside the limits over
  every history of validated executions, the rate limit, the kill switch, the isolation of symbols, and
  what the checks let through.
\<close>

section \<open>Validation\<close>

lemma first_failure_None [simp]: "first_failure [] = None" "first_failure (None # cs) = first_failure cs"
  "first_failure (Some m # cs) = Some m"
  by (simp_all add: first_failure_def)

lemma first_failure_eq_None: "first_failure cs = None \<longleftrightarrow> (\<forall>c \<in> set cs. c = None)"
  by (induction cs) (auto split: option.splits simp: first_failure_def)

text \<open>What an accepted order satisfies. \<open>e1\<close> is the engine after the rate window was moved.\<close>

definition passes :: "risk_engine \<Rightarrow> order \<Rightarrow> double \<Rightarrow> bool" where
  "passes e1 ord mid \<longleftrightarrow>
     (let L = limits e1; key = key_of_cstr (symbol ord); pos = position_of e1 key in
       (max_orders_per_sec L \<le> 0 \<or> order_count_this_sec e1 < max_orders_per_sec L)
       \<and> 0 < quantity ord \<and> quantity ord \<le> max_order_qty L
       \<and> s32 \<bar>s32 (net_position pos + (if is_buy ord then quantity ord else - quantity ord))\<bar> \<le> max_position L
       \<and> s32 (gross_exposure pos + quantity ord) \<le> max_exposure L
       \<and> check_notional_limit e1 ord key = None \<and> check_price_band e1 ord mid = None)"

lemma passes_iff: "passes e ord mid \<longleftrightarrow> first_failure [check_rate_limit e, check_order_size e ord,
    check_position_limit e ord (key_of_cstr (symbol ord)), check_exposure_limit e ord (key_of_cstr (symbol ord)),
    check_notional_limit e ord (key_of_cstr (symbol ord)), check_price_band e ord mid] = None"
  by (auto simp: passes_def first_failure_eq_None Let_def check_rate_limit_def check_order_size_def
      check_position_limit_def check_exposure_limit_def)

lemma validate_cases:
  assumes "\<not> killed e" and "enabled (limits e)"
  shows "validate now_sec ord mid e =
    (let e1 = update_rate_window now_sec (e\<lparr>last_reject := ''''\<rparr>) in
      if passes e1 ord mid then (True, e1\<lparr>order_count_this_sec := s32 (order_count_this_sec e1 + 1)\<rparr>)
      else (False, snd (validate now_sec ord mid e)))"
  using assms by (simp add: validate_def Let_def passes_iff split: option.splits)

lemma update_rate_window_keeps [simp]:
  "limits (update_rate_window n e) = limits e" "positions (update_rate_window n e) = positions e"
  "killed (update_rate_window n e) = killed e" "sec_window_start (update_rate_window n e) = n"
  by (simp_all add: update_rate_window_def)

lemma validate_keeps [simp]:
  "limits (snd (validate n ord mid e)) = limits e" "positions (snd (validate n ord mid e)) = positions e"
  "killed (snd (validate n ord mid e)) = killed e"
  by (simp_all add: validate_def Let_def split: option.splits)

lemma position_of_cong: "positions e = positions e' \<Longrightarrow> position_of e = position_of e'"
  by (rule ext) (simp add: position_of_def)

lemma position_of_keeps [simp]:
  "position_of (update_rate_window n e) = position_of e" "position_of (e\<lparr>last_reject := s\<rparr>) = position_of e"
  "position_of (e\<lparr>order_count_this_sec := c\<rparr>) = position_of e" "position_of (e\<lparr>killed := b\<rparr>) = position_of e"
  "position_of (snd (validate n ord mid e)) = position_of e"
  by (rule position_of_cong, simp)+

lemma validate_count: "order_count_this_sec (snd (validate n ord mid e)) =
    (if killed e \<or> \<not> enabled (limits e) then order_count_this_sec e
     else if fst (validate n ord mid e) then s32 (order_count_this_sec (update_rate_window n e) + 1)
     else order_count_this_sec (update_rate_window n e))"
  "sec_window_start (snd (validate n ord mid e)) =
    (if killed e \<or> \<not> enabled (limits e) then sec_window_start e else n)"
  by (simp_all add: validate_def Let_def update_rate_window_def split: option.splits)

lemma validate_True_passes:
  assumes "validate n ord mid e = (True, e')" and "enabled (limits e)"
  shows "\<not> killed e" and "passes (update_rate_window n (e\<lparr>last_reject := ''''\<rparr>)) ord mid"
proof -
  show k: "\<not> killed e" using assms(1) by (auto simp: validate_def Let_def)
  show "passes (update_rate_window n (e\<lparr>last_reject := ''''\<rparr>)) ord mid"
  proof (rule ccontr)
    assume "\<not> ?thesis"
    then have "fst (validate n ord mid e) = False" by (subst validate_cases [OF k assms(2)]) (simp add: Let_def)
    then show False using assms(1) by simp
  qed
qed

section \<open>Positions over a history\<close>

text \<open>The engine as the pipeline drives it: an order that was accepted is executed for at most its
  quantity before the next one is validated; rejected orders, cancellations, the kill switch and a
  reset may come at any time. The limits are set once, at the start.\<close>

inductive risk_history :: "risk_limits \<Rightarrow> risk_engine \<Rightarrow> bool" for L where
  risk_start: "risk_history L (set_limits L new_risk_engine)"
| risk_trade: "risk_history L e \<Longrightarrow> validate n ord mid e = (True, e1) \<Longrightarrow> 0 \<le> q \<Longrightarrow> q \<le> quantity ord \<Longrightarrow>
    risk_history L (on_order_executed ord q pr e1)"
| risk_validate: "risk_history L e \<Longrightarrow> risk_history L (snd (validate n ord mid e))"
| risk_cancel: "risk_history L e \<Longrightarrow> risk_history L (on_order_cancelled ord e)"
| risk_kill: "risk_history L e \<Longrightarrow> risk_history L (kill_switch b e)"
| risk_reset: "risk_history L e \<Longrightarrow> risk_history L (risk_reset e)"

definition limits_ok :: "risk_limits \<Rightarrow> bool" where
  "limits_ok L \<longleftrightarrow> enabled L \<and> 0 \<le> max_position L \<and> 0 \<le> max_exposure L \<and>
     max_position L + max_order_qty L < 2 ^ 31 \<and> max_exposure L + max_order_qty L < 2 ^ 31"

definition within_limits :: "risk_limits \<Rightarrow> position \<Rightarrow> bool" where
  "within_limits L p \<longleftrightarrow> \<bar>net_position p\<bar> \<le> max_position L \<and> 0 \<le> gross_exposure p \<and> gross_exposure p \<le> max_exposure L
     \<and> \<bar>net_position p\<bar> \<le> gross_exposure p"

lemma on_order_executed_position: "position_of (on_order_executed ord q pr e) k =
    (if k = key_of_cstr (symbol ord) then
       \<lparr>net_position = (if is_buy ord then s32 (net_position (position_of e k) + q) else s32 (net_position (position_of e k) - q)),
        gross_exposure = s32 (gross_exposure (position_of e k) + q),
        total_notional = d_add (total_notional (position_of e k)) (d_mul pr (d_of_int q))\<rparr>
     else position_of e k)"
  by (simp add: on_order_executed_def Let_def position_of_def update_conv')

lemma execution_within_limits:
  assumes L: "limits_ok (limits e)" and p: "within_limits (limits e) (position_of e (key_of_cstr (symbol ord)))"
    and ok: "passes e ord mid" and q: "0 \<le> q" "q \<le> quantity ord"
  shows "within_limits (limits e) (position_of (on_order_executed ord q pr e) (key_of_cstr (symbol ord)))"
proof -
  let ?p = "position_of e (key_of_cstr (symbol ord))" and ?L = "limits e"
  have qty: "0 < quantity ord" "quantity ord \<le> max_order_qty ?L" using ok by (simp_all add: passes_def Let_def)
  have np: "\<bar>net_position ?p\<bar> \<le> max_position ?L" "0 \<le> gross_exposure ?p" "gross_exposure ?p \<le> max_exposure ?L"
      "\<bar>net_position ?p\<bar> \<le> gross_exposure ?p"
    using p by (simp_all add: within_limits_def)
  have room: "max_position ?L + quantity ord < 2147483648" "max_exposure ?L + quantity ord < 2147483648"
    using L qty by (simp_all add: limits_ok_def)
  have id: "s32 (net_position ?p + x) = net_position ?p + x" if "\<bar>x\<bar> \<le> quantity ord" for x
    using np room that by (intro s32_id) linarith+
  have gid: "s32 (gross_exposure ?p + x) = gross_exposure ?p + x" if "0 \<le> x" "x \<le> quantity ord" for x
    using np room that by (intro s32_id) linarith+
  let ?d = "if is_buy ord then quantity ord else - quantity ord"
  have "\<bar>?d\<bar> \<le> quantity ord" using qty by simp
  then have "s32 \<bar>s32 (net_position ?p + ?d)\<bar> = \<bar>net_position ?p + ?d\<bar>"
    using np room by (simp only: id) (intro s32_id; linarith)
  then have new: "\<bar>net_position ?p + ?d\<bar> \<le> max_position ?L" using ok by (simp add: passes_def Let_def)
  have exp: "gross_exposure ?p + quantity ord \<le> max_exposure ?L"
    using ok gid [of "quantity ord"] qty by (simp add: passes_def Let_def)
  have minus: "s32 (net_position ?p - q) = net_position ?p - q" using id [of "- q"] q by simp
  show ?thesis
    using np new exp q id [of q] gid [of q] minus
    by (simp add: on_order_executed_position within_limits_def abs_le_iff split: if_splits)
qed

lemma risk_history_inv: "risk_history L e \<Longrightarrow> limits_ok L \<Longrightarrow>
    limits e = L \<and> (\<forall>k. within_limits L (position_of e k))"
proof (induction rule: risk_history.induct)
  case risk_start
  then show ?case by (simp add: set_limits_def new_risk_engine_def position_of_def no_position_def within_limits_def limits_ok_def)
next
  case (risk_trade e n ord mid e1 q pr)
  then have IH: "limits e = L" "\<forall>k. within_limits L (position_of e k)" by auto
  have en: "enabled (limits e)" using IH risk_trade.prems by (simp add: limits_ok_def)
  have e1: "limits e1 = L" "position_of e1 = position_of e"
    using validate_keeps(1) [of n ord mid e] position_of_keeps(5) [of n ord mid e] IH(1)
    by (simp_all add: risk_trade.hyps(2))
  have "passes (update_rate_window n (e\<lparr>last_reject := ''''\<rparr>)) ord mid"
    by (rule validate_True_passes [OF risk_trade.hyps(2) en])
  then have w: "within_limits L (position_of (on_order_executed ord q pr (update_rate_window n (e\<lparr>last_reject := ''''\<rparr>))) (key_of_cstr (symbol ord)))"
    using execution_within_limits [of "update_rate_window n (e\<lparr>last_reject := ''''\<rparr>)" ord mid q pr] IH risk_trade
    by simp
  have "within_limits L (position_of (on_order_executed ord q pr e1) k)" for k
  proof -
    have "position_of (on_order_executed ord q pr e1) k =
        position_of (on_order_executed ord q pr (update_rate_window n (e\<lparr>last_reject := ''''\<rparr>))) k"
      by (simp only: on_order_executed_position e1(2) position_of_keeps)
    then show ?thesis
    proof (cases "k = key_of_cstr (symbol ord)")
      case True
      then show ?thesis using w \<open>_ = position_of _ k\<close> by simp
    next
      case False
      then show ?thesis using IH(2) by (simp add: on_order_executed_position e1(2))
    qed
  qed
  moreover have "limits (on_order_executed ord q pr e1) = L" by (simp add: on_order_executed_def Let_def e1(1))
  ultimately show ?case by blast
next
  case (risk_reset e)
  then show ?case by (simp add: risk_reset_def position_of_def no_position_def within_limits_def limits_ok_def)
qed (simp_all add: on_order_cancelled_def kill_switch_def)

text \<open>C18: positions never leave their limits. For limits that do not overflow 32 bits together with an
  order, in every history in which each accepted order is executed for at most its quantity before the
  next one is validated, every symbol's net position stays within \<open>max_position\<close> in absolute value and
  its gross exposure within \<open>max_exposure\<close>, with no wrap-around.\<close>

theorem risk_positions_within_limits:
  assumes "limits_ok L" and "risk_history L e"
  shows "\<bar>net_position (get_position_cstr s e)\<bar> \<le> max_position L
    \<and> 0 \<le> gross_exposure (get_position_cstr s e) \<and> gross_exposure (get_position_cstr s e) \<le> max_exposure L"
  using risk_history_inv [OF assms(2,1)] by (simp add: get_position_cstr_def within_limits_def)

definition ex_ord :: order where
  "ex_ord = empty_order\<lparr>oid := 1, side := BUY, price := 0x4059000000000000, quantity := 500, symbol := ''AAPL''\<rparr>"

definition ex_limits :: risk_limits where
  "ex_limits = \<lparr>max_order_qty = 1000, max_position = 2000, max_exposure = 5000, max_notional = 0x7FF0000000000000,
     price_band_pct = 0x7FF0000000000000, max_orders_per_sec = 10, enabled = True\<rparr>"

lemma inf_not_lt: "\<not> d_lt 0x7FF0000000000000 x"
proof -
  have "d_int x \<le> d_int 0x7FF0000000000000" if "\<not> is_nan x"
  proof -
    have "d_int 0x7FF0000000000000 = int (mag_val inf_mag)" by (simp add: d_int_def d_sign_def d_mag_def inf_mag_def)
    moreover have "mag_val (d_mag x) \<le> mag_val inf_mag" using that by (simp add: is_nan_def)
    ultimately show ?thesis by (auto simp: d_int_def simp del: mag_val_mono_iff)
  qed
  then show ?thesis by (auto simp: d_lt_def)
qed

lemma ex_checks: "max_notional (limits e) = 0x7FF0000000000000 \<Longrightarrow> check_notional_limit e ex_ord k = None"
  "check_price_band e ex_ord 0 = None"
proof -
  show "max_notional (limits e) = 0x7FF0000000000000 \<Longrightarrow> check_notional_limit e ex_ord k = None"
    by (simp add: check_notional_limit_def Let_def inf_not_lt)
  have "d_le 0 0" by (simp add: d_eval)
  then show "check_price_band e ex_ord 0 = None" by (simp add: check_price_band_def)
qed

lemma ex_validate: "validate 7 ex_ord 0 (set_limits ex_limits new_risk_engine) =
    (True, (set_limits ex_limits new_risk_engine)\<lparr>sec_window_start := 7, order_count_this_sec := 1\<rparr>)"
proof -
  let ?e = "set_limits ex_limits new_risk_engine"
  let ?e1 = "?e\<lparr>sec_window_start := 7\<rparr>"
  have "passes ?e1 ex_ord 0"
    unfolding passes_def Let_def
    by (intro conjI ex_checks) (simp_all add: set_limits_def ex_limits_def new_risk_engine_def ex_ord_def is_buy_def
        position_of_def no_position_def s32_def)
  moreover have "update_rate_window 7 (?e\<lparr>last_reject := ''''\<rparr>) = ?e1"
    by (simp add: update_rate_window_def set_limits_def new_risk_engine_def)
  moreover have "\<not> killed ?e" "enabled (limits ?e)" by (simp_all add: set_limits_def new_risk_engine_def ex_limits_def)
  ultimately show ?thesis
    using validate_cases [of ?e 7 ex_ord 0] by (simp add: Let_def set_limits_def new_risk_engine_def s32_def)
qed

theorem risk_positions_within_limits_witness:
  "\<exists>e. risk_history ex_limits e \<and> \<bar>net_position (get_position_cstr ''AAPL'' e)\<bar> \<le> 2000
     \<and> gross_exposure (get_position_cstr ''AAPL'' e) \<le> 5000"
proof -
  have L: "limits_ok ex_limits" by (simp add: limits_ok_def ex_limits_def)
  have h: "risk_history ex_limits (on_order_executed ex_ord 300 (price ex_ord)
      ((set_limits ex_limits new_risk_engine)\<lparr>sec_window_start := 7, order_count_this_sec := 1\<rparr>))"
    by (rule risk_trade [OF risk_start ex_validate]) (simp_all add: ex_ord_def)
  show ?thesis using risk_positions_within_limits [OF L h, of "''AAPL''"] h by (auto simp: ex_limits_def)
qed

text \<open>The rules that an order must not break, as a table: when it breaks one, and what is then said. The rate is the number of orders accepted in
  the second, \<open>pos\<close> the position in the symbol; quantities are 32-bit, money is in binary64.\<close>

definition risk_rules :: "risk_limits \<Rightarrow> int \<Rightarrow> position \<Rightarrow> order \<Rightarrow> double \<Rightarrow> (bool \<times> string) list" where
  "risk_rules l rate pos ord mid =
     (let qty = quantity ord; pr = price ord; name = cstr (key_of_cstr (symbol ord));
          after = s32 (net_position pos + (if is_buy ord then qty else - qty));
          exposure = s32 (gross_exposure pos + qty);
          worth = d_mul (if d_lt 0 pr then pr else d_lit 1 1) (d_of_int qty);
          off = d_mul (d_div (d_abs (d_sub pr mid)) mid) (d_lit 100 1)
      in [(0 < max_orders_per_sec l \<and> max_orders_per_sec l \<le> rate, ''Rate limit exceeded: '' @ show_int rate @ '' orders in current second''),
          (max_order_qty l < qty, ''Order size '' @ show_int qty @ '' exceeds limit '' @ show_int (max_order_qty l)),
          (qty \<le> 0, ''Order quantity must be positive''),
          (max_position l < s32 \<bar>after\<bar>, ''Position '' @ show_int after @ '' exceeds limit '' @ show_int (max_position l) @ '' for '' @ name),
          (max_exposure l < exposure, ''Gross exposure '' @ show_int exposure @ '' exceeds limit '' @ show_int (max_exposure l) @ '' for '' @ name),
          (\<not> (otype ord = LIMIT \<and> d_le pr 0) \<and> d_lt (max_notional l) (d_add (total_notional pos) worth),
             ''Notional value '' @ show_fixed 2 worth @ '' exceeds limit '' @ show_fixed 2 (max_notional l) @ '' for '' @ name),
          (otype ord \<noteq> MARKET \<and> \<not> d_le mid 0 \<and> \<not> d_le pr 0 \<and> d_lt (price_band_pct l) off,
             ''Price '' @ show_fixed 4 pr @ '' deviates '' @ show_fixed 2 off @ ''% from mid '' @ show_fixed 4 mid @ '' (limit '' @ show_fixed 2 (price_band_pct l) @ ''%)'')])"

lemma find_first: "find P xs = Some x \<Longrightarrow> x = hd (filter P xs) \<and> x \<in> set xs \<and> P x"
  by (induction xs) (auto split: if_splits)

lemma first_failure_if: "first_failure [] = None" "first_failure ((if c then Some t else None) # cs) = (if c then Some t else first_failure cs)"
  by (simp_all add: first_failure_def)

lemma first_failure_order_size:
  "first_failure (check_order_size e ord # cs) = first_failure ((if max_order_qty (limits e) < quantity ord then Some (''Order size '' @ show_int (quantity ord) @ '' exceeds limit ''
     @ show_int (max_order_qty (limits e))) else None) # (if quantity ord \<le> 0 then Some ''Order quantity must be positive'' else None) # cs)"
  by (simp add: first_failure_def check_order_size_def)

lemma check_as_if:
  "check_rate_limit e = (if 0 < max_orders_per_sec (limits e) \<and> max_orders_per_sec (limits e) \<le> order_count_this_sec e
     then Some (''Rate limit exceeded: '' @ show_int (order_count_this_sec e) @ '' orders in current second'') else None)"
  "check_notional_limit e ord key = (let worth = d_mul (if d_lt 0 (price ord) then price ord else d_lit 1 1) (d_of_int (quantity ord)) in
     if \<not> (otype ord = LIMIT \<and> d_le (price ord) 0) \<and> d_lt (max_notional (limits e)) (d_add (total_notional (position_of e key)) worth)
     then Some (''Notional value '' @ show_fixed 2 worth @ '' exceeds limit '' @ show_fixed 2 (max_notional (limits e)) @ '' for '' @ cstr key) else None)"
  "check_price_band e ord mid = (let off = d_mul (d_div (d_abs (d_sub (price ord) mid)) mid) (d_lit 100 1) in
     if otype ord \<noteq> MARKET \<and> \<not> d_le mid 0 \<and> \<not> d_le (price ord) 0 \<and> d_lt (price_band_pct (limits e)) off
     then Some (''Price '' @ show_fixed 4 (price ord) @ '' deviates '' @ show_fixed 2 off @ ''% from mid '' @ show_fixed 4 mid @ '' (limit '' @ show_fixed 2 (price_band_pct (limits e)) @ ''%)'')
     else None)"
  by (auto simp: check_rate_limit_def check_notional_limit_def check_price_band_def Let_def)

lemma checks_follow_rules:
  "first_failure [check_rate_limit e, check_order_size e ord, check_position_limit e ord (key_of_cstr (symbol ord)), check_exposure_limit e ord (key_of_cstr (symbol ord)),
      check_notional_limit e ord (key_of_cstr (symbol ord)), check_price_band e ord mid]
    = map_option snd (find fst (risk_rules (limits e) (order_count_this_sec e) (position_of e (key_of_cstr (symbol ord))) ord mid))"
proof -
  have pos: "s32 (net_position p + (if is_buy ord then quantity ord else - quantity ord)) = (if is_buy ord then s32 (net_position p + quantity ord) else s32 (net_position p - quantity ord))" for p
    by simp
  show ?thesis
    unfolding check_as_if(1) first_failure_if first_failure_order_size check_position_limit_def check_exposure_limit_def check_as_if(2,3) Let_def
      risk_rules_def pos by (simp only: find.simps fst_conv if_distrib [of "map_option snd"] option.map snd_conv first_failure_if)
qed

text \<open>C32: exactly what \<open>validate\<close> decides and says. With the engine enabled and not killed, an order is accepted if
  and only if it breaks none of the rules of the table: the rate of the current second below its limit, the quantity positive and at most
  the maximum, the new position and exposure in 32-bit arithmetic, the notional, and for a limit order the deviation of its price from the mid within
  their limits. Accepting counts the order and leaves no text; rejecting leaves the rate alone and leaves the text of the first rule broken,
  with its figures, cut to 255 characters. Positions and limits never change.\<close>

theorem validate_accepts_iff:
  assumes "\<not> killed e" and "enabled (limits e)"
  shows "(let e1 = update_rate_window n e; rules = risk_rules (limits e) (current_rate e1) (get_position_cstr (symbol ord) e) ord mid;
        (accepted, e2) = validate n ord mid e
     in (accepted \<longleftrightarrow> (\<forall>(broken, why) \<in> set rules. \<not> broken))
      \<and> last_reject e2 = (if accepted then [] else take 255 (snd (hd (filter fst rules))))
      \<and> current_rate e2 = (if accepted then s32 (current_rate e1 + 1) else current_rate e1)
      \<and> positions e2 = positions e \<and> limits e2 = limits e)"
proof -
  let ?e = "update_rate_window n (e\<lparr>last_reject := []\<rparr>)" and ?e1 = "update_rate_window n e"
  let ?rules = "risk_rules (limits e) (current_rate ?e1) (get_position_cstr (symbol ord) e) ord mid"
  have same: "limits ?e = limits e" "order_count_this_sec ?e = order_count_this_sec ?e1" "positions ?e = positions e" "last_reject ?e = []"
    by (simp_all add: update_rate_window_def)
  have rules: "risk_rules (limits ?e) (order_count_this_sec ?e) (position_of ?e (key_of_cstr (symbol ord))) ord mid = ?rules"
    using same by (simp add: current_rate_def get_position_cstr_def position_of_def)
  have v: "validate n ord mid e = (case find fst ?rules of Some r \<Rightarrow> (False, ?e\<lparr>last_reject := take 255 (snd r)\<rparr>)
      | None \<Rightarrow> (True, ?e\<lparr>order_count_this_sec := s32 (order_count_this_sec ?e + 1)\<rparr>))"
    using assms unfolding validate_def Let_def checks_follow_rules rules by (simp add: snprintf_def split: option.split)
  show ?thesis
  proof (cases "find fst ?rules")
    case None
    then have "\<forall>r \<in> set ?rules. \<not> fst r" unfolding find_None_iff by blast
    then show ?thesis using None same v by (auto simp: Let_def current_rate_def)
  next
    case (Some r)
    then have "r = hd (filter fst ?rules)" "\<not> (\<forall>r \<in> set ?rules. \<not> fst r)" using find_first [OF Some] by auto
    then show ?thesis using Some same v by (auto simp: Let_def current_rate_def)
  qed
qed

theorem validate_accepts_iff_witness: "fst (validate 7 ex_ord 0 (set_limits ex_limits new_risk_engine))"
proof -
  let ?e = "set_limits ex_limits new_risk_engine"
  have k: "\<not> killed ?e" "enabled (limits ?e)" by (simp_all add: set_limits_def new_risk_engine_def ex_limits_def)
  have "quantity ex_ord = 500" "is_buy ex_ord" "get_position_cstr (symbol ex_ord) ?e = no_position"
      "current_rate (update_rate_window 7 ?e) = 0" "limits ?e = ex_limits"
    by (simp_all add: ex_ord_def is_buy_def get_position_cstr_def position_of_def set_limits_def new_risk_engine_def
        current_rate_def update_rate_window_def)
  moreover have "d_le 0 0" by (simp add: d_eval)
  moreover have "\<not> d_lt (max_notional ex_limits) x" for x by (simp add: ex_limits_def inf_not_lt)
  ultimately show ?thesis
    using validate_accepts_iff [OF k, of 7 ex_ord 0] by (simp add: Let_def risk_rules_def ex_limits_def no_position_def s32_def split: prod.splits)
qed

section \<open>Rate limit and kill switch\<close>

fun validate_all :: "u64 \<Rightarrow> (order \<times> double) list \<Rightarrow> risk_engine \<Rightarrow> bool list \<times> risk_engine" where
  "validate_all n [] e = ([], e)"
| "validate_all n ((ord, mid) # os) e =
    (case validate n ord mid e of (r, e1) \<Rightarrow> (case validate_all n os e1 of (rs, e2) \<Rightarrow> (r # rs, e2)))"

lemma validate_rate_step:
  assumes "enabled (limits e)" and "0 < max_orders_per_sec (limits e)" and "max_orders_per_sec (limits e) < 2 ^ 31"
    and "0 \<le> order_count_this_sec e" and "validate n ord mid e = (r, e1)" and "sec_window_start e = n"
  shows "sec_window_start e1 = n" and "order_count_this_sec e1 = order_count_this_sec e + (if r then 1 else 0)"
    and "r \<Longrightarrow> order_count_this_sec e < max_orders_per_sec (limits e)"
proof -
  have w: "update_rate_window n (e\<lparr>last_reject := ''''\<rparr>) = e\<lparr>last_reject := ''''\<rparr>"
    using assms(6) by (simp add: update_rate_window_def)
  have acc: "order_count_this_sec e < max_orders_per_sec (limits e)" if r
    using validate_True_passes(2) [of n ord mid e e1] assms(1,2,5) that by (auto simp: passes_def Let_def w)
  then show "r \<Longrightarrow> order_count_this_sec e < max_orders_per_sec (limits e)" .
  have "s32 (order_count_this_sec e + 1) = order_count_this_sec e + 1" if r
    using acc [OF that] assms(3,4) by (intro s32_id) simp_all
  moreover have e1: "e1 = snd (validate n ord mid e)" "r = fst (validate n ord mid e)" using assms(5) by simp_all
  moreover have "\<not> killed e" if r using validate_True_passes(1) [of n ord mid e e1] assms(1,5) that by simp
  moreover have "order_count_this_sec (update_rate_window n e) = order_count_this_sec e"
    using assms(6) by (simp add: update_rate_window_def)
  ultimately show "order_count_this_sec e1 = order_count_this_sec e + (if r then 1 else 0)"
    using validate_count(1) [of n ord mid e] assms(1) by (cases r) simp_all
  show "sec_window_start e1 = n" unfolding e1 using validate_count(2) [of n ord mid e] assms(6) by simp
qed

lemma validate_all_rate:
  assumes "enabled (limits e)" and "0 < max_orders_per_sec (limits e)" and "max_orders_per_sec (limits e) < 2 ^ 31"
    and "0 \<le> order_count_this_sec e" and "order_count_this_sec e \<le> max_orders_per_sec (limits e)" and "sec_window_start e = n"
    and "validate_all n os e = (rs, e')"
  shows "order_count_this_sec e + int (length (filter id rs)) \<le> max_orders_per_sec (limits e)"
  using assms
proof (induction os arbitrary: e rs)
  case (Cons o1 os)
  obtain ord mid where o: "o1 = (ord, mid)" by (cases o1)
  obtain r e1 where v: "validate n ord mid e = (r, e1)" by (cases "validate n ord mid e")
  obtain rs' where vs: "validate_all n os e1 = (rs', e')" "rs = r # rs'"
    using Cons.prems(7) by (auto simp: o v split: prod.splits)
  note st = validate_rate_step [OF Cons.prems(1-4) v Cons.prems(6)]
  have l: "limits e1 = limits e" using validate_keeps(1) [of n ord mid e] by (simp add: v)
  have "order_count_this_sec e1 + int (length (filter id rs')) \<le> max_orders_per_sec (limits e1)"
    by (rule Cons.IH [OF _ _ _ _ _ st(1) vs(1)]) (use Cons.prems st(2,3) l in \<open>auto split: if_splits\<close>)
  then show ?case using st(2) vs(2) l by (cases r) (simp_all add: id_def)
qed simp

lemma validate_first: "\<not> killed e \<Longrightarrow> enabled (limits e) \<Longrightarrow>
    validate n ord mid e = validate n ord mid (update_rate_window n e)"
proof -
  have "update_rate_window n ((update_rate_window n e)\<lparr>last_reject := m\<rparr>) = update_rate_window n (e\<lparr>last_reject := m\<rparr>)" for m
    by (simp add: update_rate_window_def)
  then show "\<not> killed e \<Longrightarrow> enabled (limits e) \<Longrightarrow> ?thesis" by (simp add: validate_def Let_def)
qed

text \<open>C33: the rate limit. Whatever orders are submitted within one second of the clock, at most
  \<open>max_orders_per_sec\<close> of them are accepted.\<close>

theorem rate_limit_per_second:
  assumes "enabled (limits e)" and "0 < max_orders_per_sec (limits e)" and "max_orders_per_sec (limits e) < 2 ^ 31"
    and "0 \<le> current_rate e" and "current_rate e \<le> max_orders_per_sec (limits e)"
  shows "int (length (filter id (fst (validate_all n os e)))) \<le> max_orders_per_sec (limits e)"
proof (cases "killed e")
  case True
  have "fst (validate_all n os e) = replicate (length os) False \<and> killed (snd (validate_all n os e))" if "killed e" for e
    using that
  proof (induction os arbitrary: e)
    case (Cons o1 os)
    obtain ord mid where o: "o1 = (ord, mid)" by (cases o1)
    obtain r e1 where v: "validate n ord mid e = (r, e1)" by (cases "validate n ord mid e")
    have "\<not> r" "killed e1" using v Cons.prems by (auto simp: validate_def Let_def)
    with Cons.IH [of e1] show ?case by (cases "validate_all n os e1") (simp add: o v)
  qed simp
  then have "fst (validate_all n os e) = replicate (length os) False" using True by blast
  then show ?thesis using assms(2) by simp
next
  case False
  let ?e = "update_rate_window n e"
  obtain rs e' where run: "validate_all n os ?e = (rs, e')" by (cases "validate_all n os ?e")
  have cnt: "0 \<le> order_count_this_sec ?e" "order_count_this_sec ?e \<le> max_orders_per_sec (limits ?e)"
    using assms by (auto simp: update_rate_window_def current_rate_def)
  have "order_count_this_sec ?e + int (length (filter id rs)) \<le> max_orders_per_sec (limits ?e)"
    by (rule validate_all_rate [OF _ _ _ cnt _ run]) (use assms in simp_all)
  moreover have "fst (validate_all n os e) = rs"
  proof (cases os)
    case Nil
    then show ?thesis using run by simp
  next
    case (Cons o1 os')
    then show ?thesis using run validate_first [OF False assms(1)] by (cases o1) (simp split: prod.splits)
  qed
  ultimately show ?thesis using cnt(1) by simp
qed

theorem rate_limit_per_second_witness:
  "length (filter id (fst (validate_all 7 (replicate 50 (ex_ord, 0)) (set_limits ex_limits new_risk_engine)))) \<le> 10"
  using rate_limit_per_second [of "set_limits ex_limits new_risk_engine" 7 "replicate 50 (ex_ord, 0)"]
  by (simp add: set_limits_def ex_limits_def new_risk_engine_def current_rate_def)

inductive risk_calls :: "risk_engine \<Rightarrow> risk_engine \<Rightarrow> bool" where
  calls_none: "risk_calls e e"
| calls_validate: "risk_calls e e' \<Longrightarrow> risk_calls e (snd (validate n ord mid e'))"
| calls_executed: "risk_calls e e' \<Longrightarrow> risk_calls e (on_order_executed ord q pr e')"
| calls_cancelled: "risk_calls e e' \<Longrightarrow> risk_calls e (on_order_cancelled ord e')"
| calls_limits: "risk_calls e e' \<Longrightarrow> risk_calls e (set_limits l e')"

lemma risk_calls_killed: "risk_calls e e' \<Longrightarrow> killed e' = killed e"
  by (induction rule: risk_calls.induct) (simp_all add: on_order_executed_def on_order_cancelled_def set_limits_def Let_def)

text \<open>The kill switch. Once it is on, every order is rejected, with a reason, whatever is submitted,
  executed, cancelled or reconfigured in between, until it is switched off or the engine is reset.\<close>

theorem kill_switch_rejects:
  assumes "risk_calls (kill_switch True e) e'"
  shows "is_killed e' \<and> \<not> fst (validate n ord mid e') \<and> last_reject (snd (validate n ord mid e')) \<noteq> ''''
    \<and> positions (snd (validate n ord mid e')) = positions e' \<and> current_rate (snd (validate n ord mid e')) = current_rate e'
    \<and> \<not> is_killed (risk_reset e')"
proof -
  have "killed e'" using risk_calls_killed [OF assms] by (simp add: kill_switch_def)
  then show ?thesis
    by (simp add: is_killed_def validate_def current_rate_def risk_reset_def snprintf_def)
qed

theorem kill_switch_rejects_witness:
  "\<not> fst (validate 7 ex_ord 0 (on_order_executed ex_ord 5 0 (kill_switch True new_risk_engine)))"
proof -
  have c: "risk_calls (kill_switch True new_risk_engine) (on_order_executed ex_ord 5 0 (kill_switch True new_risk_engine))"
    by (rule calls_executed [OF calls_none])
  show ?thesis using kill_switch_rejects [OF c, of 7 ex_ord 0] by blast
qed

section \<open>Symbols\<close>

lemma key_eq_iff:
  assumes "NUL \<notin> set s" and "NUL \<notin> set t"
  shows "key_of_cstr s = key_of_cstr t \<longleftrightarrow> take 16 s = take 16 t"
proof
  have cstr_key: "cstr (strncpy 16 r) = take 16 r" if "NUL \<notin> set r" for r
  proof -
    have nul: "NUL \<notin> set (take 16 r)" using that by (auto dest: in_set_takeD)
    show ?thesis
      by (cases "16 - length r") (simp_all add: strncpy_def cstr_no_nul [OF nul] cstr_append_nul [OF that])
  qed
  assume "key_of_cstr s = key_of_cstr t"
  then have "cstr (strncpy 16 s) = cstr (strncpy 16 t)" using assms by (simp add: key_of_cstr_def cstr_no_nul)
  then show "take 16 s = take 16 t" using assms by (simp add: cstr_key)
next
  assume eq: "take 16 s = take 16 t"
  have "16 - length s = 16 - length t"
    using arg_cong [OF eq, of length] by (simp add: min_def split: if_splits)
  then show "key_of_cstr s = key_of_cstr t"
    using eq assms by (simp add: key_of_cstr_def cstr_no_nul strncpy_def)
qed

text \<open>Executions are booked to their symbol only. After \<open>on_order_executed\<close> the position of the order's
  symbol has moved by the signed fill and its exposure by the fill (in 32-bit arithmetic), and the
  position of every other symbol is unchanged, where two NUL-free symbols are the same to the engine
  exactly when their first 16 characters agree. Both overloads of \<open>get_position\<close> agree.\<close>

theorem on_order_executed_isolated:
  assumes "NUL \<notin> set s" and "NUL \<notin> set (symbol ord)"
  shows "(let p = get_position_cstr s e; p' = get_position_cstr s (on_order_executed ord q pr e) in
      if take 16 s = take 16 (symbol ord)
      then net_position p' = s32 (net_position p + (if is_buy ord then q else - q))
        \<and> gross_exposure p' = s32 (gross_exposure p + q)
        \<and> total_notional p' = d_add (total_notional p) (d_mul pr (d_of_int q))
      else p' = p)
    \<and> get_position_string s e = get_position_cstr s e"
  using key_eq_iff [OF assms] assms(1)
  by (simp add: get_position_cstr_def on_order_executed_position Let_def get_position_string_def
      key_of_string_def key_of_cstr_def cstr_no_nul)

theorem on_order_executed_isolated_witness:
  "net_position (get_position_cstr ''AAPL'' (on_order_executed ex_ord 5 0 new_risk_engine)) = 5"
  using on_order_executed_isolated [of "''AAPL''" ex_ord new_risk_engine 5 0]
  by (simp add: ex_ord_def NUL_def is_buy_def get_position_cstr_def position_of_def new_risk_engine_def no_position_def s32_def Let_def)

text \<open>A NaN price passes the price checks. For an order whose price is a NaN the price band never
  rejects, whatever the mid price, and the notional check treats the price as 1.\<close>

theorem nan_price_passes:
  assumes "is_nan (price ord)"
  shows "check_price_band e ord mid = None
    \<and> (check_notional_limit e ord key = None \<longleftrightarrow>
        \<not> d_lt (max_notional (limits e)) (d_add (total_notional (position_of e key)) (d_mul (d_lit 1 1) (d_of_int (quantity ord)))))"
proof -
  have "is_nan (d_sub (price ord) mid)" using assms by (simp add: nan_sub)
  then have "is_nan (d_abs (d_sub (price ord) mid))"
  proof -
    assume "is_nan (d_sub (price ord) mid)"
    moreover have "d_mag (d_sub (price ord) mid) < 2 ^ 63" by (simp add: d_mag_def)
    ultimately show ?thesis by (simp add: d_abs_def is_nan_def)
  qed
  then have "is_nan (d_mul (d_div (d_abs (d_sub (price ord) mid)) mid) (d_lit 100 1))" by (simp add: nan_mul nan_div)
  then show ?thesis
    using assms by (simp add: check_price_band_def check_notional_limit_def Let_def del: One_nat_def)
qed

theorem nan_price_passes_witness:
  "is_nan d_nan \<and> check_price_band new_risk_engine (ex_ord\<lparr>price := d_nan\<rparr>) 0x4059000000000000 = None"
proof -
  have "is_nan d_nan" by (simp add: d_nan_def is_nan_def inf_mag_def)
  then show ?thesis using nan_price_passes [of "ex_ord\<lparr>price := d_nan\<rparr>"] by simp
qed

end
