(* ===== verification/Bytes.thy ===== *)
theory Bytes
  imports Prelude
begin

text \<open>
  Little-endian byte encodings of unsigned numbers, as the packed structs of the journal have them in
  memory on the target, and their inverses.
\<close>

type_synonym byte = u8

fun le_bytes :: "nat \<Rightarrow> nat \<Rightarrow> byte list" where
  "le_bytes 0 x = []"
| "le_bytes (Suc n) x = of_nat x # le_bytes n (x div 256)"

fun le_value :: "byte list \<Rightarrow> nat" where
  "le_value [] = 0"
| "le_value (b # bs) = unat b + 256 * le_value bs"

definition char_byte :: "char \<Rightarrow> byte" where
  "char_byte c = of_char c"

definition byte_char :: "byte \<Rightarrow> char" where
  "byte_char b = char_of (unat b)"

lemma length_le_bytes [simp]: "length (le_bytes n x) = n"
  by (induction n arbitrary: x) simp_all

lemma le_value_le_bytes: "le_value (le_bytes n x) = x mod 256 ^ n"
proof (induction n arbitrary: x)
  case (Suc n)
  have "x mod (256 * 256 ^ n) = 256 * (x div 256 mod 256 ^ n) + x mod 256" by (rule mod_mult2_eq)
  then show ?case using Suc by (simp add: unat_of_nat)
qed simp

lemma le_value_u32 [simp]: "le_value (le_bytes 4 (unat (w :: u32))) = unat w"
  by (simp add: le_value_le_bytes)

lemma le_value_u64 [simp]: "le_value (le_bytes 8 (unat (w :: u64))) = unat w"
  by (simp add: le_value_le_bytes)

lemma le_value_u8 [simp]: "le_value (le_bytes 1 (unat (w :: u8))) = unat w"
  using unsigned_less [of w, where ?'a = nat] by (simp add: le_value_le_bytes)

lemma byte_char_byte [simp]: "byte_char (char_byte c) = c"
proof -
  have "unat (of_char c :: u8) = unat (of_nat (of_char c) :: u8)" by (simp only: of_nat_of_char)
  also have "\<dots> = of_char c" by (simp add: unat_of_nat)
  finally show ?thesis by (simp add: byte_char_def char_byte_def)
qed

text \<open>Cutting a field out of a byte string.\<close>

definition field :: "nat \<Rightarrow> nat \<Rightarrow> byte list \<Rightarrow> byte list" where
  "field off n bs = take n (drop off bs)"

lemma field_append [simp]: "length xs = off \<Longrightarrow> length ys = n \<Longrightarrow> field off n (xs @ ys @ zs) = ys"
  by (simp add: field_def)

end
