(* ===== verification/Journal.thy ===== *)
theory Journal
  imports Bytes Binary64
begin

text \<open>
  The append-only journal of \<open>include/journal.h\<close> and \<open>src/journal.c\<close>: the CRC32, the packed record
  layout and the append path in both modes.

  The file is the list of its bytes. The results of the operating system are parameters: whether the
  file can be opened and the handle allocated, whether \<open>fstat\<close> answers, whether \<open>ftruncate\<close> to a size and \<open>mmap\<close> of a size succeed, and how many bytes each \<open>fwrite\<close> writes. Writing
  through a mapping that does not exist, or outside it, is an explicit failure (\<open>None\<close>). A clock reading
  is the argument \<open>now\<close>. Bytes of a payload that the code leaves uninitialised are the argument \<open>junk\<close>.
  \<open>journal_sync\<close> flushes and leaves the bytes as they are, so it has no definition of its own.
\<close>

section \<open>CRC32\<close>

definition crc_poly :: u32 where
  "crc_poly = 0xEDB88320"

definition crc_bit :: "u32 \<Rightarrow> u32" where
  "crc_bit crc = drop_bit 1 crc XOR (if crc AND 1 \<noteq> 0 then crc_poly else 0)"

text \<open>\<open>crc32_init\<close>: an entry of the table, and the table.\<close>

definition crc_entry :: "u32 \<Rightarrow> u32" where
  "crc_entry i = (crc_bit ^^ 8) i"

definition crc32_table :: "u32 list" where
  "crc32_table = map (\<lambda>i. crc_entry (of_nat i)) [0..<256]"

definition crc_byte :: "u32 \<Rightarrow> byte \<Rightarrow> u32" where
  "crc_byte crc b = drop_bit 8 crc XOR (crc32_table ! unat ((crc XOR ucast b) AND 0xFF))"

definition crc32_update :: "u32 \<Rightarrow> byte list \<Rightarrow> u32" where
  "crc32_update crc data = foldl crc_byte crc data"

section \<open>Records\<close>

datatype journal_record_type = JRNL_ORDER_NEW | JRNL_ORDER_FILLED | JRNL_ORDER_CANCEL | JRNL_ORDER_REJECT
  | JRNL_TRADE | JRNL_SNAPSHOT

definition record_code :: "journal_record_type \<Rightarrow> u32" where
  "record_code t = (case t of JRNL_ORDER_NEW \<Rightarrow> 1 | JRNL_ORDER_FILLED \<Rightarrow> 2 | JRNL_ORDER_CANCEL \<Rightarrow> 3
     | JRNL_ORDER_REJECT \<Rightarrow> 4 | JRNL_TRADE \<Rightarrow> 5 | JRNL_SNAPSHOT \<Rightarrow> 99)"

record journal_header =
  hdr_timestamp_ns :: u64
  record_type :: u32
  payload_size :: u32
  sequence_number :: u64
  hdr_crc32 :: u32
  hdr_reserved :: u32

record journal_order_payload =
  jo_order_id :: u32
  jo_account_id :: u32
  jo_price :: double
  jo_quantity :: u32
  jo_filled_qty :: u32
  jo_order_ts_ns :: u64
  jo_side :: u8
  jo_order_type :: u8
  jo_status :: u8
  jo_pad :: u8
  jo_symbol :: "byte list"

record journal_trade_payload =
  jt_trade_id :: u32
  jt_buy_order_id :: u32
  jt_sell_order_id :: u32
  jt_price :: double
  jt_quantity :: u32
  jt_trade_ts_ns :: u64
  jt_symbol :: "byte list"
  jt_pad :: "byte list"

text \<open>The bytes of the packed structs.\<close>

definition header_bytes :: "journal_header \<Rightarrow> byte list" where
  "header_bytes h = le_bytes 8 (unat (hdr_timestamp_ns h)) @ le_bytes 4 (unat (record_type h)) @
     le_bytes 4 (unat (payload_size h)) @ le_bytes 8 (unat (sequence_number h)) @
     le_bytes 4 (unat (hdr_crc32 h)) @ le_bytes 4 (unat (hdr_reserved h))"

definition order_payload_bytes :: "journal_order_payload \<Rightarrow> byte list" where
  "order_payload_bytes p = le_bytes 4 (unat (jo_order_id p)) @ le_bytes 4 (unat (jo_account_id p)) @
     le_bytes 8 (unat (jo_price p)) @ le_bytes 4 (unat (jo_quantity p)) @ le_bytes 4 (unat (jo_filled_qty p)) @
     le_bytes 8 (unat (jo_order_ts_ns p)) @ [jo_side p] @ [jo_order_type p] @ [jo_status p] @ [jo_pad p] @ jo_symbol p"

definition trade_payload_bytes :: "journal_trade_payload \<Rightarrow> byte list" where
  "trade_payload_bytes p = le_bytes 4 (unat (jt_trade_id p)) @ le_bytes 4 (unat (jt_buy_order_id p)) @
     le_bytes 4 (unat (jt_sell_order_id p)) @ le_bytes 8 (unat (jt_price p)) @ le_bytes 4 (unat (jt_quantity p)) @
     le_bytes 8 (unat (jt_trade_ts_ns p)) @ jt_symbol p @ jt_pad p"

section \<open>The journal\<close>

definition DEFAULT_MMAP_SIZE :: u64 where
  "DEFAULT_MMAP_SIZE = 256 * 1024 * 1024"

record journal =
  use_mmap :: bool
  jsequence :: u64
  jbytes_written :: u64
  file_size :: u64
  mapped :: bool
  mmap_size :: u64
  mmap_offset :: u64
  content :: "byte list"

text \<open>\<open>ftruncate\<close> to a size: cut, or extend with zeros.\<close>

definition ftruncate :: "u64 \<Rightarrow> byte list \<Rightarrow> byte list" where
  "ftruncate n f = take (unat n) f @ replicate (unat n - length f) 0"

record os =
  fopen_ok :: bool
  fstat_ok :: bool
  ftruncate_ok :: "u64 \<Rightarrow> bool"
  mmap_ok :: "u64 \<Rightarrow> bool"
  fwrite_hdr :: "nat \<Rightarrow> nat"
  fwrite_payload :: "nat \<Rightarrow> nat"

definition journal_open :: "os \<Rightarrow> byte list \<Rightarrow> bool \<Rightarrow> journal option" where
  "journal_open os f mm =
     (if \<not> fopen_ok os then None
      else if mm then
        (let size0 = (if fstat_ok os then of_nat (length f) else 0);
             ext = size0 < DEFAULT_MMAP_SIZE;
             size1 = (if ext then DEFAULT_MMAP_SIZE else size0);
             f1 = (if ext then ftruncate DEFAULT_MMAP_SIZE f else f)
         in if ext \<and> \<not> ftruncate_ok os DEFAULT_MMAP_SIZE then None
            else if \<not> mmap_ok os size1 then None
            else Some \<lparr>use_mmap = True, jsequence = 0, jbytes_written = 0, file_size = size1, mapped = True,
                       mmap_size = size1, mmap_offset = (if 0 < size1 then size1 else 0), content = f1\<rparr>)
      else Some \<lparr>use_mmap = False, jsequence = 0, jbytes_written = 0, file_size = 0, mapped = False,
                 mmap_size = 0, mmap_offset = 0, content = f\<rparr>)"

text \<open>Closing truncates a mapped file to the write position, where the system allows it (the result of
  \<open>ftruncate\<close> is ignored); otherwise the file is left as it is.\<close>

definition journal_close :: "os \<Rightarrow> journal \<Rightarrow> byte list" where
  "journal_close os j =
     (if use_mmap j \<and> ftruncate_ok os (mmap_offset j) then ftruncate (mmap_offset j) (content j) else content j)"

definition build_header :: "u64 \<Rightarrow> journal_record_type \<Rightarrow> u32 \<Rightarrow> u64 \<Rightarrow> byte list \<Rightarrow> journal_header" where
  "build_header now t sz sq payload =
     (let h = \<lparr>hdr_timestamp_ns = now, record_type = record_code t, payload_size = sz,
               sequence_number = sq, hdr_crc32 = 0, hdr_reserved = 0\<rparr>;
          crc = crc32_update 0xFFFFFFFF (header_bytes h);
          crc = crc32_update crc payload
      in h\<lparr>hdr_crc32 := crc XOR 0xFFFFFFFF\<rparr>)"

text \<open>The bytes of a payload argument that are read: none for a null pointer.\<close>

definition payload_bytes :: "byte list option \<Rightarrow> u32 \<Rightarrow> byte list" where
  "payload_bytes p sz = (case p of None \<Rightarrow> [] | Some bs \<Rightarrow> take (unat sz) bs)"

definition poke :: "nat \<Rightarrow> byte list \<Rightarrow> byte list \<Rightarrow> byte list" where
  "poke off bs f = take off f @ bs @ drop (off + length bs) f"

definition extend_mmap :: "os \<Rightarrow> journal \<Rightarrow> bool \<times> journal" where
  "extend_mmap os j =
     (let new_size = mmap_size j + DEFAULT_MMAP_SIZE in
      if \<not> ftruncate_ok os new_size then (False, j)
      else let j = j\<lparr>content := ftruncate new_size (content j)\<rparr> in
           if \<not> mmap_ok os new_size then (False, j\<lparr>mapped := False\<rparr>)
           else (True, j\<lparr>mapped := True, mmap_size := new_size\<rparr>))"

definition journal_append :: "os \<Rightarrow> u64 \<Rightarrow> journal_record_type \<Rightarrow> byte list option \<Rightarrow> u32 \<Rightarrow> journal \<Rightarrow> (int \<times> journal) option" where
  "journal_append os now t payload sz j0 =
     (let body = payload_bytes payload sz;
          hdr = build_header now t sz (jsequence j0) body;
          j = j0\<lparr>jsequence := jsequence j0 + 1\<rparr>;
          total_size = 32 + ucast sz
      in if use_mmap j then
           (let (ok, j1) = (if mmap_size j < mmap_offset j + total_size then extend_mmap os j else (True, j))
            in if \<not> ok then Some (-1, j1)
               else if mapped j1 \<and> unat (mmap_offset j1) + 32 + length body \<le> length (content j1) then
                 Some (0, j1\<lparr>content := poke (unat (mmap_offset j1)) (header_bytes hdr @ body) (content j1),
                             mmap_offset := mmap_offset j1 + total_size,
                             jbytes_written := jbytes_written j1 + total_size\<rparr>)
               else None)
         else
           (let w1 = min (fwrite_hdr os 32) 32;
                j1 = j\<lparr>content := content j @ take w1 (header_bytes hdr)\<rparr>
            in if w1 \<noteq> 32 then Some (-1, j1)
               else let w2 = min (fwrite_payload os (length body)) (length body);
                        j2 = j1\<lparr>content := content j1 @ take w2 body\<rparr>
                    in if w2 \<noteq> length body then Some (-1, j2)
                       else Some (0, j2\<lparr>jbytes_written := jbytes_written j2 + total_size\<rparr>)))"

text \<open>The symbol field: \<open>strncpy\<close> of at most 15 characters and a terminator; a null symbol sets only the
  first byte.\<close>

definition symbol_field :: "byte list \<Rightarrow> string option \<Rightarrow> byte list" where
  "symbol_field junk s = (case s of
     Some s \<Rightarrow> map char_byte (strncpy 15 s) @ [0]
   | None \<Rightarrow> 0 # take 15 junk)"

definition journal_log_order :: "os \<Rightarrow> u64 \<Rightarrow> byte list \<Rightarrow> journal_record_type \<Rightarrow> int \<Rightarrow> int \<Rightarrow> double \<Rightarrow> int \<Rightarrow> int \<Rightarrow>
    u64 \<Rightarrow> u8 \<Rightarrow> u8 \<Rightarrow> u8 \<Rightarrow> string option \<Rightarrow> journal \<Rightarrow> (int \<times> journal) option" where
  "journal_log_order os now junk t order_id account pr qty filled ts side_b type_b status_b sym_opt j =
     journal_append os now t (Some (order_payload_bytes
       \<lparr>jo_order_id = of_int order_id, jo_account_id = of_int account, jo_price = pr, jo_quantity = of_int qty,
        jo_filled_qty = of_int filled, jo_order_ts_ns = ts, jo_side = side_b, jo_order_type = type_b,
        jo_status = status_b, jo_pad = 0, jo_symbol = symbol_field junk sym_opt\<rparr>)) 52 j"

definition journal_log_trade :: "os \<Rightarrow> u64 \<Rightarrow> byte list \<Rightarrow> int \<Rightarrow> int \<Rightarrow> int \<Rightarrow> double \<Rightarrow> int \<Rightarrow> u64 \<Rightarrow> string option \<Rightarrow>
    journal \<Rightarrow> (int \<times> journal) option" where
  "journal_log_trade os now junk tid buy sell pr qty ts sym_opt j =
     journal_append os now JRNL_TRADE (Some (trade_payload_bytes
       \<lparr>jt_trade_id = of_int tid, jt_buy_order_id = of_int buy, jt_sell_order_id = of_int sell, jt_price = pr,
        jt_quantity = of_int qty, jt_trade_ts_ns = ts, jt_symbol = symbol_field junk sym_opt, jt_pad = replicate 4 0\<rparr>)) 52 j"

definition journal_sequence :: "journal option \<Rightarrow> u64" where
  "journal_sequence j = (case j of None \<Rightarrow> 0 | Some j \<Rightarrow> jsequence j)"

definition journal_bytes_written :: "journal option \<Rightarrow> u64" where
  "journal_bytes_written j = (case j of None \<Rightarrow> 0 | Some j \<Rightarrow> jbytes_written j)"

end
