(* ===== verification/Journal_Properties.thy ===== *)
theory Journal_Properties
  imports Journal
begin

text \<open>
  Properties of the journal: the table-driven CRC32 is the bitwise one and notices every changed byte,
  the packed records can be read back, and a reader of the format recovers exactly what was appended.
\<close>

section \<open>CRC32\<close>

lemma bit_crc_bit: "bit (crc_bit a) i \<longleftrightarrow> (bit a (Suc i) \<noteq> (bit a 0 \<and> bit crc_poly i))"
proof -
  have "a AND 1 \<noteq> 0 \<longleftrightarrow> bit a 0" by (simp add: and_one_eq bit_0 odd_iff_mod_2_eq_one)
  then show ?thesis by (simp add: crc_bit_def bit_xor_iff bit_drop_bit_eq)
qed

lemma crc_bit_xor: "crc_bit (a XOR b) = crc_bit a XOR crc_bit b"
  by (rule bit_eqI) (auto simp: bit_crc_bit bit_xor_iff)

lemma crc_bits_xor: "(crc_bit ^^ n) (a XOR b) = (crc_bit ^^ n) a XOR (crc_bit ^^ n) b"
  by (induction n) (simp_all add: crc_bit_xor)

lemma crc_bits_shift: "(\<And>i. i < n \<Longrightarrow> \<not> bit x i) \<Longrightarrow> (crc_bit ^^ n) x = drop_bit n x"
proof (induction n arbitrary: x)
  case (Suc n)
  have "crc_bit x = drop_bit 1 x"
    using Suc.prems [of 0] by (intro bit_eqI) (simp add: bit_crc_bit bit_drop_bit_eq)
  moreover have "(crc_bit ^^ n) (drop_bit 1 x) = drop_bit n (drop_bit 1 x)"
    by (rule Suc.IH) (use Suc.prems in \<open>simp add: bit_drop_bit_eq\<close>)
  ultimately show ?case by (simp add: funpow_swap1 drop_bit_drop_bit)
qed simp

lemma ff_mask: "(0xFF :: u32) = mask 8"
  by (simp add: mask_eq_exp_minus_1)

lemma bit_0xFF: "bit (0xFF :: u32) i \<longleftrightarrow> i < 8"
  unfolding ff_mask bit_mask_iff by (auto simp: possible_bit_def)

lemma unat_byte_u32: "unat (ucast (b :: byte) :: u32) = unat b"
proof -
  have "unat b < 256" using unsigned_less [of b, where ?'a = nat] by simp
  then have "unat b < 4294967296" by (rule less_trans) simp
  then show ?thesis by (simp add: unsigned_ucast_eq take_bit_eq_mod)
qed

lemma bit_ucast_byte: "bit (ucast (b :: byte) :: u32) i \<Longrightarrow> i < 8"
  by (auto simp: bit_unsigned_iff dest: bit_imp_le_length)

lemma crc_byte_bitwise: "crc_byte crc b = (crc_bit ^^ 8) (crc XOR ucast b)"
proof -
  obtain m :: u32 where m: "m = 0xFF" "\<And>i. bit m i \<longleftrightarrow> i < 8" using bit_0xFF by blast
  let ?y = "crc XOR ucast b"
  let ?lo = "?y AND m" and ?hi = "?y AND NOT m"
  have "unat ?lo < 256"
  proof -
    have "?lo = take_bit 8 ?y" unfolding m(1) ff_mask by (rule take_bit_eq_mask [symmetric])
    then have "unat ?lo = take_bit 8 (unat ?y)" by (simp only: unsigned_take_bit_eq)
    then show ?thesis by (simp add: take_bit_eq_mod)
  qed
  then have tab: "crc32_table ! unat ?lo = crc_entry ?lo" by (simp add: crc32_table_def)
  have split: "?y = ?hi XOR ?lo" by (rule bit_eqI) (auto simp: bit_xor_iff bit_and_iff bit_not_iff)
  have "(crc_bit ^^ 8) ?hi = drop_bit 8 ?hi"
    by (rule crc_bits_shift) (simp add: bit_and_iff bit_not_iff m(2))
  also have "\<dots> = drop_bit 8 crc"
    by (rule bit_eqI) (auto simp: bit_drop_bit_eq bit_and_iff bit_not_iff bit_xor_iff m(2) possible_bit_def dest: bit_ucast_byte bit_imp_le_length)
  finally have "(crc_bit ^^ 8) ?y = drop_bit 8 crc XOR crc_entry ?lo"
    using crc_bits_xor [of 8 ?hi ?lo] by (simp only: split [symmetric] crc_entry_def)
  then show ?thesis using tab by (simp only: crc_byte_def m(1))
qed

lemma inj_crc_bit: "inj crc_bit"
proof (rule injI)
  fix a b assume eq: "crc_bit a = crc_bit b"
  then have bits: "bit (crc_bit a) i = bit (crc_bit b) i" for i by simp
  have top: "bit crc_poly 31" "\<not> bit a 32" "\<not> bit b 32"
    by (auto simp: crc_poly_def dest: bit_imp_le_length)
  have b0: "bit a 0 = bit b 0" using bits [of 31] top by (simp add: bit_crc_bit)
  show "a = b"
  proof (rule bit_eqI)
    fix i show "bit a i = bit b i"
    proof (cases i)
      case 0
      then show ?thesis using b0 by simp
    next
      case (Suc k)
      then show ?thesis using bits [of k] b0 by (auto simp: bit_crc_bit)
    qed
  qed
qed

lemma crc_byte_inj: "crc_byte c a = crc_byte c' a \<longleftrightarrow> c = c'" "crc_byte c a = crc_byte c b \<longleftrightarrow> a = b"
proof -
  have inj: "(crc_bit ^^ 8) x = (crc_bit ^^ 8) y \<longleftrightarrow> x = y" for x y
    using inj_fn [OF inj_crc_bit, of 8] by (auto dest: injD)
  have cancel: "x XOR z = y XOR z \<longleftrightarrow> x = y" "z XOR x = z XOR y \<longleftrightarrow> x = y" for x y z :: u32
    by (auto simp: bit_eq_iff bit_xor_iff)
  show "crc_byte c a = crc_byte c' a \<longleftrightarrow> c = c'" unfolding crc_byte_bitwise inj cancel ..
  have "(ucast a :: u32) = ucast b \<longleftrightarrow> a = b"
    using unat_byte_u32 [of a] unat_byte_u32 [of b] by (metis word_unat_eq_iff)
  then show "crc_byte c a = crc_byte c b \<longleftrightarrow> a = b" unfolding crc_byte_bitwise inj cancel .
qed

lemma crc32_update_append: "crc32_update c (xs @ ys) = crc32_update (crc32_update c xs) ys"
  by (simp add: crc32_update_def)

lemma crc32_update_Cons: "crc32_update c (x # xs) = crc32_update (crc_byte c x) xs"
  by (simp add: crc32_update_def)

lemma crc32_update_inj: "crc32_update c xs = crc32_update c' xs \<longleftrightarrow> c = c'"
  by (induction xs arbitrary: c c') (simp_all add: crc32_update_Cons crc_byte_inj, simp add: crc32_update_def)


text \<open>The CRC notices every change of a single byte: two byte strings that differ in exactly one
  position have different checksums, whatever precedes and follows.\<close>

theorem crc32_detects_byte_change:
  assumes "a \<noteq> b"
  shows "crc32_update c (xs @ [a] @ ys) XOR 0xFFFFFFFF \<noteq> crc32_update c (xs @ [b] @ ys) XOR 0xFFFFFFFF"
proof
  assume "crc32_update c (xs @ [a] @ ys) XOR 0xFFFFFFFF = crc32_update c (xs @ [b] @ ys) XOR 0xFFFFFFFF"
  then have "crc32_update c (xs @ [a] @ ys) = crc32_update c (xs @ [b] @ ys)" by (auto simp: bit_eq_iff bit_xor_iff)
  then show False
    using assms by (simp add: crc32_update_append crc32_update_Cons crc32_update_inj crc_byte_inj)
qed

theorem crc32_detects_byte_change_witness:
  "crc32_update 0xFFFFFFFF ([1, 2] @ [3] @ [4]) XOR 0xFFFFFFFF \<noteq> crc32_update 0xFFFFFFFF ([1, 2] @ [7] @ [4]) XOR 0xFFFFFFFF"
  by (rule crc32_detects_byte_change) simp

section \<open>Reading records back\<close>

definition decode_header :: "byte list \<Rightarrow> journal_header" where
  "decode_header bs = \<lparr>hdr_timestamp_ns = of_nat (le_value (field 0 8 bs)), record_type = of_nat (le_value (field 8 4 bs)),
     payload_size = of_nat (le_value (field 12 4 bs)), sequence_number = of_nat (le_value (field 16 8 bs)),
     hdr_crc32 = of_nat (le_value (field 24 4 bs)), hdr_reserved = of_nat (le_value (field 28 4 bs))\<rparr>"

definition decode_order_payload :: "byte list \<Rightarrow> journal_order_payload" where
  "decode_order_payload bs = \<lparr>jo_order_id = of_nat (le_value (field 0 4 bs)), jo_account_id = of_nat (le_value (field 4 4 bs)),
     jo_price = of_nat (le_value (field 8 8 bs)), jo_quantity = of_nat (le_value (field 16 4 bs)),
     jo_filled_qty = of_nat (le_value (field 20 4 bs)), jo_order_ts_ns = of_nat (le_value (field 24 8 bs)),
     jo_side = bs ! 32, jo_order_type = bs ! 33, jo_status = bs ! 34, jo_pad = bs ! 35, jo_symbol = field 36 16 bs\<rparr>"

definition decode_trade_payload :: "byte list \<Rightarrow> journal_trade_payload" where
  "decode_trade_payload bs = \<lparr>jt_trade_id = of_nat (le_value (field 0 4 bs)), jt_buy_order_id = of_nat (le_value (field 4 4 bs)),
     jt_sell_order_id = of_nat (le_value (field 8 4 bs)), jt_price = of_nat (le_value (field 12 8 bs)),
     jt_quantity = of_nat (le_value (field 20 4 bs)), jt_trade_ts_ns = of_nat (le_value (field 24 8 bs)),
     jt_symbol = field 32 16 bs, jt_pad = field 48 4 bs\<rparr>"

lemma decode_header_bytes [simp]: "decode_header (header_bytes h @ rest) = h"
  by (cases h) (simp add: decode_header_def header_bytes_def field_def)

lemma length_header_bytes [simp]: "length (header_bytes h) = 32"
  by (simp add: header_bytes_def)

text \<open>The packed layouts. A header takes 32 bytes and the two payloads 52 bytes each, and every field
  can be read back from its offset: decoding the bytes of a header, an order payload or a trade payload
  gives the record that was encoded.\<close>

theorem journal_layout_roundtrip:
  "length (header_bytes h) = 32 \<and> decode_header (header_bytes h) = h
   \<and> (length (jo_symbol p) = 16 \<longrightarrow> length (order_payload_bytes p) = 52 \<and> decode_order_payload (order_payload_bytes p) = p)
   \<and> (length (jt_symbol q) = 16 \<and> length (jt_pad q) = 4 \<longrightarrow>
        length (trade_payload_bytes q) = 52 \<and> decode_trade_payload (trade_payload_bytes q) = q)"
proof -
  have "decode_header (header_bytes h) = h" using decode_header_bytes [of h "[]"] by simp
  moreover have "length (order_payload_bytes p) = 52 \<and> decode_order_payload (order_payload_bytes p) = p"
    if "length (jo_symbol p) = 16"
    using that by (cases p) (simp add: order_payload_bytes_def decode_order_payload_def field_def nth_append)
  moreover have "length (trade_payload_bytes q) = 52 \<and> decode_trade_payload (trade_payload_bytes q) = q"
    if "length (jt_symbol q) = 16" "length (jt_pad q) = 4"
    using that by (cases q) (simp add: trade_payload_bytes_def decode_trade_payload_def field_def)
  ultimately show ?thesis by simp
qed

definition ex_payload :: journal_order_payload where
  "ex_payload = \<lparr>jo_order_id = 1, jo_account_id = 2, jo_price = 3, jo_quantity = 4, jo_filled_qty = 5, jo_order_ts_ns = 6,
     jo_side = 0, jo_order_type = 0, jo_status = 0, jo_pad = 0, jo_symbol = symbol_field [] (Some ''AAPL'')\<rparr>"

theorem journal_layout_roundtrip_witness:
  "length (order_payload_bytes ex_payload) = 52 \<and> decode_order_payload (order_payload_bytes ex_payload) = ex_payload"
  using journal_layout_roundtrip [of "decode_header []" ex_payload "decode_trade_payload []"] by (simp add: ex_payload_def symbol_field_def)

section \<open>The reader\<close>

text \<open>What a record format promises a reader: a decoder that finds the next record at the front of the
  bytes. Reading a sequence of encoded records gives the records back.\<close>

locale record_format =
  fixes enc :: "'r \<Rightarrow> byte list"
    and dec :: "byte list \<Rightarrow> ('r \<times> byte list) option"
    and ok :: "'r \<Rightarrow> bool"
  assumes dec_enc: "ok r \<Longrightarrow> dec (enc r @ rest) = Some (r, rest)"
    and dec_nil: "dec [] = None"
begin

fun read_all :: "nat \<Rightarrow> byte list \<Rightarrow> 'r list" where
  "read_all 0 bs = []"
| "read_all (Suc n) bs = (case dec bs of None \<Rightarrow> [] | Some (r, rest) \<Rightarrow> r # read_all n rest)"

lemma read_all_concat: "\<forall>r \<in> set rs. ok r \<Longrightarrow> length rs \<le> n \<Longrightarrow> read_all n (concat (map enc rs)) = rs"
proof (induction rs arbitrary: n)
  case Nil
  then show ?case by (cases n) (simp_all add: dec_nil)
next
  case (Cons r rs)
  then show ?case by (cases n) (simp_all add: dec_enc)
qed

end

type_synonym journal_record = "journal_header \<times> byte list"

definition record_bytes :: "journal_record \<Rightarrow> byte list" where
  "record_bytes r = header_bytes (fst r) @ snd r"

text \<open>The checksum a record must carry: over the header with a zero checksum, then the payload.\<close>

definition record_crc :: "journal_header \<Rightarrow> byte list \<Rightarrow> u32" where
  "record_crc h body = crc32_update 0xFFFFFFFF (header_bytes (h\<lparr>hdr_crc32 := 0\<rparr>) @ body) XOR 0xFFFFFFFF"

definition record_ok :: "journal_record \<Rightarrow> bool" where
  "record_ok r \<longleftrightarrow> length (snd r) = unat (payload_size (fst r)) \<and> hdr_crc32 (fst r) = record_crc (fst r) (snd r)"

definition read_record :: "byte list \<Rightarrow> (journal_record \<times> byte list) option" where
  "read_record bs =
     (if length bs < 32 then None
      else let h = decode_header bs; n = unat (payload_size h); body = take n (drop 32 bs)
           in if record_ok (h, body) then Some ((h, body), drop (32 + n) bs) else None)"

interpretation jfmt: record_format record_bytes read_record record_ok
  by unfold_locales (auto simp: read_record_def record_bytes_def record_ok_def Let_def)

lemma build_header_ok: "length body = unat sz \<Longrightarrow> record_ok (build_header now t sz sq body, body)"
  by (simp add: record_ok_def build_header_def record_crc_def Let_def crc32_update_append)

section \<open>Appending\<close>

text \<open>A run of appends; each item is a clock reading, a record type and a payload.\<close>

fun append_all :: "os \<Rightarrow> (u64 \<times> journal_record_type \<times> byte list) list \<Rightarrow> journal \<Rightarrow> journal option" where
  "append_all os [] j = Some j"
| "append_all os ((now, t, body) # xs) j =
    (case journal_append os now t (Some body) (of_nat (length body)) j of
       Some (rc, j') \<Rightarrow> if rc = 0 then append_all os xs j' else None
     | None \<Rightarrow> None)"

fun expected_records :: "u64 \<Rightarrow> (u64 \<times> journal_record_type \<times> byte list) list \<Rightarrow> journal_record list" where
  "expected_records sq [] = []"
| "expected_records sq ((now, t, body) # xs) =
    (build_header now t (of_nat (length body)) sq body, body) # expected_records (sq + 1) xs"

definition full_writes :: "os \<Rightarrow> bool" where
  "full_writes os \<longleftrightarrow> (\<forall>n. n \<le> fwrite_hdr os n \<and> n \<le> fwrite_payload os n)"

lemma append_stdio:
  assumes "full_writes os" and "\<not> use_mmap j" and "length body < 4294967296"
  shows "journal_append os now t (Some body) (of_nat (length body)) j = Some (0, j\<lparr>jsequence := jsequence j + 1,
     content := content j @ record_bytes (build_header now t (of_nat (length body)) (jsequence j) body, body),
     jbytes_written := jbytes_written j + (32 + of_nat (length body))\<rparr>)"
proof -
  have b: "payload_bytes (Some body) (of_nat (length body)) = body"
    using assms(3) by (simp add: payload_bytes_def unat_of_nat_u32)
  have u: "(ucast (of_nat (length body) :: u32) :: u64) = of_nat (length body)"
    using assms(3) by (simp only: ucast_u64_of_nat unat_of_nat_u32)
  have "min (fwrite_hdr os 32) 32 = 32" "min (fwrite_payload os (length body)) (length body) = length body"
    using assms(1) by (simp_all add: full_writes_def)
  then show ?thesis using assms(2) by (simp add: journal_append_def Let_def b u record_bytes_def)
qed

lemma append_all_stdio:
  assumes "full_writes os" and "\<not> use_mmap j" and "\<forall>(now, t, body) \<in> set xs. length body < 4294967296"
  shows "\<exists>j'. append_all os xs j = Some j' \<and> \<not> use_mmap j'
    \<and> content j' = content j @ concat (map record_bytes (expected_records (jsequence j) xs))
    \<and> jsequence j' = jsequence j + of_nat (length xs)
    \<and> jbytes_written j' = jbytes_written j + of_nat (length (concat (map record_bytes (expected_records (jsequence j) xs))))"
  using assms(2,3)
proof (induction xs arbitrary: j)
  case (Cons x xs)
  obtain now t body where x: "x = (now, t, body)" by (metis prod_cases3)
  have len: "length body < 4294967296" using Cons.prems(2) by (simp add: x)
  let ?r = "(build_header now t (of_nat (length body)) (jsequence j) body, body)"
  let ?j = "j\<lparr>jsequence := jsequence j + 1, content := content j @ record_bytes ?r,
     jbytes_written := jbytes_written j + (32 + of_nat (length body))\<rparr>"
  have step: "journal_append os now t (Some body) (of_nat (length body)) j = Some (0, ?j)"
    by (rule append_stdio [OF assms(1) Cons.prems(1) len])
  have nm: "\<not> use_mmap ?j" using Cons.prems(1) by simp
  have rest: "\<forall>(now, t, body) \<in> set xs. length body < 4294967296" using Cons.prems(2) by simp
  from Cons.IH [OF nm rest] obtain j' where
    "append_all os xs ?j = Some j'" "\<not> use_mmap j'"
    "content j' = content ?j @ concat (map record_bytes (expected_records (jsequence ?j) xs))"
    "jsequence j' = jsequence ?j + of_nat (length xs)"
    "jbytes_written j' = jbytes_written ?j + of_nat (length (concat (map record_bytes (expected_records (jsequence ?j) xs))))"
    by blast
  moreover have "length (record_bytes ?r) = 32 + length body" by (simp add: record_bytes_def)
  ultimately show ?case by (simp add: x step algebra_simps)
qed simp

lemma expected_records_ok: "\<forall>(now, t, body) \<in> set xs. length body < 4294967296 \<Longrightarrow>
    (\<forall>r \<in> set (expected_records sq xs). record_ok r) \<and> map snd (expected_records sq xs) = map (snd \<circ> snd) xs
    \<and> map (sequence_number \<circ> fst) (expected_records sq xs) = map (\<lambda>i. sq + of_nat i) [0..<length xs]"
proof (induction xs arbitrary: sq)
  case (Cons x xs)
  obtain now t body where x: "x = (now, t, body)" by (metis prod_cases3)
  have len: "length body < 4294967296" and rest: "\<forall>(now, t, body) \<in> set xs. length body < 4294967296"
    using Cons.prems by (simp_all add: x)
  have "map (\<lambda>i. sq + of_nat i) [0..<length (x # xs)] = sq # map (\<lambda>i. sq + 1 + of_nat i) [0..<length xs]"
    unfolding list.size upt_conv_Cons [of 0] by (simp add: upt_conv_Cons map_Suc_upt [symmetric] add.assoc del: upt_Suc)
  moreover have "sequence_number (build_header now t (of_nat (length body)) sq body) = sq" by (simp add: build_header_def Let_def)
  ultimately show ?case
    using Cons.IH [OF rest, of "sq + 1"] len by (simp add: x build_header_ok unat_of_nat_u32 del: upt_Suc)
qed simp


definition ex_os :: os where
  "ex_os = \<lparr>fopen_ok = True, fstat_ok = True, ftruncate_ok = (\<lambda>_. True), mmap_ok = (\<lambda>_. True),
     fwrite_hdr = (\<lambda>n. n), fwrite_payload = (\<lambda>n. n)\<rparr>"


lemma crc_byte_zero: "crc_byte c 0 = crc_bit (crc_bit (crc_bit (crc_bit (crc_bit (crc_bit (crc_bit (crc_bit c)))))))"
  by (simp add: crc_byte_bitwise numeral_eq_Suc)

lemma crc_zeros: "crc32_update 0xFFFFFFFF (replicate 32 0) = 0xE6F5AA52"
proof -
  have z: "replicate 32 (0 :: byte) = replicate 8 0 @ replicate 8 0 @ replicate 8 0 @ replicate 8 0"
    by (simp flip: replicate_add)
  have eight: "crc32_update c (replicate 8 0) = foldl crc_byte c [0, 0, 0, 0, 0, 0, 0, 0]" for c
    by (simp add: crc32_update_def numeral_eq_Suc)
  have "crc32_update 0xFFFFFFFF (replicate 8 0) = 0x9ADD2096" unfolding eight
    by (simp add: crc_byte_zero crc_bit_def crc_poly_def)
  moreover have "crc32_update 0x9ADD2096 (replicate 8 0) = 0x1344B4AA" unfolding eight
    by (simp add: crc_byte_zero crc_bit_def crc_poly_def)
  moreover have "crc32_update 0x1344B4AA (replicate 8 0) = 0x5C3E35DF" unfolding eight
    by (simp add: crc_byte_zero crc_bit_def crc_poly_def)
  moreover have "crc32_update 0x5C3E35DF (replicate 8 0) = 0xE6F5AA52" unfolding eight
    by (simp add: crc_byte_zero crc_bit_def crc_poly_def)
  ultimately show ?thesis unfolding z crc32_update_append by (simp only:)
qed

lemma le_bytes_zero: "le_bytes n 0 = replicate n 0"
  by (induction n) simp_all

lemma header_bytes_zero: "header_bytes \<lparr>hdr_timestamp_ns = 0, record_type = 0, payload_size = 0, sequence_number = 0,
    hdr_crc32 = 0, hdr_reserved = 0\<rparr> = replicate 32 0"
  by (simp add: header_bytes_def le_bytes_zero flip: replicate_add)

lemma read_record_zeros: "n \<ge> 32 \<Longrightarrow> take n bs = replicate n 0 \<Longrightarrow> read_record bs = None"
proof -
  let ?h = "\<lparr>hdr_timestamp_ns = 0, record_type = 0, payload_size = 0, sequence_number = 0, hdr_crc32 = 0, hdr_reserved = 0\<rparr>"
  assume n: "32 \<le> n" and z: "take n bs = replicate n 0"
  have "take 32 bs = take 32 (take n bs)" using n by (simp add: min_def)
  then have t: "take 32 bs = replicate 32 0" using n by (simp add: z min_def)
  have "bs = header_bytes ?h @ drop 32 bs" unfolding header_bytes_zero t [symmetric] by simp
  then have h: "decode_header bs = ?h" by (metis decode_header_bytes)
  have "record_crc ?h [] \<noteq> 0" by (simp add: record_crc_def header_bytes_zero crc_zeros)
  then show ?thesis by (simp add: read_record_def Let_def h record_ok_def)
qed

text \<open>A new mapped journal starts its records at 256 MB. Opening a file shorter than the default
  mapping extends it and puts the write position behind the extension, so the first record written goes
  to offset \<open>2\<^sup>2\<^sup>8\<close>, and a reader that starts at the beginning of the file, as the header comment on
  recovery has it, finds no record there.\<close>

theorem mmap_journal_starts_at_256MB:
  assumes "fopen_ok os" and "fstat_ok os" and "length f < 2 ^ 28" and "\<forall>n. ftruncate_ok os n \<and> mmap_ok os n"
    and "length body + 32 \<le> 2 ^ 28"
  shows "\<exists>j j'. journal_open os f True = Some j
    \<and> journal_append os now t (Some body) (of_nat (length body)) j = Some (0, j')
    \<and> drop (2 ^ 28) (journal_close os j') = record_bytes (build_header now t (of_nat (length body)) 0 body, body)
    \<and> take (length f) (journal_close os j') = f
    \<and> (f = [] \<longrightarrow> read_record (journal_close os j') = None)"
proof -
  let ?M = "268435456 :: nat"
  have M: "DEFAULT_MMAP_SIZE = 268435456" by (simp add: DEFAULT_MMAP_SIZE_def)
  have lf: "length f < ?M" and lb: "length body + 32 \<le> ?M" using assms(3,5) by simp_all
  have of: "(of_nat (length f) :: u64) < 268435456"
    using lf by (simp add: word_less_nat_alt unat_of_nat_u64)
  obtain F where F: "F = f @ replicate (?M - length f) 0" by blast
  have tr: "ftruncate DEFAULT_MMAP_SIZE f = F" using lf by (simp add: ftruncate_def M F)
  let ?j = "\<lparr>use_mmap = True, jsequence = 0, jbytes_written = 0, file_size = 268435456, mapped = True,
     mmap_size = 268435456, mmap_offset = 268435456, content = F\<rparr>"
  have op: "journal_open os f True = Some ?j"
    using assms(1,2,4) of unfolding journal_open_def Let_def tr by (simp add: M)
  let ?h = "build_header now t (of_nat (length body)) 0 body"
  have lb32: "length body < 4294967296" using lb by simp
  have b: "payload_bytes (Some body) (of_nat (length body)) = body"
    using lb32 by (simp add: payload_bytes_def unat_of_nat_u32)
  have u: "(ucast (of_nat (length body) :: u32) :: u64) = of_nat (length body)"
    using lb32 by (simp only: ucast_u64_of_nat unat_of_nat_u32)
  have tot: "unat (32 + of_nat (length body) :: u64) = 32 + length body"
    using unat_of_nat_u64 [of "32 + length body"] lb by simp
  have off: "unat (268435456 + (32 + of_nat (length body)) :: u64) = ?M + (32 + length body)"
    using unat_of_nat_u64 [of "?M + (32 + length body)"] lb by (simp add: algebra_simps)
  have gt: "(268435456 :: u64) < 268435456 + (32 + of_nat (length body))"
    unfolding word_less_nat_alt off by simp
  have len: "length F = ?M" using lf by (simp add: F)
  let ?f2 = "F @ replicate ?M 0"
  have tr2: "ftruncate 536870912 F = ?f2" using len by (simp add: ftruncate_def)
  let ?r = "header_bytes ?h @ body"
  let ?c = "F @ ?r @ drop (32 + length body) (replicate ?M 0)"
  have poke: "poke ?M ?r ?f2 = ?c" using len by (simp add: poke_def)
  let ?j2 = "?j\<lparr>jsequence := 1, content := ?c, mmap_size := 536870912,
     mmap_offset := 268435456 + (32 + of_nat (length body)), jbytes_written := 32 + of_nat (length body)\<rparr>"
  have ap: "journal_append os now t (Some body) (of_nat (length body)) ?j = Some (0, ?j2)"
    using assms(4) gt len lb
    by (simp add: journal_append_def Let_def b u extend_mmap_def M tr2 poke del: drop_replicate)
  have cl: "journal_close os ?j2 = F @ ?r"
    unfolding journal_close_def ftruncate_def using off len lb assms(4) by (simp del: drop_replicate)
  have "drop (2 ^ 28) (journal_close os ?j2) = record_bytes (?h, body)"
    unfolding cl using len by (simp add: record_bytes_def)
  moreover have "take (length f) (journal_close os ?j2) = f" unfolding cl by (simp add: F)
  moreover have "read_record (journal_close os ?j2) = None" if "f = []"
    unfolding cl by (rule read_record_zeros [of ?M]) (simp_all add: that F)
  ultimately show ?thesis using op ap by blast
qed

theorem mmap_journal_starts_at_256MB_witness:
  "\<exists>j j'. journal_open ex_os [] True = Some j \<and> journal_append ex_os 7 JRNL_TRADE (Some []) 0 j = Some (0, j')
     \<and> read_record (journal_close ex_os j') = None"
  using mmap_journal_starts_at_256MB [of ex_os "[]" "[]" 7 JRNL_TRADE] by (auto simp: ex_os_def)

end
