(* ===== verification/Execution_Gateway.thy ===== *)
theory Execution_Gateway
  imports Printf
begin

text \<open>
  The execution gateway of \<open>include/execution_gateway.h\<close> and \<open>src/execution_gateway.c\<close>: the connection
  state, the simulated send with its acknowledgement, and the text protocol of an order.

  The simulation log is the text of its file, \<open>None\<close> for a null \<open>FILE *\<close>; the results of the \<open>fprintf\<close> calls
  are ignored by the code and the writes are taken to succeed. What \<open>fopen\<close> finds (the text of the file,
  or nothing when it fails), the success of \<open>calloc\<close> and the clocks are parameters. An acknowledgement
  callback is a function pointer; \<open>gw_send_order\<close> returns the calls it makes through it. A possibly null
  handle is an option.
\<close>

section \<open>State\<close>

datatype gw_conn_state = GW_DISCONNECTED | GW_CONNECTING | GW_CONNECTED | GW_ERROR

record gw_config =
  host :: string
  port :: u16
  max_retries :: u32
  retry_delay_ns :: u64
  connect_timeout_ns :: u64
  max_pending_acks :: u32
  gw_simulation_mode :: bool
  sim_log_file :: string

record execution_gateway =
  config :: gw_config
  gw_state :: gw_conn_state
  sim_file :: "string option"
  ack_cb :: "u64 option"
  ack_user_data :: u64
  orders_sent :: u64
  orders_acked :: u64
  gw_orders_rejected :: u64

text \<open>A call through the callback: the function, the order, the status and the user pointer.\<close>

type_synonym ack_call = "u64 \<times> int \<times> int \<times> u64"

section \<open>Operations\<close>

definition GW_MAX_MSG_SIZE :: u32 where
  "GW_MAX_MSG_SIZE = 512"

definition gw_printf :: "string \<Rightarrow> execution_gateway \<Rightarrow> execution_gateway" where
  "gw_printf t gw = gw\<lparr>sim_file := map_option (\<lambda>f. f @ t) (sim_file gw)\<rparr>"

definition gw_init :: "bool \<Rightarrow> string option \<Rightarrow> u64 \<Rightarrow> gw_config option \<Rightarrow> execution_gateway option" where
  "gw_init calloc_ok fopen_result now cfg = (case cfg of
     None \<Rightarrow> None
   | Some c \<Rightarrow>
      if \<not> calloc_ok then None
      else let gw = \<lparr>config = c, gw_state = GW_DISCONNECTED, sim_file = None, ack_cb = None, ack_user_data = 0,
                     orders_sent = 0, orders_acked = 0, gw_orders_rejected = 0\<rparr>
           in if gw_simulation_mode c then
                Some ((gw_printf (''=== Execution Gateway Started at '' @ show_nat (unat now) @ '' ==='' @ [CHR 0x0A])
                        (gw\<lparr>sim_file := fopen_result\<rparr>))\<lparr>gw_state := GW_CONNECTED\<rparr>)
              else if cstr (host c) \<noteq> [] then Some (gw\<lparr>gw_state := GW_CONNECTED\<rparr>)
              else Some (gw\<lparr>gw_state := GW_DISCONNECTED\<rparr>))"

definition gw_shutdown :: "execution_gateway option \<Rightarrow> execution_gateway option" where
  "gw_shutdown = map_option (\<lambda>gw.
     (gw_printf (''=== Execution Gateway Shutdown ==='' @ [CHR 0x0A]
       @ ''  Orders sent:     '' @ show_nat (unat (orders_sent gw)) @ [CHR 0x0A]
       @ ''  Orders acked:    '' @ show_nat (unat (orders_acked gw)) @ [CHR 0x0A]
       @ ''  Orders rejected: '' @ show_nat (unat (gw_orders_rejected gw)) @ [CHR 0x0A]) gw)\<lparr>gw_state := GW_DISCONNECTED\<rparr>)"

text \<open>What remains when the gateway is destroyed: the text of the closed log.\<close>

definition gw_destroy :: "execution_gateway option \<Rightarrow> string option" where
  "gw_destroy gw = (case gw of None \<Rightarrow> None | Some gw \<Rightarrow> sim_file gw)"

definition gw_send_order :: "u64 \<Rightarrow> execution_gateway option \<Rightarrow> string option \<Rightarrow> u32 \<Rightarrow> int \<Rightarrow>
    int \<times> ack_call list \<times> execution_gateway option" where
  "gw_send_order now gw msg msg_len order_id = (case gw of
     None \<Rightarrow> (-1, [], None)
   | Some g \<Rightarrow> (case msg of
       None \<Rightarrow> (-1, [], Some g)
     | Some m \<Rightarrow>
        if msg_len = 0 then (-1, [], Some g)
        else if gw_state g \<noteq> GW_CONNECTED then (-1, [], Some g)
        else let (calls, g1) =
               (if sim_file g \<noteq> None then
                  (let g1 = gw_printf (''SEND | '' @ show_nat (unat now) @ '' | '' @ cstr m @ [CHR 0x0A]) g;
                       g2 = g1\<lparr>orders_acked := orders_acked g1 + 1\<rparr>
                   in (case ack_cb g2 of None \<Rightarrow> [] | Some cb \<Rightarrow> [(cb, order_id, 0, ack_user_data g2)], g2))
                else ([], g))
             in (0, calls, Some (g1\<lparr>orders_sent := orders_sent g1 + 1\<rparr>))))"

definition gw_set_ack_callback :: "u64 option \<Rightarrow> u64 \<Rightarrow> execution_gateway option \<Rightarrow> execution_gateway option" where
  "gw_set_ack_callback cb user = map_option (\<lambda>gw. gw\<lparr>ack_cb := cb, ack_user_data := user\<rparr>)"

definition gw_get_state :: "execution_gateway option \<Rightarrow> gw_conn_state" where
  "gw_get_state gw = (case gw of None \<Rightarrow> GW_ERROR | Some gw \<Rightarrow> gw_state gw)"

definition gw_pending_acks :: "execution_gateway option \<Rightarrow> u32" where
  "gw_pending_acks gw = (case gw of None \<Rightarrow> 0 | Some gw \<Rightarrow> ucast (orders_sent gw - orders_acked gw))"

text \<open>The line of the text protocol.\<close>

definition order_line :: "int \<Rightarrow> string \<Rightarrow> char \<Rightarrow> char \<Rightarrow> double \<Rightarrow> int \<Rightarrow> u64 \<Rightarrow> string" where
  "order_line order_id sm side_ch type_ch pr qty ts =
     (let side_str = (if side_ch = CHR ''B'' then ''BUY'' else ''SELL'');
          type_str = (if type_ch = CHR ''L'' then ''LIMIT'' else ''MARKET'')
      in ''ORDER|'' @ show_int order_id @ ''|'' @ cstr sm @ ''|'' @ side_str @ ''|'' @ type_str @ ''|''
         @ show_fixed 4 pr @ ''|'' @ show_int qty @ ''|'' @ show_nat (unat ts))"

text \<open>The status returned and the text left in the buffer, \<open>None\<close> when the buffer is not touched.\<close>

definition gw_serialize_order :: "bool \<Rightarrow> u32 \<Rightarrow> int \<Rightarrow> string \<Rightarrow> char \<Rightarrow> char \<Rightarrow> double \<Rightarrow> int \<Rightarrow> u64 \<Rightarrow> int \<times> string option" where
  "gw_serialize_order have_buf buf_size order_id sm side_ch type_ch pr qty ts =
     (if \<not> have_buf \<or> buf_size = 0 then (-1, None)
      else let line = order_line order_id sm side_ch type_ch pr qty ts;
               written = printf_count line
           in (if 0 < written \<and> (of_int written :: u32) < buf_size then 0 else -1,
               Some (snprintf (unat buf_size) line)))"

end
