(* ===== verification/Gateway_Properties.thy ===== *)
theory Gateway_Properties
  imports Execution_Gateway
begin

text \<open>
  What the gateway guarantees: an order line always fits the buffer of the pipeline and can be parsed
  back field by field; a connected gateway takes every order, logs it and acknowledges it in the
  simulation; after a shutdown it takes none.
\<close>

section \<open>The text protocol\<close>

fun split_on :: "char \<Rightarrow> string \<Rightarrow> string list" where
  "split_on c [] = [[]]"
| "split_on c (x # xs) = (if x = c then [] # split_on c xs else (x # hd (split_on c xs)) # tl (split_on c xs))"

lemma split_on_field: "c \<notin> set w \<Longrightarrow> split_on c (w @ c # rest) = w # split_on c rest"
  by (induction w) auto

lemma split_on_nonempty: "split_on c w \<noteq> []"
  by (cases w) auto

lemma split_on_append: "split_on c (w @ c # rest) = split_on c w @ split_on c rest"
  by (induction w) (simp_all add: split_on_nonempty)

lemma split_on_last: "c \<notin> set w \<Longrightarrow> split_on c w = [w]"
  by (induction w) auto

lemma no_digit_not_in: "\<not> is_digit c \<Longrightarrow> c \<notin> set (show_nat n)" "\<not> is_digit c \<Longrightarrow> c \<notin> set (show_digits p n)"
  using show_nat_digits [of c n] show_digits_digits [of c p n] by blast+

lemma not_in_show_int: "\<not> is_digit c \<Longrightarrow> c \<noteq> CHR ''-'' \<Longrightarrow> c \<notin> set (show_int i)"
  by (auto simp: show_int_def dest: show_nat_digits)

lemma not_in_show_fixed: "c = CHR ''|'' \<or> c = NUL \<Longrightarrow> c \<notin> set (show_fixed p x)"
proof -
  assume c: "c = CHR ''|'' \<or> c = NUL"
  then have "\<not> is_digit c" using is_digit_not_minus by auto
  note nd = no_digit_not_in [OF this]
  from c nd show ?thesis by (auto simp: show_fixed_def Let_def NUL_def)
qed

lemma mag_val_inf: "mag_val inf_mag = 2 ^ 52 * 2 ^ 2046"
  by (simp add: mag_val_def inf_mag_def)

lemma finite_whole_part: "d_finite x \<Longrightarrow> rne (mag_val (d_mag x) * 10 ^ 4) d_unit div 10 ^ 4 < 10 ^ Suc 308"
proof -
  assume "d_finite x"
  then have "mag_val (d_mag x) < 2 ^ 52 * 2 ^ 2046" unfolding mag_val_inf [symmetric] by (simp add: d_finite_def)
  then have "mag_val (d_mag x) * 10 ^ 4 < (2 ^ 52 * 2 ^ 2046) * 10 ^ 4" by (rule mult_strict_right_mono) simp
  also have "\<dots> = d_unit * (2 ^ 1024 * 10 ^ 4)" by (simp add: d_unit_def)
  finally have less: "mag_val (d_mag x) * 10 ^ 4 div d_unit < 2 ^ 1024 * 10 ^ 4"
    by (simp add: div_less_iff_less_mult mult.commute)
  have "rne (mag_val (d_mag x) * 10 ^ 4) d_unit \<le> 2 ^ 1024 * 10 ^ 4"
    by (rule le_trans [OF conjunct2 [OF rne_bounds]]) (use less in \<open>simp only: Suc_eq_plus1 [symmetric] Suc_le_eq\<close>)
  then have "rne (mag_val (d_mag x) * 10 ^ 4) d_unit div 10 ^ 4 \<le> 2 ^ 1024 * 10 ^ 4 div 10 ^ 4" by (rule div_le_mono)
  also have "\<dots> < 10 ^ Suc 308" by (subst nonzero_mult_div_cancel_right) simp_all
  finally show ?thesis .
qed

lemma length_show_fixed: "length (show_fixed 4 x) \<le> 315"
proof (cases "d_finite x")
  case True
  then have n: "\<not> is_nan x" "\<not> is_inf x" by simp_all
  have "length (show_fixed 4 x) \<le> 1 + (length (show_nat (rne (mag_val (d_mag x) * 10 ^ 4) d_unit div 10 ^ 4)) + 5)"
    unfolding show_fixed_def Let_def using n by simp
  also have "\<dots> \<le> 1 + (Suc 308 + 5)" using length_show_nat [OF finite_whole_part [OF True]] by (simp only: add_le_mono le_refl)
  finally show ?thesis by simp
next
  case False
  then show ?thesis unfolding d_finite_iff show_fixed_def by auto
qed

lemma rne_nearest:
  assumes "0 < d"
  shows "2 * (rne n d * d) \<le> 2 * n + d \<and> 2 * n \<le> 2 * (rne n d * d) + d
    \<and> (2 * (rne n d * d) = 2 * n + d \<or> 2 * n = 2 * (rne n d * d) + d \<longrightarrow> even (rne n d))"
proof -
  define q where "q = n div d"
  define r where "r = n mod d"
  have n: "n = q * d + r" and r: "r < d" using assms by (simp_all add: q_def r_def)
  have R: "rne n d = (if 2 * r < d \<or> 2 * r = d \<and> even q then q else q + 1)"
    by (simp add: rne_def Let_def q_def r_def)
  show ?thesis
  proof (cases "2 * r < d \<or> 2 * r = d \<and> even q")
    case True
    then have "rne n d = q" by (simp add: R)
    then show ?thesis using True n r by auto
  next
    case False
    then have up: "rne n d = q + 1" by (simp only: R if_False)
    then have "rne n d * d = q * d + d" by simp
    moreover have "even (rne n d)" if "2 * r = d" using False that up by simp
    ultimately show ?thesis using False n r by auto
  qed
qed

lemma read_nat_append: "read_nat (a @ b) = read_nat a * 10 ^ length b + read_nat b"
  by (induction b rule: rev_induct) (simp_all add: read_nat_def [of "[]"] algebra_simps flip: append_assoc)

text \<open>\<open>w.f\<close>, with its sign, is the decimal text with four places nearest to the finite double \<open>x\<close>: read as a
  number of ten-thousandths it differs from \<open>x\<close> by at most half of one, and a tie goes to the even number.\<close>

definition decimal_of :: "double \<Rightarrow> string \<Rightarrow> string \<Rightarrow> string \<Rightarrow> bool" where
  "decimal_of x p w f \<longleftrightarrow> p = (if d_sign x then ''-'' else '''') @ w @ ''.'' @ f
     \<and> w \<noteq> [] \<and> list_all is_digit w \<and> list_all is_digit f \<and> length f = 4
     \<and> (let n = read_nat (w @ f) * d_unit; m = mag_val (d_mag x) * 10000
         in 2 * n \<le> 2 * m + d_unit \<and> 2 * m \<le> 2 * n + d_unit
            \<and> (2 * n = 2 * m + d_unit \<or> 2 * m = 2 * n + d_unit \<longrightarrow> even (read_nat (w @ f))))"

lemma decimal_of_sign: "decimal_of x p w f \<Longrightarrow> d_sign x \<Longrightarrow> hd p = CHR ''-''"
  by (simp add: decimal_of_def)

lemma show_fixed_decimal: "d_finite x \<Longrightarrow> \<exists>w f. decimal_of x (show_fixed 4 x) w f"
proof -
  assume f: "d_finite x"
  define n where "n = rne (mag_val (d_mag x) * 10000) d_unit"
  have "show_fixed 4 x = (if d_sign x then ''-'' else '''') @ show_nat (n div 10000) @ ''.'' @ show_digits 4 (n mod 10000)"
    using f by (simp add: show_fixed_def Let_def n_def)
  moreover have "list_all is_digit (show_nat (n div 10000))" "list_all is_digit (show_digits 4 (n mod 10000))"
    using show_nat_digits show_digits_digits by (auto simp: list_all_iff)
  moreover have "read_nat (show_nat (n div 10000) @ show_digits 4 (n mod 10000)) = n"
    by (simp add: read_nat_append read_show_digits)
  moreover note rne_nearest [OF d_unit_pos, of "mag_val (d_mag x) * 10000", folded n_def]
  ultimately have "decimal_of x (show_fixed 4 x) (show_nat (n div 10000)) (show_digits 4 (n mod 10000))"
    unfolding decimal_of_def Let_def by simp
  then show ?thesis by blast
qed

lemma length_order_line: "in_s32 i \<Longrightarrow> in_s32 q \<Longrightarrow> length sm \<le> 16 \<Longrightarrow> length (order_line i sm sc tc pr q ts) \<le> 395"
proof -
  assume i: "in_s32 i" and q: "in_s32 q" and s: "length sm \<le> 16"
  have "length (show_int i) \<le> Suc (Suc 9)" "length (show_int q) \<le> Suc (Suc 9)"
    by (rule length_show_int; use i q in \<open>simp add: in_s32_def\<close>)+
  moreover have "length (show_nat (unat ts)) \<le> Suc 19"
    by (rule length_show_nat) (rule less_trans [OF unat_u64_less], simp)
  moreover have "length (cstr sm) \<le> 16" using s length_takeWhile_le [of _ sm] by (auto simp: cstr_def intro: le_trans)
  ultimately show ?thesis using length_show_fixed [of pr] by (auto simp: order_line_def Let_def)
qed

lemma gw_serialize_order_ok:
  assumes "in_s32 i" and "in_s32 q" and "length sm \<le> 16"
  shows "gw_serialize_order True GW_MAX_MSG_SIZE i sm sc tc pr q ts = (0, Some (order_line i sm sc tc pr q ts))"
proof -
  let ?line = "order_line i sm sc tc pr q ts"
  have len: "length ?line \<le> 395" by (rule length_order_line) (use assms in auto)
  have ne: "0 < length ?line" by (simp add: order_line_def Let_def)
  have "(of_int (printf_count ?line) :: u32) < 512"
    using len by (simp add: printf_count_def word_less_nat_alt unat_of_nat_u32)
  then show ?thesis
    using len ne by (simp add: gw_serialize_order_def GW_MAX_MSG_SIZE_def printf_count_def snprintf_def Let_def)
qed

lemma nul_not_in_order_line: "NUL \<notin> set (order_line i sm sc tc pr q ts)"
proof -
  have "NUL \<notin> set (show_int j)" "NUL \<notin> set (show_nat n)" "NUL \<notin> set (show_fixed 4 pr)" for j n
    using not_in_show_int is_digit_not_minus no_digit_not_in(1) not_in_show_fixed by (auto simp: NUL_def)
  moreover have "NUL \<notin> set (cstr sm)" by (auto simp: cstr_def dest: set_takeWhileD)
  ultimately show ?thesis by (simp add: order_line_def NUL_def)
qed

lemma split_on_bar: "split_on c w = [w] \<longleftrightarrow> c \<notin> set w"
proof
  assume one: "split_on c w = [w]"
  show "c \<notin> set w"
  proof
    assume "c \<in> set w"
    then obtain u v where w: "w = u @ c # v" by (auto dest: split_list)
    have "0 < length (split_on c u)" "0 < length (split_on c v)" using split_on_nonempty by blast+
    moreover have "length (split_on c u @ split_on c v) = 1" using one by (simp flip: split_on_append w)
    ultimately show False unfolding length_append by linarith
  qed
qed (rule split_on_last)

text \<open>C37: order lines survive the text protocol. For every order with 32-bit id and quantity, a symbol array
  of at most 16 characters and any price, the serialisation into a buffer of \<open>GW_MAX_MSG_SIZE\<close> succeeds.
  Splitting the text at the bars gives the id, the symbol, the side, the type, the price, the quantity and
  the timestamp: id, quantity and timestamp are read back exactly; a finite price is written with its
  sign, a decimal point and four places, and is the nearest such number, ties to even; infinities and NaNs
  are written by name. The symbol, up to its first NUL, is one field, so that there are eight in all, exactly
  when it has no bar; a symbol with bars, which the command line accepts, takes more fields, always the
  ones between the second and the last five.\<close>

theorem gw_serialize_order_roundtrip:
  assumes "in_s32 i" and "in_s32 q" and "length sm \<le> 16"
  shows "\<exists>line a p b t. gw_serialize_order True GW_MAX_MSG_SIZE i sm sc tc pr q ts = (0, Some line)
    \<and> 0 < length line \<and> length line < 512 \<and> NUL \<notin> set line
    \<and> split_on (CHR ''|'') line = [''ORDER'', a] @ split_on (CHR ''|'') (cstr sm)
         @ [if sc = CHR ''B'' then ''BUY'' else ''SELL'', if tc = CHR ''L'' then ''LIMIT'' else ''MARKET'', p, b, t]
    \<and> (split_on (CHR ''|'') (cstr sm) = [cstr sm] \<longleftrightarrow> CHR ''|'' \<notin> set (cstr sm))
    \<and> read_int a = i \<and> read_int b = q \<and> read_nat t = unat ts
    \<and> (d_finite pr \<longrightarrow> (\<exists>w f. decimal_of pr p w f))
    \<and> (is_nan pr \<longrightarrow> p = (if d_sign pr then ''-nan'' else ''nan''))
    \<and> (is_inf pr \<longrightarrow> p = (if d_sign pr then ''-inf'' else ''inf''))"
proof -
  let ?line = "order_line i sm sc tc pr q ts"
  have bar: "CHR ''|'' \<notin> set (show_int j)" "CHR ''|'' \<notin> set (show_nat n)" "CHR ''|'' \<notin> set (show_fixed 4 pr)" for j n
    using not_in_show_int is_digit_not_minus no_digit_not_in(1) not_in_show_fixed by auto
  show ?thesis
  proof (intro exI conjI)
    show "gw_serialize_order True GW_MAX_MSG_SIZE i sm sc tc pr q ts = (0, Some ?line)" by (rule gw_serialize_order_ok [OF assms])
    show "0 < length ?line" by (simp add: order_line_def Let_def)
    show "length ?line < 512" using length_order_line [OF assms, of sc tc pr ts] by linarith
    show "NUL \<notin> set ?line" by (rule nul_not_in_order_line)
    show "split_on (CHR ''|'') ?line = [''ORDER'', show_int i] @ split_on (CHR ''|'') (cstr sm)
       @ [if sc = CHR ''B'' then ''BUY'' else ''SELL'', if tc = CHR ''L'' then ''LIMIT'' else ''MARKET'',
          show_fixed 4 pr, show_int q, show_nat (unat ts)]"
      by (simp add: order_line_def split_on_field split_on_append split_on_last bar)
    show "split_on (CHR ''|'') (cstr sm) = [cstr sm] \<longleftrightarrow> CHR ''|'' \<notin> set (cstr sm)" by (rule split_on_bar)
    show "read_int (show_int i) = i" "read_int (show_int q) = q" "read_nat (show_nat (unat ts)) = unat ts" by simp_all
    show "d_finite pr \<longrightarrow> (\<exists>w f. decimal_of pr (show_fixed 4 pr) w f)" using show_fixed_decimal by blast
    show "is_nan pr \<longrightarrow> show_fixed 4 pr = (if d_sign pr then ''-nan'' else ''nan'')"
      "is_inf pr \<longrightarrow> show_fixed 4 pr = (if d_sign pr then ''-inf'' else ''inf'')"
      by (auto simp: show_fixed_def is_nan_def is_inf_def)
  qed
qed

theorem gw_serialize_order_roundtrip_witness:
  "\<exists>line w f. gw_serialize_order True GW_MAX_MSG_SIZE 7 ''AAPL'' (CHR ''B'') (CHR ''L'') 0xC062C00000000000 100 5 = (0, Some line)
    \<and> split_on (CHR ''|'') line ! 2 = ''AAPL'' \<and> hd (split_on (CHR ''|'') line ! 5) = CHR ''-''
    \<and> decimal_of 0xC062C00000000000 (split_on (CHR ''|'') line ! 5) w f"
  using gw_serialize_order_roundtrip [of 7 100 "''AAPL''" "CHR ''B''" "CHR ''L''" "0xC062C00000000000" 5]
  by (auto simp: in_s32_def NUL_def cstr_def d_finite_def d_mag_def d_sign_def inf_mag_def)
    (auto simp: d_sign_def dest: decimal_of_sign)

section \<open>Sending\<close>

text \<open>A sequence of sends of whole messages: the statuses, the callbacks made and the gateway after.\<close>

fun gw_send_all :: "(u64 \<times> string \<times> int) list \<Rightarrow> execution_gateway option \<Rightarrow> int list \<times> ack_call list \<times> execution_gateway option" where
  "gw_send_all [] gw = ([], [], gw)"
| "gw_send_all ((now, m, i) # xs) gw =
     (let (r, cs, gw1) = gw_send_order now gw (Some m) (of_nat (length m)) i;
          (rs, cs', gw2) = gw_send_all xs gw1
      in (r # rs, cs @ cs', gw2))"

definition send_line :: "u64 \<times> string \<times> int \<Rightarrow> string" where
  "send_line x = (case x of (now, m, i) \<Rightarrow> ''SEND | '' @ show_nat (unat now) @ '' | '' @ cstr m @ [CHR 0x0A])"

definition sendable :: "u64 \<times> string \<times> int \<Rightarrow> bool" where
  "sendable x \<longleftrightarrow> (case x of (_, m, _) \<Rightarrow> m \<noteq> [] \<and> length m < 2 ^ 32)"

text \<open>What a connected gateway becomes, and the calls it makes, when it takes the orders \<open>xs\<close>.\<close>

definition after_sends :: "(u64 \<times> string \<times> int) list \<Rightarrow> execution_gateway \<Rightarrow> execution_gateway" where
  "after_sends xs g = g\<lparr>orders_sent := orders_sent g + of_nat (length xs),
     orders_acked := orders_acked g + (if sim_file g = None then 0 else of_nat (length xs)),
     sim_file := map_option (\<lambda>f. f @ concat (map send_line xs)) (sim_file g)\<rparr>"

definition acks_for :: "(u64 \<times> string \<times> int) list \<Rightarrow> execution_gateway \<Rightarrow> ack_call list" where
  "acks_for xs g = (case ack_cb g of Some cb \<Rightarrow>
       if sim_file g = None then [] else map (\<lambda>(_, _, i). (cb, i, 0, ack_user_data g)) xs
     | None \<Rightarrow> [])"

lemma send_one:
  assumes "gw_state g = GW_CONNECTED" and "sendable (now, m, i)"
  shows "gw_send_order now (Some g) (Some m) (of_nat (length m)) i = (0, acks_for [(now, m, i)] g, Some (after_sends [(now, m, i)] g))"
proof -
  have "unat (of_nat (length m) :: u32) \<noteq> 0" using assms(2) by (simp add: sendable_def unat_of_nat_u32)
  then have "(of_nat (length m) :: u32) \<noteq> 0" by (metis unat_0)
  then show ?thesis using assms(1)
    by (cases "sim_file g"; cases "ack_cb g")
      (simp_all add: gw_send_order_def gw_printf_def after_sends_def acks_for_def send_line_def Let_def)
qed

lemma after_sends_Cons: "after_sends (x # xs) g = after_sends xs (after_sends [x] g)"
  by (cases "sim_file g") (simp_all add: after_sends_def algebra_simps)

lemma acks_for_Cons: "acks_for (x # xs) g = acks_for [x] g @ acks_for xs (after_sends [x] g)"
  by (cases "ack_cb g") (auto simp: acks_for_def after_sends_def)

lemma send_all_connected:
  assumes "gw_state g = GW_CONNECTED" and "\<forall>x \<in> set xs. sendable x"
  shows "gw_send_all xs (Some g) = (replicate (length xs) 0, acks_for xs g, Some (after_sends xs g))"
  using assms
proof (induction xs arbitrary: g)
  case Nil
  show ?case by (cases "sim_file g"; cases "ack_cb g") (simp_all add: acks_for_def after_sends_def)
next
  case (Cons x xs)
  obtain now m i where x: "x = (now, m, i)" by (cases x) auto
  have "gw_state (after_sends [x] g) = GW_CONNECTED" using Cons.prems(1) by (simp add: after_sends_def)
  note ih = Cons.IH [OF this]
  have "sendable (now, m, i)" using Cons.prems(2) x by simp
  note one = send_one [OF Cons.prems(1) this]
  show ?case using ih Cons.prems(2)
    unfolding after_sends_Cons [of x xs g] acks_for_Cons [of x xs g] by (simp add: x one)
qed

text \<open>The life of a gateway. A gateway in simulation mode (or with a host) is connected: it takes
  every message, in order. With an open log each message becomes exactly one line of it, is acknowledged
  exactly once, and nothing is ever pending; without one (a real connection, or a simulation whose log
  could not be opened) nothing is acknowledged and the pending count, a 32-bit number, is the number of
  messages sent. After the shutdown every send is refused and changes nothing.\<close>

theorem gw_lifecycle:
  assumes "gw_init True file start (Some c) = Some g" and "gw_simulation_mode c \<or> cstr (host c) \<noteq> []"
    and "\<forall>x \<in> set xs. sendable x"
  shows "\<exists>calls g'. gw_send_all xs (Some g) = (replicate (length xs) 0, calls, Some g')
    \<and> gw_get_state (Some g') = GW_CONNECTED
    \<and> sim_file g' = map_option (\<lambda>f. f @ concat (map send_line xs)) (sim_file g)
    \<and> gw_pending_acks (Some g') = (if gw_simulation_mode c \<and> file \<noteq> None then 0 else of_nat (length xs))
    \<and> gw_send_order now (gw_shutdown (Some g')) m l i = (-1, [], gw_shutdown (Some g'))
    \<and> gw_get_state (gw_shutdown (Some g')) = GW_DISCONNECTED"
proof -
  have g: "gw_state g = GW_CONNECTED" "orders_sent g = 0" "orders_acked g = 0"
      "(sim_file g = None) \<longleftrightarrow> \<not> (gw_simulation_mode c \<and> file \<noteq> None)"
    using assms(1,2) by (auto simp: gw_init_def gw_printf_def Let_def split: if_splits)
  let ?g = "after_sends xs g"
  have st: "gw_state ?g = GW_CONNECTED" using g(1) by (simp add: after_sends_def)
  have pend: "gw_pending_acks (Some ?g) = (if gw_simulation_mode c \<and> file \<noteq> None then 0 else of_nat (length xs))"
    using g by (auto simp: gw_pending_acks_def after_sends_def ucast_of_nat_u32)
  have ref: "gw_send_order now (gw_shutdown (Some ?g)) m l i = (-1, [], gw_shutdown (Some ?g))"
    by (cases m) (simp_all add: gw_shutdown_def gw_send_order_def)
  have "gw_get_state (gw_shutdown (Some ?g)) = GW_DISCONNECTED" by (simp add: gw_shutdown_def gw_get_state_def)
  moreover have "sim_file ?g = map_option (\<lambda>f. f @ concat (map send_line xs)) (sim_file g)" by (simp add: after_sends_def)
  ultimately show ?thesis
    using send_all_connected [OF g(1) assms(3)] st pend ref by (simp add: gw_get_state_def)
qed

definition ex_gw_config :: gw_config where
  "ex_gw_config = \<lparr>host = [], port = 0, max_retries = 0, retry_delay_ns = 0, connect_timeout_ns = 0,
     max_pending_acks = 0, gw_simulation_mode = True, sim_log_file = ''execution_gateway.log''\<rparr>"

theorem gw_lifecycle_witness:
  "\<exists>g calls g'. gw_init True (Some []) 5 (Some ex_gw_config) = Some g
    \<and> gw_send_all [(9, ''ORDER|1'', 1), (10, ''ORDER|2'', 2)] (Some g) = ([0, 0], calls, Some g')
    \<and> gw_pending_acks (Some g') = 0"
proof -
  obtain g where g: "gw_init True (Some []) 5 (Some ex_gw_config) = Some g"
    by (simp add: gw_init_def ex_gw_config_def)
  have "gw_simulation_mode ex_gw_config" "sendable (9, ''ORDER|1'', 1)" "sendable (10, ''ORDER|2'', 2)"
    by (simp_all add: ex_gw_config_def sendable_def)
  then obtain calls g' where s: "gw_send_all [(9, ''ORDER|1'', 1), (10, ''ORDER|2'', 2)] (Some g)
      = (replicate (length [(9 :: u64, ''ORDER|1'', 1 :: int), (10, ''ORDER|2'', 2)]) 0, calls, Some g')"
      "gw_pending_acks (Some g') = 0"
    using gw_lifecycle [OF g, of "[(9, ''ORDER|1'', 1), (10, ''ORDER|2'', 2)]"] by force
  show ?thesis
    by (rule exI [of _ g], rule exI [of _ calls], rule exI [of _ g'])
      (intro conjI g s(2), unfold s(1), simp)
qed

end
