(* ===== verification/Message_Source.thy ===== *)
theory Message_Source
  imports Ring_Buffer
begin

text \<open>
  What every consumer of a queue of pointers relies on: \<open>next\<close> gives the address of the oldest message, which is then
  in the consumer's hands, or the null pointer when there is none. The rings themselves, the
  market data feed and the event channel of logger and pipeline all keep this contract, each with
  messages of its own, and the loops that poll or drain them are proved against it.
\<close>

locale message_queue =
  fixes take_next :: "'s \<Rightarrow> (ptr \<times> 's) option" and content_of :: "'s \<Rightarrow> ptr \<Rightarrow> 'm"
    and pending :: "'s \<Rightarrow> 'm list" and src_ok :: "ptr list \<Rightarrow> 's \<Rightarrow> bool"
  assumes next_empty: "src_ok xs s \<Longrightarrow> pending s = [] \<Longrightarrow> take_next s = Some (0, s)"
    and next_item: "src_ok xs s \<Longrightarrow> pending s = m # ms \<Longrightarrow>
      \<exists>a s'. take_next s = Some (a, s') \<and> a \<noteq> 0 \<and> src_ok (a # xs) s' \<and> content_of s a = m \<and> pending s' = ms"
begin

lemma next_total: "src_ok xs s \<Longrightarrow> \<exists>a s'. take_next s = Some (a, s') \<and> (if a = 0 then pending s = [] \<and> s' = s
    else src_ok (a # xs) s' \<and> pending s = content_of s a # pending s')"
proof (cases "pending s")
  case Nil
  then show "src_ok xs s \<Longrightarrow> ?thesis" using next_empty by fastforce
next
  case (Cons m ms)
  then show "src_ok xs s \<Longrightarrow> ?thesis" using next_item [of xs s m ms] by fastforce
qed

lemma next_null: "src_ok xs s \<Longrightarrow> take_next s = Some (0, s') \<Longrightarrow> pending s = [] \<and> s' = s"
  using next_total [of xs s] by auto

lemma next_message: "src_ok xs s \<Longrightarrow> take_next s = Some (a, s') \<Longrightarrow> a \<noteq> 0 \<Longrightarrow>
    src_ok (a # xs) s' \<and> pending s = content_of s a # pending s'"
  using next_total [of xs s] by auto

text \<open>The induction behind every loop that takes messages until there are none: after a message has
  been dealt with, the loop goes on with the remaining ones.\<close>

lemma drain_induct [consumes 1, case_names empty message]:
  assumes "src_ok xs s"
    and "\<And>s. src_ok xs s \<Longrightarrow> pending s = [] \<Longrightarrow> take_next s = Some (0, s) \<Longrightarrow> P s"
    and "\<And>s a s'. src_ok xs s \<Longrightarrow> take_next s = Some (a, s') \<Longrightarrow> a \<noteq> 0 \<Longrightarrow> src_ok (a # xs) s' \<Longrightarrow> pending s = content_of s a # pending s' \<Longrightarrow>
      (\<And>s1. src_ok xs s1 \<Longrightarrow> pending s1 = pending s' \<Longrightarrow> P s1) \<Longrightarrow> P s"
  shows "P s"
  using assms(1)
proof (induction "pending s" arbitrary: s)
  case Nil
  then show ?case using assms(2) next_empty by simp
next
  case (Cons m ms)
  from next_item [OF Cons.prems Cons.hyps(2) [symmetric]] obtain a s' where
    a: "take_next s = Some (a, s')" "a \<noteq> 0" "src_ok (a # xs) s'" "content_of s a = m" "pending s' = ms" by blast
  have "P s1" if "src_ok xs s1" "pending s1 = pending s'" for s1 using Cons.hyps(1) [of s1] that a(5) by simp
  then show ?case using assms(3) [OF Cons.prems a(1-3)] a(4,5) Cons.hyps(2) by simp
qed

end

text \<open>A ring whose items are not null.\<close>

definition ring_src :: "ptr list \<Rightarrow> ring_buffer \<Rightarrow> bool" where
  "ring_src xs q \<longleftrightarrow> rb_ok q \<and> 0 \<notin> set (rb_contents q)"

interpretation ringq: message_queue ring_buffer_pop "\<lambda>q a. a" rb_contents ring_src
proof
  show "ring_buffer_pop q = Some (0, q)" if "ring_src xs q" "rb_contents q = []" for xs q
    using that rbq.pop_empty by (simp add: ring_src_def)
  show "\<exists>a q'. ring_buffer_pop q = Some (a, q') \<and> a \<noteq> 0 \<and> ring_src (a # xs) q' \<and> a = m \<and> rb_contents q' = ms"
    if "ring_src xs q" "rb_contents q = m # ms" for xs q m ms
    using that rbq.pop_item [of q m ms] by (auto simp: ring_src_def)
qed

end
