(* ===== verification/Event_Channel.thy ===== *)
theory Event_Channel
  imports Message_Source
begin

text \<open>
  The two-queue hand-over that \<open>src/logger.c\<close> and \<open>src/event_pipeline.cpp\<close> share: a pool of
  pre-allocated entries, a queue of free entries and a queue of filled ones. The hot path takes a free entry,
  fills it and publishes it; the I/O thread takes the next filled entry, uses it and recycles it.

  An entry is named by its address; what the entries hold is a function of the address. The entries are
  fields of a record type \<open>'e\<close>, and filling overwrites some of them, so it is a function on \<open>'e\<close>. Every
  push and pop is the ring buffer's own. \<open>None\<close> as the result of an operation is an access outside a ring's
  storage; the theorems show that it does not occur. The last section interleaves the two threads at the
  granularity of ring operations, which the linearizability of the ring justifies.
\<close>

section \<open>State and operations\<close>

record 'e channel =
  free_queue :: ring_buffer
  filled_queue :: ring_buffer
  entries :: "ptr \<Rightarrow> 'e"

definition zero_ring :: ring_buffer where
  "zero_ring = \<lparr>head = 0, tail = 0, buffer = None, rb_capacity = 0, rb_mask = 0\<rparr>"

text \<open>The addresses of the entries of a pool, and the loop that pushes them and ignores the results.\<close>

definition pool_entries :: "ptr \<Rightarrow> u64 \<Rightarrow> u32 \<Rightarrow> ptr list" where
  "pool_entries base esize n = map (\<lambda>i. base + of_nat i * esize) [0..<unat n]"

fun push_entries :: "ptr list \<Rightarrow> ring_buffer \<Rightarrow> ring_buffer option" where
  "push_entries [] q = Some q"
| "push_entries (p # ps) q = (case ring_buffer_push q p of None \<Rightarrow> None | Some (_, q') \<Rightarrow> push_entries ps q')"

text \<open>Setting a channel up: the outer option is the absence of a memory fault, the inner one the success.
  \<open>base\<close> is the result of \<open>calloc\<close> for the pool and \<open>esize\<close> the size of an entry.\<close>

definition channel_init :: "(nat \<Rightarrow> bool) \<Rightarrow> ptr \<Rightarrow> u64 \<Rightarrow> u32 \<Rightarrow> 'e \<Rightarrow> 'e channel option option" where
  "channel_init alloc base esize n zero =
     (case (ring_buffer_init alloc (Some zero_ring) n, ring_buffer_init alloc (Some zero_ring) n) of
        ((r1, Some fq), (r2, Some dq)) \<Rightarrow>
          if r1 \<noteq> 0 \<or> r2 \<noteq> 0 \<or> base = 0 then Some None
          else (case push_entries (pool_entries base esize n) fq of
                  None \<Rightarrow> None
                | Some fq' \<Rightarrow> Some (Some \<lparr>free_queue = fq', filled_queue = dq, entries = (\<lambda>_. zero)\<rparr>))
      | _ \<Rightarrow> Some None)"

definition chan_take :: "'e channel \<Rightarrow> (ptr \<times> 'e channel) option" where
  "chan_take c = map_option (\<lambda>(p, q). (p, c\<lparr>free_queue := q\<rparr>)) (ring_buffer_pop (free_queue c))"

definition chan_publish :: "ptr \<Rightarrow> ('e \<Rightarrow> 'e) \<Rightarrow> 'e channel \<Rightarrow> 'e channel option" where
  "chan_publish p f c = map_option (\<lambda>(_, q). c\<lparr>entries := (entries c)(p := f (entries c p)), filled_queue := q\<rparr>)
     (ring_buffer_push (filled_queue c) p)"

definition chan_next :: "'e channel \<Rightarrow> (ptr \<times> 'e channel) option" where
  "chan_next c = map_option (\<lambda>(p, q). (p, c\<lparr>filled_queue := q\<rparr>)) (ring_buffer_pop (filled_queue c))"

definition chan_recycle :: "ptr \<Rightarrow> ('e \<Rightarrow> 'e) \<Rightarrow> 'e channel \<Rightarrow> 'e channel option" where
  "chan_recycle p f c = map_option (\<lambda>(_, q). c\<lparr>entries := (entries c)(p := f (entries c p)), free_queue := q\<rparr>)
     (ring_buffer_push (free_queue c) p)"

text \<open>The whole hot-path operation: take, fill, publish; \<open>False\<close> when there was no free entry.\<close>

definition chan_send :: "('e \<Rightarrow> 'e) \<Rightarrow> 'e channel \<Rightarrow> (bool \<times> 'e channel) option" where
  "chan_send f c = (case chan_take c of
     None \<Rightarrow> None
   | Some (p, c1) \<Rightarrow> if p = 0 then Some (False, c1) else map_option (Pair True) (chan_publish p f c1))"

section \<open>Both threads\<close>

record 'e chan_system =
  chan :: "'e channel"
  hot_entry :: ptr
  io_entry :: ptr
  sent :: "'e list"
  received :: "'e list"

text \<open>The steps. \<open>io_drop\<close> is the drain at shutdown, which does not recycle.\<close>

inductive chan_step :: "'e chan_system \<Rightarrow> 'e chan_system \<Rightarrow> bool" where
  hot_take: "hot_entry s = 0 \<Longrightarrow> chan_take (chan s) = Some (p, c) \<Longrightarrow> chan_step s (s\<lparr>chan := c, hot_entry := p\<rparr>)"
| hot_publish: "hot_entry s \<noteq> 0 \<Longrightarrow> chan_publish (hot_entry s) f (chan s) = Some c \<Longrightarrow>
    chan_step s (s\<lparr>chan := c, hot_entry := 0, sent := sent s @ [f (entries (chan s) (hot_entry s))]\<rparr>)"
| io_next: "io_entry s = 0 \<Longrightarrow> chan_next (chan s) = Some (p, c) \<Longrightarrow>
    chan_step s (s\<lparr>chan := c, io_entry := p, received := received s @ (if p = 0 then [] else [entries c p])\<rparr>)"
| io_recycle: "io_entry s \<noteq> 0 \<Longrightarrow> chan_recycle (io_entry s) f (chan s) = Some c \<Longrightarrow>
    chan_step s (s\<lparr>chan := c, io_entry := 0\<rparr>)"
| io_drop: "chan_step s (s\<lparr>io_entry := 0\<rparr>)"

inductive chan_reachable :: "'e channel \<Rightarrow> 'e chan_system \<Rightarrow> bool" for c where
  chan_start: "chan_reachable c \<lparr>chan = c, hot_entry = 0, io_entry = 0, sent = [], received = []\<rparr>"
| chan_more: "chan_reachable c s \<Longrightarrow> chan_step s s' \<Longrightarrow> chan_reachable c s'"

section \<open>The invariant\<close>

definition held :: "ptr \<Rightarrow> ptr list" where
  "held p = (if p = 0 then [] else [p])"

text \<open>The entries in circulation, and a channel with further entries \<open>xs\<close> in the threads' hands.\<close>

definition circulating :: "'e channel \<Rightarrow> ptr list" where
  "circulating c = rb_contents (free_queue c) @ rb_contents (filled_queue c)"

definition chan_ok :: "ptr list \<Rightarrow> 'e channel \<Rightarrow> bool" where
  "chan_ok xs c \<longleftrightarrow> rb_ok (free_queue c) \<and> rb_ok (filled_queue c) \<and> distinct (circulating c @ xs)
     \<and> 0 \<notin> set (circulating c @ xs) \<and> length (circulating c @ xs) \<le> rb_bound (free_queue c)
     \<and> length (circulating c @ xs) \<le> rb_bound (filled_queue c)"

definition queued :: "'e channel \<Rightarrow> 'e list" where
  "queued c = map (entries c) (rb_contents (filled_queue c))"

definition free_entries :: "'e channel \<Rightarrow> ptr list" where
  "free_entries c = rb_contents (free_queue c)"

lemma chan_ok_swap: "chan_ok (xs @ ys) c \<longleftrightarrow> chan_ok (ys @ xs) c"
  by (auto simp: chan_ok_def)

text \<open>Taking: a free entry passes into the hands of the hot path, or there is none and nothing changes.\<close>

lemma chan_take_spec:
  assumes "chan_ok xs c"
  shows "\<exists>p c'. chan_take c = Some (p, c') \<and> chan_ok (held p @ xs) c' \<and> queued c' = queued c \<and> entries c' = entries c
    \<and> free_entries c' = tl (free_entries c) \<and> (p = 0 \<longleftrightarrow> free_entries c = []) \<and> (p = 0 \<longrightarrow> c' = c)"
proof (cases "rb_contents (free_queue c)")
  case Nil
  then have "ring_buffer_pop (free_queue c) = Some (0, free_queue c)"
    using assms rbq.pop_empty by (auto simp: chan_ok_def)
  then show ?thesis using assms Nil by (simp add: chan_take_def held_def free_entries_def)
next
  case (Cons p ps)
  have "rb_ok (free_queue c)" using assms by (simp add: chan_ok_def)
  from rbq.pop_item [OF this Cons] obtain q where
    q: "ring_buffer_pop (free_queue c) = Some (p, q)" "rb_ok q" "rb_contents q = ps" "rb_bound q = rb_bound (free_queue c)"
    by blast
  have "p \<noteq> 0" using assms Cons by (auto simp: chan_ok_def circulating_def)
  moreover have "chan_ok (held p @ xs) (c\<lparr>free_queue := q\<rparr>)"
    using assms q Cons \<open>p \<noteq> 0\<close> by (auto simp: chan_ok_def circulating_def held_def)
  ultimately show ?thesis using q Cons by (simp add: chan_take_def queued_def free_entries_def)
qed

text \<open>Publishing never fails for want of room: every entry in circulation fits the queue.\<close>

lemma chan_publish_spec:
  assumes "chan_ok (p # xs) c"
  shows "\<exists>c'. chan_publish p f c = Some c' \<and> chan_ok xs c' \<and> queued c' = queued c @ [f (entries c p)]
    \<and> free_entries c' = free_entries c \<and> (\<forall>q. q \<noteq> p \<longrightarrow> entries c' q = entries c q)"
proof -
  have ok: "rb_ok (filled_queue c)" and room: "length (rb_contents (filled_queue c)) < rb_bound (filled_queue c)"
    and new: "p \<notin> set (rb_contents (filled_queue c))"
    using assms by (auto simp: chan_ok_def circulating_def)
  from rbq.push_room [OF ok room] obtain q where
    q: "ring_buffer_push (filled_queue c) p = Some (True, q)" "rb_ok q" "rb_contents q = rb_contents (filled_queue c) @ [p]"
      "rb_bound q = rb_bound (filled_queue c)" by blast
  let ?c = "c\<lparr>entries := (entries c)(p := f (entries c p)), filled_queue := q\<rparr>"
  have "chan_ok xs ?c" using assms q by (auto simp: chan_ok_def circulating_def)
  moreover have "queued ?c = queued c @ [f (entries c p)]" using q(3) new by (auto simp: queued_def intro: map_cong)
  ultimately show ?thesis using q by (simp add: chan_publish_def free_entries_def)
qed

lemma chan_next_spec:
  assumes "chan_ok xs c"
  shows "\<exists>p c'. chan_next c = Some (p, c') \<and> chan_ok (held p @ xs) c' \<and> entries c' = entries c
    \<and> free_entries c' = free_entries c
    \<and> (if p = 0 then queued c = [] \<and> c' = c else queued c = entries c p # queued c')"
proof (cases "rb_contents (filled_queue c)")
  case Nil
  then have "ring_buffer_pop (filled_queue c) = Some (0, filled_queue c)"
    using assms rbq.pop_empty by (auto simp: chan_ok_def)
  then show ?thesis using assms Nil by (simp add: chan_next_def held_def queued_def)
next
  case (Cons p ps)
  have "rb_ok (filled_queue c)" using assms by (simp add: chan_ok_def)
  from rbq.pop_item [OF this Cons] obtain q where
    q: "ring_buffer_pop (filled_queue c) = Some (p, q)" "rb_ok q" "rb_contents q = ps" "rb_bound q = rb_bound (filled_queue c)"
    by blast
  have "p \<noteq> 0" using assms Cons by (auto simp: chan_ok_def circulating_def)
  moreover have "chan_ok (held p @ xs) (c\<lparr>filled_queue := q\<rparr>)"
    using assms q Cons \<open>p \<noteq> 0\<close> by (auto simp: chan_ok_def circulating_def held_def)
  ultimately show ?thesis using q Cons by (simp add: chan_next_def queued_def free_entries_def)
qed

lemma chan_recycle_spec:
  assumes "chan_ok (p # xs) c"
  shows "\<exists>c'. chan_recycle p f c = Some c' \<and> chan_ok xs c' \<and> queued c' = queued c
    \<and> free_entries c' = free_entries c @ [p] \<and> (\<forall>q. q \<noteq> p \<longrightarrow> entries c' q = entries c q)"
proof -
  have ok: "rb_ok (free_queue c)" and room: "length (rb_contents (free_queue c)) < rb_bound (free_queue c)"
    and new: "p \<notin> set (rb_contents (filled_queue c))"
    using assms by (auto simp: chan_ok_def circulating_def)
  from rbq.push_room [OF ok room] obtain q where
    q: "ring_buffer_push (free_queue c) p = Some (True, q)" "rb_ok q" "rb_contents q = rb_contents (free_queue c) @ [p]"
      "rb_bound q = rb_bound (free_queue c)" by blast
  let ?c = "c\<lparr>entries := (entries c)(p := f (entries c p)), free_queue := q\<rparr>"
  have "chan_ok xs ?c" using assms q by (auto simp: chan_ok_def circulating_def)
  moreover have "queued ?c = queued c" using new by (auto simp: queued_def intro: map_cong)
  ultimately show ?thesis using q by (simp add: chan_recycle_def free_entries_def)
qed

text \<open>For its consumer the channel is a message queue.\<close>

interpretation evq: message_queue chan_next entries queued chan_ok
proof
  show "chan_next c = Some (0, c)" if "chan_ok xs c" "queued c = []" for xs and c :: "'e channel"
    using chan_next_spec [OF that(1)] that(2) by (auto split: if_splits)
  show "\<exists>a c'. chan_next c = Some (a, c') \<and> a \<noteq> 0 \<and> chan_ok (a # xs) c' \<and> entries c a = m \<and> queued c' = ms"
    if "chan_ok xs c" "queued c = m # ms" for xs m ms and c :: "'e channel"
    using chan_next_spec [OF that(1)] that(2) by (auto simp: held_def split: if_splits)
qed

text \<open>The hot-path operation as a whole.\<close>

lemma chan_send_spec:
  assumes "chan_ok xs c"
  shows "if free_entries c = [] then chan_send f c = Some (False, c)
    else \<exists>c'. chan_send f c = Some (True, c') \<and> chan_ok xs c' \<and> free_entries c' = tl (free_entries c)
      \<and> queued c' = queued c @ [f (entries c (hd (free_entries c)))]"
proof -
  from chan_take_spec [OF assms] obtain p c1 where
    t: "chan_take c = Some (p, c1)" "chan_ok (held p @ xs) c1" "queued c1 = queued c" "entries c1 = entries c"
      "free_entries c1 = tl (free_entries c)" "p = 0 \<longleftrightarrow> free_entries c = []" "p = 0 \<longrightarrow> c1 = c" by blast
  show ?thesis
  proof (cases "p = 0")
    case True
    then show ?thesis using t by (simp add: chan_send_def)
  next
    case False
    then have "chan_ok (p # xs) c1" using t(2) by (simp add: held_def)
    from chan_publish_spec [OF this, of f] obtain c2 where
      c2: "chan_publish p f c1 = Some c2" "chan_ok xs c2" "queued c2 = queued c1 @ [f (entries c1 p)]"
        "free_entries c2 = free_entries c1" by blast
    have "p = hd (free_entries c)"
    proof -
      obtain ps where "free_entries c = hd (free_entries c) # ps" using False t(6) by (cases "free_entries c") auto
      moreover have "rb_ok (free_queue c)" using assms by (simp add: chan_ok_def)
      ultimately show ?thesis using t(1) rbq.pop_item [of "free_queue c" "hd (free_entries c)" ps]
        by (fastforce simp: chan_take_def free_entries_def)
    qed
    then show ?thesis using False t c2 by (simp add: chan_send_def)
  qed
qed

section \<open>Setting up\<close>

lemma push_entries_eq: "push_entries ps q = rbq.push_all ps q"
  by (induction ps arbitrary: q) (simp_all split: option.split)

lemma pool_entries_unat:
  fixes base esize :: u64 and n :: u32
  assumes "unat base + unat n * unat esize \<le> 2 ^ 64" and "0 < esize" and "i < unat n"
  shows "unat (base + of_nat i * esize) = unat base + i * unat esize"
proof -
  have e: "0 < unat esize" using assms(2) by (simp add: unat_gt_0 word_neq_0_conv)
  have "i * unat esize < unat n * unat esize" using assms(3) e by simp
  then have lt: "unat base + i * unat esize < 2 ^ 64" using assms(1) by linarith
  have "base + of_nat i * esize = of_nat (unat base + i * unat esize)" by simp
  also have "unat \<dots> = unat base + i * unat esize" by (rule unat_of_nat_u64) (use lt in simp)
  finally show ?thesis .
qed

lemma pool_entries_distinct:
  assumes "unat base + unat n * unat esize \<le> 2 ^ 64" and "0 < esize" and "base \<noteq> 0"
  shows "distinct (pool_entries base esize n) \<and> 0 \<notin> set (pool_entries base esize n)"
proof -
  have e: "0 < unat esize" "0 < unat base" using assms(2,3) by (simp_all add: unat_gt_0 word_neq_0_conv)
  have "inj_on (\<lambda>i. base + of_nat i * esize) {0..<unat n}"
  proof (rule inj_onI)
    fix i j assume "i \<in> {0..<unat n}" "j \<in> {0..<unat n}" "base + of_nat i * esize = base + of_nat j * esize"
    then have "unat base + i * unat esize = unat base + j * unat esize"
      using pool_entries_unat [OF assms(1,2)] by (metis atLeastLessThan_iff)
    then show "i = j" using e by simp
  qed
  moreover have "base + of_nat i * esize \<noteq> 0" if "i < unat n" for i
    using pool_entries_unat [OF assms(1,2) that] e by (metis add_is_0 neq0_conv unat_0)
  ultimately show ?thesis by (auto simp: pool_entries_def distinct_map)
qed

lemma channel_init_ok:
  assumes "0 < n" and "unat n \<le> 2147483648" and "alloc (unat (rounded_capacity n))" and "base \<noteq> 0" and "0 < esize"
    and "unat base + unat n * unat esize \<le> 2 ^ 64"
  shows "\<exists>c. channel_init alloc base esize n zero = Some (Some c) \<and> chan_ok [] c \<and> queued c = []
    \<and> entries c = (\<lambda>_. zero) \<and> free_entries c = take (unat (rounded_capacity n) - 1) (pool_entries base esize n)"
proof -
  from ring_buffer_init_ok [of n alloc zero_ring] assms(1,2,3) obtain rb where
    rb: "ring_buffer_init alloc (Some zero_ring) n = (0, Some rb)" "rb_ok rb" "rb_contents rb = []"
      "rb_bound rb = unat (rounded_capacity n) - 1" by blast
  from rbq.push_all_contents [OF rb(2), of "pool_entries base esize n"] obtain fq where
    fq: "push_entries (pool_entries base esize n) rb = Some fq" "rb_ok fq" "rb_bound fq = rb_bound rb"
      "rb_contents fq = take (unat (rounded_capacity n) - 1) (pool_entries base esize n)"
    unfolding push_entries_eq by (auto simp: rb(3,4))
  have d: "distinct (pool_entries base esize n)" "0 \<notin> set (pool_entries base esize n)"
    using pool_entries_distinct [OF assms(6,5,4)] by simp_all
  let ?c = "\<lparr>free_queue = fq, filled_queue = rb, entries = (\<lambda>_. zero)\<rparr>"
  have "chan_ok [] ?c"
    using d rb fq by (auto simp: chan_ok_def circulating_def dest: in_set_takeD)
  then show ?thesis using rb fq assms(4) by (simp add: channel_init_def queued_def free_entries_def)
qed

section \<open>No event is lost or reordered\<close>

definition chan_inv :: "'e chan_system \<Rightarrow> bool" where
  "chan_inv s \<longleftrightarrow> chan_ok (held (hot_entry s) @ held (io_entry s)) (chan s)
     \<and> received s @ queued (chan s) = sent s
     \<and> (io_entry s \<noteq> 0 \<longrightarrow> received s \<noteq> [] \<and> last (received s) = entries (chan s) (io_entry s))"

lemma chan_ok_drop: "chan_ok (xs @ ys) c \<Longrightarrow> chan_ok xs c"
  by (auto simp: chan_ok_def)

lemma chan_step_inv: "chan_step s s' \<Longrightarrow> chan_inv s \<Longrightarrow> chan_inv s'"
proof (induction rule: chan_step.induct)
  case (hot_take s p c)
  then show ?case using chan_take_spec [of "held (io_entry s)" "chan s"]
    by (auto simp: chan_inv_def held_def [of 0])
next
  case (hot_publish s f c)
  then have ok: "chan_ok (hot_entry s # held (io_entry s)) (chan s)" by (simp add: chan_inv_def held_def)
  then have "hot_entry s \<noteq> io_entry s" using hot_publish(1) by (auto simp: chan_ok_def held_def split: if_splits)
  then show ?case using chan_publish_spec [OF ok, of f] hot_publish by (auto simp: chan_inv_def held_def [of 0])
next
  case (io_next s p c)
  then have "chan_ok (held (hot_entry s)) (chan s)" by (simp add: chan_inv_def held_def [of 0])
  from chan_next_spec [OF this] io_next(2) have
    c: "chan_ok (held p @ held (hot_entry s)) c" "entries c = entries (chan s)"
      "if p = 0 then queued (chan s) = [] \<and> c = chan s else queued (chan s) = entries (chan s) p # queued c" by auto
  have "chan_ok (held (hot_entry s) @ held p) c" using c(1) chan_ok_swap by blast
  then show ?case using c io_next(3) by (auto simp: chan_inv_def)
next
  case (io_recycle s f c)
  then have ok: "chan_ok (io_entry s # held (hot_entry s)) (chan s)"
    using chan_ok_swap [of "held (hot_entry s)" "held (io_entry s)" "chan s"] by (simp add: chan_inv_def held_def [of "io_entry s"])
  then show ?case using chan_recycle_spec [OF ok, of f] io_recycle by (auto simp: chan_inv_def held_def [of 0])
next
  case (io_drop s)
  then show ?case by (auto simp: chan_inv_def held_def [of 0] dest: chan_ok_drop)
qed

lemma chan_reachable_inv: "chan_reachable c s \<Longrightarrow> chan_ok [] c \<Longrightarrow> queued c = [] \<Longrightarrow> chan_inv s"
proof (induction rule: chan_reachable.induct)
  case chan_start
  then show ?case by (simp add: chan_inv_def held_def)
qed (auto intro: chan_step_inv)

lemma chan_inv_live:
  assumes "chan_inv s"
  shows "chan_take (chan s) \<noteq> None \<and> chan_next (chan s) \<noteq> None
    \<and> (hot_entry s \<noteq> 0 \<longrightarrow> chan_publish (hot_entry s) f (chan s) \<noteq> None)
    \<and> (io_entry s \<noteq> 0 \<longrightarrow> chan_recycle (io_entry s) f (chan s) \<noteq> None)"
proof -
  have ok: "chan_ok (held (hot_entry s) @ held (io_entry s)) (chan s)" using assms by (simp add: chan_inv_def)
  then have ok': "chan_ok (held (io_entry s) @ held (hot_entry s)) (chan s)" using chan_ok_swap by blast
  show ?thesis
    using chan_take_spec [OF ok] chan_next_spec [OF ok] chan_publish_spec [of "hot_entry s" "held (io_entry s)" "chan s" f]
      chan_recycle_spec [of "io_entry s" "held (hot_entry s)" "chan s" f] ok ok'
    by (auto simp: held_def)
qed

text \<open>C17: the hand-over between hot path and I/O thread is lossless. Whatever the two threads do and
  however they interleave, the events the I/O thread has received followed by those still queued are the
  events sent, in order; the event it works on stays as it was sent until it is recycled, since no
  entry is ever in two hands; no ring operation leaves its storage, and publishing and recycling always
  find room, so that ignoring their results loses nothing.\<close>

theorem channel_lossless:
  assumes "channel_init alloc base esize n zero = Some (Some c)"
    and "0 < n" and "unat n \<le> 2 ^ 31" and "alloc (unat (rounded_capacity n))" and "0 < esize"
    and "base \<noteq> 0" and "unat base + unat n * unat esize \<le> 2 ^ 64"
    and "chan_reachable c s"
  shows "received s @ queued (chan s) = sent s
    \<and> (io_entry s \<noteq> 0 \<longrightarrow> last (received s) = entries (chan s) (io_entry s))
    \<and> distinct (circulating (chan s) @ held (hot_entry s) @ held (io_entry s))
    \<and> chan_take (chan s) \<noteq> None \<and> chan_next (chan s) \<noteq> None
    \<and> (hot_entry s \<noteq> 0 \<longrightarrow> (\<exists>q. ring_buffer_push (filled_queue (chan s)) (hot_entry s) = Some (True, q)))
    \<and> (io_entry s \<noteq> 0 \<longrightarrow> (\<exists>q. ring_buffer_push (free_queue (chan s)) (io_entry s) = Some (True, q)))"
proof -
  have "chan_ok [] c" "queued c = []"
    using channel_init_ok [of n alloc base esize zero] assms(1-7) by auto
  with assms(8) have inv: "chan_inv s" by (rule chan_reachable_inv)
  then have ok: "chan_ok (held (hot_entry s) @ held (io_entry s)) (chan s)" by (simp add: chan_inv_def)
  have "\<exists>q. ring_buffer_push (filled_queue (chan s)) (hot_entry s) = Some (True, q)" if "hot_entry s \<noteq> 0"
    using ok that rbq.push_room [of "filled_queue (chan s)" "hot_entry s"] by (auto simp: chan_ok_def circulating_def held_def)
  moreover have "\<exists>q. ring_buffer_push (free_queue (chan s)) (io_entry s) = Some (True, q)" if "io_entry s \<noteq> 0"
    using ok that rbq.push_room [of "free_queue (chan s)" "io_entry s"] by (auto simp: chan_ok_def circulating_def held_def)
  moreover have "distinct (circulating (chan s) @ held (hot_entry s) @ held (io_entry s))"
    using ok by (simp add: chan_ok_def)
  ultimately show ?thesis using inv chan_inv_live [OF inv] by (simp add: chan_inv_def)
qed

theorem channel_lossless_witness:
  "\<exists>c. channel_init (\<lambda>_. True) 4096 600 4 (0 :: nat) = Some (Some c)
    \<and> (\<forall>s. chan_reachable c s \<longrightarrow> received s @ queued (chan s) = sent s)"
proof -
  obtain c where c: "channel_init (\<lambda>_. True) 4096 600 4 (0 :: nat) = Some (Some c)"
    using channel_init_ok [of 4 "\<lambda>_. True" 4096 600 "0 :: nat"] by auto
  show ?thesis using c channel_lossless [OF c] by auto
qed

end
