(* ===== verification/Logger.thy ===== *)
theory Logger
  imports Event_Channel Printf "HOL-Library.Sublist"
begin

text \<open>
  The asynchronous logger of \<open>include/logger.h\<close> and \<open>src/logger.c\<close>.

  The log file is what has been flushed (\<open>disk\<close>) and what is still in the buffer of its stream (\<open>stdio\<close>,
  which the library may write out earlier). \<open>logger_write\<close> gets the formatted text, \<open>None\<close> for a null format;
  the time stamp as \<open>strftime\<close> prints it in the local time zone is the parameter \<open>time_text\<close>. The thread's
  local \<open>batch_count\<close> is part of the record. One iteration of the thread's loop is \<open>logger_poll\<close>; its drain
  at shutdown is a \<open>partial_function\<close>, so that returning is something to prove. \<open>sizeof(log_entry_t)\<close> is 528.
\<close>

section \<open>State\<close>

datatype log_level = LOG_TRACE | LOG_DEBUG | LOG_INFO | LOG_WARN | LOG_ERROR

record log_entry =
  le_timestamp_ns :: u64
  level :: log_level
  message :: string
  msg_len :: u16

definition LOG_MAX_MSG_LEN :: nat where
  "LOG_MAX_MSG_LEN = 512"

definition LOG_FLUSH_BATCH :: int where
  "LOG_FLUSH_BATCH = 32"

record logger =
  log_chan :: "log_entry channel"
  disk :: string
  stdio :: string
  log_running :: bool
  owns_file :: bool
  batch_count :: int

section \<open>Operations\<close>

definition level_str :: "log_level \<Rightarrow> string" where
  "level_str l = (case l of LOG_TRACE \<Rightarrow> ''TRACE'' | LOG_DEBUG \<Rightarrow> ''DEBUG'' | LOG_INFO \<Rightarrow> ''INFO ''
     | LOG_WARN \<Rightarrow> ''WARN '' | LOG_ERROR \<Rightarrow> ''ERROR'')"

text \<open>What \<open>flush_entry\<close> prints for an entry.\<close>

definition flush_entry :: "(u64 \<Rightarrow> string) \<Rightarrow> log_entry \<Rightarrow> string" where
  "flush_entry time_text e =
     (if msg_len e = 0 then ''''
      else time_text (le_timestamp_ns e div 1000000000) @ ''.'' @ show_digits 9 (unat (le_timestamp_ns e mod 1000000000))
           @ '' ['' @ level_str (level e) @ ''] '' @ message e @ [CHR 0x0A])"

definition log_fflush :: "logger \<Rightarrow> logger" where
  "log_fflush lg = lg\<lparr>disk := disk lg @ stdio lg, stdio := ''''\<rparr>"

definition zero_entry :: log_entry where
  "zero_entry = \<lparr>le_timestamp_ns = 0, level = LOG_TRACE, message = '''', msg_len = 0\<rparr>"

text \<open>\<open>logger_init\<close>: \<open>calloc_ok\<close> for the handle, \<open>file\<close> what opening the path (or standard output) finds,
  \<open>base\<close> the pool, \<open>thread_ok\<close> the result of \<open>pthread_create\<close>.\<close>

definition logger_init :: "(nat \<Rightarrow> bool) \<Rightarrow> bool \<Rightarrow> (string \<Rightarrow> string option) \<Rightarrow> ptr \<Rightarrow> bool \<Rightarrow> string option \<Rightarrow> u32 \<Rightarrow>
    logger option option" where
  "logger_init alloc calloc_ok fopen_result base thread_ok path n =
     (if \<not> calloc_ok then Some None
      else let std = (case path of None \<Rightarrow> True | Some p \<Rightarrow> p = ''-'');
               file = (if std then Some '''' else fopen_result (the path))
           in (case file of None \<Rightarrow> Some None
             | Some f \<Rightarrow> (case channel_init alloc base 528 n zero_entry of
                 None \<Rightarrow> None
               | Some None \<Rightarrow> Some None
               | Some (Some c) \<Rightarrow>
                   if \<not> thread_ok then Some None
                   else Some (Some \<lparr>log_chan = c, disk = f, stdio = '''', log_running = True,
                                    owns_file = \<not> std, batch_count = 0\<rparr>))))"

definition make_entry :: "u64 \<Rightarrow> log_level \<Rightarrow> string \<Rightarrow> log_entry" where
  "make_entry now l text = \<lparr>le_timestamp_ns = now, level = l, message = snprintf LOG_MAX_MSG_LEN text,
     msg_len = of_int (printf_count text)\<rparr>"

definition logger_write :: "u64 \<Rightarrow> log_level \<Rightarrow> string option \<Rightarrow> logger \<Rightarrow> logger option" where
  "logger_write now l fmt lg = (case fmt of
     None \<Rightarrow> Some lg
   | Some text \<Rightarrow> map_option (\<lambda>(_, c). lg\<lparr>log_chan := c\<rparr>) (chan_send (\<lambda>_. make_entry now l text) (log_chan lg)))"

definition logger_poll :: "(u64 \<Rightarrow> string) \<Rightarrow> logger \<Rightarrow> logger option" where
  "logger_poll time_text lg = (case chan_next (log_chan lg) of
     None \<Rightarrow> None
   | Some (p, c) \<Rightarrow>
      if p \<noteq> 0 then
        (let out = flush_entry time_text (entries c p) in
         case chan_recycle p (\<lambda>e. e\<lparr>msg_len := 0\<rparr>) c of
           None \<Rightarrow> None
         | Some c' \<Rightarrow>
            (let log1 = lg\<lparr>log_chan := c', stdio := stdio lg @ out, batch_count := batch_count lg + 1\<rparr>
             in Some (if LOG_FLUSH_BATCH \<le> batch_count log1 then (log_fflush log1)\<lparr>batch_count := 0\<rparr> else log1)))
      else
        (let log1 = lg\<lparr>log_chan := c\<rparr>
         in Some (if 0 < batch_count log1 then (log_fflush log1)\<lparr>batch_count := 0\<rparr> else log1)))"

text \<open>The loop after \<open>running\<close> has become false, and the shutdown that waits for it.\<close>

partial_function (option) logger_drain :: "(u64 \<Rightarrow> string) \<Rightarrow> logger \<Rightarrow> logger option" where
  "logger_drain time_text lg = (case chan_next (log_chan lg) of
     None \<Rightarrow> None
   | Some (p, c) \<Rightarrow>
      if p = 0 then Some (lg\<lparr>log_chan := c\<rparr>)
      else logger_drain time_text (lg\<lparr>log_chan := c, stdio := stdio lg @ flush_entry time_text (entries c p)\<rparr>))"

definition logger_shutdown :: "(u64 \<Rightarrow> string) \<Rightarrow> logger \<Rightarrow> logger option" where
  "logger_shutdown time_text lg = map_option log_fflush (logger_drain time_text (lg\<lparr>log_running := False\<rparr>))"

text \<open>Destroying closes an owned file, which writes out its buffer; the text that remains.\<close>

definition logger_destroy :: "logger \<Rightarrow> string" where
  "logger_destroy lg = (if owns_file lg then disk lg @ stdio lg else disk lg)"

section \<open>The specification: a bounded pool of entries and a queue\<close>

datatype log_op = Write u64 log_level string | Poll

fun log_run :: "(u64 \<Rightarrow> string) \<Rightarrow> log_op list \<Rightarrow> logger \<Rightarrow> logger option" where
  "log_run tt [] lg = Some lg"
| "log_run tt (Write now l text # ops) lg = (case logger_write now l (Some text) lg of None \<Rightarrow> None | Some lg' \<Rightarrow> log_run tt ops lg')"
| "log_run tt (Poll # ops) lg = (case logger_poll tt lg of None \<Rightarrow> None | Some lg' \<Rightarrow> log_run tt ops lg')"

fun written_entries :: "log_op list \<Rightarrow> log_entry list" where
  "written_entries [] = []"
| "written_entries (Write now l text # ops) = make_entry now l text # written_entries ops"
| "written_entries (Poll # ops) = written_entries ops"

text \<open>The abstract state: the number of free entries, the queue and the text printed.\<close>

type_synonym log_spec = "nat \<times> log_entry list \<times> string"

fun spec_run :: "(u64 \<Rightarrow> string) \<Rightarrow> log_op list \<Rightarrow> log_spec \<Rightarrow> log_spec" where
  "spec_run tt [] s = s"
| "spec_run tt (Write now l text # ops) (f, q, out) =
     spec_run tt ops (if f = 0 then (f, q, out) else (f - 1, q @ [make_entry now l text], out))"
| "spec_run tt (Poll # ops) (f, q, out) =
     spec_run tt ops (case q of [] \<Rightarrow> (f, q, out) | e # q' \<Rightarrow> (f + 1, q', out @ flush_entry tt e))"

definition log_abs :: "logger \<Rightarrow> log_spec" where
  "log_abs lg = (length (free_entries (log_chan lg)), queued (log_chan lg), disk lg @ stdio lg)"

definition log_ok :: "logger \<Rightarrow> bool" where
  "log_ok lg \<longleftrightarrow> chan_ok [] (log_chan lg) \<and> 0 \<le> batch_count lg \<and> batch_count lg < LOG_FLUSH_BATCH"

lemma logger_write_running: "logger_write now l m lg = Some lg' \<Longrightarrow> log_running lg' = log_running lg"
  by (auto simp: logger_write_def split: option.splits)

lemma logger_poll_running: "logger_poll tt lg = Some lg' \<Longrightarrow> log_running lg' = log_running lg"
  by (auto simp: logger_poll_def log_fflush_def Let_def split: option.splits if_splits)

lemma logger_write_refines:
  assumes "log_ok lg"
  shows "\<exists>lg'. logger_write now l (Some text) lg = Some lg' \<and> log_ok lg'
    \<and> spec_run tt ops (log_abs lg') = spec_run tt (Write now l text # ops) (log_abs lg)"
proof -
  have ok: "chan_ok [] (log_chan lg)" using assms by (simp add: log_ok_def)
  show ?thesis
  proof (cases "free_entries (log_chan lg) = []")
    case True
    then show ?thesis using chan_send_spec [OF ok, of "\<lambda>_. make_entry now l text"] assms
      by (simp add: logger_write_def log_abs_def)
  next
    case False
    then obtain c where "chan_send (\<lambda>_. make_entry now l text) (log_chan lg) = Some (True, c)" "chan_ok [] c"
        "free_entries c = tl (free_entries (log_chan lg))" "queued c = queued (log_chan lg) @ [make_entry now l text]"
      using chan_send_spec [OF ok, of "\<lambda>_. make_entry now l text"] by auto
    then show ?thesis using False assms by (simp add: logger_write_def log_abs_def log_ok_def)
  qed
qed

lemma log_abs_flush [simp]: "log_abs (log_fflush lg) = log_abs lg"
  by (simp add: log_abs_def log_fflush_def)

lemma log_abs_batch [simp]: "log_abs (lg\<lparr>batch_count := b\<rparr>) = log_abs lg"
  by (simp add: log_abs_def)

lemma logger_poll_refines:
  assumes "log_ok lg"
  shows "\<exists>lg'. logger_poll tt lg = Some lg' \<and> log_ok lg'
    \<and> spec_run tt ops (log_abs lg') = spec_run tt (Poll # ops) (log_abs lg)"
proof -
  have ok: "chan_ok [] (log_chan lg)" using assms by (simp add: log_ok_def)
  from chan_next_spec [OF ok] obtain p c where
    n: "chan_next (log_chan lg) = Some (p, c)" "chan_ok (held p) c" "entries c = entries (log_chan lg)"
      "free_entries c = free_entries (log_chan lg)"
      "if p = 0 then queued (log_chan lg) = [] \<and> c = log_chan lg else queued (log_chan lg) = entries (log_chan lg) p # queued c"
    by (auto simp del: append_Nil2 simp: append_Nil2 [of "held _"])
  show ?thesis
  proof (cases "p = 0")
    case True
    then show ?thesis using n assms
      by (auto simp: logger_poll_def log_ok_def log_abs_def log_fflush_def LOG_FLUSH_BATCH_def Let_def)
  next
    case False
    then have "chan_ok [p] c" using n(2) by (simp add: held_def)
    from chan_recycle_spec [OF this, of "\<lambda>e. e\<lparr>msg_len := 0\<rparr>"] obtain c' where
      r: "chan_recycle p (\<lambda>e. e\<lparr>msg_len := 0\<rparr>) c = Some c'" "chan_ok [] c'" "queued c' = queued c"
        "free_entries c' = free_entries c @ [p]" by blast
    let ?l = "lg\<lparr>log_chan := c', stdio := stdio lg @ flush_entry tt (entries c p), batch_count := batch_count lg + 1\<rparr>"
    let ?l' = "if LOG_FLUSH_BATCH \<le> batch_count ?l then (log_fflush ?l)\<lparr>batch_count := 0\<rparr> else ?l"
    have "logger_poll tt lg = Some ?l'" using False n(1) r(1) by (simp add: logger_poll_def Let_def)
    moreover have "log_ok ?l'" using r(2) assms by (auto simp: log_ok_def log_fflush_def LOG_FLUSH_BATCH_def)
    moreover have "log_abs ?l' = log_abs ?l" by simp
    moreover have "log_abs ?l = (length (free_entries (log_chan lg)) + 1, queued c, (disk lg @ stdio lg) @ flush_entry tt (entries c p))"
      using r n by (simp add: log_abs_def)
    ultimately show ?thesis using n False by (simp add: log_abs_def)
  qed
qed

lemma log_run_refines: "log_ok lg \<Longrightarrow> \<exists>lg'. log_run tt ops lg = Some lg' \<and> log_ok lg' \<and> log_abs lg' = spec_run tt ops (log_abs lg)"
proof (induction ops arbitrary: lg)
  case (Cons op ops)
  show ?case
  proof (cases op)
    case (Write now l m)
    from logger_write_refines [OF Cons.prems, of now l m tt ops] obtain log1 where
      1: "logger_write now l (Some m) lg = Some log1" "log_ok log1"
        "spec_run tt ops (log_abs log1) = spec_run tt (Write now l m # ops) (log_abs lg)" by blast
    from Cons.IH [OF 1(2)] 1 show ?thesis by (auto simp: Write)
  next
    case Poll
    from logger_poll_refines [OF Cons.prems, of tt ops] obtain log1 where
      1: "logger_poll tt lg = Some log1" "log_ok log1"
        "spec_run tt ops (log_abs log1) = spec_run tt (Poll # ops) (log_abs lg)" by blast
    from Cons.IH [OF 1(2)] 1 show ?thesis by (auto simp: Poll)
  qed
qed simp

section \<open>Shutdown writes everything out\<close>

definition lines :: "(u64 \<Rightarrow> string) \<Rightarrow> log_entry list \<Rightarrow> string" where
  "lines tt es = concat (map (flush_entry tt) es)"

lemma lines_simps [simp]: "lines tt [] = []" "lines tt (e # es) = flush_entry tt e @ lines tt es"
    "lines tt (es @ es') = lines tt es @ lines tt es'"
  by (simp_all add: lines_def)

lemma logger_drain_spec: "chan_ok [] (log_chan lg) \<Longrightarrow> \<exists>lg'. logger_drain tt lg = Some lg'
    \<and> disk lg' @ stdio lg' = disk lg @ stdio lg @ lines tt (queued (log_chan lg))
    \<and> queued (log_chan lg') = [] \<and> owns_file lg' = owns_file lg \<and> log_running lg' = log_running lg"
proof (induction "length (queued (log_chan lg))" arbitrary: lg)
  case 0
  then show ?case using evq.next_empty [OF "0.prems"] by (subst logger_drain.simps) simp
next
  case (Suc n)
  from evq.next_total [OF Suc.prems] Suc.hyps(2) obtain p c where
    n: "chan_next (log_chan lg) = Some (p, c)" "chan_ok [p] c" and p: "p \<noteq> 0" "queued (log_chan lg) = entries (log_chan lg) p # queued c"
    by (auto split: if_splits)
  have e: "entries c = entries (log_chan lg)" using n(1) by (auto simp: chan_next_def)
  let ?l = "lg\<lparr>log_chan := c, stdio := stdio lg @ flush_entry tt (entries c p)\<rparr>"
  have "chan_ok [] (log_chan ?l)" using n(2) chan_ok_drop [of "[]" "[p]" c] by simp
  then obtain lg' where "logger_drain tt ?l = Some lg'"
      "disk lg' @ stdio lg' = disk ?l @ stdio ?l @ lines tt (queued (log_chan ?l))"
      "queued (log_chan lg') = []" "owns_file lg' = owns_file ?l" "log_running lg' = log_running ?l"
    using Suc.hyps(1) [of ?l] Suc.hyps(2) p(2) by auto
  moreover have "logger_drain tt lg = logger_drain tt ?l" by (subst logger_drain.simps) (simp add: n(1) p(1))
  ultimately show ?case using p e by simp
qed

lemma logger_shutdown_spec:
  assumes "log_ok lg"
  shows "\<exists>lg'. logger_shutdown tt lg = Some lg' \<and> disk lg' = disk lg @ stdio lg @ lines tt (queued (log_chan lg))
    \<and> stdio lg' = [] \<and> \<not> log_running lg'"
proof -
  have "chan_ok [] (log_chan (lg\<lparr>log_running := False\<rparr>))" using assms by (simp add: log_ok_def)
  from logger_drain_spec [OF this, of tt] show ?thesis by (auto simp: logger_shutdown_def log_fflush_def)
qed

text \<open>The specification prints a subsequence of what is written, all of it when the pool suffices.\<close>

lemma spec_run_accepts: "spec_run tt ops (f, q, out) = (f', q', out') \<Longrightarrow>
    \<exists>acc. subseq acc (written_entries ops) \<and> out' @ lines tt q' = out @ lines tt (q @ acc)
      \<and> (length (written_entries ops) \<le> f \<longrightarrow> acc = written_entries ops)"
proof (induction ops arbitrary: f q out)
  case (Cons op ops)
  show ?case
  proof (cases op)
    case (Write now l m)
    let ?e = "make_entry now l m"
    show ?thesis
    proof (cases "f = 0")
      case True
      with Cons.prems Write have "spec_run tt ops (f, q, out) = (f', q', out')" by simp
      from Cons.IH [OF this] show ?thesis using True by (auto simp: Write)
    next
      case False
      with Cons.prems Write have "spec_run tt ops (f - 1, q @ [?e], out) = (f', q', out')" by simp
      from Cons.IH [OF this] obtain acc where
        "subseq acc (written_entries ops)" "out' @ lines tt q' = out @ lines tt ((q @ [?e]) @ acc)"
        "length (written_entries ops) \<le> f - 1 \<longrightarrow> acc = written_entries ops" by blast
      then show ?thesis using False by (intro exI [of _ "?e # acc"]) (auto simp: Write)
    qed
  next
    case Poll
    show ?thesis
    proof (cases q)
      case Nil
      with Cons.prems Poll have "spec_run tt ops (f, q, out) = (f', q', out')" by simp
      from Cons.IH [OF this] show ?thesis by (simp add: Poll)
    next
      case (Cons e es)
      with Cons.prems Poll have "spec_run tt ops (f + 1, es, out @ flush_entry tt e) = (f', q', out')" by simp
      from Cons.IH [OF this] obtain acc where
        "subseq acc (written_entries ops)" "out' @ lines tt q' = (out @ flush_entry tt e) @ lines tt (es @ acc)"
        "length (written_entries ops) \<le> f + 1 \<longrightarrow> acc = written_entries ops" by blast
      then show ?thesis by (intro exI [of _ acc]) (auto simp: Poll Cons)
    qed
  qed
qed (auto simp: exI [of _ "[]"])

lemma logger_init_ok:
  assumes "0 < n" and "unat n \<le> 2147483648" and "alloc (unat (rounded_capacity n))" and "base \<noteq> 0"
    and "unat base + unat n * 528 \<le> 2 ^ 64" and "fopen_result path = Some f" and "path \<noteq> ''-''"
  shows "\<exists>lg. logger_init alloc True fopen_result base True (Some path) n = Some (Some lg) \<and> log_ok lg
    \<and> log_abs lg = (min (unat n) (unat (rounded_capacity n) - 1), [], f) \<and> owns_file lg \<and> log_running lg"
proof -
  have "\<exists>c. channel_init alloc base 528 n zero_entry = Some (Some c) \<and> chan_ok [] c \<and> queued c = []
    \<and> entries c = (\<lambda>_. zero_entry) \<and> free_entries c = take (unat (rounded_capacity n) - 1) (pool_entries base 528 n)"
    by (rule channel_init_ok) (use assms in simp_all)
  then show ?thesis using assms(6,7)
    by (auto simp: logger_init_def log_ok_def log_abs_def LOG_FLUSH_BATCH_def pool_entries_def min.commute)
qed

section \<open>The lines of the file\<close>

text \<open>What a message should leave in the file, from the arguments of the call: the seconds as \<open>strftime\<close> prints them, nine digits of
  nanoseconds, the level in five columns, at most 511 characters of the text. A text of 65536 characters or a multiple of it, the empty
  one among them, leaves nothing: the 16 bits of \<open>msg_len\<close> make it an empty one.\<close>

definition level_column :: "log_level \<Rightarrow> string" where
  "level_column l = take 5 ((if l = LOG_TRACE then ''TRACE'' else if l = LOG_DEBUG then ''DEBUG'' else if l = LOG_INFO then ''INFO''
     else if l = LOG_WARN then ''WARN'' else ''ERROR'') @ '' '')"

definition nine_digits :: "nat \<Rightarrow> string" where
  "nine_digits n = map (\<lambda>i. char_of (48 + n div 10 ^ (8 - i) mod 10)) [0..<9]"

definition log_line :: "(u64 \<Rightarrow> string) \<Rightarrow> u64 \<times> log_level \<times> string \<Rightarrow> string" where
  "log_line tt w = (case w of (now, l, m) \<Rightarrow>
     if length m < 2 ^ 31 \<and> 65536 dvd length m then []
     else tt (now div 1000000000) @ CHR ''.'' # nine_digits (unat now mod 1000000000) @ '' ['' @ level_column l @ ''] '' @ take 511 m @ [CHR 0x0A])"

fun log_writes :: "log_op list \<Rightarrow> (u64 \<times> log_level \<times> string) list" where
  "log_writes [] = []"
| "log_writes (Write now l m # ops) = (now, l, m) # log_writes ops"
| "log_writes (Poll # ops) = log_writes ops"

lemma written_entries_writes: "written_entries ops = map (\<lambda>(now, l, m). make_entry now l m) (log_writes ops)"
  by (induction ops rule: log_writes.induct) simp_all

lemma nine_digits_show: "nine_digits n = show_digits 9 n"
proof -
  have "show_digits p n = map (\<lambda>i. digit (n div 10 ^ (p - 1 - i) mod 10)) [0..<p]" for p and n :: nat
  proof (induction p arbitrary: n)
    case (Suc p)
    have "n div 10 div 10 ^ (p - 1 - i) = n div 10 ^ (p - i)" if "i < p" for i
    proof -
      have "p - i = Suc (p - 1 - i)" using that by simp
      then show ?thesis by (simp add: div_mult2_eq)
    qed
    then show ?case by (simp add: Suc.IH)
  qed simp
  from this [of 9 n] show ?thesis by (simp add: nine_digits_def digit_def)
qed

lemma msg_len_zero: "(of_int (printf_count m) :: u16) = 0 \<longleftrightarrow> length m < 2 ^ 31 \<and> 65536 dvd length m"
proof (cases "length m < 2 ^ 31")
  case True
  then have "(of_int (printf_count m) :: u16) = of_nat (length m)" by (simp add: printf_count_def)
  also have "\<dots> = 0 \<longleftrightarrow> 65536 dvd length m" using word_of_nat_eq_0_iff [of "length m", where 'a = 16] by (simp del: word_of_nat_eq_0_iff)
  finally show ?thesis using True by simp
qed (simp add: printf_count_def)

lemma flush_entry_line: "flush_entry tt (make_entry now l m) = log_line tt (now, l, m)"
  by (cases l) (simp_all add: flush_entry_def make_entry_def log_line_def msg_len_zero nine_digits_show level_str_def level_column_def
      snprintf_def LOG_MAX_MSG_LEN_def unat_mod del: upt_rec_numeral)

text \<open>C26: nothing that is logged is lost, reordered or mangled. From a fresh logger, run any sequence of
  writes and thread iterations and then shut it down: everything returns, and the file is what it was plus, for each accepted message
  in the order of the calls, its line: the second as \<open>strftime\<close> prints it, a dot and nine digits of nanoseconds, the level in brackets,
  and the first 511 characters of the text; only a text whose length is 0 or another multiple of 65536 leaves no line. The accepted messages
  are a subsequence of the written ones, and all of them when fewer messages are written than the pool has entries,
  however late the thread gets to work.\<close>

theorem logger_delivers:
  assumes "0 < n" and "unat n \<le> 2 ^ 31" and "alloc (unat (rounded_capacity n))" and "base \<noteq> 0"
    and "unat base + unat n * 528 \<le> 2 ^ 64" and "fopen_result path = Some f" and "path \<noteq> ''-''"
  shows "\<exists>lg lg' lg'' acc. logger_init alloc True fopen_result base True (Some path) n = Some (Some lg)
    \<and> log_run tt ops lg = Some lg' \<and> logger_shutdown tt lg' = Some lg''
    \<and> logger_destroy lg'' = f @ concat (map (log_line tt) acc)
    \<and> subseq acc (log_writes ops)
    \<and> (length (log_writes ops) < unat n \<longrightarrow> acc = log_writes ops)"
proof -
  from logger_init_ok [of n alloc base fopen_result path f] assms obtain lg where
    lg: "logger_init alloc True fopen_result base True (Some path) n = Some (Some lg)" "log_ok lg"
      "log_abs lg = (min (unat n) (unat (rounded_capacity n) - 1), [], f)" by auto
  from log_run_refines [OF lg(2), of tt ops] obtain lg' where
    r: "log_run tt ops lg = Some lg'" "log_ok lg'" "log_abs lg' = spec_run tt ops (log_abs lg)" by blast
  from logger_shutdown_spec [OF r(2), of tt] obtain lg'' where
    s: "logger_shutdown tt lg' = Some lg''" "disk lg'' = disk lg' @ stdio lg' @ lines tt (queued (log_chan lg'))" "stdio lg'' = []"
    by blast
  have cap: "unat n \<le> unat (rounded_capacity n)"
    using rounded_capacity_spec [of n] assms(1,2) by (simp add: word_le_nat_alt)
  from r(3) lg(3) have "spec_run tt ops (min (unat n) (unat (rounded_capacity n) - 1), [], f)
      = (length (free_entries (log_chan lg')), queued (log_chan lg'), disk lg' @ stdio lg')" by (simp add: log_abs_def)
  from spec_run_accepts [OF this] obtain acc where
    a: "subseq acc (written_entries ops)" "(disk lg' @ stdio lg') @ lines tt (queued (log_chan lg')) = f @ lines tt ([] @ acc)"
      "length (written_entries ops) \<le> min (unat n) (unat (rounded_capacity n) - 1) \<longrightarrow> acc = written_entries ops" by blast
  let ?mk = "\<lambda>(now, l, m). make_entry now l m"
  obtain ws where ws: "subseq ws (log_writes ops)" "acc = map ?mk ws" "acc = written_entries ops \<longrightarrow> ws = log_writes ops"
  proof (cases "acc = written_entries ops")
    case True
    then show ?thesis using that [of "log_writes ops"] by (simp add: written_entries_writes)
  next
    case False
    obtain I where I: "acc = nths (written_entries ops) I" using a(1) by (auto simp: subseq_conv_nths)
    then have "acc = map ?mk (nths (log_writes ops) I)" by (simp add: written_entries_writes nths_map)
    then show ?thesis using that [of "nths (log_writes ops) I"] False by (auto simp: subseq_conv_nths)
  qed
  have "map (flush_entry tt) acc = map (log_line tt) ws" by (simp add: ws(2) flush_entry_line split_beta del: split_paired_All)
  then have "logger_destroy lg'' = f @ concat (map (log_line tt) ws)" using s a(2) by (simp add: logger_destroy_def lines_def)
  moreover have "length (written_entries ops) = length (log_writes ops)" by (simp add: written_entries_writes)
  ultimately show ?thesis using lg(1) r(1) s(1) a(3) ws(1,3) cap by fastforce
qed

theorem logger_delivers_witness:
  "\<exists>lg lg' lg''. logger_init (\<lambda>_. True) True (\<lambda>_. Some ''old'') 4096 True (Some ''engine.log'') 4 = Some (Some lg)
    \<and> log_run (\<lambda>_. ''t'') [Write 5 LOG_INFO ''a'', Poll, Write 6 LOG_WARN ''b''] lg = Some lg'
    \<and> logger_shutdown (\<lambda>_. ''t'') lg' = Some lg''
    \<and> logger_destroy lg'' = ''oldt.000000005 [INFO ] a'' @ [CHR 0x0A] @ ''t.000000006 [WARN ] b'' @ [CHR 0x0A]"
proof -
  let ?ops = "[Write 5 LOG_INFO ''a'', Poll, Write 6 LOG_WARN ''b'']"
  have "\<exists>lg lg' lg'' acc. logger_init (\<lambda>_. True) True (\<lambda>_. Some ''old'') 4096 True (Some ''engine.log'') 4 = Some (Some lg)
      \<and> log_run (\<lambda>_. ''t'') ?ops lg = Some lg' \<and> logger_shutdown (\<lambda>_. ''t'') lg' = Some lg''
      \<and> logger_destroy lg'' = ''old'' @ concat (map (log_line (\<lambda>_. ''t'')) acc)
      \<and> subseq acc (log_writes ?ops)
      \<and> (length (log_writes ?ops) < unat (4 :: u32) \<longrightarrow> acc = log_writes ?ops)"
    by (rule logger_delivers) simp_all
  moreover have "length (log_writes ?ops) < unat (4 :: u32)" by simp
  moreover have "concat (map (log_line (\<lambda>_. ''t'')) (log_writes ?ops))
      = ''t.000000005 [INFO ] a'' @ [CHR 0x0A] @ ''t.000000006 [WARN ] b'' @ [CHR 0x0A]"
    by (simp add: log_line_def level_column_def nine_digits_show show_digits_numeral digit_chars)
  ultimately show ?thesis by auto
qed

end
