(* ===== verification/Feed_Handler.thy ===== *)
theory Feed_Handler
  imports Ring_Buffer Memory_Pool Bytes Binary64
begin

text \<open>
  The market data feed of \<open>include/feed_handler.h\<close> and \<open>src/feed_handler.c\<close>: the random number generator
  and the simulated messages, the two receive loops, and the hand-over of messages through a pool and a ring.

  \<open>msgs\<close> is what the pool's memory holds at each object's address. One iteration of the simulation loop is
  \<open>feed_sim_step\<close>; the treatment of one datagram in the \<open>epoll\<close> loop is \<open>feed_recv_step\<close>. The results of the
  operating system (allocation, sockets, threads, the clock) are parameters. As before, \<open>None\<close> as the
  result of an operation is an invalid memory access, which the properties exclude. The thread
  around these iterations is in the theory of the receiver.
\<close>

section \<open>State\<close>

record feed_msg =
  msg_timestamp_ns :: u64
  bid_price :: double
  ask_price :: double
  last_price :: double
  bid_qty :: int
  ask_qty :: int
  last_size :: int
  volume :: int
  msg_symbol :: string

definition FEED_MSG_SIZE :: u64 where
  "FEED_MSG_SIZE = 64"

definition FEED_MAX_MSG_SIZE :: nat where
  "FEED_MAX_MSG_SIZE = 256"

record feed_config =
  listen_addr :: string
  listen_port :: u16
  feed_simulation_mode :: bool
  sim_interval_us :: u32
  output_queue_size :: u32
  cfg_symbol :: string

record feed_handler =
  feed_cfg :: feed_config
  output_queue :: ring_buffer
  msg_pool :: mempool
  msgs :: "address \<Rightarrow> feed_msg"
  feed_running :: bool
  sockfd :: int
  msgs_received :: u64
  msgs_dropped :: u64
  bytes_received :: u64
  sim_base_price :: double
  prng_state :: u32

section \<open>Simulated market data\<close>

definition xorshift :: "u32 \<Rightarrow> u32" where
  "xorshift x0 =
     (let x = x0 XOR push_bit 13 x0;
          x = x XOR drop_bit 17 x;
          x = x XOR push_bit 5 x
      in x)"

definition xorshift32 :: "feed_handler \<Rightarrow> u32 \<times> feed_handler" where
  "xorshift32 fh = (let x = xorshift (prng_state fh) in (x, fh\<lparr>prng_state := x\<rparr>))"

definition unit_double :: "u32 \<Rightarrow> double" where
  "unit_double x = d_div (d_of_int (uint (x AND 0xFFFFFF))) (d_of_int 0x1000000)"

definition rand_double :: "feed_handler \<Rightarrow> double \<times> feed_handler" where
  "rand_double fh = (let (x, fh) = xorshift32 fh in (unit_double x, fh))"

definition clamp_price :: "double \<Rightarrow> double" where
  "clamp_price p =
     (let p = (if d_lt p (d_lit 10 1) then d_lit 10 1 else p)
      in if d_lt (d_lit 1000 1) p then d_lit 1000 1 else p)"

text \<open>\<open>(int32_t)(lo + rand_double(fh) * width)\<close>.\<close>

definition rand_size :: "int \<Rightarrow> int \<Rightarrow> feed_handler \<Rightarrow> int \<times> feed_handler" where
  "rand_size lo width fh =
     (let (r, fh) = rand_double fh in (d_trunc (d_add (d_of_int lo) (d_mul r (d_of_int width))), fh))"

definition simulate_message :: "u64 \<Rightarrow> feed_handler \<Rightarrow> feed_msg \<times> feed_handler" where
  "simulate_message now fh =
     (let (r, fh) = rand_double fh;
          noise = d_mul (d_sub r (d_lit 1 2)) (d_lit 2 100);
          fh = fh\<lparr>sim_base_price := clamp_price (d_add (sim_base_price fh) noise)\<rparr>;
          (r, fh) = rand_double fh;
          spread_pct = d_add (d_lit 1 10000) (d_mul r (d_lit 5 10000));
          bid = d_mul (sim_base_price fh) (d_sub (d_lit 1 1) (d_div spread_pct (d_lit 2 1)));
          ask = d_mul (sim_base_price fh) (d_add (d_lit 1 1) (d_div spread_pct (d_lit 2 1)));
          (bs, fh) = rand_size 100 9900 fh;
          (as, fh) = rand_size 100 9900 fh;
          (ls, fh) = rand_size 10 990 fh;
          (vol, fh) = rand_size 10000 990000 fh;
          sm = (if cstr (cfg_symbol (feed_cfg fh)) \<noteq> [] then cstr (cfg_symbol (feed_cfg fh)) else ''AAPL'')
      in (\<lparr>msg_timestamp_ns = now, bid_price = bid, ask_price = ask, last_price = sim_base_price fh, bid_qty = bs,
           ask_qty = as, last_size = ls, volume = vol, msg_symbol = cstr (strncpy 15 sm)\<rparr>, fh))"

section \<open>Receiving\<close>

text \<open>A filled message goes to the output queue, or back to the pool when the queue is full.\<close>

definition feed_deliver :: "address \<Rightarrow> feed_msg \<Rightarrow> feed_handler \<Rightarrow> (bool \<times> feed_handler) option" where
  "feed_deliver p m fh0 =
     (let fh = fh0\<lparr>msgs := (msgs fh0)(p := m)\<rparr> in
      case ring_buffer_push (output_queue fh) p of
        None \<Rightarrow> None
      | Some (True, q) \<Rightarrow> Some (True, fh\<lparr>output_queue := q, msgs_received := msgs_received fh + 1\<rparr>)
      | Some (False, q) \<Rightarrow>
          map_option (\<lambda>mp. (False, fh\<lparr>output_queue := q, msg_pool := mp, msgs_dropped := msgs_dropped fh + 1\<rparr>))
            (mempool_free (msg_pool fh) p))"

definition feed_sim_step :: "u64 \<Rightarrow> feed_handler \<Rightarrow> feed_handler option" where
  "feed_sim_step now fh = (case mempool_alloc (msg_pool fh) of
     None \<Rightarrow> None
   | Some (p, mp) \<Rightarrow>
      let fh = fh\<lparr>msg_pool := mp\<rparr> in
      if p = 0 then Some (fh\<lparr>msgs_dropped := msgs_dropped fh + 1\<rparr>)
      else let (m, fh) = simulate_message now fh in
        (case feed_deliver p m fh of
           None \<Rightarrow> None
         | Some (ok, fh) \<Rightarrow> Some (if ok then fh\<lparr>bytes_received := bytes_received fh + FEED_MSG_SIZE\<rparr> else fh)))"

text \<open>The bytes of a datagram as the message that \<open>memcpy\<close> makes of them.\<close>

definition decode_feed_msg :: "byte list \<Rightarrow> feed_msg" where
  "decode_feed_msg bs =
     \<lparr>msg_timestamp_ns = of_nat (le_value (field 0 8 bs)), bid_price = of_nat (le_value (field 8 8 bs)),
      ask_price = of_nat (le_value (field 16 8 bs)), last_price = of_nat (le_value (field 24 8 bs)),
      bid_qty = s32 (int (le_value (field 32 4 bs))), ask_qty = s32 (int (le_value (field 36 4 bs))),
      last_size = s32 (int (le_value (field 40 4 bs))), volume = s32 (int (le_value (field 44 4 bs))),
      msg_symbol = cstr (map byte_char (field 48 16 bs))\<rparr>"

text \<open>One readable event: \<open>recv\<close> delivers at most 256 bytes of the datagram; an empty list stands for a
  result that is not positive.\<close>

definition feed_recv_step :: "byte list \<Rightarrow> feed_handler \<Rightarrow> feed_handler option" where
  "feed_recv_step datagram fh =
     (let raw = take FEED_MAX_MSG_SIZE datagram in
      if raw = [] then Some fh
      else let fh = fh\<lparr>bytes_received := bytes_received fh + of_nat (length raw)\<rparr> in
        if length raw < unat FEED_MSG_SIZE then Some fh
        else (case mempool_alloc (msg_pool fh) of
                None \<Rightarrow> None
              | Some (p, mp) \<Rightarrow>
                  let fh = fh\<lparr>msg_pool := mp\<rparr> in
                  if p = 0 then Some (fh\<lparr>msgs_dropped := msgs_dropped fh + 1\<rparr>)
                  else map_option snd (feed_deliver p (decode_feed_msg raw) fh)))"

section \<open>The public interface\<close>

record sockets =
  socket_result :: int
  inet_pton_ok :: bool
  bind_ok :: bool

definition zero_pool :: mempool where
  "zero_pool = \<lparr>free_top = 0, pool = 0, object_size = 0, mp_capacity = 0, free_list = None\<rparr>"

definition zero_feed_msg :: feed_msg where
  "zero_feed_msg = \<lparr>msg_timestamp_ns = 0, bid_price = 0, ask_price = 0, last_price = 0, bid_qty = 0, ask_qty = 0,
     last_size = 0, volume = 0, msg_symbol = ''''\<rparr>"

text \<open>\<open>addr\<close> is the address of the handle (0 when \<open>calloc\<close> fails), \<open>pool_addr\<close> and \<open>malloc_ok\<close> are the results
  of the pool's allocations.\<close>

definition feed_init :: "(nat \<Rightarrow> bool) \<Rightarrow> address \<Rightarrow> address \<Rightarrow> bool \<Rightarrow> sockets \<Rightarrow> feed_config option \<Rightarrow> feed_handler option" where
  "feed_init alloc addr pool_addr malloc_ok sk cfg = (case cfg of
     None \<Rightarrow> None
   | Some c \<Rightarrow>
      if addr = 0 then None
      else (case ring_buffer_init alloc (Some \<lparr>head = 0, tail = 0, buffer = None, rb_capacity = 0, rb_mask = 0\<rparr>) (output_queue_size c) of
              (r1, None) \<Rightarrow> None
            | (r1, Some q) \<Rightarrow>
                if r1 \<noteq> 0 then None
                else (case mempool_init pool_addr malloc_ok (Some zero_pool) FEED_MSG_SIZE (output_queue_size c) of
                   (r2, None) \<Rightarrow> None
                 | (r2, Some mp) \<Rightarrow>
                     if r2 \<noteq> 0 then None
                     else let fh = \<lparr>feed_cfg = c, output_queue = q, msg_pool = mp, msgs = (\<lambda>_. zero_feed_msg), feed_running = False,
                               sockfd = 0, msgs_received = 0, msgs_dropped = 0, bytes_received = 0, sim_base_price = 0,
                               prng_state = 2463534242 + ucast addr\<rparr>
                     in if feed_simulation_mode c then Some fh
                        else if socket_result sk < 0 \<or> \<not> inet_pton_ok sk \<or> \<not> bind_ok sk then None
                        else Some (fh\<lparr>sockfd := socket_result sk\<rparr>))))"

text \<open>Starting sets the flag and creates the thread, whose first action in simulation mode is to set the
  starting price.\<close>

definition feed_start :: "bool \<Rightarrow> feed_handler option \<Rightarrow> int \<times> feed_handler option" where
  "feed_start thread_ok fh = (case fh of
     None \<Rightarrow> (-1, None)
   | Some fh \<Rightarrow> if \<not> thread_ok then (-1, Some (fh\<lparr>feed_running := False\<rparr>))
      else (0, Some ((if feed_simulation_mode (feed_cfg fh) then fh\<lparr>sim_base_price := d_lit 150 1\<rparr> else fh)\<lparr>feed_running := True\<rparr>)))"

definition feed_stop :: "feed_handler option \<Rightarrow> feed_handler option" where
  "feed_stop = map_option (\<lambda>fh. fh\<lparr>feed_running := False\<rparr>)"

definition feed_return_msg :: "feed_handler option \<Rightarrow> address \<Rightarrow> feed_handler option option" where
  "feed_return_msg fh p = (case fh of
     None \<Rightarrow> Some None
   | Some fh \<Rightarrow> if p = 0 then Some (Some fh)
      else map_option (\<lambda>mp. Some (fh\<lparr>msg_pool := mp\<rparr>)) (mempool_free (msg_pool fh) p))"

text \<open>The consumer's side of the output queue.\<close>

definition feed_pop :: "feed_handler \<Rightarrow> (address \<times> feed_handler) option" where
  "feed_pop fh = map_option (\<lambda>(p, q). (p, fh\<lparr>output_queue := q\<rparr>)) (ring_buffer_pop (output_queue fh))"

partial_function (option) feed_drain :: "feed_handler \<Rightarrow> feed_handler option" where
  "feed_drain fh = (case feed_pop fh of
     None \<Rightarrow> None
   | Some (p, fh) \<Rightarrow> if p = 0 then Some fh
      else (case mempool_free (msg_pool fh) p of
              None \<Rightarrow> None
            | Some mp \<Rightarrow> feed_drain (fh\<lparr>msg_pool := mp\<rparr>)))"

text \<open>Destroying drains the queue and releases it and the pool; the second component tells whether a
  socket is closed.\<close>

definition feed_destroy :: "feed_handler \<Rightarrow> (feed_handler \<times> bool) option" where
  "feed_destroy fh = map_option (\<lambda>fh. (fh\<lparr>output_queue := the (ring_buffer_destroy (Some (output_queue fh))),
       msg_pool := the (mempool_destroy (Some (msg_pool fh)))\<rparr>, 0 < sockfd fh)) (feed_drain fh)"

definition feed_get_stats :: "feed_handler \<Rightarrow> u64 \<times> u64 \<times> u64" where
  "feed_get_stats fh = (msgs_received fh, msgs_dropped fh, bytes_received fh)"

end
