(* ===== verification/Double_Bounds.thy ===== *)
theory Double_Bounds
  imports Binary64
begin

text \<open>
  Interval reasoning about double arithmetic. A bound is a multiple of \<open>2\<^sup>-\<^sup>2\<^sup>8\<close>, given by its numerator; the
  numerators stay below \<open>2\<^sup>5\<^sup>3\<close>, so that every bound is itself a double and rounding cannot step over it. The
  rules then reduce a bound on a C expression to arithmetic on small integers.
\<close>

definition grain :: int where
  "grain = 2 ^ 1046"

text \<open>\<open>x\<close> is finite and lies between \<open>a / 2\<^sup>2\<^sup>8\<close> and \<open>b / 2\<^sup>2\<^sup>8\<close>.\<close>

definition d_within :: "int \<Rightarrow> double \<Rightarrow> int \<Rightarrow> bool" where
  "d_within a x b \<longleftrightarrow> d_finite x \<and> a * grain \<le> d_int x \<and> d_int x \<le> b * grain"

lemma grain_pos [simp]: "0 < grain" "0 \<le> grain" "grain \<noteq> 0" "\<bar>grain\<bar> = grain"
  by (simp_all add: grain_def)

lemma d_unit_grain: "int d_unit = 268435456 * grain"
proof -
  have "(2 :: int) ^ 1074 = 2 ^ 28 * 2 ^ 1046" by (simp only: flip: power_add) simp
  then show ?thesis by (simp add: d_unit_def grain_def)
qed

section \<open>The bounds are doubles\<close>

lemma mag_val_dyadic: "k < 2 ^ 53 \<Longrightarrow> \<exists>m. mag_val m = k * 2 ^ j"
proof (induction j)
  case 0
  have "mag_val k = k"
  proof (cases "k < 2 ^ 52")
    case False
    with 0 have d: "k div 2 ^ 52 = 1" by (intro div_nat_eqI) simp_all
    then have "k mod 2 ^ 52 = k - 2 ^ 52" using div_mult_mod_eq [of k "2 ^ 52"] by (simp only: mult_1 d)
    with d False show ?thesis by (simp add: mag_val_def)
  qed (simp add: mag_val_def)
  then show ?case by auto
next
  case (Suc j)
  then obtain m where "mag_val m = k * 2 ^ j" by blast
  then show ?case using mag_val_twice [of m] by (auto simp: algebra_simps)
qed

lemma mag_val_inf_eq: "int (mag_val inf_mag) = 2 ^ 1052 * grain"
proof -
  have "mag_val inf_mag = 2 ^ 52 * 2 ^ 2046" by (simp add: mag_val_def inf_mag_def)
  also have "\<dots> = 2 ^ 1052 * 2 ^ 1046" by (simp only: flip: power_add) simp
  finally show ?thesis by (simp add: grain_def)
qed

lemma small_less_inf: "\<bar>k\<bar> < 2 ^ 53 \<Longrightarrow> \<bar>k * grain\<bar> < int (mag_val inf_mag)"
proof -
  assume "\<bar>k\<bar> < 2 ^ 53"
  also have "(2 :: int) ^ 53 \<le> 2 ^ 1052" by (rule power_increasing) simp_all
  finally have "\<bar>k\<bar> * grain < 2 ^ 1052 * grain" by (rule mult_strict_right_mono) simp
  then show ?thesis unfolding mag_val_inf_eq abs_mult by (simp only: grain_pos)
qed

lemma bound_double: "\<bar>k\<bar> < 2 ^ 53 \<Longrightarrow> \<exists>z. \<not> is_nan z \<and> d_int z = k * grain"
proof -
  assume k: "\<bar>k\<bar> < 2 ^ 53"
  then have "nat \<bar>k\<bar> < 2 ^ 53" by (simp add: nat_less_iff)
  from mag_val_dyadic [OF this, of 1046] obtain m where m: "mag_val m = nat \<bar>k\<bar> * 2 ^ 1046" by blast
  then have mi: "int (mag_val m) = \<bar>k * grain\<bar>" by (simp add: grain_def abs_mult)
  have "mag_val m < mag_val inf_mag" using small_less_inf [OF k] unfolding mi [symmetric] of_nat_less_iff .
  then have lt: "m < inf_mag" by (simp only: mag_val_less_iff)
  then have m63: "m < 9223372036854775808" by (simp add: inf_mag_def)
  let ?z = "d_mk (k < 0) m"
  have "d_mag ?z = m" "d_sign ?z = (k < 0)" using m63 by simp_all
  moreover have "int (mag_val m) = (if k < 0 then - (k * grain) else k * grain)" unfolding mi abs_mult by simp
  ultimately have "\<not> is_nan ?z" "d_int ?z = k * grain" using lt m63 by (simp_all add: is_nan_def d_int_def)
  then show ?thesis by blast
qed

lemma rnd_ge_bound: "\<bar>k\<bar> < 2 ^ 53 \<Longrightarrow> 0 < d \<Longrightarrow> k * grain * int d \<le> v \<Longrightarrow> k * grain \<le> rnd v d"
  using bound_double [of k] double_le_rnd by (metis (no_types))

lemma rnd_le_bound: "\<bar>k\<bar> < 2 ^ 53 \<Longrightarrow> 0 < d \<Longrightarrow> v \<le> k * grain * int d \<Longrightarrow> rnd v d \<le> k * grain"
  using bound_double [of k] rnd_le_double by (metis (no_types))

lemma d_withinI:
  assumes "\<not> is_nan x" and "a * grain \<le> d_int x" "d_int x \<le> b * grain" and "\<bar>a\<bar> < 2 ^ 53" "\<bar>b\<bar> < 2 ^ 53"
  shows "d_within a x b"
proof -
  have "\<bar>d_int x\<bar> < int (mag_val inf_mag)"
    using small_less_inf [OF assms(4)] small_less_inf [OF assms(5)] assms(2,3) by linarith
  then have "mag_val (d_mag x) < mag_val inf_mag" by (simp add: d_int_def split: if_splits)
  then show ?thesis using assms by (simp add: d_within_def d_finite_def)
qed

lemma d_within_rnd:
  assumes "\<not> is_nan x" and "d_int x = rnd v d" and "0 < d" and "a * grain * int d \<le> v" "v \<le> b * grain * int d"
    and "\<bar>a\<bar> < 2 ^ 53" "\<bar>b\<bar> < 2 ^ 53"
  shows "d_within a x b"
  by (rule d_withinI) (use assms rnd_ge_bound [of a d v] rnd_le_bound [of b d v] in auto)

section \<open>Interval arithmetic\<close>

lemma d_within_weaken: "d_within a x b \<Longrightarrow> a' \<le> a \<Longrightarrow> b \<le> b' \<Longrightarrow> d_within a' x b'"
  unfolding d_within_def by (meson grain_pos mult_right_mono order.strict_implies_order order_trans)

lemma d_within_finite: "d_within a x b \<Longrightarrow> d_finite x"
  by (simp add: d_within_def)

lemma d_within_add:
  assumes "d_within a x b" "d_within c y d" and "\<bar>a + c\<bar> < 2 ^ 53" "\<bar>b + d\<bar> < 2 ^ 53"
  shows "d_within (a + c) (d_add x y) (b + d)"
  by (rule d_within_rnd [where d = 1 and v = "d_int x + d_int y"])
    (use assms in \<open>auto simp: d_within_def d_int_add distrib_right\<close>)

lemma d_within_neg: "d_within a x b \<Longrightarrow> d_within (- b) (d_neg x) (- a)"
  by (simp add: d_within_def)

lemma d_within_sub:
  assumes "d_within a x b" "d_within c y d" and "\<bar>a - d\<bar> < 2 ^ 53" "\<bar>b - c\<bar> < 2 ^ 53"
  shows "d_within (a - d) (d_sub x y) (b - c)"
  using d_within_add [OF assms(1) d_within_neg [OF assms(2)]] assms(3,4) by (simp add: d_sub_def)

lemma scaled_product: "e * 268435456 \<le> p \<Longrightarrow> e * grain * int d_unit \<le> p * (grain * grain)"
  using mult_right_mono [of "e * 268435456" p "grain * grain"] by (simp add: d_unit_grain algebra_simps)

lemma scaled_product': "p \<le> e * 268435456 \<Longrightarrow> p * (grain * grain) \<le> e * grain * int d_unit"
  using mult_right_mono [of p "e * 268435456" "grain * grain"] by (simp add: d_unit_grain algebra_simps)

lemma d_within_mul:
  assumes "d_within a x b" "d_within c y d" and "0 \<le> a" "0 \<le> c" and "e * 268435456 \<le> a * c" "b * d \<le> f * 268435456"
    and "\<bar>e\<bar> < 2 ^ 53" "\<bar>f\<bar> < 2 ^ 53"
  shows "d_within e (d_mul x y) f"
proof (rule d_within_rnd [where d = d_unit and v = "d_int x * d_int y"])
  have x: "a * grain \<le> d_int x" "d_int x \<le> b * grain" "d_finite x" and y: "c * grain \<le> d_int y" "d_int y \<le> d * grain" "d_finite y"
    using assms(1,2) by (auto simp: d_within_def)
  have nn: "0 \<le> a * grain" "0 \<le> c * grain" using assms(3,4) by simp_all
  have "e * grain * int d_unit \<le> (a * grain) * (c * grain)" using scaled_product [OF assms(5)] by (simp add: algebra_simps)
  also have "\<dots> \<le> d_int x * d_int y" by (rule mult_mono) (use x y nn in auto)
  finally show "e * grain * int d_unit \<le> d_int x * d_int y" .
  have "d_int x * d_int y \<le> (b * grain) * (d * grain)" by (rule mult_mono) (use x y nn in auto)
  also have "\<dots> \<le> f * grain * int d_unit" using scaled_product' [OF assms(6)] by (simp add: algebra_simps)
  finally show "d_int x * d_int y \<le> f * grain * int d_unit" .
  show "\<not> is_nan (d_mul x y)" "d_int (d_mul x y) = rnd (d_int x * d_int y) d_unit" using x y by (simp_all add: d_int_mul)
qed (use assms in auto)

lemma d_within_mul_sym:
  assumes "d_within (- a) x a" "d_within 0 y d" and "a * d \<le> f * 268435456" and "\<bar>f\<bar> < 2 ^ 53"
  shows "d_within (- f) (d_mul x y) f"
proof (rule d_within_rnd [where d = d_unit and v = "d_int x * d_int y"])
  have x: "- a * grain \<le> d_int x" "d_int x \<le> a * grain" "d_finite x" and y: "0 \<le> d_int y" "d_int y \<le> d * grain" "d_finite y"
    using assms(1,2) by (auto simp: d_within_def)
  have "\<bar>d_int x * d_int y\<bar> = \<bar>d_int x\<bar> * d_int y" using y by (simp add: abs_mult)
  also have "\<dots> \<le> (a * grain) * (d * grain)" by (rule mult_mono) (use x y in auto)
  also have "\<dots> \<le> f * grain * int d_unit" using scaled_product' [OF assms(3)] by (simp add: algebra_simps)
  finally show "- f * grain * int d_unit \<le> d_int x * d_int y" "d_int x * d_int y \<le> f * grain * int d_unit" by auto
  show "\<not> is_nan (d_mul x y)" "d_int (d_mul x y) = rnd (d_int x * d_int y) d_unit" using x y by (simp_all add: d_int_mul)
qed (use assms in auto)

lemma d_within_div:
  assumes "d_within a x b" "d_within c y c" and "0 < c" and "e * c \<le> a * 268435456" "b * 268435456 \<le> f * c"
    and "\<bar>e\<bar> < 2 ^ 53" "\<bar>f\<bar> < 2 ^ 53"
  shows "d_within e (d_div x y) f"
proof (rule d_within_rnd [where d = "nat (c * grain)" and v = "d_int x * int d_unit"])
  have x: "a * grain \<le> d_int x" "d_int x \<le> b * grain" "d_finite x" and y: "d_int y = c * grain" "d_finite y"
    using assms(1,2) by (auto simp: d_within_def)
  have pos: "0 < c * grain" using assms(3) by simp
  then have n: "int (nat (c * grain)) = c * grain" by simp
  have "e * grain * (c * grain) \<le> (a * grain) * int d_unit"
    using mult_right_mono [OF assms(4), of "grain * grain"] by (simp add: d_unit_grain algebra_simps)
  also have "\<dots> \<le> d_int x * int d_unit" by (rule mult_right_mono) (use x in auto)
  finally show "e * grain * int (nat (c * grain)) \<le> d_int x * int d_unit" by (simp only: n)
  have "d_int x * int d_unit \<le> (b * grain) * int d_unit" by (rule mult_right_mono) (use x in auto)
  also have "\<dots> \<le> f * grain * (c * grain)"
    using mult_right_mono [OF assms(5), of "grain * grain"] by (simp add: d_unit_grain algebra_simps)
  finally show "d_int x * int d_unit \<le> f * grain * int (nat (c * grain))" by (simp only: n)
  have "d_int y \<noteq> 0" "sgn (d_int y) = 1" "nat \<bar>d_int y\<bar> = nat (c * grain)" using y(1) pos by auto
  then show "\<not> is_nan (d_div x y)" "d_int (d_div x y) = rnd (d_int x * int d_unit) (nat (c * grain))"
    using x y by (simp_all add: d_int_div)
  show "0 < nat (c * grain)" using pos by simp
qed (use assms in auto)

lemma d_within_lit:
  assumes "0 < q" and "e * int q \<le> int n * 268435456" "int n * 268435456 \<le> f * int q" and "\<bar>e\<bar> < 2 ^ 53" "\<bar>f\<bar> < 2 ^ 53"
  shows "d_within e (d_lit n q) f"
proof (rule d_within_rnd [where d = q and v = "int (n * d_unit)"])
  show "e * grain * int q \<le> int (n * d_unit)" "int (n * d_unit) \<le> f * grain * int q"
    using mult_right_mono [OF assms(2), of grain] mult_right_mono [OF assms(3), of grain] by (simp_all add: d_unit_grain algebra_simps)
qed (use assms in \<open>simp_all add: d_lit_def\<close>)

lemma d_within_of_int: "\<bar>k * 268435456\<bar> < 2 ^ 53 \<Longrightarrow> d_within (k * 268435456) (d_of_int k) (k * 268435456)"
  by (rule d_within_rnd [where d = 1 and v = "k * int d_unit"]) (simp_all add: d_of_int_def d_unit_grain)

lemma d_within_trunc:
  assumes "d_within a x b" and "0 \<le> a"
  shows "a div 268435456 \<le> d_trunc x \<and> d_trunc x \<le> b div 268435456"
proof -
  have x: "a * grain \<le> d_int x" "d_int x \<le> b * grain" using assms(1) by (auto simp: d_within_def)
  have nn: "0 \<le> d_int x" using x(1) assms(2) by (meson grain_pos mult_nonneg_nonneg order.strict_implies_order order_trans)
  then have "d_trunc x = d_int x div int d_unit"
    by (cases "d_sign x") (auto simp: d_trunc_def d_int_def zdiv_int)
  moreover have "a * grain div int d_unit = a div 268435456" for a :: int
    by (simp add: d_unit_grain)
  ultimately show ?thesis
    using zdiv_mono1 [OF x(1), of "int d_unit"] zdiv_mono1 [OF x(2), of "int d_unit"] by simp
qed

lemma d_within_lt: "d_within a x b \<Longrightarrow> d_within c y d \<Longrightarrow> b < c \<Longrightarrow> d_lt x y"
proof -
  assume w: "d_within a x b" "d_within c y d" and "b < c"
  then have "b * grain < c * grain" by (intro mult_strict_right_mono) simp_all
  then have "d_int x < d_int y" using w unfolding d_within_def by linarith
  then show ?thesis using w by (simp add: d_within_def d_lt_def)
qed

lemma d_within_le: "d_within a x b \<Longrightarrow> d_within c y d \<Longrightarrow> b \<le> c \<Longrightarrow> d_le x y"
proof -
  assume w: "d_within a x b" "d_within c y d" and "b \<le> c"
  then have "b * grain \<le> c * grain" by (intro mult_right_mono) simp_all
  then have "d_int x \<le> d_int y" using w unfolding d_within_def by linarith
  then show ?thesis using w by (simp add: d_within_def d_le_def)
qed

end
