(* ===== verification/Feed_Simulation.thy ===== *)
theory Feed_Simulation
  imports Feed_Handler Double_Bounds
begin

text \<open>
  The simulated market: the random number generator is a permutation of its states, and every simulated
  quote is plausible, rounding errors included.
\<close>

section \<open>The generator\<close>

lemma xor_push_bit_inj:
  assumes "0 < k" and "x XOR push_bit k x = y XOR push_bit k (y :: u32)"
  shows "x = y"
proof (rule bit_eqI)
  fix n assume "possible_bit TYPE(u32) n"
  then show "bit x n = bit y n"
  proof (induction n rule: less_induct)
    case (less n)
    have "bit (x XOR push_bit k x) n = bit (y XOR push_bit k y) n" by (simp only: assms(2))
    then have "(bit x n \<noteq> (k \<le> n \<and> bit x (n - k))) = (bit y n \<noteq> (k \<le> n \<and> bit y (n - k)))"
      using less.prems by (simp add: bit_xor_iff bit_push_bit_iff possible_bit_def)
    moreover have "k \<le> n \<Longrightarrow> bit x (n - k) = bit y (n - k)"
      using less.IH [of "n - k"] less.prems assms(1) by (simp add: possible_bit_def)
    ultimately show ?case by auto
  qed
qed

lemma xor_drop_bit_inj:
  assumes "0 < k" and "x XOR drop_bit k x = y XOR drop_bit k (y :: u32)"
  shows "x = y"
proof (rule bit_eqI)
  fix n assume "possible_bit TYPE(u32) n"
  show "bit x n = bit y n"
  proof (induction "32 - n" arbitrary: n rule: less_induct)
    case less
    have eq: "(bit x n \<noteq> bit x (k + n)) = (bit y n \<noteq> bit y (k + n))"
      using arg_cong [OF assms(2), of "\<lambda>w. bit w n"] by (simp add: bit_xor_iff bit_drop_bit_eq)
    show ?case
    proof (cases "n < 32")
      case True
      then have "bit x (k + n) = bit y (k + n)" by (intro less) (use assms(1) in simp)
      with eq show ?thesis by blast
    next
      case False
      then have "\<not> bit x n" "\<not> bit y n" by (auto dest: bit_imp_le_length)
      then show ?thesis by simp
    qed
  qed
qed

text \<open>The generator cannot degenerate. One step of the 32-bit xorshift is a permutation of the states,
  so no two states ever merge, and zero is its own successor: from a state other than zero the
  generator never reaches zero, and from zero it never leaves.\<close>

theorem xorshift_permutation: "bij xorshift \<and> (xorshift x = 0 \<longleftrightarrow> x = 0)"
proof -
  have inj: "inj xorshift"
  proof (rule injI)
    fix x y assume "xorshift x = xorshift y"
    note five = this [unfolded xorshift_def Let_def]
    have five: "(x XOR push_bit 13 x) XOR drop_bit 17 (x XOR push_bit 13 x) = (y XOR push_bit 13 y) XOR drop_bit 17 (y XOR push_bit 13 y)"
      by (rule xor_push_bit_inj [OF _ five]) simp
    have "x XOR push_bit 13 x = y XOR push_bit 13 y" by (rule xor_drop_bit_inj [OF _ five]) simp
    from xor_push_bit_inj [OF _ this] show "x = y" by simp
  qed
  then have "bij xorshift" by (simp add: bij_def finite_UNIV_inj_surj)
  moreover have zero: "xorshift 0 = 0" by (simp add: xorshift_def)
  have "xorshift x = 0 \<longleftrightarrow> x = 0" using inj zero by (metis injD)
  ultimately show ?thesis by blast
qed

section \<open>Random numbers\<close>

lemma unit_double_bounds: "d_within 0 (unit_double x) 268435440"
proof -
  have "uint (x AND 0xFFFFFF) \<le> 16777215"
    by (simp add: uint_and)
  then have k: "0 \<le> uint (x AND 0xFFFFFF)" "uint (x AND 0xFFFFFF) \<le> 16777215" by simp_all
  then have "d_within (uint (x AND 0xFFFFFF) * 268435456) (d_of_int (uint (x AND 0xFFFFFF))) (uint (x AND 0xFFFFFF) * 268435456)"
    by (intro d_within_of_int) (simp add: abs_mult)
  then have num: "d_within 0 (d_of_int (uint (x AND 0xFFFFFF))) (16777215 * 268435456)"
    by (rule d_within_weaken) (use k in simp_all)
  have den: "d_within (16777216 * 268435456) (d_of_int 0x1000000) (16777216 * 268435456)" by (rule d_within_of_int) simp
  show ?thesis unfolding unit_double_def by (rule d_within_div [OF num den]) simp_all
qed

lemma rand_double_frame: "\<exists>x s. rand_double fh = (unit_double x, fh\<lparr>prng_state := s\<rparr>)"
  by (auto simp: rand_double_def xorshift32_def Let_def)

lemma rand_size_bounds:
  assumes "0 \<le> lo" and "0 < w" and "lo + w \<le> 16777216"
  shows "\<exists>k s. rand_size lo w fh = (k, fh\<lparr>prng_state := s\<rparr>) \<and> lo \<le> k \<and> k < lo + w"
proof -
  obtain x s where r: "rand_double fh = (unit_double x, fh\<lparr>prng_state := s\<rparr>)" using rand_double_frame by blast
  have small: "0 \<le> 268435440 * w" "268435440 * w \<le> 4503599627370496" "lo * 268435456 \<le> 4503599627370496" "w * 268435456 \<le> 4503599627370496"
    "lo * 268435456 + 268435440 * w \<le> 4503599627370496"
    using assms by linarith+
  have dw: "d_within (w * 268435456) (d_of_int w) (w * 268435456)" "d_within (lo * 268435456) (d_of_int lo) (lo * 268435456)"
    by (rule d_within_of_int; use assms small in \<open>simp add: abs_mult\<close>)+
  have "d_within 0 (d_mul (unit_double x) (d_of_int w)) (268435440 * w)"
    by (rule d_within_mul [OF unit_double_bounds dw(1)]) (use assms small in simp_all)
  from d_within_add [OF dw(2) this] have
    "d_within (lo * 268435456) (d_add (d_of_int lo) (d_mul (unit_double x) (d_of_int w))) (lo * 268435456 + 268435440 * w)"
    using assms small by simp
  from d_within_trunc [OF this] have
    "lo \<le> d_trunc (d_add (d_of_int lo) (d_mul (unit_double x) (d_of_int w)))"
    "d_trunc (d_add (d_of_int lo) (d_mul (unit_double x) (d_of_int w))) \<le> (lo * 268435456 + 268435440 * w) div 268435456"
    using assms by simp_all
  moreover have "(lo * 268435456 + 268435440 * w) div 268435456 < lo + w" 
    using assms(2) div_mult_mod_eq [of "lo * 268435456 + 268435440 * w" 268435456]
      pos_mod_sign [of 268435456 "lo * 268435456 + 268435440 * w"] by linarith
  ultimately show ?thesis using r by (auto simp: rand_size_def)
qed

section \<open>Simulated quotes\<close>

lemma clamp_price_bounds: "d_within a p b \<Longrightarrow> d_within 2684354560 (clamp_price p) 268435456000"
proof -
  assume p: "d_within a p b"
  have ten: "d_within 2684354560 (d_lit 10 1) 2684354560" and thousand: "d_within 268435456000 (d_lit 1000 1) 268435456000"
    by (rule d_within_lit; simp)+
  have no: "\<not> d_lt (d_lit 1000 1) (d_lit 10 1)" using d_within_lt [OF ten thousand] d_lt_asym by fastforce
  have mid: "d_within 2684354560 p 268435456000" if "\<not> d_lt p (d_lit 10 1)" "\<not> d_lt (d_lit 1000 1) p"
    using that p ten thousand by (auto simp: d_within_def d_lt_def)
  have big: "d_within 2684354560 (d_lit 1000 1) 268435456000" by (rule d_within_weaken [OF thousand]) simp_all
  have small: "d_within 2684354560 (d_lit 10 1) 268435456000" by (rule d_within_weaken [OF ten]) simp_all
  show ?thesis using mid big small no by (auto simp: clamp_price_def Let_def)
qed

lemma noise_bounds: "d_within (-2684355) (d_mul (d_sub (unit_double x) (d_lit 1 2)) (d_lit 2 100)) 2684355"
proof -
  have half: "d_within 134217728 (d_lit 1 2) 134217728" by (rule d_within_lit) simp_all
  have c: "d_within 0 (d_lit 2 100) 5368710" by (rule d_within_lit) simp_all
  have "d_within (- 134217728) (d_sub (unit_double x) (d_lit 1 2)) 134217728"
    by (rule d_within_weaken [OF d_within_sub [OF unit_double_bounds half]]) simp_all
  from d_within_mul_sym [OF this c] show ?thesis by simp
qed

text \<open>Half the relative spread lies between \<open>0.00005\<close> and \<open>0.0003\<close>.\<close>

lemma half_spread_bounds:
  "d_within 13421 (d_div (d_add (d_lit 1 10000) (d_mul (unit_double x) (d_lit 5 10000))) (d_lit 2 1)) 80531"
proof -
  have lo: "d_within 26843 (d_lit 1 10000) 26844" and w: "d_within 134217 (d_lit 5 10000) 134218" and two: "d_within 536870912 (d_lit 2 1) 536870912"
    by (rule d_within_lit; simp)+
  have "d_within 0 (d_mul (unit_double x) (d_lit 5 10000)) 134218" by (rule d_within_mul [OF unit_double_bounds w]) simp_all
  from d_within_add [OF lo this] have "d_within 26843 (d_add (d_lit 1 10000) (d_mul (unit_double x) (d_lit 5 10000))) 161062" by simp
  from d_within_div [OF this two] show ?thesis by simp
qed

lemma d_mul_le_self: "d_within a x b \<Longrightarrow> 0 \<le> a \<Longrightarrow> d_within c y 268435456 \<Longrightarrow> d_le (d_mul x y) x"
proof -
  assume x: "d_within a x b" "0 \<le> a" and y: "d_within c y 268435456"
  have nn: "0 \<le> d_int x" using x unfolding d_within_def by (meson grain_pos(2) mult_nonneg_nonneg order_trans)
  have "d_int y \<le> int d_unit" using y by (simp add: d_within_def d_unit_grain)
  then have "d_int x * d_int y \<le> d_int x * int d_unit" using nn by (intro mult_left_mono)
  then show ?thesis using x y rnd_le_double [of x d_unit "d_int x * d_int y"]
    by (simp add: d_within_def d_le_def d_int_mul)
qed

lemma d_mul_ge_self: "d_within a x b \<Longrightarrow> 0 \<le> a \<Longrightarrow> d_within 268435456 y d \<Longrightarrow> d_le x (d_mul x y)"
proof -
  assume x: "d_within a x b" "0 \<le> a" and y: "d_within 268435456 y d"
  have nn: "0 \<le> d_int x" using x unfolding d_within_def by (meson grain_pos(2) mult_nonneg_nonneg order_trans)
  have "int d_unit \<le> d_int y" using y by (simp add: d_within_def d_unit_grain)
  then have "d_int x * int d_unit \<le> d_int x * d_int y" using nn by (intro mult_left_mono)
  then show ?thesis using x y double_le_rnd [of x d_unit "d_int x * d_int y"]
    by (simp add: d_within_def d_le_def d_int_mul)
qed

text \<open>What a quote must look like.\<close>

definition plausible :: "feed_msg \<Rightarrow> bool" where
  "plausible m \<longleftrightarrow> d_le (d_lit 10 1) (last_price m) \<and> d_le (last_price m) (d_lit 1000 1)
     \<and> d_le (d_lit 9 1) (bid_price m) \<and> d_le (bid_price m) (last_price m)
     \<and> d_le (last_price m) (ask_price m) \<and> d_le (ask_price m) (d_lit 1001 1)
     \<and> 100 \<le> bid_qty m \<and> bid_qty m < 10000 \<and> 100 \<le> ask_qty m \<and> ask_qty m < 10000
     \<and> 10 \<le> last_size m \<and> last_size m < 1000 \<and> 10000 \<le> volume m \<and> volume m < 1000000
     \<and> msg_symbol m \<noteq> [] \<and> length (msg_symbol m) \<le> 15 \<and> NUL \<notin> set (msg_symbol m)"

lemma quote_bounds:
  assumes p: "d_within 2684354560 p 268435456000" and s: "d_within 13421 s 80531"
  shows "d_le (d_lit 9 1) (d_mul p (d_sub (d_lit 1 1) s)) \<and> d_le (d_mul p (d_sub (d_lit 1 1) s)) p
    \<and> d_le p (d_mul p (d_add (d_lit 1 1) s)) \<and> d_le (d_mul p (d_add (d_lit 1 1) s)) (d_lit 1001 1)"
proof -
  have one: "d_within 268435456 (d_lit 1 1) 268435456" and nine: "d_within 2415919104 (d_lit 9 1) 2415919104"
    and top: "d_within 268703891456 (d_lit 1001 1) 268703891456"
    by (rule d_within_lit; simp)+
  have dn: "d_within 268354925 (d_sub (d_lit 1 1) s) 268422035" and up: "d_within 268448877 (d_add (d_lit 1 1) s) 268515987"
    using d_within_sub [OF one s] d_within_add [OF one s] by simp_all
  have "d_within 2683549250 (d_mul p (d_sub (d_lit 1 1) s)) 268422035000" "d_within 2684488770 (d_mul p (d_add (d_lit 1 1) s)) 268515987000"
    by (rule d_within_mul [OF p dn]; simp) (rule d_within_mul [OF p up]; simp)
  then have "d_le (d_lit 9 1) (d_mul p (d_sub (d_lit 1 1) s))" "d_le (d_mul p (d_add (d_lit 1 1) s)) (d_lit 1001 1)"
    using d_within_le [OF nine] d_within_le [OF _ top] by auto
  moreover have "d_le (d_mul p (d_sub (d_lit 1 1) s)) p" by (rule d_mul_le_self [OF p _ d_within_weaken [OF dn order_refl]]) simp_all
  moreover have "d_le p (d_mul p (d_add (d_lit 1 1) s))" by (rule d_mul_ge_self [OF p _ d_within_weaken [OF up _ order_refl]]) simp_all
  ultimately show ?thesis by blast
qed

lemma symbol_choice:
  fixes c :: string
  defines "sm \<equiv> if cstr c \<noteq> [] then cstr c else ''AAPL''"
  shows "cstr (strncpy 15 sm) \<noteq> [] \<and> length (cstr (strncpy 15 sm)) \<le> 15 \<and> NUL \<notin> set (cstr (strncpy 15 sm))"
proof -
  let ?sm = sm
  have sm: "?sm \<noteq> []" "NUL \<notin> set ?sm" by (auto simp: sm_def cstr_def NUL_def dest: set_takeWhileD)
  then obtain x xs where x: "?sm = x # xs" "x \<noteq> NUL" by (cases ?sm) auto
  then have "cstr (strncpy 15 ?sm) \<noteq> []" unfolding strncpy_def by (simp add: cstr_def take_Cons')
  moreover have "length (cstr (strncpy 15 ?sm)) \<le> 15" unfolding cstr_def using length_takeWhile_le length_strncpy by metis
  moreover have "NUL \<notin> set (cstr (strncpy 15 ?sm))" by (auto simp: cstr_def dest: set_takeWhileD)
  ultimately show ?thesis by blast
qed

lemma simulate_message_bounds:
  assumes base: "d_within 2684354560 (sim_base_price fh) 268435456000"
  shows "plausible (fst (simulate_message now fh)) \<and> d_within 2684354560 (sim_base_price (snd (simulate_message now fh))) 268435456000
    \<and> feed_cfg (snd (simulate_message now fh)) = feed_cfg fh"
proof -
  obtain x1 s1 where r1: "rand_double fh = (unit_double x1, fh\<lparr>prng_state := s1\<rparr>)" using rand_double_frame by blast
  let ?p = "clamp_price (d_add (sim_base_price fh) (d_mul (d_sub (unit_double x1) (d_lit 1 2)) (d_lit 2 100)))"
  have p: "d_within 2684354560 ?p 268435456000" by (rule clamp_price_bounds [OF d_within_add [OF base noise_bounds]]) simp_all
  let ?f1 = "fh\<lparr>prng_state := s1, sim_base_price := ?p\<rparr>"
  obtain x2 s2 where r2: "rand_double ?f1 = (unit_double x2, ?f1\<lparr>prng_state := s2\<rparr>)" using rand_double_frame by blast
  obtain k1 s3 where k1: "rand_size 100 9900 (?f1\<lparr>prng_state := s2\<rparr>) = (k1, ?f1\<lparr>prng_state := s3\<rparr>)" "100 \<le> k1" "k1 < 10000"
    using rand_size_bounds [of 100 9900 "?f1\<lparr>prng_state := s2\<rparr>"] by auto
  obtain k2 s4 where k2: "rand_size 100 9900 (?f1\<lparr>prng_state := s3\<rparr>) = (k2, ?f1\<lparr>prng_state := s4\<rparr>)" "100 \<le> k2" "k2 < 10000"
    using rand_size_bounds [of 100 9900 "?f1\<lparr>prng_state := s3\<rparr>"] by auto
  obtain k3 s5 where k3: "rand_size 10 990 (?f1\<lparr>prng_state := s4\<rparr>) = (k3, ?f1\<lparr>prng_state := s5\<rparr>)" "10 \<le> k3" "k3 < 1000"
    using rand_size_bounds [of 10 990 "?f1\<lparr>prng_state := s4\<rparr>"] by auto
  obtain k4 s6 where k4: "rand_size 10000 990000 (?f1\<lparr>prng_state := s5\<rparr>) = (k4, ?f1\<lparr>prng_state := s6\<rparr>)" "10000 \<le> k4" "k4 < 1000000"
    using rand_size_bounds [of 10000 990000 "?f1\<lparr>prng_state := s5\<rparr>"] by auto
  have last: "d_le (d_lit 10 1) ?p" "d_le ?p (d_lit 1000 1)"
    using d_within_le [OF d_within_lit [of 1 2684354560 10 2684354560] p] d_within_le [OF p d_within_lit [of 1 268435456000 1000 268435456000]]
    by simp_all
  note facts = k1(2,3) k2(2,3) k3(2,3) k4(2,3) last
  show ?thesis
    using facts quote_bounds [OF p half_spread_bounds [of x2]] symbol_choice [of "cfg_symbol (feed_cfg fh)"] p
    by (cases "cstr (cfg_symbol (feed_cfg fh)) = []") (simp_all add: simulate_message_def r1 r2 [simplified] k1(1) [simplified] k2(1) [simplified] k3(1) [simplified] k4(1) [simplified]
        plausible_def Let_def)
qed

fun simulate_many :: "u64 list \<Rightarrow> feed_handler \<Rightarrow> feed_msg list \<times> feed_handler" where
  "simulate_many [] fh = ([], fh)"
| "simulate_many (t # ts) fh = (let (m, fh1) = simulate_message t fh; (ms, fh2) = simulate_many ts fh1 in (m # ms, fh2))"

lemma simulate_many_plausible: "d_within 2684354560 (sim_base_price fh) 268435456000 \<Longrightarrow> m \<in> set (fst (simulate_many ts fh)) \<Longrightarrow> plausible m"
proof (induction ts arbitrary: fh)
  case (Cons t ts)
  then show ?case using simulate_message_bounds [OF Cons.prems(1), of t] by (auto simp: Let_def split_beta)
qed simp

text \<open>C38: every simulated quote is plausible. However long a started simulation runs and whatever its
  random state, each message has a last price between 10 and 1000, a bid of at least 9 not above
  the last price, an ask not below it and at most 1001, sizes and volume in the ranges the comments
  give, and a non-empty symbol of at most 15 characters; all of this for the rounded double arithmetic
  of the code.\<close>

theorem simulated_quotes_plausible:
  assumes "feed_simulation_mode (feed_cfg fh0)" and "feed_start True (Some fh0) = (0, Some fh)"
    and "m \<in> set (fst (simulate_many ts fh))"
  shows "plausible m"
proof -
  have "d_within 2684354560 (d_lit 150 1) 268435456000" by (rule d_within_lit) simp_all
  then have "d_within 2684354560 (sim_base_price fh) 268435456000" using assms(1,2) by (auto simp: feed_start_def)
  then show ?thesis using assms(3) by (rule simulate_many_plausible)
qed

definition ex_feed :: feed_handler where
  "ex_feed = \<lparr>feed_cfg = \<lparr>listen_addr = [], listen_port = 0, feed_simulation_mode = True, sim_interval_us = 500,
     output_queue_size = 4, cfg_symbol = ''AAPL''\<rparr>,
     output_queue = \<lparr>head = 0, tail = 0, buffer = None, rb_capacity = 0, rb_mask = 0\<rparr>, msg_pool = zero_pool,
     msgs = (\<lambda>_. zero_feed_msg), feed_running = False, sockfd = 0, msgs_received = 0, msgs_dropped = 0, bytes_received = 0,
     sim_base_price = 0, prng_state = 2463534242\<rparr>"

theorem simulated_quotes_plausible_witness:
  "\<exists>fh. feed_start True (Some ex_feed) = (0, Some fh) \<and> (\<forall>m \<in> set (fst (simulate_many [1, 2, 3] fh)). plausible m)"
proof -
  obtain fh where f: "feed_start True (Some ex_feed) = (0, Some fh)" by (simp add: feed_start_def)
  have "feed_simulation_mode (feed_cfg ex_feed)" by (simp add: ex_feed_def)
  from simulated_quotes_plausible [OF this f] f show ?thesis by blast
qed

end
