(* ===== verification/Feed_Properties.thy ===== *)
theory Feed_Properties
  imports Feed_Handler Message_Source
begin

text \<open>
  The path of a feed message: from the pool into the output queue, to the consumer and back. The
  invariant is one of ownership: every object of the pool is either free, queued or in the hands of the
  consumer, and only one of them.
\<close>

section \<open>Ownership\<close>

definition feed_ok :: "address list \<Rightarrow> feed_handler \<Rightarrow> bool" where
  "feed_ok hl fh \<longleftrightarrow> mp_ok (msg_pool fh) \<and> rb_ok (output_queue fh) \<and> distinct (rb_contents (output_queue fh) @ hl)
     \<and> set (rb_contents (output_queue fh) @ hl) = mp_slots (msg_pool fh) - mp_avail (msg_pool fh)"

definition feed_queued :: "feed_handler \<Rightarrow> feed_msg list" where
  "feed_queued fh = map (msgs fh) (rb_contents (output_queue fh))"

lemma feed_ok_keeps [simp]:
  "feed_ok hl (fh\<lparr>msgs_dropped := a\<rparr>) = feed_ok hl fh" "feed_ok hl (fh\<lparr>msgs_received := a\<rparr>) = feed_ok hl fh"
  "feed_ok hl (fh\<lparr>bytes_received := a\<rparr>) = feed_ok hl fh" "feed_ok hl (fh\<lparr>prng_state := s\<rparr>) = feed_ok hl fh"
  "feed_ok hl (fh\<lparr>sim_base_price := b\<rparr>) = feed_ok hl fh" "feed_ok hl (fh\<lparr>msgs := f\<rparr>) = feed_ok hl fh"
  by (simp_all add: feed_ok_def)

lemma feed_queued_keeps [simp]:
  "feed_queued (fh\<lparr>msgs_dropped := a\<rparr>) = feed_queued fh" "feed_queued (fh\<lparr>msgs_received := a\<rparr>) = feed_queued fh"
  "feed_queued (fh\<lparr>bytes_received := a\<rparr>) = feed_queued fh" "feed_queued (fh\<lparr>prng_state := s\<rparr>) = feed_queued fh"
  "feed_queued (fh\<lparr>sim_base_price := b\<rparr>) = feed_queued fh" "feed_queued (fh\<lparr>msg_pool := mp\<rparr>) = feed_queued fh"
  by (simp_all add: feed_queued_def)

lemma feed_ok_not_null: "feed_ok hl fh \<Longrightarrow> 0 \<notin> set (rb_contents (output_queue fh) @ hl)"
  using mpool.no_null [of "msg_pool fh"] by (auto simp: feed_ok_def)

lemma feed_alloc:
  assumes "feed_ok hl fh"
  shows "\<exists>p mp. mempool_alloc (msg_pool fh) = Some (p, mp)
    \<and> (if mp_avail (msg_pool fh) = {} then p = 0 \<and> mp = msg_pool fh
       else p \<noteq> 0 \<and> p \<in> mp_avail (msg_pool fh) \<and> mp_avail mp = mp_avail (msg_pool fh) - {p} \<and> feed_ok (p # hl) (fh\<lparr>msg_pool := mp\<rparr>))"
proof (cases "mp_avail (msg_pool fh) = {}")
  case True
  then show ?thesis using mpool.alloc_none assms by (simp add: feed_ok_def)
next
  case False
  have ok: "mp_ok (msg_pool fh)" using assms by (simp add: feed_ok_def)
  from mpool.alloc_some [OF ok False] obtain p mp where
    p: "mempool_alloc (msg_pool fh) = Some (p, mp)" "mp_ok mp" "p \<in> mp_avail (msg_pool fh)"
      "mp_avail mp = mp_avail (msg_pool fh) - {p}" "mp_slots mp = mp_slots (msg_pool fh)" by blast
  have slot: "p \<in> mp_slots (msg_pool fh)" using mpool.avail_slots [OF ok] p(3) by blast
  then have "p \<noteq> 0" using mpool.no_null [OF ok] by blast
  moreover have "feed_ok (p # hl) (fh\<lparr>msg_pool := mp\<rparr>)" using assms p slot by (auto simp: feed_ok_def)
  ultimately show ?thesis using p False by simp
qed

lemma feed_free:
  assumes "feed_ok (p # hl) fh"
  shows "\<exists>mp. mempool_free (msg_pool fh) p = Some mp \<and> feed_ok hl (fh\<lparr>msg_pool := mp\<rparr>)
    \<and> mp_avail mp = insert p (mp_avail (msg_pool fh)) \<and> mp_slots mp = mp_slots (msg_pool fh)"
proof -
  have "mp_ok (msg_pool fh)" "p \<in> mp_slots (msg_pool fh)" "p \<notin> mp_avail (msg_pool fh)"
    using assms by (auto simp: feed_ok_def)
  from mpool.free_live [OF this] obtain mp where
    mp: "mempool_free (msg_pool fh) p = Some mp" "mp_ok mp" "mp_avail mp = insert p (mp_avail (msg_pool fh))"
      "mp_slots mp = mp_slots (msg_pool fh)" by blast
  have "set (rb_contents (output_queue fh) @ hl) = set (rb_contents (output_queue fh) @ p # hl) - {p}"
    using assms by (auto simp: feed_ok_def)
  then have "feed_ok hl (fh\<lparr>msg_pool := mp\<rparr>)" using assms mp by (auto simp: feed_ok_def)
  with mp show ?thesis by blast
qed

text \<open>Delivering a filled message: into the queue when it has room, else back to the pool.\<close>

lemma feed_deliver_spec:
  assumes "feed_ok (p # hl) fh"
  shows "if length (feed_queued fh) < rb_bound (output_queue fh)
    then \<exists>fh'. feed_deliver p m fh = Some (True, fh') \<and> feed_ok hl fh' \<and> feed_queued fh' = feed_queued fh @ [m]
      \<and> feed_get_stats fh' = (msgs_received fh + 1, msgs_dropped fh, bytes_received fh)
      \<and> (\<forall>q \<in> set hl. msgs fh' q = msgs fh q) \<and> msg_pool fh' = msg_pool fh \<and> rb_bound (output_queue fh') = rb_bound (output_queue fh)
    else \<exists>fh'. feed_deliver p m fh = Some (False, fh') \<and> feed_ok hl fh' \<and> feed_queued fh' = feed_queued fh
      \<and> feed_get_stats fh' = (msgs_received fh, msgs_dropped fh + 1, bytes_received fh)
      \<and> (\<forall>q \<in> set hl. msgs fh' q = msgs fh q) \<and> mp_avail (msg_pool fh') = insert p (mp_avail (msg_pool fh))
      \<and> mp_slots (msg_pool fh') = mp_slots (msg_pool fh) \<and> rb_bound (output_queue fh') = rb_bound (output_queue fh)"
proof -
  let ?q = "output_queue fh" and ?fh = "fh\<lparr>msgs := (msgs fh)(p := m)\<rparr>"
  have ok: "rb_ok ?q" and new: "p \<notin> set (rb_contents ?q)" "p \<notin> set hl" using assms by (auto simp: feed_ok_def)
  have keep: "map ((msgs fh)(p := m)) (rb_contents ?q) = map (msgs fh) (rb_contents ?q)" using new by auto
  show ?thesis
  proof (cases "length (feed_queued fh) < rb_bound ?q")
    case True
    then obtain q where q: "ring_buffer_push ?q p = Some (True, q)" "rb_ok q" "rb_contents q = rb_contents ?q @ [p]" "rb_bound q = rb_bound ?q"
      using rbq.push_room [OF ok, of p] by (auto simp: feed_queued_def)
    let ?fh' = "?fh\<lparr>output_queue := q, msgs_received := msgs_received fh + 1\<rparr>"
    have "feed_ok hl ?fh'" using assms q by (auto simp: feed_ok_def)
    moreover have "feed_queued ?fh' = feed_queued fh @ [m]" using q keep by (simp add: feed_queued_def)
    moreover have "feed_deliver p m fh = Some (True, ?fh')" using q by (simp add: feed_deliver_def)
    ultimately show ?thesis using True new q(4) by (auto simp: feed_get_stats_def)
  next
    case False
    then have "length (rb_contents ?q) = rb_bound ?q" using rbq.bounded [OF ok] by (simp add: feed_queued_def)
    from rbq.push_full [OF ok this, of p] have push: "ring_buffer_push ?q p = Some (False, ?q)" .
    have "feed_ok (p # hl) ?fh" using assms by simp
    from feed_free [OF this] obtain mp where
      mp: "mempool_free (msg_pool fh) p = Some mp" "feed_ok hl (?fh\<lparr>msg_pool := mp\<rparr>)" "mp_avail mp = insert p (mp_avail (msg_pool fh))"
        "mp_slots mp = mp_slots (msg_pool fh)"
      by auto
    let ?fh' = "?fh\<lparr>output_queue := ?q, msg_pool := mp, msgs_dropped := msgs_dropped fh + 1\<rparr>"
    have "feed_ok hl ?fh'" using mp(2) by (simp add: feed_ok_def)
    moreover have "feed_queued ?fh' = feed_queued fh" using keep by (simp add: feed_queued_def)
    moreover have "feed_deliver p m fh = Some (False, ?fh')" using push mp(1) by (simp add: feed_deliver_def)
    ultimately show ?thesis using False new mp by (auto simp: feed_get_stats_def)
  qed
qed

section \<open>One message\<close>

text \<open>What offering the message \<open>m\<close> does: it is appended to the queue and counted as received if there is
  a free object and room in the queue, and counted as dropped otherwise. Nothing else moves.\<close>

definition offered :: "feed_msg \<Rightarrow> address list \<Rightarrow> feed_handler \<Rightarrow> feed_handler \<Rightarrow> bool" where
  "offered m hl fh fh' \<longleftrightarrow> feed_ok hl fh' \<and> (\<forall>q \<in> set hl. msgs fh' q = msgs fh q)
     \<and> mp_slots (msg_pool fh') = mp_slots (msg_pool fh) \<and> rb_bound (output_queue fh') = rb_bound (output_queue fh)
     \<and> (if mp_avail (msg_pool fh) \<noteq> {} \<and> length (feed_queued fh) < rb_bound (output_queue fh)
        then feed_queued fh' = feed_queued fh @ [m] \<and> msgs_received fh' = msgs_received fh + 1 \<and> msgs_dropped fh' = msgs_dropped fh
        else feed_queued fh' = feed_queued fh \<and> msgs_received fh' = msgs_received fh \<and> msgs_dropped fh' = msgs_dropped fh + 1)"

lemma mp_slots_alloc: "mp_ok mp \<Longrightarrow> mempool_alloc mp = Some (p, mp') \<Longrightarrow> mp_slots mp' = mp_slots mp"
  using mpool.alloc_none [of mp] mpool.alloc_some [of mp] by (cases "mp_avail mp = {}") auto

lemma offered_deliver:
  assumes ok: "feed_ok hl fh" and al: "mempool_alloc (msg_pool fh) = Some (p, mp)" and nz: "p \<noteq> 0"
    and same: "msg_pool fh1 = mp" "output_queue fh1 = output_queue fh" "msgs fh1 = msgs fh"
      "msgs_received fh1 = msgs_received fh" "msgs_dropped fh1 = msgs_dropped fh"
  shows "\<exists>ok' fh'. feed_deliver p m fh1 = Some (ok', fh') \<and> offered m hl fh fh' \<and> bytes_received fh' = bytes_received fh1
    \<and> (ok' \<longleftrightarrow> length (feed_queued fh) < rb_bound (output_queue fh))"
proof -
  from feed_alloc [OF ok] al nz have av: "mp_avail (msg_pool fh) \<noteq> {}" and ok1: "feed_ok (p # hl) (fh\<lparr>msg_pool := mp\<rparr>)"
    by (auto split: if_splits)
  have ok2: "feed_ok (p # hl) fh1" using ok1 same by (simp add: feed_ok_def)
  have q: "feed_queued fh1 = feed_queued fh" using same by (simp add: feed_queued_def)
  have sl: "mp_slots mp = mp_slots (msg_pool fh)" using mp_slots_alloc [OF _ al] ok by (simp add: feed_ok_def)
  show ?thesis
  proof (cases "length (feed_queued fh1) < rb_bound (output_queue fh1)")
    case True
    then obtain fh' where "feed_deliver p m fh1 = Some (True, fh')" "feed_ok hl fh'" "feed_queued fh' = feed_queued fh1 @ [m]"
        "feed_get_stats fh' = (msgs_received fh1 + 1, msgs_dropped fh1, bytes_received fh1)"
        "\<forall>q \<in> set hl. msgs fh' q = msgs fh1 q" "msg_pool fh' = msg_pool fh1" "rb_bound (output_queue fh') = rb_bound (output_queue fh1)"
      using feed_deliver_spec [OF ok2, of m] by auto
    then show ?thesis using True av q sl same by (auto simp: offered_def feed_get_stats_def)
  next
    case False
    then obtain fh' where "feed_deliver p m fh1 = Some (False, fh')" "feed_ok hl fh'" "feed_queued fh' = feed_queued fh1"
        "feed_get_stats fh' = (msgs_received fh1, msgs_dropped fh1 + 1, bytes_received fh1)"
        "\<forall>q \<in> set hl. msgs fh' q = msgs fh1 q" "mp_slots (msg_pool fh') = mp_slots (msg_pool fh1)"
        "rb_bound (output_queue fh') = rb_bound (output_queue fh1)"
      using feed_deliver_spec [OF ok2, of m] by auto
    then show ?thesis using False av q sl same by (auto simp: offered_def feed_get_stats_def)
  qed
qed

lemma offered_exhausted:
  assumes "feed_ok hl fh" and "mempool_alloc (msg_pool fh) = Some (0, mp)" and "fh' = fh\<lparr>msg_pool := mp, msgs_dropped := msgs_dropped fh + 1, bytes_received := b\<rparr>"
  shows "offered m hl fh fh'"
proof -
  from feed_alloc [OF assms(1)] assms(2) have "mp_avail (msg_pool fh) = {}" "mp = msg_pool fh" by (auto split: if_splits)
  then show ?thesis using assms(1,3) by (auto simp: offered_def feed_ok_def feed_queued_def)
qed

lemma simulate_frame:
  "\<exists>b s. simulate_message now (fh\<lparr>msg_pool := mp\<rparr>) = (fst (simulate_message now fh), fh\<lparr>msg_pool := mp, sim_base_price := b, prng_state := s\<rparr>)"
  by (simp add: simulate_message_def rand_size_def rand_double_def xorshift32_def Let_def split_beta) blast

lemma feed_sim_step_spec:
  assumes ok: "feed_ok hl fh"
  shows "\<exists>fh'. feed_sim_step now fh = Some fh' \<and> offered (fst (simulate_message now fh)) hl fh fh'
    \<and> bytes_received fh' = bytes_received fh + FEED_MSG_SIZE * (msgs_received fh' - msgs_received fh)"
proof -
  from feed_alloc [OF ok] obtain p mp where al: "mempool_alloc (msg_pool fh) = Some (p, mp)" by blast
  show ?thesis
  proof (cases "p = 0")
    case True
    let ?fh = "fh\<lparr>msg_pool := mp, msgs_dropped := msgs_dropped fh + 1\<rparr>"
    have "offered (fst (simulate_message now fh)) hl fh ?fh"
      by (rule offered_exhausted [OF ok, of _ _ "bytes_received fh"]) (use al True in simp_all)
    moreover have "feed_sim_step now fh = Some ?fh" using al True by (simp add: feed_sim_step_def Let_def)
    ultimately show ?thesis by auto
  next
    case False
    obtain b s where sim: "simulate_message now (fh\<lparr>msg_pool := mp\<rparr>)
        = (fst (simulate_message now fh), fh\<lparr>msg_pool := mp, sim_base_price := b, prng_state := s\<rparr>)"
      using simulate_frame by blast
    let ?fh1 = "fh\<lparr>msg_pool := mp, sim_base_price := b, prng_state := s\<rparr>"
    from offered_deliver [OF ok al False, of ?fh1 "fst (simulate_message now fh)"] obtain ok' fh' where
      d: "feed_deliver p (fst (simulate_message now fh)) ?fh1 = Some (ok', fh')" "offered (fst (simulate_message now fh)) hl fh fh'"
        "bytes_received fh' = bytes_received fh" "ok' \<longleftrightarrow> length (feed_queued fh) < rb_bound (output_queue fh)" by auto
    from feed_alloc [OF ok] al False have "mp_avail (msg_pool fh) \<noteq> {}" by auto
    then have r: "msgs_received fh' = msgs_received fh + (if ok' then 1 else 0)" using d(2,4) by (auto simp: offered_def)
    let ?fh' = "if ok' then fh'\<lparr>bytes_received := bytes_received fh' + FEED_MSG_SIZE\<rparr> else fh'"
    have "feed_sim_step now fh = Some ?fh'" using al False sim d(1) by (simp add: feed_sim_step_def Let_def)
    moreover have "offered (fst (simulate_message now fh)) hl fh ?fh'" using d(2) by (auto simp: offered_def)
    ultimately show ?thesis using d(3) r by auto
  qed
qed

lemma feed_recv_step_spec:
  assumes ok: "feed_ok hl fh"
  shows "\<exists>fh'. feed_recv_step dg fh = Some fh' \<and> bytes_received fh' = bytes_received fh + of_nat (min 256 (length dg))
    \<and> (if length dg < 64 then fh' = fh\<lparr>bytes_received := bytes_received fh'\<rparr> else offered (decode_feed_msg (take 256 dg)) hl fh fh')"
proof (cases "length dg < 64")
  case True
  then show ?thesis by (auto simp: feed_recv_step_def FEED_MAX_MSG_SIZE_def FEED_MSG_SIZE_def Let_def)
next
  case False
  let ?b = "bytes_received fh + of_nat (min 256 (length dg))" and ?m = "decode_feed_msg (take 256 dg)"
  have raw: "take 256 dg \<noteq> []" "\<not> length (take 256 dg) < 64" "length (take 256 dg) = min 256 (length dg)" using False by auto
  from feed_alloc [OF ok] obtain p mp where al: "mempool_alloc (msg_pool fh) = Some (p, mp)" by blast
  show ?thesis
  proof (cases "p = 0")
    case True
    let ?fh = "fh\<lparr>msg_pool := mp, msgs_dropped := msgs_dropped fh + 1, bytes_received := ?b\<rparr>"
    have "offered ?m hl fh ?fh" by (rule offered_exhausted [OF ok _ refl]) (use al True in simp)
    moreover have "feed_recv_step dg fh = Some ?fh"
      using al True raw by (simp add: feed_recv_step_def FEED_MAX_MSG_SIZE_def FEED_MSG_SIZE_def Let_def)
    ultimately show ?thesis using False by auto
  next
    case nz: False
    let ?fh1 = "fh\<lparr>bytes_received := ?b, msg_pool := mp\<rparr>"
    from offered_deliver [OF ok al nz, of ?fh1 ?m] obtain ok' fh' where
      "feed_deliver p ?m ?fh1 = Some (ok', fh')" "offered ?m hl fh fh'" "bytes_received fh' = ?b" by auto
    moreover from this have "feed_recv_step dg fh = Some fh'"
      using al nz raw by (simp add: feed_recv_step_def FEED_MAX_MSG_SIZE_def FEED_MSG_SIZE_def Let_def)
    ultimately show ?thesis using False by auto
  qed
qed

section \<open>Histories\<close>

text \<open>Any sequence of iterations of the receive loops, pops by the consumer and returns to the pool. The
  state carries the messages the consumer holds, those it has taken and those that were accepted.\<close>

datatype feed_op = Sim u64 | Datagram "byte list" | Consume | Return

type_synonym feed_state = "feed_handler \<times> address list \<times> feed_msg list \<times> feed_msg list"

definition accept :: "feed_msg \<Rightarrow> feed_handler \<Rightarrow> feed_handler \<Rightarrow> feed_msg list" where
  "accept m fh fh' = (if msgs_received fh' = msgs_received fh then [] else [m])"

fun feed_op_step :: "feed_op \<Rightarrow> feed_state \<Rightarrow> feed_state option" where
  "feed_op_step (Sim now) (fh, hl, con, acc) =
     map_option (\<lambda>fh'. (fh', hl, con, acc @ accept (fst (simulate_message now fh)) fh fh')) (feed_sim_step now fh)"
| "feed_op_step (Datagram dg) (fh, hl, con, acc) =
     map_option (\<lambda>fh'. (fh', hl, con, acc @ accept (decode_feed_msg (take 256 dg)) fh fh')) (feed_recv_step dg fh)"
| "feed_op_step Consume (fh, hl, con, acc) = (case feed_pop fh of None \<Rightarrow> None
     | Some (p, fh') \<Rightarrow> if p = 0 then Some (fh', hl, con, acc) else Some (fh', p # hl, con @ [msgs fh p], acc))"
| "feed_op_step Return (fh, [], con, acc) = Some (fh, [], con, acc)"
| "feed_op_step Return (fh, p # hl, con, acc) = (case feed_return_msg (Some fh) p of
     Some (Some fh') \<Rightarrow> Some (fh', hl, con, acc) | _ \<Rightarrow> None)"

fun feed_run :: "feed_op list \<Rightarrow> feed_state \<Rightarrow> feed_state option" where
  "feed_run [] s = Some s"
| "feed_run (op # ops) s = (case feed_op_step op s of None \<Rightarrow> None | Some s' \<Rightarrow> feed_run ops s')"

text \<open>The messages offered: one per iteration of the simulation and per datagram that is long enough.\<close>

fun offers :: "feed_op list \<Rightarrow> nat" where
  "offers [] = 0"
| "offers (Sim _ # ops) = Suc (offers ops)"
| "offers (Datagram dg # ops) = (if length dg < 64 then 0 else 1) + offers ops"
| "offers (_ # ops) = offers ops"

definition feed_inv :: "nat \<Rightarrow> feed_state \<Rightarrow> bool" where
  "feed_inv N s \<longleftrightarrow> (case s of (fh, hl, con, acc) \<Rightarrow> feed_ok hl fh \<and> con @ feed_queued fh = acc
     \<and> card (mp_slots (msg_pool fh)) = N \<and> msgs_received fh = of_nat (length acc))"

lemma accept_offered: "offered m hl fh fh' \<Longrightarrow> feed_queued fh' = feed_queued fh @ accept m fh fh'
    \<and> msgs_received fh' = msgs_received fh + of_nat (length (accept m fh fh'))
    \<and> msgs_received fh' + msgs_dropped fh' = msgs_received fh + msgs_dropped fh + 1"
  by (auto simp: offered_def accept_def split: if_splits)

lemma feed_ok_pop:
  assumes "feed_ok hl fh"
  shows "\<exists>p fh'. feed_pop fh = Some (p, fh') \<and> msg_pool fh' = msg_pool fh \<and> feed_get_stats fh' = feed_get_stats fh
    \<and> (if p = 0 then feed_queued fh = [] \<and> fh' = fh else feed_ok (p # hl) fh' \<and> feed_queued fh = msgs fh p # feed_queued fh')"
proof (cases "rb_contents (output_queue fh)")
  case Nil
  have "rb_ok (output_queue fh)" using assms by (simp add: feed_ok_def)
  from rbq.pop_empty [OF this Nil] Nil show ?thesis by (simp add: feed_pop_def feed_queued_def)
next
  case (Cons p ps)
  have "rb_ok (output_queue fh)" using assms by (simp add: feed_ok_def)
  from rbq.pop_item [OF this Cons] obtain q where q: "ring_buffer_pop (output_queue fh) = Some (p, q)" "rb_ok q" "rb_contents q = ps"
    by blast
  have "p \<noteq> 0" using feed_ok_not_null [OF assms] Cons by auto
  moreover have "feed_ok (p # hl) (fh\<lparr>output_queue := q\<rparr>)" using assms q Cons by (auto simp: feed_ok_def)
  ultimately show ?thesis using q Cons by (simp add: feed_pop_def feed_queued_def feed_get_stats_def)
qed

interpretation feedq: message_queue feed_pop msgs feed_queued feed_ok
proof
  show "feed_pop fh = Some (0, fh)" if "feed_ok hl fh" "feed_queued fh = []" for hl fh
    using feed_ok_pop [OF that(1)] that(2) by (auto split: if_splits)
  show "\<exists>a fh'. feed_pop fh = Some (a, fh') \<and> a \<noteq> 0 \<and> feed_ok (a # hl) fh' \<and> msgs fh a = m \<and> feed_queued fh' = ms"
    if "feed_ok hl fh" "feed_queued fh = m # ms" for hl fh m ms
    using feed_ok_pop [OF that(1)] that(2) by (auto split: if_splits)
qed

lemma feed_op_step_inv:
  assumes "feed_inv N (fh, hl, con, acc)"
  shows "\<exists>fh' hl' con' acc'. feed_op_step op (fh, hl, con, acc) = Some (fh', hl', con', acc') \<and> feed_inv N (fh', hl', con', acc')
    \<and> msgs_received fh' + msgs_dropped fh' = msgs_received fh + msgs_dropped fh + of_nat (offers [op])"
proof -
  have ok: "feed_ok hl fh" and inv: "con @ feed_queued fh = acc" "card (mp_slots (msg_pool fh)) = N" "msgs_received fh = of_nat (length acc)"
    using assms by (auto simp: feed_inv_def)
  show ?thesis
  proof (cases op)
    case (Sim now)
    from feed_sim_step_spec [OF ok, of now] obtain fh' where
      f: "feed_sim_step now fh = Some fh'" "offered (fst (simulate_message now fh)) hl fh fh'" by blast
    show ?thesis using f(1) accept_offered [OF f(2)] f(2) inv by (auto simp: Sim feed_inv_def offered_def)
  next
    case (Datagram dg)
    from feed_recv_step_spec [OF ok, of dg] obtain fh' where
      f: "feed_recv_step dg fh = Some fh'"
        "if length dg < 64 then fh' = fh\<lparr>bytes_received := bytes_received fh'\<rparr> else offered (decode_feed_msg (take 256 dg)) hl fh fh'"
      by blast
    show ?thesis
    proof (cases "length dg < 64")
      case True
      then obtain b where "fh' = fh\<lparr>bytes_received := b\<rparr>" using f(2) by auto
      then show ?thesis using f(1) ok inv True by (auto simp: Datagram feed_inv_def accept_def)
    next
      case False
      then have o: "offered (decode_feed_msg (take 256 dg)) hl fh fh'" using f(2) by simp
      show ?thesis using f(1) accept_offered [OF o] o inv False by (auto simp: Datagram feed_inv_def offered_def)
    qed
  next
    case Consume
    from feed_ok_pop [OF ok] obtain p fh' where
      "feed_pop fh = Some (p, fh')" "msg_pool fh' = msg_pool fh" "feed_get_stats fh' = feed_get_stats fh"
      "if p = 0 then feed_queued fh = [] \<and> fh' = fh else feed_ok (p # hl) fh' \<and> feed_queued fh = msgs fh p # feed_queued fh'" by blast
    then show ?thesis using ok inv by (cases "p = 0") (auto simp: Consume feed_inv_def feed_get_stats_def)
  next
    case Return
    show ?thesis
    proof (cases hl)
      case Nil
      then show ?thesis using assms by (simp add: Return)
    next
      case (Cons p hl')
      then have okp: "feed_ok (p # hl') fh" using ok by simp
      then have "p \<noteq> 0" using feed_ok_not_null by fastforce
      with feed_free [OF okp] inv show ?thesis by (auto simp: Return Cons feed_return_msg_def feed_inv_def)
    qed
  qed
qed

lemma offers_Cons: "offers (op # ops) = offers [op] + offers ops"
  by (cases op) simp_all

lemma feed_run_inv:
  assumes "feed_inv N (fh, hl, con, acc)"
  shows "\<exists>fh' hl' con' acc'. feed_run ops (fh, hl, con, acc) = Some (fh', hl', con', acc') \<and> feed_inv N (fh', hl', con', acc')
    \<and> msgs_received fh' + msgs_dropped fh' = msgs_received fh + msgs_dropped fh + of_nat (offers ops)"
  using assms
proof (induction ops arbitrary: fh hl con acc)
  case (Cons op ops)
  from feed_op_step_inv [OF Cons.prems, of op] obtain fh1 hl1 con1 acc1 where
    1: "feed_op_step op (fh, hl, con, acc) = Some (fh1, hl1, con1, acc1)" "feed_inv N (fh1, hl1, con1, acc1)"
      "msgs_received fh1 + msgs_dropped fh1 = msgs_received fh + msgs_dropped fh + of_nat (offers [op])" by blast
  from Cons.IH [OF 1(2)] 1 show ?case unfolding offers_Cons [of op ops] by (auto simp: algebra_simps)
qed simp

lemma feed_drain_spec: "feed_ok hl fh \<Longrightarrow> \<exists>fh'. feed_drain fh = Some fh' \<and> feed_ok hl fh' \<and> feed_queued fh' = []
    \<and> mp_slots (msg_pool fh') = mp_slots (msg_pool fh) \<and> sockfd fh' = sockfd fh"
proof (induction fh rule: feedq.drain_induct)
  case (empty fh)
  then show ?case by (subst feed_drain.simps) simp
next
  case (message fh p fh1)
  from feed_free [OF message.hyps(4)] obtain mp where
    mp: "mempool_free (msg_pool fh1) p = Some mp" "feed_ok hl (fh1\<lparr>msg_pool := mp\<rparr>)" "mp_slots mp = mp_slots (msg_pool fh1)" by blast
  from message.IH [OF mp(2)] obtain fh' where
    f: "feed_drain (fh1\<lparr>msg_pool := mp\<rparr>) = Some fh'" "feed_ok hl fh'" "feed_queued fh' = []" "mp_slots (msg_pool fh') = mp_slots mp"
      "sockfd fh' = sockfd fh1" by auto
  have "sockfd fh1 = sockfd fh" "msg_pool fh1 = msg_pool fh" using message.hyps(2) by (auto simp: feed_pop_def)
  moreover have "feed_drain fh = Some fh'" using message.hyps(2,3) mp(1) f(1) by (subst feed_drain.simps) simp
  ultimately show ?case using f mp(3) by simp
qed

lemma feed_ok_count:
  assumes "feed_ok hl fh"
  shows "length (feed_queued fh) + length hl + card (mp_avail (msg_pool fh)) = card (mp_slots (msg_pool fh))"
proof -
  let ?xs = "rb_contents (output_queue fh) @ hl"
  have fin: "finite (mp_slots (msg_pool fh))" "mp_avail (msg_pool fh) \<subseteq> mp_slots (msg_pool fh)"
    using assms mpool.finite_slots mpool.avail_slots by (auto simp: feed_ok_def)
  have d: "distinct ?xs" "set ?xs = mp_slots (msg_pool fh) - mp_avail (msg_pool fh)" using assms by (auto simp: feed_ok_def)
  have "length ?xs = card (mp_slots (msg_pool fh) - mp_avail (msg_pool fh))" using distinct_card [OF d(1)] d(2) by simp
  also have "\<dots> = card (mp_slots (msg_pool fh)) - card (mp_avail (msg_pool fh))"
    by (rule card_Diff_subset [OF finite_subset [OF fin(2,1)] fin(2)])
  finally show ?thesis using card_mono [OF fin] by (simp add: feed_queued_def)
qed

lemma feed_init_ok:
  assumes "0 < output_queue_size c" and "unat (output_queue_size c) \<le> 2147483648"
    and "alloc (unat (rounded_capacity (output_queue_size c)))" and "addr \<noteq> 0" and "pool_addr \<noteq> 0"
    and "unat pool_addr + unat (output_queue_size c) * 64 \<le> 2 ^ 64"
    and "feed_simulation_mode c \<or> 0 \<le> socket_result sk \<and> inet_pton_ok sk \<and> bind_ok sk"
  shows "\<exists>fh. feed_init alloc addr pool_addr True sk (Some c) = Some fh \<and> feed_inv (unat (output_queue_size c)) (fh, [], [], [])
    \<and> msgs_dropped fh = 0 \<and> rb_bound (output_queue fh) = unat (rounded_capacity (output_queue_size c)) - 1"
proof -
  let ?n = "output_queue_size c" and ?rb = "\<lparr>head = 0, tail = 0, buffer = None, rb_capacity = 0, rb_mask = 0\<rparr>"
  from ring_buffer_init_ok [of ?n alloc ?rb] assms(1,2,3) obtain q where
    q: "ring_buffer_init alloc (Some ?rb) ?n = (0, Some q)" "rb_ok q" "rb_contents q = []" "rb_bound q = unat (rounded_capacity ?n) - 1" by auto
  have "\<exists>m. mempool_init pool_addr True (Some zero_pool) FEED_MSG_SIZE ?n = (0, Some m) \<and> mp_ok m \<and> mp_avail m = mp_slots m
    \<and> card (mp_avail m) = unat ?n"
    by (rule mempool_init_fresh) (use assms in \<open>simp_all add: FEED_MSG_SIZE_def\<close>)
  then obtain m where m: "mempool_init pool_addr True (Some zero_pool) FEED_MSG_SIZE ?n = (0, Some m)" "mp_ok m" "mp_avail m = mp_slots m"
    "card (mp_avail m) = unat ?n" by blast
  show ?thesis using q m assms(4,7)
    by (auto simp: feed_init_def feed_inv_def feed_ok_def feed_queued_def Let_def)
qed

text \<open>C24: the feed loses no message silently and no memory at all. From an initialised handler, run any
  sequence of iterations of the receive loops, pops and returns. No access is invalid; the consumer gets
  exactly the accepted messages, in order and as they were filled in; every offered message is counted
  once, as received or as dropped; and each object of the pool is queued, held by the consumer or
  free. Destroying the handler then empties the queue and returns, and everything the
  consumer does not still hold is back in the pool.\<close>

theorem feed_history:
  assumes "0 < output_queue_size c" and "unat (output_queue_size c) \<le> 2 ^ 31"
    and "alloc (unat (rounded_capacity (output_queue_size c)))" and "addr \<noteq> 0" and "pool_addr \<noteq> 0"
    and "unat pool_addr + unat (output_queue_size c) * 64 \<le> 2 ^ 64"
    and "feed_simulation_mode c \<or> 0 \<le> socket_result sk \<and> inet_pton_ok sk \<and> bind_ok sk"
  shows "\<exists>fh0 fh hl con acc fh1. feed_init alloc addr pool_addr True sk (Some c) = Some fh0
    \<and> feed_run ops (fh0, [], [], []) = Some (fh, hl, con, acc)
    \<and> con @ feed_queued fh = acc
    \<and> msgs_received fh = of_nat (length acc) \<and> msgs_received fh + msgs_dropped fh = of_nat (offers ops)
    \<and> length (feed_queued fh) + length hl + card (mp_avail (msg_pool fh)) = unat (output_queue_size c)
    \<and> feed_drain fh = Some fh1 \<and> card (mp_avail (msg_pool fh1)) + length hl = unat (output_queue_size c)
    \<and> feed_destroy fh \<noteq> None"
proof -
  from feed_init_ok [of c alloc addr pool_addr sk] assms obtain fh0 where
    f0: "feed_init alloc addr pool_addr True sk (Some c) = Some fh0" "feed_inv (unat (output_queue_size c)) (fh0, [], [], [])" "msgs_dropped fh0 = 0"
    by auto
  from feed_run_inv [OF f0(2), of ops] obtain fh hl con acc where
    r: "feed_run ops (fh0, [], [], []) = Some (fh, hl, con, acc)" "feed_inv (unat (output_queue_size c)) (fh, hl, con, acc)"
      "msgs_received fh + msgs_dropped fh = msgs_received fh0 + msgs_dropped fh0 + of_nat (offers ops)" by blast
  have inv: "feed_ok hl fh" "con @ feed_queued fh = acc" "card (mp_slots (msg_pool fh)) = unat (output_queue_size c)"
      "msgs_received fh = of_nat (length acc)" using r(2) by (auto simp: feed_inv_def)
  from feed_drain_spec [OF inv(1)] obtain fh1 where
    d: "feed_drain fh = Some fh1" "feed_ok hl fh1" "feed_queued fh1 = []" "mp_slots (msg_pool fh1) = mp_slots (msg_pool fh)" by blast
  have "msgs_received fh + msgs_dropped fh = of_nat (offers ops)" using r(3) f0(2,3) by (simp add: feed_inv_def)
  moreover have "card (mp_avail (msg_pool fh1)) + length hl = unat (output_queue_size c)"
    using feed_ok_count [OF d(2)] d(3,4) inv(3) by simp
  moreover have "feed_destroy fh \<noteq> None" using d(1) by (simp add: feed_destroy_def)
  ultimately show ?thesis using f0(1) r(1) inv feed_ok_count [OF inv(1)] d(1) by auto
qed

definition ex_feed_cfg :: feed_config where
  "ex_feed_cfg = \<lparr>listen_addr = [], listen_port = 0, feed_simulation_mode = True, sim_interval_us = 500,
     output_queue_size = 4, cfg_symbol = ''AAPL''\<rparr>"

theorem feed_history_witness:
  "\<exists>fh0 fh hl con acc. feed_init (\<lambda>_. True) 1 4096 True \<lparr>socket_result = 3, inet_pton_ok = True, bind_ok = True\<rparr> (Some ex_feed_cfg) = Some fh0
    \<and> feed_run [Sim 5, Sim 6, Consume, Return, Sim 7] (fh0, [], [], []) = Some (fh, hl, con, acc)
    \<and> con @ feed_queued fh = acc \<and> msgs_received fh + msgs_dropped fh = 3"
  using feed_history [of ex_feed_cfg "\<lambda>_. True" 1 4096 "\<lparr>socket_result = 3, inet_pton_ok = True, bind_ok = True\<rparr>"
      "[Sim 5, Sim 6, Consume, Return, Sim 7]"]
  by (auto simp: ex_feed_cfg_def simp del: feed_run.simps)

end
