(* ===== verification/Feed_Receiver.thy ===== *)
theory Feed_Receiver
  imports Feed_Simulation Feed_Properties
begin

text \<open>
  The receive thread of \<open>src/feed_handler.c\<close> as a whole: \<open>recv_thread_func\<close> with its two modes, the set-up of \<open>epoll\<close> and its failures,
  and the waiting between two simulated messages.

  A run is given by the iterations that the thread makes while \<open>running\<close> is set. In simulation mode an iteration has the reading
  of the clock; in production mode it has what \<open>epoll_wait\<close> returns, the number of events and the events, each with the bytes
  that \<open>recv\<close> then delivers. The pause between two iterations does not touch the state.
\<close>

section \<open>Time\<close>

text \<open>\<open>struct timespec\<close>, and the two conversions from and to it.\<close>

type_synonym timespec = "int \<times> int"

definition now_nanos :: "timespec \<Rightarrow> u64" where
  "now_nanos ts = of_int (fst ts) * 1000000000 + of_int (snd ts)"

definition sleep_us :: "u32 \<Rightarrow> timespec" where
  "sleep_us us = (uint (us div 1000000), uint (us mod 1000000) * 1000)"

section \<open>The thread\<close>

record epoll_env =
  epoll_create1 :: int
  epoll_ctl :: int
  strerror :: string

datatype recv_iteration = Tick timespec | Wait int "(bool \<times> byte list) list"

datatype recv_end = STOPPED | EPOLL_CREATE_FAILED | EPOLL_CTL_FAILED

fun recv_events :: "(bool \<times> byte list) list \<Rightarrow> feed_handler \<Rightarrow> feed_handler option" where
  "recv_events [] fh = Some fh"
| "recv_events ((readable, datagram) # evs) fh =
     (if readable then Option.bind (feed_recv_step datagram fh) (recv_events evs) else recv_events evs fh)"

fun recv_loop :: "recv_iteration list \<Rightarrow> feed_handler \<Rightarrow> feed_handler option" where
  "recv_loop [] fh = Some fh"
| "recv_loop (Tick ts # its) fh = Option.bind (feed_sim_step (now_nanos ts) fh) (recv_loop its)"
| "recv_loop (Wait n evs # its) fh = Option.bind (recv_events (take (nat n) evs) fh) (recv_loop its)"

text \<open>The result has the reason why the thread ended and what it wrote to the error stream.\<close>

definition recv_thread_func :: "epoll_env \<Rightarrow> recv_iteration list \<Rightarrow> feed_handler \<Rightarrow> (recv_end \<times> string \<times> feed_handler) option" where
  "recv_thread_func ee its fh =
     (if feed_simulation_mode (feed_cfg fh) then
        map_option (\<lambda>fh. (STOPPED, [], fh)) (recv_loop its (fh\<lparr>sim_base_price := d_lit 150 1\<rparr>))
      else if epoll_create1 ee < 0 then
        Some (EPOLL_CREATE_FAILED, ''feed_handler: epoll_create1 failed: '' @ strerror ee @ [CHR 0x0A], fh)
      else if epoll_ctl ee < 0 then
        Some (EPOLL_CTL_FAILED, ''feed_handler: epoll_ctl failed: '' @ strerror ee @ [CHR 0x0A], fh)
      else map_option (\<lambda>fh. (STOPPED, [], fh)) (recv_loop its fh))"

section \<open>Time stamps and pauses\<close>

lemma now_nanos_exact:
  assumes "0 \<le> s" and "s < 2 ^ 34" and "0 \<le> n" and "n < 1000000000"
  shows "uint (now_nanos (s, n)) = s * 1000000000 + n"
proof -
  have "uint (now_nanos (s, n)) = (s * 1000000000 + n) mod 2 ^ 64"
    by (simp add: now_nanos_def uint_word_ariths mod_simps uint_word_of_int)
  also have "\<dots> = s * 1000000000 + n" using assms by (intro mod_pos_pos_trivial) simp_all
  finally show ?thesis .
qed

lemma sleep_us_exact: "fst (sleep_us us) * 1000000 + snd (sleep_us us) div 1000 = uint us \<and> snd (sleep_us us) < 1000000000"
  by (simp add: sleep_us_def uint_div uint_mod)

section \<open>What the thread does\<close>

text \<open>The datagrams of the readable events, and the messages that are long enough.\<close>

fun datagrams :: "recv_iteration list \<Rightarrow> byte list list" where
  "datagrams [] = []"
| "datagrams (Tick ts # its) = datagrams its"
| "datagrams (Wait n evs # its) = map snd (filter fst (take (nat n) evs)) @ datagrams its"

definition wire_messages :: "byte list list \<Rightarrow> feed_msg list" where
  "wire_messages dgs = map (\<lambda>d. decode_feed_msg (take FEED_MAX_MSG_SIZE d)) (filter (\<lambda>d. 64 \<le> length d) dgs)"

definition room :: "feed_handler \<Rightarrow> nat" where
  "room fh = min (card (mp_slots (msg_pool fh))) (rb_bound (output_queue fh))"

text \<open>The state after a list of messages was offered without a consumer at work.\<close>

definition offered_all :: "feed_msg list \<Rightarrow> feed_handler \<Rightarrow> feed_handler \<Rightarrow> bool" where
  "offered_all ms fh fh' \<longleftrightarrow> feed_ok [] fh' \<and> room fh' = room fh \<and> feed_queued fh' = take (room fh) (feed_queued fh @ ms)
     \<and> msgs_received fh' + of_nat (length (feed_queued fh)) = msgs_received fh + of_nat (length (feed_queued fh'))
     \<and> msgs_received fh' + msgs_dropped fh' = msgs_received fh + msgs_dropped fh + of_nat (length ms)"

lemma queued_within_room: "feed_ok [] fh \<Longrightarrow> length (feed_queued fh) \<le> room fh"
  using feed_ok_count [of "[]" fh] rbq.bounded [of "output_queue fh"] by (simp add: room_def feed_queued_def feed_ok_def)

lemma room_iff:
  assumes "feed_ok [] fh"
  shows "mp_avail (msg_pool fh) \<noteq> {} \<and> length (feed_queued fh) < rb_bound (output_queue fh) \<longleftrightarrow> length (feed_queued fh) < room fh"
proof -
  have "finite (mp_avail (msg_pool fh))" using assms mpool.finite_slots mpool.avail_slots by (auto simp: feed_ok_def intro: finite_subset)
  then have "mp_avail (msg_pool fh) \<noteq> {} \<longleftrightarrow> 0 < card (mp_avail (msg_pool fh))" by (simp add: card_gt_0_iff)
  then show ?thesis using feed_ok_count [OF assms] by (auto simp: room_def)
qed

lemma offered_one: "feed_ok [] fh \<Longrightarrow> offered m [] fh fh' \<Longrightarrow> offered_all [m] fh fh'"
  using room_iff [of fh] queued_within_room [of fh]
  by (auto simp: offered_def offered_all_def room_def split: if_splits)

lemma offered_all_trans:
  assumes "offered_all xs fh fh1" and "offered_all ys fh1 fh2"
  shows "offered_all (xs @ ys) fh fh2"
proof -
  have "take r (take r (q @ xs) @ ys) = take r (q @ xs @ ys)" for r and q :: "feed_msg list"
    by (cases "r \<le> length (q @ xs)") (simp_all add: min_def)
  then show ?thesis using assms by (auto simp: offered_all_def algebra_simps)
qed

lemma offered_all_none: "feed_ok [] fh \<Longrightarrow> offered_all [] fh fh" "feed_ok [] fh \<Longrightarrow> offered_all [] fh (fh\<lparr>bytes_received := b\<rparr>)"
  using queued_within_room [of fh] by (auto simp: offered_all_def room_def)

lemma recv_step_frame: "feed_recv_step d fh = Some fh' \<Longrightarrow> bytes_received fh' = bytes_received fh + of_nat (min 256 (length d))
    \<and> feed_running fh' = feed_running fh \<and> feed_cfg fh' = feed_cfg fh"
  by (auto simp: feed_recv_step_def FEED_MAX_MSG_SIZE_def Let_def feed_deliver_def min.commute split: if_splits option.splits bool.splits)

text \<open>What a list of datagrams does to the handler.\<close>

definition took_in :: "byte list list \<Rightarrow> feed_handler \<Rightarrow> feed_handler \<Rightarrow> bool" where
  "took_in dgs fh fh' \<longleftrightarrow> offered_all (wire_messages dgs) fh fh' \<and> feed_running fh' = feed_running fh \<and> feed_cfg fh' = feed_cfg fh
     \<and> bytes_received fh' = bytes_received fh + of_nat (sum_list (map (\<lambda>d. min 256 (length d)) dgs))"

lemma took_in_trans: "took_in xs fh fh1 \<Longrightarrow> took_in ys fh1 fh2 \<Longrightarrow> took_in (xs @ ys) fh fh2"
  using offered_all_trans [of "wire_messages xs" fh fh1 "wire_messages ys" fh2] by (auto simp: took_in_def wire_messages_def algebra_simps)

lemma took_in_ok: "took_in dgs fh fh' \<Longrightarrow> feed_ok [] fh'"
  by (simp add: took_in_def offered_all_def)

lemma recv_step_takes_in:
  assumes "feed_ok [] fh"
  shows "\<exists>fh'. feed_recv_step d fh = Some fh' \<and> took_in [d] fh fh'"
proof -
  from feed_recv_step_spec [OF assms, of d] obtain fh' where f: "feed_recv_step d fh = Some fh'"
      "if length d < 64 then fh' = fh\<lparr>bytes_received := bytes_received fh'\<rparr> else offered (decode_feed_msg (take 256 d)) [] fh fh'" by blast
  have "offered_all (wire_messages [d]) fh fh'"
  proof (cases "length d < 64")
    case True
    then have "offered_all [] fh fh'" using f(2) offered_all_none(2) [OF assms, of "bytes_received fh'"] by simp
    with True show ?thesis by (simp add: wire_messages_def)
  next
    case False
    then show ?thesis using f(2) offered_one [OF assms] by (simp add: wire_messages_def FEED_MAX_MSG_SIZE_def)
  qed
  with f(1) recv_step_frame [OF f(1)] show ?thesis by (simp add: took_in_def)
qed

lemma recv_events_takes_in: "feed_ok [] fh \<Longrightarrow> \<exists>fh'. recv_events evs fh = Some fh' \<and> took_in (map snd (filter fst evs)) fh fh'"
proof (induction evs arbitrary: fh)
  case Nil
  then show ?case using offered_all_none(1) by (simp add: took_in_def wire_messages_def)
next
  case (Cons ev evs)
  show ?case
  proof (cases ev)
    case (Pair readable d)
    obtain fh1 where 1: "feed_recv_step d fh = Some fh1" "took_in [d] fh fh1" using recv_step_takes_in [OF Cons.prems] by blast
    from Cons.IH [OF took_in_ok [OF 1(2)]] obtain fh2 where 2: "recv_events evs fh1 = Some fh2" "took_in (map snd (filter fst evs)) fh1 fh2" by blast
    show ?thesis using Cons.IH [OF Cons.prems] 1(1) 2(1) took_in_trans [OF 1(2) 2(2)] by (cases readable) (simp_all add: Pair)
  qed
qed

fun is_wait :: "recv_iteration \<Rightarrow> bool" where
  "is_wait (Wait n evs) \<longleftrightarrow> True"
| "is_wait (Tick ts) \<longleftrightarrow> False"

lemma recv_loop_takes_in: "feed_ok [] fh \<Longrightarrow> \<forall>it \<in> set its. is_wait it \<Longrightarrow> \<exists>fh'. recv_loop its fh = Some fh' \<and> took_in (datagrams its) fh fh'"
proof (induction its arbitrary: fh)
  case Nil
  then show ?case using offered_all_none(1) by (simp add: took_in_def wire_messages_def)
next
  case (Cons it its)
  then obtain n evs where it: "it = Wait n evs" by (cases it) auto
  obtain fh1 where 1: "recv_events (take (nat n) evs) fh = Some fh1" "took_in (map snd (filter fst (take (nat n) evs))) fh fh1"
    using recv_events_takes_in [OF Cons.prems(1)] by blast
  have "\<forall>it \<in> set its. is_wait it" using Cons.prems(2) by simp
  from Cons.IH [OF took_in_ok [OF 1(2)] this] obtain fh2 where 2: "recv_loop its fh1 = Some fh2" "took_in (datagrams its) fh1 fh2" by blast
  show ?case using 1(1) 2(1) took_in_trans [OF 1(2) 2(2)] by (simp add: it)
qed

lemma counted: "a + of_nat m = b + of_nat n \<Longrightarrow> m \<le> n \<Longrightarrow> (a :: u64) = b + of_nat (n - m)"
  by (simp add: of_nat_diff algebra_simps)

lemma dropped_count: "r + a = r0 + b \<Longrightarrow> r + d = r0 + d0 + m \<Longrightarrow> d + b = d0 + (a + (m :: u64))"
proof -
  assume "r + a = r0 + b" and "r + d = r0 + d0 + m"
  then have "r = r0 + b - a" "d = r0 + d0 + m - r" by (simp_all add: eq_diff_eq algebra_simps)
  then show ?thesis by simp
qed

text \<open>C25: the receive thread in production mode. After a start that succeeded, whatever the network delivers, the thread
  makes no invalid access and ends when it is told to. Every datagram of 64 bytes or more is a message; they are queued in the order of their
  arrival as long as there is room, in the queue and in the pool, and dropped from then on if nobody takes messages out; received
  and dropped ones are counted, and the bytes of all datagrams, of each at most 256. Shorter datagrams leave no other
  trace. When the set-up of \<open>epoll\<close> fails, however, the thread ends at once with a message on the error stream: nothing is ever received, while \<open>feed_start\<close> has
  reported success and the handler still counts as running.\<close>

theorem recv_thread_production:
  assumes "feed_ok [] fh0" and "\<not> feed_simulation_mode (feed_cfg fh0)" and "feed_start True (Some fh0) = (0, Some fh)"
    and "\<forall>it \<in> set its. is_wait it"
  shows "\<exists>reason err fh'. recv_thread_func ee its fh = Some (reason, err, fh') \<and> feed_running fh'
    \<and> (if 0 \<le> epoll_create1 ee \<and> 0 \<le> epoll_ctl ee then
         reason = STOPPED \<and> err = [] \<and> (let ms = wire_messages (datagrams its); q = feed_queued fh; q' = take (room fh) (q @ ms) in
           feed_queued fh' = q' \<and> msgs_received fh' = msgs_received fh + of_nat (length q' - length q)
           \<and> msgs_dropped fh' = msgs_dropped fh + of_nat (length (q @ ms) - length q')
           \<and> bytes_received fh' = bytes_received fh + of_nat (sum_list (map (\<lambda>d. min 256 (length d)) (datagrams its))))
       else reason \<noteq> STOPPED \<and> err \<noteq> [] \<and> fh' = fh)"
proof -
  have fh: "fh = fh0\<lparr>feed_running := True\<rparr>" using assms(2,3) by (simp add: feed_start_def)
  then have ok: "feed_ok [] fh" "\<not> feed_simulation_mode (feed_cfg fh)" "feed_running fh" using assms(1,2) by (simp_all add: feed_ok_def)
  from recv_loop_takes_in [OF ok(1) assms(4)] obtain fh' where r: "recv_loop its fh = Some fh'" "took_in (datagrams its) fh fh'" by blast
  let ?ms = "wire_messages (datagrams its)" and ?q = "feed_queued fh"
  let ?q' = "take (room fh) (?q @ ?ms)"
  have t: "feed_queued fh' = ?q'" "msgs_received fh' + of_nat (length ?q) = msgs_received fh + of_nat (length ?q')"
    "msgs_received fh' + msgs_dropped fh' = msgs_received fh + msgs_dropped fh + of_nat (length ?ms)"
    using r(2) by (auto simp: took_in_def offered_all_def)
  have l: "length ?q \<le> length ?q'" "length ?q' \<le> length (?q @ ?ms)" using queued_within_room [OF ok(1)] by auto
  have "msgs_received fh' = msgs_received fh + of_nat (length ?q' - length ?q)" by (rule counted [OF t(2) l(1)])
  moreover have "msgs_dropped fh' + of_nat (length ?q') = msgs_dropped fh + of_nat (length (?q @ ?ms))"
    using dropped_count [OF t(2,3)] by (simp del: take_append length_take)
  from counted [OF this l(2)] have "msgs_dropped fh' = msgs_dropped fh + of_nat (length (?q @ ?ms) - length ?q')" .
  ultimately show ?thesis using r t(1) ok by (auto simp: recv_thread_func_def took_in_def Let_def)
qed

theorem recv_thread_production_witness:
  "\<exists>fh0 fh err fh'. feed_init (\<lambda>_. True) 1 4096 True \<lparr>socket_result = 3, inet_pton_ok = True, bind_ok = True\<rparr> (Some (ex_feed_cfg\<lparr>feed_simulation_mode := False\<rparr>)) = Some fh0
    \<and> feed_start True (Some fh0) = (0, Some fh)
    \<and> recv_thread_func \<lparr>epoll_create1 = 4, epoll_ctl = 0, strerror = []\<rparr> [Wait (-1) [], Wait 2 [(True, replicate 64 7), (True, [1])]] fh = Some (STOPPED, err, fh')
    \<and> bytes_received fh' = bytes_received fh + 65
    \<and> recv_thread_func \<lparr>epoll_create1 = 4, epoll_ctl = -1, strerror = ''Bad file descriptor''\<rparr> [Wait (-1) [], Wait 2 [(True, replicate 64 7), (True, [1])]] fh \<noteq> None"
proof -
  let ?c = "ex_feed_cfg\<lparr>feed_simulation_mode := False\<rparr>" and ?sk = "\<lparr>socket_result = 3, inet_pton_ok = True, bind_ok = True\<rparr>"
  let ?its = "[Wait (-1) [], Wait 2 [(True, replicate 64 7), (True, [1])]]"
  from feed_init_ok [of ?c "\<lambda>_. True" 1 4096 ?sk] obtain fh0 where
    f: "feed_init (\<lambda>_. True) 1 4096 True ?sk (Some ?c) = Some fh0" "feed_ok [] fh0" by (auto simp: ex_feed_cfg_def feed_inv_def)
  then have c: "\<not> feed_simulation_mode (feed_cfg fh0)" by (auto simp: feed_init_def Let_def split: option.splits prod.splits if_splits)
  have w: "\<forall>it \<in> set ?its. is_wait it" by simp
  obtain fh where s: "feed_start True (Some fh0) = (0, Some fh)" by (simp add: feed_start_def)
  from recv_thread_production [OF f(2) c s w, of "\<lparr>epoll_create1 = 4, epoll_ctl = 0, strerror = []\<rparr>"]
    recv_thread_production [OF f(2) c s w, of "\<lparr>epoll_create1 = 4, epoll_ctl = -1, strerror = ''Bad file descriptor''\<rparr>"] f(1) s
  show ?thesis by (auto simp: Let_def simp del: recv_loop.simps)
qed

end
