(* ===== verification/Event_Pipeline.thy ===== *)
theory Event_Pipeline
  imports Order_Book Risk_Engine Journal Execution_Gateway Logger Feed_Handler
begin

text \<open>
  The event pipeline of \<open>include/event_pipeline.h\<close> and \<open>src/event_pipeline.cpp\<close>, which owns all other
  components: the strategy, the hot path (risk check, order book, event hand-over) and the I/O path
  (journal, log, gateway), with initialisation, start and stop.

  Every component is the model of its own theory; the I/O events travel through an \<open>Event_Channel\<close>. An
  operation yields \<open>None\<close> when some access inside it is invalid. Clock readings and the results of the
  operating system are parameters, grouped in records. The counters of \<open>empty_spins\<close> only pace the loops
  and are left out; one iteration of a loop is a definition, the drains at the end are \<open>partial_function\<close>s.
\<close>

section \<open>State\<close>

record pipeline_stats =
  market_data_msgs :: u64
  orders_created :: u64
  orders_accepted :: u64
  orders_rejected :: u64
  trades_generated :: u64
  orders_executed :: u64
  io_events_dropped :: u64
  avg_latency_us :: double

datatype io_event_type = ORDER_ACCEPTED | ORDER_REJECTED | ORDER_FILLED | TRADE

record io_event =
  ev_type :: io_event_type
  ev_order_id :: int
  ev_account_id :: int
  ev_price :: double
  ev_quantity :: int
  ev_filled_qty :: int
  ev_timestamp_ns :: u64
  ev_side :: u8
  ev_order_type :: u8
  ev_status :: u8
  ev_symbol :: string
  ev_reject_reason :: string
  ev_trade_id :: int
  ev_buy_order_id :: int
  ev_sell_order_id :: int
  ev_trade_price :: double
  ev_trade_qty :: int
  ev_trade_ts_ns :: u64
  ev_trade_symbol :: string
  send_to_gateway :: bool
  gw_msg :: string
  gw_msg_len :: u32

record event_pipeline =
  p_logger :: logger
  p_journal :: "journal option"
  p_book :: order_book
  p_risk :: risk_engine
  p_gateway :: execution_gateway
  p_feed :: feed_handler
  p_running :: bool
  io_chan :: "io_event channel"
  p_stats :: pipeline_stats
  next_order_id :: int

definition zero_stats :: pipeline_stats where
  "zero_stats = \<lparr>market_data_msgs = 0, orders_created = 0, orders_accepted = 0, orders_rejected = 0, trades_generated = 0,
     orders_executed = 0, io_events_dropped = 0, avg_latency_us = 0\<rparr>"

definition zero_event :: io_event where
  "zero_event = \<lparr>ev_type = ORDER_ACCEPTED, ev_order_id = 0, ev_account_id = 0, ev_price = 0, ev_quantity = 0, ev_filled_qty = 0,
     ev_timestamp_ns = 0, ev_side = 0, ev_order_type = 0, ev_status = 0, ev_symbol = '''', ev_reject_reason = '''', ev_trade_id = 0,
     ev_buy_order_id = 0, ev_sell_order_id = 0, ev_trade_price = 0, ev_trade_qty = 0, ev_trade_ts_ns = 0, ev_trade_symbol = '''',
     send_to_gateway = False, gw_msg = '''', gw_msg_len = 0\<rparr>"

section \<open>The strategy\<close>

text \<open>\<open>fetch_add\<close> on the atomic counter, which wraps.\<close>

definition generate_order_id :: "event_pipeline \<Rightarrow> int \<times> event_pipeline" where
  "generate_order_id p = (next_order_id p, p\<lparr>next_order_id := s32 (next_order_id p + 1)\<rparr>)"

definition strategy_order :: "int \<Rightarrow> side \<Rightarrow> double \<Rightarrow> feed_msg \<Rightarrow> order" where
  "strategy_order i s pr m = empty_order\<lparr>oid := i, account_id := 1, price := pr, quantity := 100, side := s, otype := LIMIT,
     timestamp_ns := msg_timestamp_ns m, symbol := msg_symbol m\<rparr>"

definition strategy_on_market_data :: "feed_msg \<Rightarrow> event_pipeline \<Rightarrow> order list \<times> event_pipeline" where
  "strategy_on_market_data m p =
     (let mid = d_div (d_add (bid_price m) (ask_price m)) (d_lit 2 1);
          sprd = d_sub (ask_price m) (bid_price m);
          (i, p) = generate_order_id p;
          buy_order = strategy_order i BUY (d_sub mid (d_mul sprd (d_lit 1 10))) m;
          (i, p) = generate_order_id p;
          sell_order = strategy_order i SELL (d_add mid (d_mul sprd (d_lit 1 10))) m
      in ([buy_order, sell_order], p))"

section \<open>The hot path\<close>

definition count :: "(pipeline_stats \<Rightarrow> pipeline_stats) \<Rightarrow> event_pipeline \<Rightarrow> event_pipeline" where
  "count f p = p\<lparr>p_stats := f (p_stats p)\<rparr>"

text \<open>Taking a free event, filling it and pushing it; without a free event the drop is counted.\<close>

definition emit :: "(io_event \<Rightarrow> io_event) \<Rightarrow> event_pipeline \<Rightarrow> event_pipeline option" where
  "emit f p = map_option (\<lambda>(sent, c). let p = p\<lparr>io_chan := c\<rparr> in
     if sent then p else count (\<lambda>s. s\<lparr>io_events_dropped := io_events_dropped s + 1\<rparr>) p) (chan_send f (io_chan p))"

text \<open>The order fields that both kinds of order event carry.\<close>

definition order_fields :: "order \<Rightarrow> io_event \<Rightarrow> io_event" where
  "order_fields ord e = e\<lparr>ev_order_id := oid ord, ev_account_id := account_id ord, ev_price := price ord, ev_quantity := quantity ord,
     ev_timestamp_ns := timestamp_ns ord, ev_side := (if is_buy ord then 0 else 1),
     ev_order_type := (if otype ord = LIMIT then 0 else 1), ev_symbol := symbol ord\<rparr>"

definition reject_event :: "order \<Rightarrow> string \<Rightarrow> io_event \<Rightarrow> io_event" where
  "reject_event ord reason e = (order_fields ord e)\<lparr>ev_type := ORDER_REJECTED, ev_filled_qty := 0, ev_status := status_code REJECTED,
     ev_reject_reason := cstr (strncpy 255 reason), send_to_gateway := False\<rparr>"

text \<open>\<open>memcpy\<close> of \<open>k\<close> bytes of a string over an old one; the terminator is among them when \<open>k\<close> exceeds the length.\<close>

definition memcpy_str :: "nat \<Rightarrow> string \<Rightarrow> string \<Rightarrow> string" where
  "memcpy_str k new old = (if length new < k then new else take k new @ drop k old)"

definition result_event :: "order \<Rightarrow> bool \<Rightarrow> string \<Rightarrow> u32 \<Rightarrow> io_event \<Rightarrow> io_event" where
  "result_event result send msg len e0 =
     (let e = (order_fields result e0)\<lparr>ev_type := (if 0 < filled_qty result then ORDER_FILLED else ORDER_ACCEPTED),
            ev_filled_qty := filled_qty result, ev_status := status_code (status result), send_to_gateway := send\<rparr>
      in if send then e\<lparr>gw_msg := memcpy_str (unat len + 1) msg (gw_msg e), gw_msg_len := len\<rparr> else e)"

definition trade_event :: "trade \<Rightarrow> io_event \<Rightarrow> io_event" where
  "trade_event t e = e\<lparr>ev_type := TRADE, ev_trade_id := trade_id t, ev_buy_order_id := buy_order_id t, ev_sell_order_id := sell_order_id t,
     ev_trade_price := trade_price t, ev_trade_qty := trade_qty t, ev_trade_ts_ns := trade_ts_ns t, ev_trade_symbol := trade_symbol t\<rparr>"

fun emit_trades :: "trade list \<Rightarrow> event_pipeline \<Rightarrow> event_pipeline option" where
  "emit_trades [] p = Some p"
| "emit_trades (t # ts) p =
     (case emit (trade_event t) (count (\<lambda>s. s\<lparr>trades_generated := trades_generated s + 1\<rparr>) p) of
        None \<Rightarrow> None | Some p' \<Rightarrow> emit_trades ts p')"

text \<open>The clock readings while an order is handled: the seconds the rate window sees and the time of each
  trade.\<close>

record clock =
  clock_sec :: u64
  clock_trade :: "int \<Rightarrow> u64"

definition gateway_line :: "order \<Rightarrow> int \<times> string option" where
  "gateway_line result = gw_serialize_order True GW_MAX_MSG_SIZE (oid result) (symbol result)
     (if is_buy result then CHR ''B'' else CHR ''S'') (if otype result = LIMIT then CHR ''L'' else CHR ''M'')
     (price result) (quantity result) (timestamp_ns result)"

text \<open>The body of the loop over the orders of a message.\<close>

definition process_order :: "clock \<Rightarrow> order \<Rightarrow> event_pipeline \<Rightarrow> event_pipeline option" where
  "process_order clk ord p0 =
     (let p = count (\<lambda>s. s\<lparr>orders_created := orders_created s + 1\<rparr>) p0;
          mid = mid_price (p_book p);
          (accepted, e) = validate (clock_sec clk) ord mid (p_risk p);
          p = p\<lparr>p_risk := e\<rparr>
      in if \<not> accepted then
           emit (reject_event ord (last_reject e)) (count (\<lambda>s. s\<lparr>orders_rejected := orders_rejected s + 1\<rparr>) p)
         else
           let p = count (\<lambda>s. s\<lparr>orders_accepted := orders_accepted s + 1\<rparr>) p;
               (result, b) = add_order (clock_trade clk) ord (p_book p);
               p = p\<lparr>p_book := b\<rparr>;
               send = (status result = NEW \<or> status result = PARTIAL);
               (r, buf) = (if send then gateway_line result else (-1, None));
               msg = (case buf of None \<Rightarrow> '''' | Some m \<Rightarrow> m);
               ok = (send \<and> r = 0);
               len = (if ok then of_nat (length (cstr msg)) else 0);
               p = (if ok then count (\<lambda>s. s\<lparr>orders_executed := orders_executed s + 1\<rparr>) p else p)
           in (case emit (result_event result send msg len) p of
                 None \<Rightarrow> None
               | Some p \<Rightarrow>
                  let (ts, b) = drain_trades (p_book p) in
                  (case emit_trades ts (p\<lparr>p_book := b\<rparr>) of
                     None \<Rightarrow> None
                   | Some p \<Rightarrow> Some (if 0 < filled_qty result
                       then p\<lparr>p_risk := on_order_executed result (filled_qty result)
                              (if d_lt 0 (price result) then price result else mid) (p_risk p)\<rparr>
                       else p))))"

fun process_orders :: "(nat \<Rightarrow> clock) \<Rightarrow> nat \<Rightarrow> order list \<Rightarrow> event_pipeline \<Rightarrow> event_pipeline option" where
  "process_orders clk k [] p = Some p"
| "process_orders clk k (ord # ords) p = (case process_order (clk k) ord p of
     None \<Rightarrow> None | Some p' \<Rightarrow> process_orders clk (Suc k) ords p')"

definition update_latency :: "u64 \<Rightarrow> u64 \<Rightarrow> pipeline_stats \<Rightarrow> pipeline_stats" where
  "update_latency start_ns end_ns s =
     (let latency_us = d_div (d_of_int (uint (end_ns - start_ns))) (d_lit 1000 1)
      in s\<lparr>avg_latency_us := (if d_eq (avg_latency_us s) 0 then latency_us
            else d_add (d_mul (avg_latency_us s) (d_lit 9 10)) (d_mul latency_us (d_lit 1 10)))\<rparr>)"

text \<open>A message is named by its address; \<open>start_ns\<close> and \<open>end_ns\<close> are the readings of the latency measurement.\<close>

definition process_market_data :: "(nat \<Rightarrow> clock) \<Rightarrow> u64 \<Rightarrow> u64 \<Rightarrow> address \<Rightarrow> event_pipeline \<Rightarrow> event_pipeline option" where
  "process_market_data clk start_ns end_ns a p =
     (if a = 0 then Some p
      else let m = msgs (p_feed p) a;
               p = count (\<lambda>s. s\<lparr>market_data_msgs := market_data_msgs s + 1\<rparr>) p;
               (ords, p) = strategy_on_market_data m p
           in (case process_orders clk 0 ords p of
                 None \<Rightarrow> None
               | Some p \<Rightarrow> (case feed_return_msg (Some (p_feed p)) a of
                   Some (Some fh) \<Rightarrow> Some (count (update_latency start_ns end_ns) (p\<lparr>p_feed := fh\<rparr>))
                 | _ \<Rightarrow> None)))"

section \<open>The I/O path\<close>

record io_env =
  io_log_now :: u64
  io_jrnl_now :: u64
  io_gw_now :: u64
  io_os :: os

definition pl_log :: "u64 \<Rightarrow> log_level \<Rightarrow> string \<Rightarrow> event_pipeline \<Rightarrow> event_pipeline option" where
  "pl_log now l t p = map_option (\<lambda>lg. p\<lparr>p_logger := lg\<rparr>) (logger_write now l (Some t) (p_logger p))"

text \<open>Journalling when a journal is attached; the result of the append is ignored.\<close>

definition pl_journal :: "(journal \<Rightarrow> (int \<times> journal) option) \<Rightarrow> event_pipeline \<Rightarrow> event_pipeline option" where
  "pl_journal f p = (case p_journal p of None \<Rightarrow> Some p
     | Some j \<Rightarrow> map_option (\<lambda>(_, j'). p\<lparr>p_journal := Some j'\<rparr>) (f j))"

definition journal_order :: "io_env \<Rightarrow> journal_record_type \<Rightarrow> int \<Rightarrow> u8 \<Rightarrow> io_event \<Rightarrow> event_pipeline \<Rightarrow> event_pipeline option" where
  "journal_order env t filled st ev = pl_journal (journal_log_order (io_os env) (io_jrnl_now env) [] t (ev_order_id ev)
     (ev_account_id ev) (ev_price ev) (ev_quantity ev) filled (ev_timestamp_ns ev) (ev_side ev) (ev_order_type ev) st (Some (ev_symbol ev)))"

definition gateway_send :: "io_env \<Rightarrow> io_event \<Rightarrow> event_pipeline \<Rightarrow> event_pipeline" where
  "gateway_send env ev p = (if send_to_gateway ev
     then p\<lparr>p_gateway := the (snd (snd (gw_send_order (io_gw_now env) (Some (p_gateway p)) (Some (gw_msg ev)) (gw_msg_len ev) (ev_order_id ev))))\<rparr>
     else p)"

definition process_io_event :: "io_env \<Rightarrow> io_event \<Rightarrow> event_pipeline \<Rightarrow> event_pipeline option" where
  "process_io_event env ev p = (case ev_type ev of
     ORDER_REJECTED \<Rightarrow>
       Option.bind (pl_log (io_log_now env) LOG_WARN (''[WARN]  Order '' @ show_int (ev_order_id ev) @ '' REJECTED: '' @ ev_reject_reason ev) p)
         (journal_order env JRNL_ORDER_REJECT 0 (status_code REJECTED) ev)
   | ORDER_ACCEPTED \<Rightarrow> map_option (gateway_send env ev) (journal_order env JRNL_ORDER_NEW (ev_filled_qty ev) (ev_status ev) ev p)
   | ORDER_FILLED \<Rightarrow>
       map_option (gateway_send env ev)
         (Option.bind (pl_log (io_log_now env) LOG_INFO (''[INFO]  Order '' @ show_int (ev_order_id ev) @ '' FILLED: ''
              @ (if ev_side ev = 0 then ''BUY'' else ''SELL'') @ '' '' @ show_int (ev_filled_qty ev) @ ''@'' @ show_fixed 2 (ev_price ev)
              @ '' status='' @ show_int (uint (ev_status ev))) p)
            (journal_order env JRNL_ORDER_FILLED (ev_filled_qty ev) (ev_status ev) ev))
   | TRADE \<Rightarrow>
       Option.bind (pl_log (io_log_now env) LOG_INFO (''[INFO]  TRADE id='' @ show_int (ev_trade_id ev) @ '' '' @ ev_trade_symbol ev @ '' ''
            @ show_int (ev_trade_qty ev) @ ''@'' @ show_fixed 2 (ev_trade_price ev) @ '' (buy='' @ show_int (ev_buy_order_id ev)
            @ '', sell='' @ show_int (ev_sell_order_id ev) @ '')'') p)
         (pl_journal (journal_log_trade (io_os env) (io_jrnl_now env) [] (ev_trade_id ev) (ev_buy_order_id ev) (ev_sell_order_id ev)
            (ev_trade_price ev) (ev_trade_qty ev) (ev_trade_ts_ns ev) (Some (ev_trade_symbol ev)))))"

section \<open>The threads\<close>

text \<open>One iteration of \<open>consumer_loop\<close> and of \<open>io_loop\<close> while the pipeline runs.\<close>

definition consumer_poll :: "(nat \<Rightarrow> clock) \<Rightarrow> u64 \<Rightarrow> u64 \<Rightarrow> event_pipeline \<Rightarrow> event_pipeline option" where
  "consumer_poll clk t0 t1 p = (case feed_pop (p_feed p) of
     None \<Rightarrow> None
   | Some (a, fh) \<Rightarrow> process_market_data clk t0 t1 a (p\<lparr>p_feed := fh\<rparr>))"

definition io_poll :: "io_env \<Rightarrow> event_pipeline \<Rightarrow> event_pipeline option" where
  "io_poll env p = (case chan_next (io_chan p) of
     None \<Rightarrow> None
   | Some (a, c) \<Rightarrow>
      if a = 0 then Some (p\<lparr>io_chan := c\<rparr>)
      else (case process_io_event env (entries c a) (p\<lparr>io_chan := c\<rparr>) of
              None \<Rightarrow> None
            | Some p \<Rightarrow> map_option (\<lambda>c. p\<lparr>io_chan := c\<rparr>) (chan_recycle a (\<lambda>e. e) (io_chan p))))"

text \<open>The drains after \<open>running_\<close> has become false. The clocks of the drained messages and events are
  given by their number.\<close>

partial_function (option) consumer_drain :: "(nat \<Rightarrow> nat \<Rightarrow> clock) \<Rightarrow> (nat \<Rightarrow> u64 \<times> u64) \<Rightarrow> nat \<Rightarrow> event_pipeline \<Rightarrow> event_pipeline option" where
  "consumer_drain clk lat k p = (case feed_pop (p_feed p) of
     None \<Rightarrow> None
   | Some (a, fh) \<Rightarrow>
      if a = 0 then Some (p\<lparr>p_feed := fh\<rparr>)
      else (case process_market_data (clk k) (fst (lat k)) (snd (lat k)) a (p\<lparr>p_feed := fh\<rparr>) of
              None \<Rightarrow> None
            | Some p \<Rightarrow> consumer_drain clk lat (Suc k) p))"

partial_function (option) io_drain :: "(nat \<Rightarrow> io_env) \<Rightarrow> nat \<Rightarrow> event_pipeline \<Rightarrow> event_pipeline option" where
  "io_drain env k p = (case chan_next (io_chan p) of
     None \<Rightarrow> None
   | Some (a, c) \<Rightarrow>
      if a = 0 then Some (p\<lparr>io_chan := c\<rparr>)
      else (case process_io_event (env k) (entries c a) (p\<lparr>io_chan := c\<rparr>) of
              None \<Rightarrow> None
            | Some p \<Rightarrow> io_drain env (Suc k) p))"

end
