(* ===== verification/Pipeline_Control.thy ===== *)
theory Pipeline_Control
  imports Event_Pipeline
begin

text \<open>
  Setting the pipeline up, starting, stopping and destroying it, and the two threads while it stops.

  \<open>stop\<close> clears one flag that both threads read and then waits for the hot path first and for the I/O thread
  second; feed and logger go on meanwhile. The step relation \<open>stop_step\<close> has the iterations of the four threads and
  of the stopping one; \<open>pl_stop\<close> gets their order as a list of operations, a schedule, and what a schedule leaves undone
  is finished afterwards, the hot path first, so that \<open>pl_stop\<close> is defined for every schedule.
\<close>

section \<open>Initialisation\<close>

text \<open>The results of the operating system during \<open>init\<close>: allocation (\<open>ie_alloc\<close> for the rings, addresses for the
  pools), files and threads.\<close>

record init_env =
  ie_alloc :: "nat \<Rightarrow> bool"
  ie_logger_ok :: bool
  ie_fopen :: "string \<Rightarrow> string option"
  ie_log_pool :: ptr
  ie_log_thread_ok :: bool
  ie_gateway_ok :: bool
  ie_time :: u64
  ie_feed_addr :: address
  ie_feed_pool :: address
  ie_feed_malloc_ok :: bool
  ie_event_pool :: ptr
  ie_now :: u64

definition pipeline_limits :: risk_limits where
  "pipeline_limits = \<lparr>max_order_qty = 10000, max_position = 10000000, max_exposure = 50000000, max_notional = d_lit 500000000 1,
     price_band_pct = d_lit 10 1, max_orders_per_sec = 50000, enabled = True\<rparr>"

definition pipeline_gw_config :: gw_config where
  "pipeline_gw_config = \<lparr>host = '''', port = 0, max_retries = 0, retry_delay_ns = 0, connect_timeout_ns = 0, max_pending_acks = 0,
     gw_simulation_mode = True, sim_log_file = ''execution_gateway.log''\<rparr>"

definition pipeline_feed_config :: "string \<Rightarrow> feed_config" where
  "pipeline_feed_config sm = \<lparr>listen_addr = '''', listen_port = 0, feed_simulation_mode = True, sim_interval_us = 500,
     output_queue_size = 4096, cfg_symbol = cstr (strncpy 15 (cstr sm))\<rparr>"

definition no_sockets :: sockets where
  "no_sockets = \<lparr>socket_result = 0, inet_pton_ok = False, bind_ok = False\<rparr>"

text \<open>What a failed \<open>init\<close> has created, null for the rest.\<close>

record unfinished =
  un_logger :: "logger option"
  un_gateway :: "execution_gateway option"
  un_feed :: "feed_handler option"

text \<open>A failing branch of \<open>init\<close> after the logger is there: the message, and the result -1.\<close>

definition init_fails :: "u64 \<Rightarrow> string \<Rightarrow> execution_gateway option \<Rightarrow> feed_handler option \<Rightarrow> logger \<Rightarrow> (unfinished + event_pipeline) option" where
  "init_fails now t gw fh lg = map_option (\<lambda>lg. Inl \<lparr>un_logger = Some lg, un_gateway = gw, un_feed = fh\<rparr>)
     (logger_write now LOG_ERROR (Some (''[ERROR] '' @ t)) lg)"

text \<open>\<open>Inl\<close> is the result -1, with what is there by then. Both I/O rings have the same size, so that it is the first one that cannot
  be allocated.\<close>

definition pl_init :: "init_env \<Rightarrow> string \<Rightarrow> string \<Rightarrow> (unfinished + event_pipeline) option" where
  "pl_init ie sm log_path = (case logger_init (ie_alloc ie) (ie_logger_ok ie) (ie_fopen ie) (ie_log_pool ie) (ie_log_thread_ok ie) (Some (cstr log_path)) 4096 of
     None \<Rightarrow> None
   | Some None \<Rightarrow> Some (Inl \<lparr>un_logger = None, un_gateway = None, un_feed = None\<rparr>)
   | Some (Some lg) \<Rightarrow>
     (case logger_write (ie_now ie) LOG_INFO (Some (''[INFO]  EventPipeline initializing for symbol '' @ cstr sm)) lg of
        None \<Rightarrow> None
      | Some lg \<Rightarrow>
     (case gw_init (ie_gateway_ok ie) (ie_fopen ie (sim_log_file pipeline_gw_config)) (ie_time ie) (Some pipeline_gw_config) of
        None \<Rightarrow> init_fails (ie_now ie) ''Failed to create execution gateway'' None None lg
      | Some gw \<Rightarrow>
     (case feed_init (ie_alloc ie) (ie_feed_addr ie) (ie_feed_pool ie) (ie_feed_malloc_ok ie) no_sockets (Some (pipeline_feed_config sm)) of
        None \<Rightarrow> init_fails (ie_now ie) ''Failed to create feed handler'' (Some gw) None lg
      | Some fh \<Rightarrow>
     (case channel_init (ie_alloc ie) (ie_event_pool ie) 888 4096 zero_event of
        None \<Rightarrow> None
      | Some None \<Rightarrow> init_fails (ie_now ie) (if fst (ring_buffer_init (ie_alloc ie) (Some zero_ring) 4096) \<noteq> 0 then ''Failed to create I/O free queue''
          else ''Failed to allocate I/O event pool'') (Some gw) (Some fh) lg
      | Some (Some c) \<Rightarrow>
          map_option (\<lambda>lg. Inr \<lparr>p_logger = lg, p_journal = None, p_book = new_book sm,
              p_risk = set_limits pipeline_limits new_risk_engine, p_gateway = gw, p_feed = fh, p_running = False, io_chan = c,
              p_stats = zero_stats, next_order_id = 1\<rparr>)
            (logger_write (ie_now ie) LOG_INFO (Some ''[INFO]  EventPipeline initialized successfully'') lg))))))"

definition set_journal :: "journal option \<Rightarrow> event_pipeline \<Rightarrow> event_pipeline" where
  "set_journal j p = p\<lparr>p_journal := j\<rparr>"

section \<open>Start and stop\<close>

definition pl_feed :: "(feed_handler option \<Rightarrow> feed_handler option) \<Rightarrow> event_pipeline \<Rightarrow> event_pipeline" where
  "pl_feed f p = (case f (Some (p_feed p)) of None \<Rightarrow> p | Some fh \<Rightarrow> p\<lparr>p_feed := fh\<rparr>)"

text \<open>When a later thread cannot be created, the feed's thread has run for a moment; it can only have put messages into the feed's own queue, and
  this is left out.\<close>

definition pl_start :: "bool \<Rightarrow> bool \<Rightarrow> bool \<Rightarrow> u64 \<Rightarrow> event_pipeline \<Rightarrow> (int \<times> event_pipeline) option" where
  "pl_start feed_thread_ok io_thread_ok consumer_thread_ok now p =
     (if p_running p then Some (0, p)
      else Option.bind (pl_log now LOG_INFO ''[INFO]  EventPipeline starting...'' p) (\<lambda>p.
        let (r, fh) = feed_start feed_thread_ok (Some (p_feed p)); p = p\<lparr>p_feed := the fh\<rparr> in
        if r \<noteq> 0 then map_option (Pair (-1)) (pl_log now LOG_ERROR ''[ERROR] Failed to start feed handler'' p)
        else if \<not> io_thread_ok then
          map_option (Pair (-1)) (pl_log now LOG_ERROR ''[ERROR] Failed to create I/O thread'' (pl_feed feed_stop p))
        else if \<not> consumer_thread_ok then
          map_option (Pair (-1)) (pl_log now LOG_ERROR ''[ERROR] Failed to create consumer thread'' (pl_feed feed_stop p))
        else map_option (Pair 0) (pl_log now LOG_INFO (''[INFO]  EventPipeline started '' @ [CHR 0xE2, CHR 0x80, CHR 0x94]
               @ '' 2-stage pipeline active'') (p\<lparr>p_running := True\<rparr>))))"

text \<open>The final statistics, one log line each.\<close>

definition stat_lines :: "pipeline_stats \<Rightarrow> string list" where
  "stat_lines s = map (\<lambda>t. ''[INFO]  '' @ t)
     [''=== Final Pipeline Statistics ==='',
      ''  Market data msgs:  '' @ show_nat (unat (market_data_msgs s)),
      ''  Orders created:    '' @ show_nat (unat (orders_created s)),
      ''  Orders accepted:   '' @ show_nat (unat (orders_accepted s)),
      ''  Orders rejected:   '' @ show_nat (unat (orders_rejected s)),
      ''  Orders executed:   '' @ show_nat (unat (orders_executed s)),
      ''  Trades generated:  '' @ show_nat (unat (trades_generated s)),
      ''  I/O events dropped:'' @ show_nat (unat (io_events_dropped s)),
      ''  Avg latency (us):  '' @ show_fixed 2 (avg_latency_us s)]"

fun log_lines :: "u64 \<Rightarrow> string list \<Rightarrow> event_pipeline \<Rightarrow> event_pipeline option" where
  "log_lines now [] p = Some p"
| "log_lines now (t # ts) p = Option.bind (pl_log now LOG_INFO t p) (log_lines now ts)"

section \<open>The threads while the pipeline stops\<close>

record stop_state =
  pl :: event_pipeline
  consumer_done :: bool
  io_draining :: bool
  io_done :: bool

text \<open>\<open>running_\<close> is false: each of the two threads drains its queue and ends when it finds it empty. While it drains,
  the I/O thread no longer recycles events; before it has seen the flag, it still does (\<open>io_late\<close>). (For the hot path an iteration that
  began before the flag was cleared is like one of the drain.) The feed is stopped only after the hot path has ended, the logger
  later still, so that their threads go on.\<close>

inductive stop_step :: "stop_state \<Rightarrow> stop_state \<Rightarrow> bool" where
  consumer_message: "\<not> consumer_done s \<Longrightarrow> feed_pop (p_feed (pl s)) = Some (a, fh) \<Longrightarrow> a \<noteq> 0 \<Longrightarrow>
    process_market_data clk t0 t1 a ((pl s)\<lparr>p_feed := fh\<rparr>) = Some p \<Longrightarrow> stop_step s (s\<lparr>pl := p\<rparr>)"
| consumer_ends: "\<not> consumer_done s \<Longrightarrow> feed_pop (p_feed (pl s)) = Some (0, fh) \<Longrightarrow>
    stop_step s (s\<lparr>pl := (pl s)\<lparr>p_feed := fh\<rparr>, consumer_done := True\<rparr>)"
| io_late: "\<not> io_draining s \<Longrightarrow> \<not> io_done s \<Longrightarrow> io_poll env (pl s) = Some p \<Longrightarrow> stop_step s (s\<lparr>pl := p\<rparr>)"
| io_message: "\<not> io_done s \<Longrightarrow> chan_next (io_chan (pl s)) = Some (a, c) \<Longrightarrow> a \<noteq> 0 \<Longrightarrow>
    process_io_event env (entries c a) ((pl s)\<lparr>io_chan := c\<rparr>) = Some p \<Longrightarrow> stop_step s (s\<lparr>pl := p, io_draining := True\<rparr>)"
| io_ends: "\<not> io_done s \<Longrightarrow> chan_next (io_chan (pl s)) = Some (0, c) \<Longrightarrow>
    stop_step s (s\<lparr>pl := (pl s)\<lparr>io_chan := c\<rparr>, io_done := True\<rparr>)"
| feed_ticks: "feed_running (p_feed (pl s)) \<Longrightarrow> feed_sim_step now (p_feed (pl s)) = Some fh \<Longrightarrow> stop_step s (s\<lparr>pl := (pl s)\<lparr>p_feed := fh\<rparr>\<rparr>)"
| feed_stops: "consumer_done s \<Longrightarrow> stop_step s (s\<lparr>pl := pl_feed feed_stop (pl s)\<rparr>)"
| logger_ticks: "logger_poll tt (p_logger (pl s)) = Some lg \<Longrightarrow> stop_step s (s\<lparr>pl := (pl s)\<lparr>p_logger := lg\<rparr>\<rparr>)"

text \<open>The same steps as operations of a schedule: an iteration of the hot path, of the I/O thread before and after it has seen the flag,
  of the feed and of the logger, and the call of \<open>feed_stop\<close>. An operation of a thread that has ended, or that still waits, does
  nothing.\<close>

datatype stop_op = HotDrain "nat \<Rightarrow> clock" u64 u64 | IoLate io_env | IoDrain io_env | FeedGoes u64 | FeedStops | LogGoes

fun stop_op_step :: "(u64 \<Rightarrow> string) \<Rightarrow> stop_op \<Rightarrow> stop_state \<Rightarrow> stop_state option" where
  "stop_op_step tt (HotDrain clk t0 t1) s = (if consumer_done s then Some s
     else case feed_pop (p_feed (pl s)) of None \<Rightarrow> None
       | Some (a, fh) \<Rightarrow> if a = 0 then Some (s\<lparr>pl := (pl s)\<lparr>p_feed := fh\<rparr>, consumer_done := True\<rparr>)
           else map_option (\<lambda>p. s\<lparr>pl := p\<rparr>) (process_market_data clk t0 t1 a ((pl s)\<lparr>p_feed := fh\<rparr>)))"
| "stop_op_step tt (IoLate env) s = (if io_draining s \<or> io_done s then Some s else map_option (\<lambda>p. s\<lparr>pl := p\<rparr>) (io_poll env (pl s)))"
| "stop_op_step tt (IoDrain env) s = (if io_done s then Some s
     else case chan_next (io_chan (pl s)) of None \<Rightarrow> None
       | Some (a, c) \<Rightarrow> if a = 0 then Some (s\<lparr>pl := (pl s)\<lparr>io_chan := c\<rparr>, io_done := True\<rparr>)
           else map_option (\<lambda>p. s\<lparr>pl := p, io_draining := True\<rparr>) (process_io_event env (entries c a) ((pl s)\<lparr>io_chan := c\<rparr>)))"
| "stop_op_step tt (FeedGoes now) s = (if feed_running (p_feed (pl s))
     then map_option (\<lambda>fh. s\<lparr>pl := (pl s)\<lparr>p_feed := fh\<rparr>\<rparr>) (feed_sim_step now (p_feed (pl s))) else Some s)"
| "stop_op_step tt FeedStops s = Some (if consumer_done s then s\<lparr>pl := pl_feed feed_stop (pl s)\<rparr> else s)"
| "stop_op_step tt LogGoes s = map_option (\<lambda>lg. s\<lparr>pl := (pl s)\<lparr>p_logger := lg\<rparr>\<rparr>) (logger_poll tt (p_logger (pl s)))"

fun stop_run :: "(u64 \<Rightarrow> string) \<Rightarrow> stop_op list \<Rightarrow> stop_state \<Rightarrow> stop_state option" where
  "stop_run tt [] s = Some s"
| "stop_run tt (op # ops) s = Option.bind (stop_op_step tt op s) (stop_run tt ops)"

definition stop_start :: "event_pipeline \<Rightarrow> stop_state" where
  "stop_start p = \<lparr>pl = p\<lparr>p_running := False\<rparr>, consumer_done = False, io_draining = False, io_done = False\<rparr>"

text \<open>What the schedule leaves to do: the hot path drains to its end, the feed stops, the I/O thread drains to its end.
  \<open>clk\<close>, \<open>lat\<close> and \<open>env\<close> are the readings of these drains.\<close>

definition stop_threads :: "(u64 \<Rightarrow> string) \<Rightarrow> stop_op list \<Rightarrow> (nat \<Rightarrow> nat \<Rightarrow> clock) \<Rightarrow> (nat \<Rightarrow> u64 \<times> u64) \<Rightarrow> (nat \<Rightarrow> io_env) \<Rightarrow>
    event_pipeline \<Rightarrow> event_pipeline option" where
  "stop_threads tt sch clk lat env p = Option.bind (stop_run tt sch (stop_start p)) (\<lambda>s.
     Option.bind (if consumer_done s then Some (pl s) else consumer_drain clk lat 0 (pl s)) (\<lambda>p.
     let p = pl_feed feed_stop p in if io_done s then Some p else io_drain env 0 p))"

definition pl_stop :: "(u64 \<Rightarrow> string) \<Rightarrow> u64 \<Rightarrow> stop_op list \<Rightarrow> (nat \<Rightarrow> nat \<Rightarrow> clock) \<Rightarrow> (nat \<Rightarrow> u64 \<times> u64) \<Rightarrow> (nat \<Rightarrow> io_env) \<Rightarrow>
    event_pipeline \<Rightarrow> event_pipeline option" where
  "pl_stop tt now sch clk lat env p =
     (if \<not> p_running p then Some p
      else Option.bind (pl_log now LOG_INFO ''[INFO]  EventPipeline stopping...'' p) (\<lambda>p.
           Option.bind (stop_threads tt sch clk lat env p) (\<lambda>p.
           let p = p\<lparr>p_gateway := the (gw_shutdown (Some (p_gateway p)))\<rparr> in
           Option.bind (log_lines now (stat_lines (p_stats p)) p) (\<lambda>p.
           map_option (\<lambda>lg. p\<lparr>p_logger := lg\<rparr>) (logger_shutdown tt (p_logger p))))))"

text \<open>The operations are the steps.\<close>

lemma stop_op_step_steps: "stop_op_step tt op s = Some s' \<Longrightarrow> s' = s \<or> stop_step s s'"
  by (cases op) (auto intro: stop_step.intros split: if_splits option.splits)

lemma stop_step_op: "stop_step s s' \<Longrightarrow> \<exists>tt op. stop_op_step tt op s = Some s'"
proof (induction rule: stop_step.induct)
  case (consumer_message s a fh clk t0 t1 p)
  then show ?case by (intro exI [of _ undefined] exI [of _ "HotDrain clk t0 t1"]) simp
next
  case (consumer_ends s fh)
  then show ?case by (intro exI [of _ undefined] exI [of _ "HotDrain undefined 0 0"]) simp
next
  case (io_late s env p)
  then show ?case by (intro exI [of _ undefined] exI [of _ "IoLate env"]) simp
next
  case (io_message s a c env p)
  then show ?case by (intro exI [of _ undefined] exI [of _ "IoDrain env"]) simp
next
  case (io_ends s c)
  then show ?case by (intro exI [of _ undefined] exI [of _ "IoDrain undefined"]) simp
next
  case (feed_ticks s now fh)
  then show ?case by (intro exI [of _ undefined] exI [of _ "FeedGoes now"]) simp
next
  case (feed_stops s)
  then show ?case by (intro exI [of _ undefined] exI [of _ FeedStops]) simp
next
  case (logger_ticks tt s lg)
  then show ?case by (intro exI [of _ tt] exI [of _ LogGoes]) simp
qed

section \<open>The destructor\<close>

text \<open>The destructor of a pipeline that is not running, for which its call of \<open>stop\<close> returns at once: what is left are the texts of
  the log and of the gateway's log.\<close>

partial_function (option) drain_ring :: "ring_buffer \<Rightarrow> ring_buffer option" where
  "drain_ring q = (case ring_buffer_pop q of None \<Rightarrow> None
     | Some (a, q') \<Rightarrow> if a = 0 then Some q' else drain_ring q')"

definition pl_destroy :: "event_pipeline \<Rightarrow> (string \<times> string option) option" where
  "pl_destroy p = (case (feed_destroy (p_feed p), drain_ring (free_queue (io_chan p)), drain_ring (filled_queue (io_chan p))) of
     (Some _, Some _, Some _) \<Rightarrow> Some (logger_destroy (p_logger p), gw_destroy (Some (p_gateway p)))
   | _ \<Rightarrow> None)"

text \<open>After a failed \<open>init\<close> or \<open>start\<close> nobody has called \<open>logger_shutdown\<close>: the thread of the logger has run some iterations, \<open>n\<close> of
  them, and runs on while \<open>logger_destroy\<close> frees the logger. The last component of the results says that.\<close>

fun logger_polls :: "(u64 \<Rightarrow> string) \<Rightarrow> nat \<Rightarrow> logger \<Rightarrow> logger option" where
  "logger_polls tt 0 lg = Some lg"
| "logger_polls tt (Suc n) lg = Option.bind (logger_poll tt lg) (logger_polls tt n)"

definition destroy_started :: "(u64 \<Rightarrow> string) \<Rightarrow> nat \<Rightarrow> event_pipeline \<Rightarrow> (string option \<times> string option \<times> bool) option" where
  "destroy_started tt n p = Option.bind (logger_polls tt n (p_logger p)) (\<lambda>lg.
     map_option (\<lambda>(l, g). (Some l, g, log_running lg)) (pl_destroy (p\<lparr>p_logger := lg\<rparr>)))"

definition destroy_unfinished :: "(u64 \<Rightarrow> string) \<Rightarrow> nat \<Rightarrow> unfinished \<Rightarrow> (string option \<times> string option \<times> bool) option" where
  "destroy_unfinished tt n u =
     (if (case un_feed u of None \<Rightarrow> False | Some fh \<Rightarrow> feed_destroy fh = None) then None
      else case un_logger u of
        None \<Rightarrow> Some (None, gw_destroy (un_gateway u), False)
      | Some lg \<Rightarrow> map_option (\<lambda>lg. (Some (logger_destroy lg), gw_destroy (un_gateway u), log_running lg)) (logger_polls tt n lg))"

end
