(* ===== verification/Pipeline_Hot_Path.thy ===== *)
theory Pipeline_Hot_Path
  imports Pipeline_Control Book_Properties Risk_Properties Gateway_Properties Feed_Simulation Feed_Properties
begin

text \<open>
  The hot path against its specification. The specification decides an order on the book and the risk
  engine alone and says which events the I/O path must see. The refinement shows that the code does just that to
  book, engine and counters and posts the events, in order, as far as there are free entries.

  An event record is reused and keeps stale fields of its former contents; \<open>event_view\<close> is the part of
  it that is valid for its type. The I/O path is shown to read nothing else.
\<close>

section \<open>What an event says\<close>

datatype io_view =
    OrderView io_event_type int int double int int u64 u8 u8 u8 string string "(string \<times> u32) option"
  | TradeView int int int double int u64 string

definition event_view :: "io_event \<Rightarrow> io_view" where
  "event_view e = (if ev_type e = TRADE
     then TradeView (ev_trade_id e) (ev_buy_order_id e) (ev_sell_order_id e) (ev_trade_price e) (ev_trade_qty e) (ev_trade_ts_ns e) (ev_trade_symbol e)
     else OrderView (ev_type e) (ev_order_id e) (ev_account_id e) (ev_price e) (ev_quantity e) (ev_filled_qty e) (ev_timestamp_ns e)
       (ev_side e) (ev_order_type e) (ev_status e) (ev_symbol e)
       (if ev_type e = ORDER_REJECTED then ev_reject_reason e else '''')
       (if ev_type e \<noteq> ORDER_REJECTED \<and> send_to_gateway e then Some (gw_msg e, gw_msg_len e) else None))"

definition order_view :: "io_event_type \<Rightarrow> order \<Rightarrow> int \<Rightarrow> u8 \<Rightarrow> string \<Rightarrow> (string \<times> u32) option \<Rightarrow> io_view" where
  "order_view t ord filled st reason gw = OrderView t (oid ord) (account_id ord) (price ord) (quantity ord) filled (timestamp_ns ord)
     (side_code (side ord)) (type_code (otype ord)) st (symbol ord) reason gw"

definition reject_view :: "order \<Rightarrow> string \<Rightarrow> io_view" where
  "reject_view ord reason = order_view ORDER_REJECTED ord 0 (status_code REJECTED) (cstr (strncpy 255 reason)) None"

definition wire_line :: "order \<Rightarrow> string" where
  "wire_line ord = order_line (oid ord) (symbol ord) (if is_buy ord then CHR ''B'' else CHR ''S'')
     (if otype ord = LIMIT then CHR ''L'' else CHR ''M'') (price ord) (quantity ord) (timestamp_ns ord)"

definition goes_out :: "order \<Rightarrow> bool" where
  "goes_out res \<longleftrightarrow> status res = NEW \<or> status res = PARTIAL"

definition result_view :: "order \<Rightarrow> io_view" where
  "result_view res = order_view (if 0 < filled_qty res then ORDER_FILLED else ORDER_ACCEPTED) res (filled_qty res) (status_code (status res)) ''''
     (if goes_out res then Some (wire_line res, of_nat (length (wire_line res))) else None)"

definition trade_view :: "trade \<Rightarrow> io_view" where
  "trade_view t = TradeView (trade_id t) (buy_order_id t) (sell_order_id t) (trade_price t) (trade_qty t) (trade_ts_ns t) (trade_symbol t)"

lemma is_buy_code: "(if is_buy ord then 0 else 1) = side_code (side ord)"
  by (cases "side ord") (simp_all add: is_buy_def side_code_def)

lemma is_limit_code: "(if otype ord = LIMIT then 0 else 1) = type_code (otype ord)"
  by (cases "otype ord") (simp_all add: type_code_def)

lemma reject_event_view: "event_view (reject_event ord reason e) = reject_view ord reason"
  by (simp add: event_view_def reject_event_def order_fields_def reject_view_def order_view_def is_buy_code is_limit_code)

lemma trade_event_view: "event_view (trade_event t e) = trade_view t"
  by (simp add: event_view_def trade_event_def trade_view_def)

lemma result_event_view:
  assumes "send = goes_out res" and "send \<longrightarrow> msg = wire_line res \<and> len = of_nat (length (wire_line res))" and "length (wire_line res) < 4294967296"
  shows "event_view (result_event res send msg len e) = result_view res"
proof -
  have "unat len = length (wire_line res)" if send using that assms(2,3) by (simp add: unat_of_nat_u32)
  then show ?thesis using assms(1,2)
    by (auto simp: event_view_def result_event_def order_fields_def result_view_def order_view_def is_buy_code is_limit_code Let_def memcpy_str_def)
qed

section \<open>Posting events\<close>

text \<open>\<open>posted vs c c'\<close>: the events \<open>vs\<close> have been queued, as many of them as there were free entries.\<close>

definition posted :: "io_view list \<Rightarrow> io_event channel \<Rightarrow> io_event channel \<Rightarrow> bool" where
  "posted vs c c' \<longleftrightarrow> map event_view (queued c') = map event_view (queued c) @ take (length (free_entries c)) vs
     \<and> length (free_entries c') = length (free_entries c) - length vs"

definition drop_stats :: "nat \<Rightarrow> pipeline_stats \<Rightarrow> pipeline_stats" where
  "drop_stats n s = s\<lparr>io_events_dropped := io_events_dropped s + of_nat n\<rparr>"

lemma posted_append: "posted vs c c1 \<Longrightarrow> posted ws c1 c2 \<Longrightarrow> posted (vs @ ws) c c2"
  by (simp add: posted_def)

lemma drop_stats_simps [simp]: "drop_stats 0 s = s" "drop_stats n (drop_stats m s) = drop_stats (m + n) s"
  by (simp_all add: drop_stats_def)

lemma emit_posts:
  assumes "chan_ok xs (io_chan p)" and "\<And>e. event_view (f e) = v"
  shows "\<exists>c. emit f p = Some (p\<lparr>io_chan := c, p_stats := drop_stats (1 - length (free_entries (io_chan p))) (p_stats p)\<rparr>)
    \<and> chan_ok xs c \<and> posted [v] (io_chan p) c"
proof (cases "free_entries (io_chan p) = []")
  case True
  then show ?thesis using chan_send_spec [OF assms(1), of f] assms(1)
    by (intro exI [of _ "io_chan p"]) (simp add: emit_def count_def Let_def drop_stats_def posted_def)
next
  case False
  then obtain c where "chan_send f (io_chan p) = Some (True, c)" "chan_ok xs c" "free_entries c = tl (free_entries (io_chan p))"
      "queued c = queued (io_chan p) @ [f (entries (io_chan p) (hd (free_entries (io_chan p))))]"
    using chan_send_spec [OF assms(1), of f] by auto
  then show ?thesis using False assms(2)
    by (intro exI [of _ c]) (cases "free_entries (io_chan p)"; simp add: emit_def Let_def posted_def)
qed

lemma emit_trades_posts:
  "chan_ok xs (io_chan p) \<Longrightarrow> \<exists>c. emit_trades ts p = Some (p\<lparr>io_chan := c,
      p_stats := drop_stats (length ts - length (free_entries (io_chan p))) ((p_stats p)\<lparr>trades_generated := trades_generated (p_stats p) + of_nat (length ts)\<rparr>)\<rparr>)
    \<and> chan_ok xs c \<and> posted (map trade_view ts) (io_chan p) c"
proof (induction ts arbitrary: p)
  case Nil
  then show ?case by (intro exI [of _ "io_chan p"]) (simp add: posted_def)
next
  case (Cons t ts)
  let ?p = "count (\<lambda>s. s\<lparr>trades_generated := trades_generated s + 1\<rparr>) p"
  have "chan_ok xs (io_chan ?p)" using Cons.prems by (simp add: count_def)
  from emit_posts [OF this, of "trade_event t" "trade_view t", OF trade_event_view] obtain c where
    1: "emit (trade_event t) ?p = Some (?p\<lparr>io_chan := c, p_stats := drop_stats (1 - length (free_entries (io_chan ?p))) (p_stats ?p)\<rparr>)" (is "_ = Some ?q")
      "chan_ok xs c" "posted [trade_view t] (io_chan p) c" by (auto simp: count_def)
  have "chan_ok xs (io_chan ?q)" using 1(2) by simp
  from Cons.IH [OF this] obtain c' where
    2: "emit_trades ts ?q = Some (?q\<lparr>io_chan := c',
      p_stats := drop_stats (length ts - length (free_entries c)) ((p_stats ?q)\<lparr>trades_generated := trades_generated (p_stats ?q) + of_nat (length ts)\<rparr>)\<rparr>)"
      "chan_ok xs c'" "posted (map trade_view ts) c c'" by auto
  have "length (free_entries c) = length (free_entries (io_chan p)) - 1" using 1(3) by (simp add: posted_def)
  moreover have "of_nat (1 - n) + (of_nat (m - (n - 1)) :: u64) = of_nat (Suc m - n)" for m n by (cases n) simp_all
  ultimately show ?case using 1(1) 2(1,2) posted_append [OF 1(3) 2(3)]
    by (intro exI [of _ c']) (simp add: count_def drop_stats_def algebra_simps)
qed

section \<open>The specification of the hot path\<close>

definition decide :: "clock \<Rightarrow> order \<Rightarrow> order_book \<times> risk_engine \<Rightarrow> (order \<times> trade list) option \<times> order_book \<times> risk_engine" where
  "decide clk ord s =
     (let (b, e) = s; mid = mid_price b; (ok, e1) = validate (clock_sec clk) ord mid e
      in if \<not> ok then (None, b, e1)
         else let (res, b1) = add_order (clock_trade clk) ord b;
                  (ts, b2) = drain_trades b1;
                  e2 = (if 0 < filled_qty res
                        then on_order_executed res (filled_qty res) (if d_lt 0 (price res) then price res else mid) e1 else e1)
              in (Some (res, ts), b2, e2))"

definition decision_views :: "order \<Rightarrow> (order \<times> trade list) option \<times> order_book \<times> risk_engine \<Rightarrow> io_view list" where
  "decision_views ord d = (case fst d of None \<Rightarrow> [reject_view ord (last_reject (snd (snd d)))]
     | Some (res, ts) \<Rightarrow> result_view res # map trade_view ts)"

definition decision_stats :: "(order \<times> trade list) option \<Rightarrow> pipeline_stats \<Rightarrow> pipeline_stats" where
  "decision_stats d s = (case d of
     None \<Rightarrow> s\<lparr>orders_created := orders_created s + 1, orders_rejected := orders_rejected s + 1\<rparr>
   | Some (res, ts) \<Rightarrow> s\<lparr>orders_created := orders_created s + 1, orders_accepted := orders_accepted s + 1,
       trades_generated := trades_generated s + of_nat (length ts),
       orders_executed := orders_executed s + (if goes_out res then 1 else 0)\<rparr>)"

section \<open>An order through the hot path\<close>

text \<open>The orders the hot path may be given.\<close>

definition submittable :: "order \<Rightarrow> bool" where
  "submittable ord \<longleftrightarrow> order_ok ord \<and> in_s32 (oid ord) \<and> in_s32 (quantity ord) \<and> length (symbol ord) \<le> 16"

lemma add_order_frame:
  assumes "book_inv b" and "order_ok ord" and "add_order now ord b = (res, b')"
  shows "symbol res = symbol ord" "account_id res = account_id ord" "timestamp_ns res = timestamp_ns ord" "is_buy res = is_buy ord"
proof -
  obtain r b1 where run: "match_limit_order now ord b = (r, b1)" by (cases "match_limit_order now ord b")
  have "res = r \<or> res = r\<lparr>status := PARTIAL\<rparr>" using assms(3) add_order_book(2) [OF run] by (auto split: if_splits)
  then show "symbol res = symbol ord" "account_id res = account_id ord" "timestamp_ns res = timestamp_ns ord" "is_buy res = is_buy ord"
    using match_result(1) [OF assms(1,2) run] add_order_result(4) [OF assms] by (auto simp: final_status_def is_buy_def)
qed

lemma gateway_line_ok: "in_s32 (oid ord) \<Longrightarrow> in_s32 (quantity ord) \<Longrightarrow> length (symbol ord) \<le> 16 \<Longrightarrow> gateway_line ord = (0, Some (wire_line ord))"
  by (simp add: gateway_line_def wire_line_def gw_serialize_order_ok)

lemma length_wire_line: "in_s32 (oid ord) \<Longrightarrow> in_s32 (quantity ord) \<Longrightarrow> length (symbol ord) \<le> 16 \<Longrightarrow> length (wire_line ord) \<le> 395"
  unfolding wire_line_def by (rule length_order_line)

lemma cstr_wire_line [simp]: "cstr (wire_line ord) = wire_line ord"
  unfolding wire_line_def by (rule cstr_no_nul) (rule nul_not_in_order_line)

text \<open>Updates of different fields commute; the counters last.\<close>

lemma stats_last: "p\<lparr>p_stats := s, p_book := b\<rparr> = p\<lparr>p_book := b, p_stats := s\<rparr>" "p\<lparr>p_stats := s, io_chan := c\<rparr> = p\<lparr>io_chan := c, p_stats := s\<rparr>"
  "p\<lparr>p_stats := s, p_risk := e\<rparr> = p\<lparr>p_risk := e, p_stats := s\<rparr>" "p\<lparr>p_stats := s, p_feed := fh\<rparr> = p\<lparr>p_feed := fh, p_stats := s\<rparr>"
  by simp_all

lemma process_order_rejected:
  assumes "chan_ok xs (io_chan p)" and "validate (clock_sec clk) ord (mid_price (p_book p)) (p_risk p) = (False, e)"
  shows "\<exists>c. process_order clk ord p = Some (p\<lparr>p_risk := e, io_chan := c,
      p_stats := drop_stats (1 - length (free_entries (io_chan p))) (decision_stats None (p_stats p))\<rparr>)
    \<and> chan_ok xs c \<and> posted [reject_view ord (last_reject e)] (io_chan p) c"
proof -
  let ?p = "p\<lparr>p_risk := e, p_stats := decision_stats None (p_stats p)\<rparr>"
  have "chan_ok xs (io_chan ?p)" using assms(1) by simp
  from emit_posts [OF this, of "reject_event ord (last_reject e)" "reject_view ord (last_reject e)", OF reject_event_view] assms(2)
  show ?thesis by (simp add: process_order_def Let_def count_def decision_stats_def)
qed

lemma process_order_accepted:
  assumes "chan_ok xs (io_chan p)" and v: "validate (clock_sec clk) ord (mid_price (p_book p)) (p_risk p) = (True, e)"
    and "book_inv (p_book p)" and "submittable ord"
    and a: "add_order (clock_trade clk) ord (p_book p) = (res, b1)" and d: "drain_trades b1 = (ts, b2)"
  shows "\<exists>c. process_order clk ord p = Some (p\<lparr>p_book := b2, p_risk := (if 0 < filled_qty res
        then on_order_executed res (filled_qty res) (if d_lt 0 (price res) then price res else mid_price (p_book p)) e else e), io_chan := c,
      p_stats := drop_stats (Suc (length ts) - length (free_entries (io_chan p))) (decision_stats (Some (res, ts)) (p_stats p))\<rparr>)
    \<and> chan_ok xs c \<and> posted (result_view res # map trade_view ts) (io_chan p) c"
proof -
  have ord: "order_ok ord" "in_s32 (oid ord)" "in_s32 (quantity ord)" "length (symbol ord) \<le> 16"
    using assms(4) by (simp_all add: submittable_def)
  note res = add_order_result [OF assms(3) ord(1) a] add_order_frame [OF assms(3) ord(1) a]
  have line: "gateway_line res = (0, Some (wire_line res))" "length (wire_line res) \<le> 395"
    using gateway_line_ok [of res] length_wire_line [of res] ord res by simp_all
  let ?msg = "if goes_out res then wire_line res else ''''" and ?len = "if goes_out res then of_nat (length (wire_line res)) else (0 :: u32)"
  let ?s = "(p_stats p)\<lparr>orders_created := orders_created (p_stats p) + 1, orders_accepted := orders_accepted (p_stats p) + 1,
      orders_executed := orders_executed (p_stats p) + (if goes_out res then 1 else 0)\<rparr>"
  let ?p = "p\<lparr>p_risk := e, p_book := b1, p_stats := ?s\<rparr>"
  have "chan_ok xs (io_chan ?p)" using assms(1) by simp
  moreover have "\<And>x. event_view (result_event res (goes_out res) ?msg ?len x) = result_view res"
    by (rule result_event_view) (use line in auto)
  ultimately obtain c1 where
    1: "emit (result_event res (goes_out res) ?msg ?len) ?p = Some (?p\<lparr>io_chan := c1,
        p_stats := drop_stats (1 - length (free_entries (io_chan p))) ?s\<rparr>)" "chan_ok xs c1" "posted [result_view res] (io_chan p) c1"
    using emit_posts [of xs ?p "result_event res (goes_out res) ?msg ?len" "result_view res"] by auto
  let ?q = "?p\<lparr>io_chan := c1, p_stats := drop_stats (1 - length (free_entries (io_chan p))) ?s, p_book := b2\<rparr>"
  have "chan_ok xs (io_chan ?q)" using 1(2) by simp
  from emit_trades_posts [OF this, of ts] obtain c where
    2: "emit_trades ts ?q = Some (?q\<lparr>io_chan := c, p_stats := drop_stats (length ts - length (free_entries c1))
        ((p_stats ?q)\<lparr>trades_generated := trades_generated (p_stats ?q) + of_nat (length ts)\<rparr>)\<rparr>)"
      "chan_ok xs c" "posted (map trade_view ts) c1 c" by auto
  have k: "length (free_entries c1) = length (free_entries (io_chan p)) - 1" using 1(3) by (simp add: posted_def)
  have n': "of_nat (Suc 0 - n) + (of_nat (m - (n - Suc 0)) :: u64) = of_nat (Suc m - n)" for m n by (cases n) simp_all
  have run: "process_order clk ord p = (case emit_trades ts ?q of None \<Rightarrow> None | Some p' \<Rightarrow> Some (if 0 < filled_qty res
      then p'\<lparr>p_risk := on_order_executed res (filled_qty res) (if d_lt 0 (price res) then price res else mid_price (p_book p)) (p_risk p')\<rparr> else p'))"
  proof (cases "goes_out res")
    case True
    then show ?thesis using 1(1) v a d line(1)
      by (simp add: process_order_def Let_def count_def goes_out_def split: option.split)
  next
    case False
    then show ?thesis using 1(1) v a d
      by (simp add: process_order_def Let_def count_def goes_out_def stats_last split: option.split)
  qed
  show ?thesis using 2(1,2) posted_append [OF 1(3) 2(3)] unfolding run
    by (intro exI [of _ c]) (simp add: drop_stats_def decision_stats_def k n' add.assoc)
qed

lemma process_order_spec:
  assumes "chan_ok xs (io_chan p)" and "book_inv (p_book p)" and "submittable ord"
    and "decide clk ord (p_book p, p_risk p) = (d, b', e')"
  shows "\<exists>c. process_order clk ord p = Some (p\<lparr>p_book := b', p_risk := e', io_chan := c,
      p_stats := drop_stats (length (decision_views ord (d, b', e')) - length (free_entries (io_chan p))) (decision_stats d (p_stats p))\<rparr>)
    \<and> chan_ok xs c \<and> posted (decision_views ord (d, b', e')) (io_chan p) c"
proof (cases "validate (clock_sec clk) ord (mid_price (p_book p)) (p_risk p)")
  case (Pair ok e)
  show ?thesis
  proof (cases ok)
    case False
    with Pair assms(4) have "d = None" "b' = p_book p" "e' = e" by (auto simp: decide_def)
    with process_order_rejected [OF assms(1), of clk ord e] Pair False show ?thesis by (simp add: decision_views_def)
  next
    case True
    obtain res b1 where a: "add_order (clock_trade clk) ord (p_book p) = (res, b1)" by fastforce
    obtain ts b2 where t: "drain_trades b1 = (ts, b2)" by fastforce
    have "d = Some (res, ts)" "b' = b2" "e' = (if 0 < filled_qty res
        then on_order_executed res (filled_qty res) (if d_lt 0 (price res) then price res else mid_price (p_book p)) e else e)"
      using Pair True a t assms(4) by (auto simp: decide_def)
    with process_order_accepted [OF assms(1) _ assms(2,3) a t] Pair True show ?thesis by (simp add: decision_views_def)
  qed
qed

section \<open>What a decision keeps\<close>

lemma decide_cases:
  assumes "decide clk ord (b, e) = (d, b', e')"
  obtains (rejected) "d = None" "b' = b" "e' = snd (validate (clock_sec clk) ord (mid_price b) e)" "\<not> fst (validate (clock_sec clk) ord (mid_price b) e)"
    | (accepted) res b1 ts e1 pr where "validate (clock_sec clk) ord (mid_price b) e = (True, e1)"
      "add_order (clock_trade clk) ord b = (res, b1)" "drain_trades b1 = (ts, b')" "d = Some (res, ts)"
      "e' = (if 0 < filled_qty res then on_order_executed res (filled_qty res) pr e1 else e1)"
  using assms that by (auto simp: decide_def Let_def split: prod.splits if_splits)

lemma decide_book:
  assumes "decide clk ord (b, e) = (d, b', e')" and "book_inv b" and "order_ok ord" and "\<not> is_nan (price ord)"
  shows "book_inv b'"
  using assms(1)
proof (cases rule: decide_cases)
  case (accepted res b1 ts e1 pr)
  then have "b' = snd (drain_trades (snd (add_order (clock_trade clk) ord b)))" by (metis snd_conv)
  then show ?thesis using add_order_inv_aux(1) [OF assms(2,3)] assms(4) by (simp add: drain_trades_inv_aux good_price_def)
qed (use assms in simp)

lemma decide_risk:
  assumes "decide clk ord (b, e) = (d, b', e')" and "risk_history L e" and "book_inv b" and "order_ok ord"
  shows "risk_history L e'"
  using assms(1)
proof (cases rule: decide_cases)
  case rejected
  then show ?thesis using risk_validate [OF assms(2)] by simp
next
  case (accepted res b1 ts e1 pr)
  have e1: "e1 = snd (validate (clock_sec clk) ord (mid_price b) e)" using accepted(1) by simp
  have "order_ok res" "quantity res = quantity ord" using add_order_effect(4) [OF assms(3,4) accepted(2)] add_order_result [OF assms(3,4) accepted(2)] by auto
  then have q: "filled_qty res \<le> quantity ord" by (simp add: order_ok_def)
  have "on_order_executed res q pr e1 = on_order_executed ord q pr e1" for q
    using add_order_frame [OF assms(3,4) accepted(2)] by (simp add: on_order_executed_def)
  then show ?thesis
    using accepted(5) risk_trade [OF assms(2) accepted(1), of "filled_qty res" pr] risk_validate [OF assms(2)] q e1 by auto
qed

text \<open>The ids resting in a book, and where they come from.\<close>

definition resting_ids :: "order_book \<Rightarrow> int set" where
  "resting_ids b = oid ` snd ` set (book_entries b)"

lemma resting_ids_sig: "resting_ids b = snd ` set (book_sig b)"
  by (simp add: resting_ids_def book_sig_entries snd_sig_of)

lemma resting_ids_rest: "oid entry = oid res \<Longrightarrow> resting_ids (rest_order entry res b) \<subseteq> insert (oid res) (resting_ids b)"
proof -
  assume "oid entry = oid res"
  moreover have "set (level_entries (map_alter lt k (\<lambda>l. l @ [e]) [] m)) = insert e (set (level_entries m))" for lt k m and e :: "node \<times> order"
    using mset_entries_alter [of lt k e m] by (metis set_mset_add_mset_insert set_mset_mset)
  ultimately show ?thesis by (auto simp: resting_ids_def book_entries_def rest_order_def Let_def)
qed

lemma add_order_ids:
  assumes "book_inv b" and "order_ok ord"
  shows "resting_ids (snd (add_order now ord b)) \<subseteq> insert (oid ord) (resting_ids b)"
proof -
  obtain r b1 where run: "match_limit_order now ord b = (r, b1)" by (cases "match_limit_order now ord b")
  have "resting_ids b1 \<subseteq> resting_ids b" using match_limit_order_inv(3) [OF assms run] by (simp add: resting_ids_sig)
  moreover have "oid r = oid ord" using match_result(1) [OF assms run] by simp
  ultimately show ?thesis using resting_ids_rest [of "r\<lparr>status := s\<rparr>" r b1 for s] unfolding add_order_book(1) [OF run]
    by (auto split: if_splits)
qed

lemma decide_history:
  assumes "decide clk ord (b, e) = (d, b', e')" and "book_history True s b" and "order_ok ord" and "\<not> is_nan (price ord)"
    and "oid ord \<notin> resting_ids b"
  shows "book_history True s b' \<and> resting_ids b' \<subseteq> insert (oid ord) (resting_ids b)"
  using assms(1)
proof (cases rule: decide_cases)
  case (accepted res b1 ts e1 pr)
  then have b': "b' = snd (drain_trades (snd (add_order (clock_trade clk) ord b)))" by (metis snd_conv)
  have "book_history True s (snd (add_order (clock_trade clk) ord b))"
    by (rule book_history_add [OF assms(2-4)]) (use assms(5) in \<open>simp add: resting_ids_def\<close>)
  from history_step [OF this step_drain] have "book_history True s b'" by (simp add: b')
  moreover have "resting_ids b' = resting_ids (snd (add_order (clock_trade clk) ord b))"
    by (simp add: b' resting_ids_def book_entries_def)
  ultimately show ?thesis using add_order_ids [OF book_history_inv [OF assms(2)] assms(3)] by auto
qed (use assms in auto)

section \<open>A message through the hot path\<close>

fun decide_all :: "(nat \<Rightarrow> clock) \<Rightarrow> nat \<Rightarrow> order list \<Rightarrow> order_book \<times> risk_engine \<Rightarrow>
    io_view list \<times> (order \<times> trade list) option list \<times> order_book \<times> risk_engine" where
  "decide_all clk k [] s = ([], [], s)"
| "decide_all clk k (ord # ords) s =
     (let d = decide (clk k) ord s; (vs, ds, s') = decide_all clk (Suc k) ords (snd d)
      in (decision_views ord d @ vs, fst d # ds, s'))"

lemma drop_decision: "decision_stats d (drop_stats n s) = drop_stats n (decision_stats d s)"
  by (simp add: drop_stats_def decision_stats_def split: option.split)

lemma drop_decisions: "fold decision_stats ds (drop_stats n s) = drop_stats n (fold decision_stats ds s)"
  by (induction ds arbitrary: s) (simp_all add: drop_decision)

lemma drops_add: "(a - n) + (b - (n - a)) = a + b - (n :: nat)"
  by arith

lemma process_orders_spec:
  assumes "chan_ok xs (io_chan p)" and "book_inv (p_book p)" and "\<forall>ord \<in> set ords. submittable ord \<and> \<not> is_nan (price ord)"
    and "decide_all clk k ords (p_book p, p_risk p) = (vs, ds, b', e')"
  shows "\<exists>c. process_orders clk k ords p = Some (p\<lparr>p_book := b', p_risk := e', io_chan := c,
      p_stats := drop_stats (length vs - length (free_entries (io_chan p))) (fold decision_stats ds (p_stats p))\<rparr>)
    \<and> chan_ok xs c \<and> posted vs (io_chan p) c \<and> book_inv b'"
  using assms
proof (induction ords arbitrary: k p vs ds)
  case Nil
  then show ?case by (intro exI [of _ "io_chan p"]) (simp add: posted_def)
next
  case (Cons ord ords)
  obtain d b1 e1 where d: "decide (clk k) ord (p_book p, p_risk p) = (d, b1, e1)" by (rule prod_cases3)
  obtain ws es where r: "decide_all clk (Suc k) ords (b1, e1) = (ws, es, b', e')"
    and vs: "vs = decision_views ord (d, b1, e1) @ ws" "ds = d # es"
    using Cons.prems(4) d by (auto simp: Let_def split: prod.splits)
  have sub: "submittable ord" "\<not> is_nan (price ord)" using Cons.prems(3) by simp_all
  let ?v = "decision_views ord (d, b1, e1)"
  from process_order_spec [OF Cons.prems(1,2) sub(1) d] obtain c where
    1: "process_order (clk k) ord p = Some (p\<lparr>p_book := b1, p_risk := e1, io_chan := c,
      p_stats := drop_stats (length ?v - length (free_entries (io_chan p))) (decision_stats d (p_stats p))\<rparr>)" (is "_ = Some ?q")
      "chan_ok xs c" "posted ?v (io_chan p) c" by blast
  have inv: "book_inv b1" by (rule decide_book [OF d Cons.prems(2)]) (use sub in \<open>simp_all add: submittable_def\<close>)
  obtain c' where
    2: "process_orders clk (Suc k) ords ?q = Some (?q\<lparr>p_book := b', p_risk := e', io_chan := c',
      p_stats := drop_stats (length ws - length (free_entries c)) (fold decision_stats es (p_stats ?q))\<rparr>)"
      "chan_ok xs c'" "posted ws c c'" "book_inv b'"
    using Cons.IH [of ?q "Suc k" ws es] 1(2) inv Cons.prems(3) r by auto
  have "length (free_entries c) = length (free_entries (io_chan p)) - length ?v" using 1(3) by (simp add: posted_def)
  then have "drop_stats (length ws - length (free_entries c)) (fold decision_stats es (p_stats ?q))
      = drop_stats (length vs - length (free_entries (io_chan p))) (fold decision_stats ds (p_stats p))"
    by (simp add: drop_decisions vs drops_add)
  then show ?case using 1(1) 2(1,2,4) posted_append [OF 1(3) 2(3)] by (intro exI [of _ c']) (simp add: vs(1))
qed

text \<open>Messages whose prices make proper orders.\<close>

definition buy_price :: "feed_msg \<Rightarrow> double" where
  "buy_price m = d_sub (d_div (d_add (bid_price m) (ask_price m)) (d_lit 2 1)) (d_mul (d_sub (ask_price m) (bid_price m)) (d_lit 1 10))"

definition sell_price :: "feed_msg \<Rightarrow> double" where
  "sell_price m = d_add (d_div (d_add (bid_price m) (ask_price m)) (d_lit 2 1)) (d_mul (d_sub (ask_price m) (bid_price m)) (d_lit 1 10))"

definition tradable :: "feed_msg \<Rightarrow> bool" where
  "tradable m \<longleftrightarrow> \<not> is_nan (buy_price m) \<and> \<not> is_nan (sell_price m) \<and> length (msg_symbol m) \<le> 16"

lemma strategy_eq: "strategy_on_market_data m p =
    ([strategy_order (next_order_id p) BUY (buy_price m) m, strategy_order (s32 (next_order_id p + 1)) SELL (sell_price m) m],
     p\<lparr>next_order_id := s32 (s32 (next_order_id p + 1) + 1)\<rparr>)"
  by (simp add: strategy_on_market_data_def generate_order_id_def Let_def buy_price_def sell_price_def)

lemma strategy_order_simps [simp]:
  "oid (strategy_order i s pr m) = i" "price (strategy_order i s pr m) = pr" "quantity (strategy_order i s pr m) = 100"
  "filled_qty (strategy_order i s pr m) = 0" "side (strategy_order i s pr m) = s" "otype (strategy_order i s pr m) = LIMIT"
  "symbol (strategy_order i s pr m) = msg_symbol m" "order_ok (strategy_order i s pr m)"
  by (simp_all add: strategy_order_def empty_order_def order_ok_def)

lemma strategy_order_submittable: "in_s32 i \<Longrightarrow> length (msg_symbol m) \<le> 16 \<Longrightarrow> submittable (strategy_order i s pr m)"
  by (simp add: submittable_def) (simp add: in_s32_def)

text \<open>The whole effect of a message.\<close>

lemma process_market_data_spec:
  assumes "chan_ok xs (io_chan p)" and "book_inv (p_book p)" and "feed_ok (a # hl) (p_feed p)"
    and "in_s32 (next_order_id p)" and "tradable (msgs (p_feed p) a)"
    and "strategy_on_market_data (msgs (p_feed p) a) p = (ords, p1)"
    and "decide_all clk 0 ords (p_book p, p_risk p) = (vs, ds, b', e')"
  shows "\<exists>c mp. process_market_data clk t0 t1 a p = Some (p\<lparr>p_book := b', p_risk := e', p_feed := (p_feed p)\<lparr>msg_pool := mp\<rparr>, io_chan := c,
      p_stats := update_latency t0 t1 (drop_stats (length vs - length (free_entries (io_chan p)))
        (fold decision_stats ds ((p_stats p)\<lparr>market_data_msgs := market_data_msgs (p_stats p) + 1\<rparr>))),
      next_order_id := s32 (s32 (next_order_id p + 1) + 1)\<rparr>)
    \<and> chan_ok xs c \<and> posted vs (io_chan p) c \<and> book_inv b' \<and> mempool_free (msg_pool (p_feed p)) a = Some mp \<and> feed_ok hl ((p_feed p)\<lparr>msg_pool := mp\<rparr>)"
proof -
  have a0: "a \<noteq> 0" using feed_ok_not_null [OF assms(3)] by auto
  from feed_free [OF assms(3)] obtain mp where
    mp: "mempool_free (msg_pool (p_feed p)) a = Some mp" "feed_ok hl ((p_feed p)\<lparr>msg_pool := mp\<rparr>)" by blast
  let ?m = "msgs (p_feed p) a" and ?n = "next_order_id p"
  let ?p = "(count (\<lambda>s. s\<lparr>market_data_msgs := market_data_msgs s + 1\<rparr>) p)\<lparr>next_order_id := s32 (s32 (?n + 1) + 1)\<rparr>"
  have ords: "strategy_on_market_data ?m (count (\<lambda>s. s\<lparr>market_data_msgs := market_data_msgs s + 1\<rparr>) p) = (ords, ?p)"
    using assms(6) by (simp add: strategy_eq count_def)
  have sub: "\<forall>ord \<in> set ords. submittable ord \<and> \<not> is_nan (price ord)"
    using assms(4-6) by (auto simp: strategy_eq tradable_def intro!: strategy_order_submittable)
  have 1: "chan_ok xs (io_chan ?p)" "book_inv (p_book ?p)" "decide_all clk 0 ords (p_book ?p, p_risk ?p) = (vs, ds, b', e')"
    using assms(1,2,7) by (simp_all add: count_def)
  from process_orders_spec [OF 1(1,2) sub 1(3)] obtain c where
    c: "process_orders clk 0 ords ?p = Some (?p\<lparr>p_book := b', p_risk := e', io_chan := c,
      p_stats := drop_stats (length vs - length (free_entries (io_chan ?p))) (fold decision_stats ds (p_stats ?p))\<rparr>)"
      "chan_ok xs c" "posted vs (io_chan ?p) c" "book_inv b'" by blast
  show ?thesis using a0 ords c mp
    by (intro exI [of _ c] exI [of _ mp]) (simp add: process_market_data_def Let_def feed_return_msg_def count_def)
qed

section \<open>The strategy's quotes\<close>

lemma d_within_between:
  assumes "d_le l x" "d_le x u" "d_within a l a'" "d_within c u d" and "\<bar>a\<bar> < 2 ^ 53" "\<bar>d\<bar> < 2 ^ 53"
  shows "d_within a x d"
  by (rule d_withinI) (use assms in \<open>auto simp: d_within_def d_le_def\<close>)

lemma d_within_nonneg: "d_within a x b \<Longrightarrow> 0 \<le> d_int x \<Longrightarrow> d_within 0 x b"
  by (simp add: d_within_def)

lemma d_sub_le: "d_finite x \<Longrightarrow> d_finite y \<Longrightarrow> \<not> is_nan (d_sub x y) \<Longrightarrow> 0 \<le> d_int y \<Longrightarrow> d_le (d_sub x y) x"
  using rnd_le_double [of x 1 "d_int x - d_int y"] by (simp add: d_le_def d_int_sub)

lemma d_add_ge: "d_finite x \<Longrightarrow> d_finite y \<Longrightarrow> \<not> is_nan (d_add x y) \<Longrightarrow> 0 \<le> d_int y \<Longrightarrow> d_le x (d_add x y)"
  using double_le_rnd [of x 1 "d_int x + d_int y"] by (simp add: d_le_def d_int_add)

lemma strategy_prices:
  assumes "plausible m"
  defines "mid \<equiv> d_div (d_add (bid_price m) (ask_price m)) (d_lit 2 1)"
  shows "d_le (buy_price m) mid" "d_le mid (sell_price m)" "d_finite (buy_price m)" "d_finite (sell_price m)"
    "d_le (d_lit 9 1) (sell_price m)" "d_le (buy_price m) (d_lit 1001 1)"
proof -
  have lit: "d_within 2415919104 (d_lit 9 1) 2415919104" "d_within 2684354560 (d_lit 10 1) 2684354560"
      "d_within 268435456000 (d_lit 1000 1) 268435456000" "d_within 268703891456 (d_lit 1001 1) 268703891456"
      "d_within 536870912 (d_lit 2 1) 536870912" "d_within 26843545 (d_lit 1 10) 26843546"
    by (rule d_within_lit; simp)+
  have le: "d_le (d_lit 9 1) (bid_price m)" "d_le (bid_price m) (d_lit 1000 1)" "d_le (d_lit 10 1) (ask_price m)" "d_le (ask_price m) (d_lit 1001 1)"
      "d_le (bid_price m) (ask_price m)"
    using assms(1) by (auto simp: plausible_def d_le_def)
  have bid: "d_within 2415919104 (bid_price m) 268435456000" and ask: "d_within 2684354560 (ask_price m) 268703891456"
    using d_within_between [OF le(1,2) lit(1,3)] d_within_between [OF le(3,4) lit(2,4)] by simp_all
  have "d_within 5100273664 (d_add (bid_price m) (ask_price m)) 537139347456" using d_within_add [OF bid ask] by simp
  from d_within_div [OF this lit(5)] have mid: "d_within 2550136832 mid 268569673728" by (simp add: mid_def)
  have "d_within (- 265751101440) (d_sub (ask_price m) (bid_price m)) 266287972352" using d_within_sub [OF ask bid] by simp
  moreover have "0 \<le> d_int (d_sub (ask_price m) (bid_price m))"
    using bid ask le(5) by (simp add: d_int_sub d_within_def d_le_def rnd_nonneg)
  ultimately have sp: "d_within 0 (d_sub (ask_price m) (bid_price m)) 266287972352" by (rule d_within_nonneg)
  have off: "d_within 0 (d_mul (d_sub (ask_price m) (bid_price m)) (d_lit 1 10)) 26628797632"
    by (rule d_within_mul [OF sp lit(6)]) simp_all
  have w: "d_within (- 24078660800) (buy_price m) 268569673728" "d_within 2550136832 (sell_price m) 295198471360"
    using d_within_sub [OF mid off] d_within_add [OF mid off] by (simp_all add: buy_price_def sell_price_def mid_def)
  then show "d_finite (buy_price m)" "d_finite (sell_price m)" by (simp_all add: d_within_def)
  then have "\<not> is_nan (buy_price m)" "\<not> is_nan (sell_price m)" by simp_all
  moreover have "0 \<le> d_int (d_mul (d_sub (ask_price m) (bid_price m)) (d_lit 1 10))" using off by (simp add: d_within_def)
  moreover have "buy_price m = d_sub mid (d_mul (d_sub (ask_price m) (bid_price m)) (d_lit 1 10))"
    "sell_price m = d_add mid (d_mul (d_sub (ask_price m) (bid_price m)) (d_lit 1 10))" by (simp_all add: buy_price_def sell_price_def mid_def)
  ultimately show "d_le (buy_price m) mid" "d_le mid (sell_price m)"
    using d_sub_le [OF d_within_finite [OF mid] d_within_finite [OF off]] d_add_ge [OF d_within_finite [OF mid] d_within_finite [OF off]] by simp_all
  show "d_le (d_lit 9 1) (sell_price m)" by (rule d_within_le [OF lit(1) w(2)]) simp
  show "d_le (buy_price m) (d_lit 1001 1)" by (rule d_within_le [OF w(1) lit(4)]) simp
qed

lemma plausible_tradable: "plausible m \<Longrightarrow> tradable m"
  using strategy_prices [of m] by (auto simp: tradable_def plausible_def)

end
