(* ===== verification/Pipeline_IO_Path.thy ===== *)
theory Pipeline_IO_Path
  imports Pipeline_Hot_Path Journal_Properties
begin

text \<open>
  The I/O path: it never faults, and it writes one journal record of 52 bytes of payload for every event, whose type
  and payload are those of the event.
\<close>

section \<open>The journal under a stream of equal records\<close>

text \<open>\<open>journal_safe n j\<close>: \<open>n\<close> further records can be appended without a fault. A mapping that was lost by a failed
  extension is not written to before an extension succeeds, because every record has the same size. The mapping is
  never more than one extension ahead of the write position.\<close>

definition journal_safe :: "nat \<Rightarrow> journal \<Rightarrow> bool" where
  "journal_safe n j \<longleftrightarrow> (use_mmap j \<longrightarrow> (mapped j \<or> unat (mmap_size j) < unat (mmap_offset j) + 84)
     \<and> mmap_offset j \<le> mmap_size j \<and> unat (mmap_size j) \<le> length (content j)
     \<and> unat (mmap_size j) \<le> unat (mmap_offset j) + 268435540 \<and> unat (mmap_offset j) + n * 84 + 536870912 < 2 ^ 64)"

definition os_ok :: "os \<Rightarrow> bool" where
  "os_ok os \<longleftrightarrow> full_writes os \<and> (\<forall>n. ftruncate_ok os n) \<and> (\<forall>n. mmap_ok os n)"

lemma length_ftruncate: "length (ftruncate n f) = unat n"
  by (simp add: ftruncate_def)

lemma length_poke: "off + length bs \<le> length f \<Longrightarrow> length (poke off bs f) = length f"
  by (simp add: poke_def)

lemma u64_add_unat: "unat x + unat y < 2 ^ 64 \<Longrightarrow> unat (x + y :: u64) = unat x + unat y"
  by (simp add: unat_add_lem [symmetric])

lemma extend_mmap_spec:
  assumes "journal_safe (Suc n) j" and "use_mmap j" and "unat (mmap_size j) < unat (mmap_offset j) + 84"
  shows "\<exists>ok j'. extend_mmap os j = (ok, j') \<and> jsequence j' = jsequence j \<and> jbytes_written j' = jbytes_written j \<and> use_mmap j'
    \<and> mmap_offset j' = mmap_offset j \<and> journal_safe (Suc n) j' \<and> (os_ok os \<longrightarrow> ok)
    \<and> take (unat (mmap_offset j)) (content j') = take (unat (mmap_offset j)) (content j)
    \<and> (ok \<longrightarrow> mapped j' \<and> unat (mmap_offset j) + 84 \<le> unat (mmap_size j'))"
proof -
  let ?n = "mmap_size j + DEFAULT_MMAP_SIZE"
  have s: "mmap_offset j \<le> mmap_size j" "unat (mmap_size j) \<le> length (content j)" "unat (mmap_offset j) + Suc n * 84 + 536870912 < 2 ^ 64"
    using assms(1,2) by (simp_all add: journal_safe_def)
  have "unat ?n = unat (mmap_size j) + 268435456"
    unfolding DEFAULT_MMAP_SIZE_def using s(3) assms(3) u64_add_unat [of "mmap_size j" 268435456] by simp
  moreover have "unat (mmap_offset j) \<le> unat (mmap_size j)" using s(1) by (simp add: word_le_nat_alt)
  ultimately show ?thesis using assms s
    by (auto simp: extend_mmap_def Let_def journal_safe_def length_ftruncate os_ok_def word_le_nat_alt ftruncate_def min_def)
qed

text \<open>\<open>written old rs j\<close>: what precedes the write position of a mapped journal is \<open>old\<close>, followed by the records \<open>rs\<close>.\<close>

definition written :: "byte list \<Rightarrow> journal_record list \<Rightarrow> journal \<Rightarrow> bool" where
  "written old rs j \<longleftrightarrow> use_mmap j \<and> unat (mmap_offset j) \<le> length (content j)
     \<and> take (unat (mmap_offset j)) (content j) = old @ concat (map record_bytes rs)"

lemma written_poke:
  assumes "take off f = old @ concat (map record_bytes rs)" and "off + length (record_bytes r) \<le> length f"
  shows "take (off + length (record_bytes r)) (poke off (record_bytes r) f) = old @ concat (map record_bytes (rs @ [r]))"
proof -
  have "length (take off f) = off" using assms(2) by simp
  then have "take (off + length (record_bytes r)) (take off f @ record_bytes r @ rest) = take off f @ record_bytes r" for rest by simp
  then show ?thesis using assms(1) by (simp add: poke_def)
qed

lemma journal_append_safe:
  assumes "journal_safe (Suc n) j" and "length body = 52"
  shows "\<exists>r j'. journal_append os now t (Some body) 52 j = Some (r, j') \<and> journal_safe n j' \<and> use_mmap j' = use_mmap j
    \<and> jsequence j' = jsequence j + 1 \<and> (os_ok os \<longrightarrow> r = 0 \<and> jbytes_written j' = jbytes_written j + 84
      \<and> (\<forall>old rs. written old rs j \<longrightarrow> written old (rs @ [(build_header now t 52 (jsequence j) body, body)]) j'))"
proof (cases "use_mmap j")
  case False
  let ?h = "header_bytes (build_header now t 52 (jsequence j) body)"
  let ?w1 = "min (fwrite_hdr os 32) 32" and ?w2 = "min (fwrite_payload os 52) 52"
  show ?thesis using False assms(2)
    by (cases "?w1 = 32"; cases "?w2 = 52")
      (auto simp: journal_append_def Let_def payload_bytes_def journal_safe_def os_ok_def full_writes_def written_def)
next
  case True
  let ?j = "j\<lparr>jsequence := jsequence j + 1\<rparr>"
  have s: "mapped j \<or> unat (mmap_size j) < unat (mmap_offset j) + 84" "unat (mmap_offset j) + Suc n * 84 + 536870912 < 2 ^ 64"
    using assms(1) True by (simp_all add: journal_safe_def)
  have off: "unat (mmap_offset j + 84) = unat (mmap_offset j) + 84" using s(2) u64_add_unat [of "mmap_offset j" 84] by simp
  have put: "mapped k \<Longrightarrow> use_mmap k \<Longrightarrow> mmap_offset k = mmap_offset j \<Longrightarrow> unat (mmap_offset j) + 84 \<le> unat (mmap_size k) \<Longrightarrow> journal_safe (Suc n) k \<Longrightarrow>
      unat (mmap_offset k) + 32 + length body \<le> length (content k)
      \<and> journal_safe n (k\<lparr>content := poke (unat (mmap_offset k)) (header_bytes h @ body) (content k),
           mmap_offset := mmap_offset k + 84, jbytes_written := b\<rparr>)" for k h b
    using assms(2) off by (auto simp: journal_safe_def length_poke word_le_nat_alt)
  have wr: "written old (rs @ [(h, body)]) (k\<lparr>content := poke (unat (mmap_offset j)) (header_bytes h @ body) (content k), mmap_offset := mmap_offset j + 84, jbytes_written := b\<rparr>)"
    if "written old rs j" "use_mmap k" "take (unat (mmap_offset j)) (content k) = take (unat (mmap_offset j)) (content j)"
      "84 + unat (mmap_offset j) \<le> length (content k)" for old rs k h b
    using written_poke [of "unat (mmap_offset j)" "content k" old rs "(h, body)"] that off assms(2) by (simp add: written_def length_poke record_bytes_def)
  show ?thesis
  proof (cases "unat (mmap_size j) < unat (mmap_offset j) + 84")
    case ext: True
    have "journal_safe (Suc n) ?j" "use_mmap ?j" "unat (mmap_size ?j) < unat (mmap_offset ?j) + 84" using assms(1) True ext by (simp_all add: journal_safe_def)
    from extend_mmap_spec [OF this, of os] obtain ok k where
      k: "extend_mmap os ?j = (ok, k)" "jsequence k = jsequence j + 1" "jbytes_written k = jbytes_written j" "use_mmap k" "mmap_offset k = mmap_offset j"
        "journal_safe (Suc n) k" "os_ok os \<longrightarrow> ok" "ok \<longrightarrow> mapped k \<and> unat (mmap_offset j) + 84 \<le> unat (mmap_size k)"
        "take (unat (mmap_offset j)) (content k) = take (unat (mmap_offset j)) (content j)" by auto
    have k': "journal_safe n k" using k(6) by (auto simp: journal_safe_def)
    show ?thesis
    proof (cases ok)
      case False
      then show ?thesis using k k' True ext off assms(2) by (simp add: journal_append_def Let_def payload_bytes_def word_less_nat_alt)
    next
      case True
      then show ?thesis using k put [of k] wr [OF _ k(4,9)] \<open>use_mmap j\<close> ext off assms(2)
        by (simp add: journal_append_def Let_def payload_bytes_def word_less_nat_alt)
    qed
  next
    case False
    have "journal_safe (Suc n) ?j" using assms(1) by (auto simp: journal_safe_def)
    then show ?thesis using put [of ?j] wr [of _ _ ?j] True False s(1) off assms(2)
      by (simp add: journal_append_def Let_def payload_bytes_def word_less_nat_alt)
  qed
qed

section \<open>One event\<close>

definition journal_ok :: "nat \<Rightarrow> journal option \<Rightarrow> bool" where
  "journal_ok n jo = (case jo of None \<Rightarrow> True | Some j \<Rightarrow> journal_safe n j)"

text \<open>The record that the I/O path makes of an event: type and payload.\<close>

fun view_record :: "io_view \<Rightarrow> journal_record_type \<times> byte list" where
  "view_record (OrderView t i a pr q fl ts sd ot st sm reason gw) =
     (case t of ORDER_REJECTED \<Rightarrow> JRNL_ORDER_REJECT | ORDER_ACCEPTED \<Rightarrow> JRNL_ORDER_NEW | _ \<Rightarrow> JRNL_ORDER_FILLED,
      order_payload_bytes \<lparr>jo_order_id = of_int i, jo_account_id = of_int a, jo_price = pr, jo_quantity = of_int q,
        jo_filled_qty = of_int (if t = ORDER_REJECTED then 0 else fl), jo_order_ts_ns = ts, jo_side = sd, jo_order_type = ot,
        jo_status = (if t = ORDER_REJECTED then status_code REJECTED else st), jo_pad = 0, jo_symbol = symbol_field [] (Some sm)\<rparr>)"
| "view_record (TradeView i b s pr q ts sm) =
     (JRNL_TRADE, trade_payload_bytes \<lparr>jt_trade_id = of_int i, jt_buy_order_id = of_int b, jt_sell_order_id = of_int s, jt_price = pr,
        jt_quantity = of_int q, jt_trade_ts_ns = ts, jt_symbol = symbol_field [] (Some sm), jt_pad = replicate 4 0\<rparr>)"

text \<open>The entries \<open>es\<close>, with their times, have been appended; \<open>ok\<close> tells whether the system wrote them all.\<close>

definition journal_grows :: "(u64 \<times> journal_record_type \<times> byte list) list \<Rightarrow> bool \<Rightarrow> journal option \<Rightarrow> journal option \<Rightarrow> bool" where
  "journal_grows es ok jo jo' \<longleftrightarrow> (case jo of None \<Rightarrow> jo' = None
     | Some j \<Rightarrow> \<exists>j'. jo' = Some j' \<and> jsequence j' = jsequence j + of_nat (length es)
         \<and> (ok \<longrightarrow> jbytes_written j' = jbytes_written j + 84 * of_nat (length es)
              \<and> (\<forall>old rs. written old rs j \<longrightarrow> written old (rs @ expected_records (jsequence j) es) j')))"

lemma journal_grows_refl [simp]: "journal_grows [] ok jo jo"
  by (simp add: journal_grows_def split: option.split)

lemma expected_records_append: "expected_records sq (es @ fs) = expected_records sq es @ expected_records (sq + of_nat (length es)) fs"
  by (induction es arbitrary: sq) (auto simp: algebra_simps)

lemma journal_grows_trans: "journal_grows es ok jo jo1 \<Longrightarrow> journal_grows fs ok jo1 jo2 \<Longrightarrow> journal_grows (es @ fs) ok jo jo2"
  by (auto simp: journal_grows_def expected_records_append algebra_simps simp flip: append_assoc split: option.splits)

lemma journal_grows_weaken: "journal_grows es ok jo jo' \<Longrightarrow> (ok' \<Longrightarrow> ok) \<Longrightarrow> journal_grows es ok' jo jo'"
  by (auto simp: journal_grows_def split: option.splits)

definition event_entry :: "io_env \<Rightarrow> io_event \<Rightarrow> u64 \<times> journal_record_type \<times> byte list" where
  "event_entry env ev = (io_jrnl_now env, view_record (event_view ev))"

lemma length_le_bytes_sum: "length (symbol_field junk (Some s)) = 16"
  by (simp add: symbol_field_def)

lemma pl_log_ok: "log_ok (p_logger p) \<Longrightarrow> \<exists>lg. pl_log now l t p = Some (p\<lparr>p_logger := lg\<rparr>) \<and> log_ok lg"
  using logger_write_refines [of "p_logger p" now l t undefined "[]"] by (auto simp: pl_log_def)

lemma pl_log_running: "pl_log now l t p = Some p' \<Longrightarrow> log_running (p_logger p') = log_running (p_logger p)"
  by (auto simp: pl_log_def dest: logger_write_running)

lemma pl_journal_ok:
  assumes "journal_ok (Suc n) (p_journal p)"
    and "\<And>j. f j = journal_append os now t (Some body) 52 j" and "length body = 52"
  shows "\<exists>jo. pl_journal f p = Some (p\<lparr>p_journal := jo\<rparr>) \<and> journal_ok n jo \<and> journal_grows [(now, t, body)] (os_ok os) (p_journal p) jo"
proof (cases "p_journal p")
  case None
  then show ?thesis by (intro exI [of _ None]) (simp add: pl_journal_def journal_ok_def journal_grows_def)
next
  case (Some j)
  then have "journal_safe (Suc n) j" using assms(1) by (simp add: journal_ok_def)
  from journal_append_safe [OF this assms(3), of os now t] obtain r j' where
    "journal_append os now t (Some body) 52 j = Some (r, j')" "journal_safe n j'" "jsequence j' = jsequence j + 1"
      "os_ok os \<longrightarrow> jbytes_written j' = jbytes_written j + 84
        \<and> (\<forall>old rs. written old rs j \<longrightarrow> written old (rs @ [(build_header now t 52 (jsequence j) body, body)]) j')" by blast
  then show ?thesis using Some assms(3) by (intro exI [of _ "Some j'"]) (simp add: pl_journal_def journal_ok_def journal_grows_def assms(2))
qed

lemma journal_order_ok:
  assumes "journal_ok (Suc n) (p_journal p)" and "ev_type ev \<noteq> TRADE"
    and "t = (case ev_type ev of ORDER_REJECTED \<Rightarrow> JRNL_ORDER_REJECT | ORDER_ACCEPTED \<Rightarrow> JRNL_ORDER_NEW | _ \<Rightarrow> JRNL_ORDER_FILLED)"
    and "filled = (if ev_type ev = ORDER_REJECTED then 0 else ev_filled_qty ev)"
    and "st = (if ev_type ev = ORDER_REJECTED then status_code REJECTED else ev_status ev)"
  shows "\<exists>jo. journal_order env t filled st ev p = Some (p\<lparr>p_journal := jo\<rparr>) \<and> journal_ok n jo
    \<and> journal_grows [event_entry env ev] (os_ok (io_os env)) (p_journal p) jo"
proof -
  have "event_entry env ev = (io_jrnl_now env, t, snd (view_record (event_view ev)))" using assms(2,3) by (simp add: event_entry_def event_view_def)
  moreover have "length (snd (view_record (event_view ev))) = 52"
    using assms(2) by (simp add: event_view_def order_payload_bytes_def length_le_bytes_sum)
  ultimately show ?thesis unfolding journal_order_def
    by (simp only:) (rule pl_journal_ok [OF assms(1)], use assms(2-) in \<open>simp_all add: journal_log_order_def event_view_def\<close>)
qed

lemma journal_trade_ok:
  assumes "journal_ok (Suc n) (p_journal p)" and "ev_type ev = TRADE"
  shows "\<exists>jo. pl_journal (journal_log_trade (io_os env) (io_jrnl_now env) [] (ev_trade_id ev) (ev_buy_order_id ev) (ev_sell_order_id ev)
      (ev_trade_price ev) (ev_trade_qty ev) (ev_trade_ts_ns ev) (Some (ev_trade_symbol ev))) p = Some (p\<lparr>p_journal := jo\<rparr>)
    \<and> journal_ok n jo \<and> journal_grows [event_entry env ev] (os_ok (io_os env)) (p_journal p) jo"
proof -
  have "event_entry env ev = (io_jrnl_now env, JRNL_TRADE, snd (view_record (event_view ev)))" using assms(2) by (simp add: event_entry_def event_view_def)
  moreover have "length (snd (view_record (event_view ev))) = 52"
    using assms(2) by (simp add: event_view_def trade_payload_bytes_def length_le_bytes_sum)
  ultimately show ?thesis
    by (simp only:) (rule pl_journal_ok [OF assms(1)], use assms(2) in \<open>simp_all add: journal_log_trade_def event_view_def\<close>)
qed

lemma gateway_send_ok: "\<exists>gw. gateway_send env ev p = p\<lparr>p_gateway := gw\<rparr> \<and> gw_state gw = gw_state (p_gateway p)"
  by (auto simp: gateway_send_def gw_send_order_def gw_printf_def Let_def intro: exI [of _ "p_gateway p"])

text \<open>The pieces of \<open>process_io_event\<close>: a log line and a record, then perhaps the gateway.\<close>

definition io_logged :: "(u64 \<times> journal_record_type \<times> byte list) list \<Rightarrow> nat \<Rightarrow> bool \<Rightarrow> event_pipeline \<Rightarrow> event_pipeline option \<Rightarrow> bool" where
  "io_logged es n ok p r \<longleftrightarrow> (\<exists>lg jo. r = Some (p\<lparr>p_logger := lg, p_journal := jo\<rparr>) \<and> log_ok lg \<and> journal_ok n jo \<and> journal_grows es ok (p_journal p) jo)"

lemma io_logged_bind:
  assumes "log_ok (p_logger p)" and "\<And>lg. \<exists>jo. f (p\<lparr>p_logger := lg\<rparr>) = Some (p\<lparr>p_logger := lg, p_journal := jo\<rparr>) \<and> journal_ok n jo \<and> journal_grows es ok (p_journal p) jo"
  shows "io_logged es n ok p (Option.bind (pl_log now l t p) f)"
proof -
  obtain lg where "pl_log now l t p = Some (p\<lparr>p_logger := lg\<rparr>)" "log_ok lg" using pl_log_ok [OF assms(1)] by blast
  then show ?thesis using assms(2) [of lg] by (auto simp: io_logged_def)
qed

lemma io_logged_none:
  assumes "log_ok (p_logger p)" and "\<exists>jo. f p = Some (p\<lparr>p_journal := jo\<rparr>) \<and> journal_ok n jo \<and> journal_grows es ok (p_journal p) jo"
  shows "io_logged es n ok p (f p)"
proof -
  have "p\<lparr>p_logger := p_logger p, p_journal := jo\<rparr> = p\<lparr>p_journal := jo\<rparr>" for jo by simp
  then show ?thesis using assms unfolding io_logged_def by metis
qed

definition io_processed :: "(u64 \<times> journal_record_type \<times> byte list) list \<Rightarrow> nat \<Rightarrow> bool \<Rightarrow> event_pipeline \<Rightarrow> event_pipeline option \<Rightarrow> bool" where
  "io_processed es n ok p r \<longleftrightarrow> (\<exists>lg jo gw. r = Some (p\<lparr>p_logger := lg, p_journal := jo, p_gateway := gw\<rparr>) \<and> log_ok lg \<and> journal_ok n jo
     \<and> journal_grows es ok (p_journal p) jo \<and> gw_state gw = gw_state (p_gateway p))"

lemma io_processed_send: "io_logged es n ok p r \<Longrightarrow> io_processed es n ok p (map_option (gateway_send env ev) r)"
proof -
  assume "io_logged es n ok p r"
  then obtain lg jo where r: "r = Some (p\<lparr>p_logger := lg, p_journal := jo\<rparr>)" "log_ok lg" "journal_ok n jo" "journal_grows es ok (p_journal p) jo"
    by (auto simp: io_logged_def)
  from gateway_send_ok [of env ev "p\<lparr>p_logger := lg, p_journal := jo\<rparr>"] obtain gw where
    "gateway_send env ev (p\<lparr>p_logger := lg, p_journal := jo\<rparr>) = p\<lparr>p_logger := lg, p_journal := jo, p_gateway := gw\<rparr>" "gw_state gw = gw_state (p_gateway p)"
    by auto
  then show ?thesis using r unfolding io_processed_def by auto
qed

lemma io_processed_plain: "io_logged es n ok p r \<Longrightarrow> io_processed es n ok p r"
proof -
  assume "io_logged es n ok p r"
  moreover have "p\<lparr>p_logger := lg, p_journal := jo, p_gateway := p_gateway p\<rparr> = p\<lparr>p_logger := lg, p_journal := jo\<rparr>" for lg jo by simp
  ultimately show ?thesis unfolding io_logged_def io_processed_def by metis
qed

lemma process_io_event_ok:
  assumes "log_ok (p_logger p)" and "journal_ok (Suc n) (p_journal p)"
  shows "io_processed [event_entry env ev] n (os_ok (io_os env)) p (process_io_event env ev p)"
proof -
  have jo: "journal_ok (Suc n) (p_journal (p\<lparr>p_logger := lg\<rparr>))" for lg using assms(2) by simp
  note ord = journal_order_ok [OF assms(2), of ev, OF _ refl refl refl, of env] and ord' = journal_order_ok [OF jo, of ev, OF _ refl refl refl, of env]
    and trd = journal_trade_ok [OF jo, of ev env]
  show ?thesis
  proof (cases "ev_type ev")
    case ORDER_ACCEPTED
    then show ?thesis unfolding process_io_event_def using ord by (auto intro!: io_processed_send io_logged_none assms(1))
  next
    case ORDER_REJECTED
    then show ?thesis unfolding process_io_event_def using ord' by (auto intro!: io_processed_plain io_logged_bind assms(1))
  next
    case ORDER_FILLED
    then show ?thesis unfolding process_io_event_def using ord' by (auto intro!: io_processed_send io_logged_bind assms(1))
  next
    case TRADE
    then show ?thesis unfolding process_io_event_def using trd by (auto intro!: io_processed_plain io_logged_bind assms(1))
  qed
qed

section \<open>The I/O loop\<close>

lemma journal_ok_mono: "journal_ok n jo \<Longrightarrow> m \<le> n \<Longrightarrow> journal_ok m jo"
proof -
  assume ok: "journal_ok n jo" and "m \<le> n"
  then have "m * 84 \<le> n * 84" by simp
  then show ?thesis using ok by (auto simp: journal_ok_def journal_safe_def split: option.splits)
qed

text \<open>\<open>io_ran es n ok p r\<close>: as many events as \<open>es\<close> has entries have been taken from the queue, and these entries written.\<close>

definition io_ran :: "(u64 \<times> journal_record_type \<times> byte list) list \<Rightarrow> nat \<Rightarrow> bool \<Rightarrow> event_pipeline \<Rightarrow> event_pipeline option \<Rightarrow> bool" where
  "io_ran es n ok p r \<longleftrightarrow> (\<exists>lg jo gw c. r = Some (p\<lparr>p_logger := lg, p_journal := jo, p_gateway := gw, io_chan := c\<rparr>) \<and> log_ok lg \<and> journal_ok n jo
     \<and> journal_grows es ok (p_journal p) jo \<and> gw_state gw = gw_state (p_gateway p) \<and> chan_ok [] c \<and> queued c = drop (length es) (queued (io_chan p)))"

lemma chan_next_keeps: "chan_next c = Some (a, c') \<Longrightarrow> entries c' = entries c \<and> free_entries c' = free_entries c"
  by (auto simp: chan_next_def free_entries_def)

lemma io_poll_ok:
  assumes "chan_ok [] (io_chan p)" and "log_ok (p_logger p)" and "journal_ok (Suc n) (p_journal p)"
  shows "io_ran (map (event_entry env) (take 1 (queued (io_chan p)))) n (os_ok (io_os env)) p (io_poll env p)"
proof -
  from evq.next_total [OF assms(1)] obtain a c where
    c: "chan_next (io_chan p) = Some (a, c)"
      "if a = 0 then queued (io_chan p) = [] \<and> c = io_chan p else chan_ok [a] c \<and> queued (io_chan p) = entries (io_chan p) a # queued c" by blast
  show ?thesis
  proof (cases "a = 0")
    case True
    have "p = p\<lparr>p_logger := p_logger p, p_journal := p_journal p, p_gateway := p_gateway p, io_chan := io_chan p\<rparr>" by simp
    then show ?thesis using True c assms journal_ok_mono [OF assms(3)] unfolding io_ran_def io_poll_def
      by (intro exI [of _ "p_logger p"] exI [of _ "p_journal p"] exI [of _ "p_gateway p"] exI [of _ "io_chan p"]) simp
  next
    case False
    have "log_ok (p_logger (p\<lparr>io_chan := c\<rparr>))" "journal_ok (Suc n) (p_journal (p\<lparr>io_chan := c\<rparr>))" using assms by simp_all
    from process_io_event_ok [OF this, of env "entries c a"] obtain lg jo gw where
      1: "process_io_event env (entries c a) (p\<lparr>io_chan := c\<rparr>) = Some (p\<lparr>io_chan := c, p_logger := lg, p_journal := jo, p_gateway := gw\<rparr>)"
        "log_ok lg" "journal_ok n jo" "journal_grows [event_entry env (entries c a)] (os_ok (io_os env)) (p_journal p) jo" "gw_state gw = gw_state (p_gateway p)"
      by (auto simp: io_processed_def)
    have "chan_ok [a] c" using c(2) False by simp
    from chan_recycle_spec [OF this, of "\<lambda>e. e"] obtain c' where
      2: "chan_recycle a (\<lambda>e. e) c = Some c'" "chan_ok [] c'" "queued c' = queued c" by blast
    show ?thesis using False c 1 2 chan_next_keeps [OF c(1)] unfolding io_ran_def io_poll_def
      by (intro exI [of _ lg] exI [of _ jo] exI [of _ gw] exI [of _ c']) simp
  qed
qed

definition drain_entries :: "(nat \<Rightarrow> io_env) \<Rightarrow> nat \<Rightarrow> io_event list \<Rightarrow> (u64 \<times> journal_record_type \<times> byte list) list" where
  "drain_entries env k evs = map (\<lambda>(i, ev). event_entry (env i) ev) (enumerate k evs)"

lemma drain_entries_simps [simp]: "drain_entries env k [] = []" "drain_entries env k (ev # evs) = event_entry (env k) ev # drain_entries env (Suc k) evs"
    "length (drain_entries env k evs) = length evs"
  by (simp_all add: drain_entries_def)

lemma io_drain_ok:
  assumes "chan_ok [] (io_chan p)" and "log_ok (p_logger p)" and "journal_ok (length (queued (io_chan p)) + n) (p_journal p)"
  shows "io_ran (drain_entries env k (queued (io_chan p))) n (\<forall>i. os_ok (io_os (env i))) p (io_drain env k p)"
  using assms
proof (induction "length (queued (io_chan p))" arbitrary: p k)
  case 0
  have "chan_next (io_chan p) = Some (0, io_chan p)" using evq.next_empty [OF "0.prems"(1)] "0.hyps" by simp
  then show ?case using 0 unfolding io_ran_def
    by (intro exI [of _ "p_logger p"] exI [of _ "p_journal p"] exI [of _ "p_gateway p"] exI [of _ "io_chan p"], subst io_drain.simps) simp
next
  case (Suc m)
  from evq.next_total [OF Suc.prems(1)] Suc.hyps(2) obtain a c where
    c: "chan_next (io_chan p) = Some (a, c)" "chan_ok [a] c" "a \<noteq> 0" "queued (io_chan p) = entries (io_chan p) a # queued c"
    by (auto split: if_splits)
  have "log_ok (p_logger (p\<lparr>io_chan := c\<rparr>))" "journal_ok (Suc (m + n)) (p_journal (p\<lparr>io_chan := c\<rparr>))"
    using Suc.prems unfolding Suc.hyps(2) [symmetric] by simp_all
  from process_io_event_ok [OF this, of "env k" "entries c a"] obtain lg jo gw where
    1: "process_io_event (env k) (entries c a) (p\<lparr>io_chan := c\<rparr>) = Some (p\<lparr>io_chan := c, p_logger := lg, p_journal := jo, p_gateway := gw\<rparr>)" (is "_ = Some ?q")
      "log_ok lg" "journal_ok (m + n) jo" "journal_grows [event_entry (env k) (entries c a)] (os_ok (io_os (env k))) (p_journal p) jo" "gw_state gw = gw_state (p_gateway p)"
    by (auto simp: io_processed_def)
  have "chan_ok [] (io_chan ?q)" "log_ok (p_logger ?q)" "journal_ok (length (queued (io_chan ?q)) + n) (p_journal ?q)" "m = length (queued (io_chan ?q))"
    using c chan_ok_drop [of "[]" "[a]" c] 1 Suc.hyps(2) by simp_all
  from Suc.hyps(1) [OF this(4) this(1-3), of "Suc k"] obtain lg' jo' gw' c' where
    2: "io_drain env (Suc k) ?q = Some (?q\<lparr>p_logger := lg', p_journal := jo', p_gateway := gw', io_chan := c'\<rparr>)" "log_ok lg'" "journal_ok n jo'"
      "journal_grows (drain_entries env (Suc k) (queued c)) (\<forall>i. os_ok (io_os (env i))) jo jo'" "gw_state gw' = gw_state gw" "chan_ok [] c'" "queued c' = []"
    by (auto simp: io_ran_def)
  have "journal_grows (drain_entries env k (queued (io_chan p))) (\<forall>i. os_ok (io_os (env i))) (p_journal p) jo'"
    using journal_grows_trans [OF journal_grows_weaken [OF 1(4)] 2(4)] c(4) chan_next_keeps [OF c(1)] by simp
  then show ?case using c 1 2 Suc.hyps(2) unfolding io_ran_def
    by (intro exI [of _ lg'] exI [of _ jo'] exI [of _ gw'] exI [of _ c'], subst io_drain.simps) simp
qed

end
