(* ===== verification/Trading_Engine.thy ===== *)
theory Trading_Engine
  imports Pipeline_Control
begin

text \<open>
  The program of \<open>src/main.cpp\<close>: settings from the command line, setting the system up, the main loop, the
  orderly end and the signal handler.

  The results of \<open>getopt_long\<close> are a list of option letters with their arguments. \<open>g_journal\<close>
  and the pipeline's \<open>journal_\<close> are one object, which the model keeps in the pipeline; the engine has the state of the
  global pointer. What the program prints is in the theory of the main program.
\<close>

section \<open>Settings\<close>

record settings =
  duration_sec :: int
  opt_symbol :: string
  opt_log :: string
  opt_journal :: string

definition default_settings :: settings where
  "default_settings = \<lparr>duration_sec = 10, opt_symbol = ''AAPL'', opt_log = ''trading_engine.log'', opt_journal = ''trading_engine.jrnl''\<rparr>"

definition isspace :: "char \<Rightarrow> bool" where
  "isspace c \<longleftrightarrow> c \<in> {CHR 0x20, CHR 0x09, CHR 0x0A, CHR 0x0B, CHR 0x0C, CHR 0x0D}"

text \<open>\<open>atoi\<close> of the C library, \<open>(int) strtol (s, NULL, 10)\<close>: the value saturates at 64 bits and is cut to 32.\<close>

definition atoi :: "string \<Rightarrow> int" where
  "atoi s0 =
     (let s = dropWhile isspace (cstr s0);
          neg = (s \<noteq> [] \<and> hd s = CHR ''-'');
          s = (if s \<noteq> [] \<and> (hd s = CHR ''-'' \<or> hd s = CHR ''+'') then tl s else s);
          v = int (read_nat (takeWhile is_digit s));
          v = (if neg then - v else v)
      in s32 (max (- (2 ^ 63)) (min (2 ^ 63 - 1) v)))"

text \<open>The loop over the options; the left result is an exit status.\<close>

fun parse_options :: "(char \<times> string) list \<Rightarrow> settings \<Rightarrow> int + settings" where
  "parse_options [] s = Inr s"
| "parse_options ((opt, optarg) # rest) s =
     (if opt = CHR ''d'' then parse_options rest (s\<lparr>duration_sec := atoi optarg\<rparr>)
      else if opt = CHR ''s'' then parse_options rest (s\<lparr>opt_symbol := optarg\<rparr>)
      else if opt = CHR ''l'' then parse_options rest (s\<lparr>opt_log := optarg\<rparr>)
      else if opt = CHR ''j'' then parse_options rest (s\<lparr>opt_journal := optarg\<rparr>)
      else if opt = CHR ''h'' then Inl 0
      else Inl 1)"

section \<open>Setting up\<close>

record engine =
  en_pipe :: event_pipeline
  g_journal :: bool
  closed_file :: "byte list option"

text \<open>\<open>journal_close\<close> on the global handle, which is then set to null.\<close>

definition close_journal :: "os \<Rightarrow> engine \<Rightarrow> engine" where
  "close_journal os en = (case (g_journal en, p_journal (en_pipe en)) of
     (True, Some j) \<Rightarrow> en\<lparr>closed_file := Some (journal_close os j), g_journal := False\<rparr>
   | _ \<Rightarrow> en)"

text \<open>From opening the journal, on a file with the contents \<open>f\<close>, to the running pipeline. After a failure the journal is
  closed; the left result says where it failed, with what the destructor of the pipeline finds, and what is in the file then.\<close>

datatype boot_failure = INIT_FAILED unfinished | START_FAILED event_pipeline

definition engine_boot :: "init_env \<Rightarrow> os \<Rightarrow> byte list \<Rightarrow> bool \<times> bool \<times> bool \<Rightarrow> settings \<Rightarrow> (boot_failure \<times> byte list option + engine) option" where
  "engine_boot ie os f threads s =
     (let j = journal_open os f True in
      case pl_init ie (opt_symbol s) (opt_log s) of
        None \<Rightarrow> None
      | Some (Inl u) \<Rightarrow> Some (Inl (INIT_FAILED u, map_option (journal_close os) j))
      | Some (Inr p) \<Rightarrow>
          let p = (if j \<noteq> None then set_journal j p else p);
              (feed_ok, io_ok, consumer_ok) = threads
          in (case pl_start feed_ok io_ok consumer_ok (ie_now ie) p of
                None \<Rightarrow> None
              | Some (r, p) \<Rightarrow> if r \<noteq> 0 then Some (Inl (START_FAILED p, map_option (journal_close os) j))
                  else Some (Inr \<lparr>en_pipe = p, g_journal = (j \<noteq> None), closed_file = None\<rparr>)))"

section \<open>Running\<close>

text \<open>The clock is read once per round of the loop, \<open>now k\<close> in round \<open>k\<close>; the result is the round in which the loop
  ends.\<close>

partial_function (option) main_loop :: "int \<Rightarrow> int \<Rightarrow> (nat \<Rightarrow> int) \<Rightarrow> nat \<Rightarrow> nat option" where
  "main_loop duration start_time now k =
     (if 0 < duration \<and> duration \<le> now k - start_time then Some k else main_loop duration start_time now (Suc k))"

definition pad_left :: "nat \<Rightarrow> string \<Rightarrow> string" where
  "pad_left n s = replicate (n - length s) (CHR '' '') @ s"

definition print_stats :: "pipeline_stats \<Rightarrow> string" where
  "print_stats s = [CHR 0x0D] @ ''  Market Data: '' @ pad_left 8 (show_nat (unat (market_data_msgs s)))
     @ '' | Orders: '' @ pad_left 6 (show_nat (unat (orders_created s)))
     @ '' | Accepted: '' @ pad_left 6 (show_nat (unat (orders_accepted s)))
     @ '' | Rejected: '' @ pad_left 4 (show_nat (unat (orders_rejected s)))
     @ '' | Trades: '' @ pad_left 6 (show_nat (unat (trades_generated s)))
     @ '' | Drop: '' @ pad_left 4 (show_nat (unat (io_events_dropped s)))
     @ '' | Latency: '' @ pad_left 7 (show_fixed 2 (avg_latency_us s)) @ '' '' @ [CHR 0xC2, CHR 0xB5] @ ''s''"

section \<open>The end\<close>

definition throughput :: "int \<Rightarrow> pipeline_stats \<Rightarrow> u64" where
  "throughput duration s = (if 0 < duration then market_data_msgs s div of_int duration else 0)"

text \<open>The result has the figures of the report: throughput, and bytes and records of the journal when it was still
  open.\<close>

definition engine_finish :: "(u64 \<Rightarrow> string) \<Rightarrow> u64 \<Rightarrow> stop_op list \<Rightarrow> (nat \<Rightarrow> nat \<Rightarrow> clock) \<Rightarrow> (nat \<Rightarrow> u64 \<times> u64) \<Rightarrow> (nat \<Rightarrow> io_env) \<Rightarrow> os \<Rightarrow> settings \<Rightarrow> engine \<Rightarrow>
    (engine \<times> u64 \<times> (u64 \<times> u64) option) option" where
  "engine_finish tt now sch clk lat env os s en = map_option (\<lambda>p.
     let en = en\<lparr>en_pipe := p\<rparr>;
         report = (if g_journal en then Some (journal_bytes_written (p_journal p), journal_sequence (p_journal p)) else None)
     in (close_journal os en, throughput (duration_sec s) (p_stats p), report)) (pl_stop tt now sch clk lat env (en_pipe en))"

definition signal_handler :: "(u64 \<Rightarrow> string) \<Rightarrow> u64 \<Rightarrow> stop_op list \<Rightarrow> (nat \<Rightarrow> nat \<Rightarrow> clock) \<Rightarrow> (nat \<Rightarrow> u64 \<times> u64) \<Rightarrow> (nat \<Rightarrow> io_env) \<Rightarrow> os \<Rightarrow> engine \<Rightarrow> engine option" where
  "signal_handler tt now sch clk lat env os en = map_option (\<lambda>p. close_journal os (en\<lparr>en_pipe := p\<rparr>)) (pl_stop tt now sch clk lat env (en_pipe en))"

end
