(* ===== verification/Pipeline_Run.thy ===== *)
theory Pipeline_Run
  imports Pipeline_IO_Path Trading_Engine
begin

text \<open>
  The running pipeline: feed, hot path, I/O thread and logger thread take turns in any order, one iteration of
  their loops at a time. (Iterations that overlap in time are the subject of \<open>Hot_Steps\<close> and \<open>Overlap\<close>.) The invariant collects the invariants of all components.
\<close>

section \<open>Runs\<close>

datatype pl_op = FeedTick u64 | HotTick "nat \<Rightarrow> clock" u64 u64 | IoTick io_env | LogTick

fun pl_op_step :: "(u64 \<Rightarrow> string) \<Rightarrow> pl_op \<Rightarrow> event_pipeline \<Rightarrow> event_pipeline option" where
  "pl_op_step tt (FeedTick now) p = map_option (\<lambda>fh. p\<lparr>p_feed := fh\<rparr>) (feed_sim_step now (p_feed p))"
| "pl_op_step tt (HotTick clk t0 t1) p = consumer_poll clk t0 t1 p"
| "pl_op_step tt (IoTick env) p = io_poll env p"
| "pl_op_step tt LogTick p = map_option (\<lambda>lg. p\<lparr>p_logger := lg\<rparr>) (logger_poll tt (p_logger p))"

fun pl_run :: "(u64 \<Rightarrow> string) \<Rightarrow> pl_op list \<Rightarrow> event_pipeline \<Rightarrow> event_pipeline option" where
  "pl_run tt [] p = Some p"
| "pl_run tt (op # ops) p = (case pl_op_step tt op p of None \<Rightarrow> None | Some p' \<Rightarrow> pl_run tt ops p')"

text \<open>The iterations of the feed among them.\<close>

fun ticks :: "pl_op list \<Rightarrow> nat" where
  "ticks [] = 0"
| "ticks (FeedTick now # ops) = Suc (ticks ops)"
| "ticks (_ # ops) = ticks ops"

section \<open>The invariant\<close>

text \<open>\<open>n\<close> bounds the messages and \<open>m\<close> the iterations that may still come: order ids must not wrap and the journal file must not
  outgrow 64 bits, also when the queue, of fewer than \<open>2\<^sup>3\<^sup>2\<close> events, is drained at the end.\<close>

definition trading_inv :: "string \<Rightarrow> nat \<Rightarrow> event_pipeline \<Rightarrow> bool" where
  "trading_inv sy n p \<longleftrightarrow> book_history True sy (p_book p) \<and> risk_history pipeline_limits (p_risk p)
     \<and> resting_ids (p_book p) \<subseteq> {1..<next_order_id p} \<and> 1 \<le> next_order_id p
     \<and> next_order_id p + 2 * int (length (feed_queued (p_feed p)) + n) < 2 ^ 31"

definition feed_inv_plausible :: "feed_handler \<Rightarrow> bool" where
  "feed_inv_plausible fh \<longleftrightarrow> feed_ok [] fh \<and> (\<forall>m \<in> set (feed_queued fh). plausible m) \<and> d_within 2684354560 (sim_base_price fh) 268435456000
     \<and> card (mp_slots (msg_pool fh)) = 4096"

definition pl_inv :: "string \<Rightarrow> nat \<Rightarrow> nat \<Rightarrow> event_pipeline \<Rightarrow> bool" where
  "pl_inv sy n m p \<longleftrightarrow> chan_ok [] (io_chan p) \<and> log_ok (p_logger p) \<and> feed_inv_plausible (p_feed p) \<and> trading_inv sy n p
     \<and> journal_ok (m + 4294967296) (p_journal p)"

declare feed_inv_plausible_def [inv_defs] trading_inv_def [inv_defs] pl_inv_def [inv_defs]

text \<open>The books balance: every message makes two orders, every order is accepted or rejected, and every order and
  trade has been journalled, is queued or is counted as dropped.\<close>

definition balanced :: "event_pipeline \<Rightarrow> bool" where
  "balanced p \<longleftrightarrow> (let s = p_stats p in
     orders_created s = 2 * market_data_msgs s \<and> orders_accepted s + orders_rejected s = orders_created s
     \<and> market_data_msgs s + of_nat (length (feed_queued (p_feed p))) = msgs_received (p_feed p)
     \<and> (\<forall>j. p_journal p = Some j \<longrightarrow> jsequence j + of_nat (length (queued (io_chan p))) + io_events_dropped s = orders_created s + trades_generated s))"

section \<open>Decisions\<close>

lemma disjoint_insert_trans: "B' \<subseteq> insert x B \<Longrightarrow> x \<notin> A \<Longrightarrow> insert x A \<inter> B = {} \<Longrightarrow> A \<inter> B' = {}"
  by blast

lemma decide_all_trading:
  assumes "decide_all clk k ords (b, e) = (vs, ds, b', e')" and "book_history True s b" and "risk_history L e"
    and "\<forall>ord \<in> set ords. order_ok ord \<and> \<not> is_nan (price ord)" and "distinct (map oid ords)" and "oid ` set ords \<inter> resting_ids b = {}"
  shows "book_history True s b' \<and> risk_history L e' \<and> resting_ids b' \<subseteq> resting_ids b \<union> oid ` set ords"
  using assms
proof (induction ords arbitrary: k b e vs ds)
  case (Cons ord ords)
  obtain d b1 e1 where d: "decide (clk k) ord (b, e) = (d, b1, e1)" by (rule prod_cases3)
  obtain ws es where r: "decide_all clk (Suc k) ords (b1, e1) = (ws, es, b', e')"
    using Cons.prems(1) d by (auto simp: Let_def split: prod.splits)
  have ord: "order_ok ord" "\<not> is_nan (price ord)" "oid ord \<notin> resting_ids b" using Cons.prems(4,6) by auto
  have h: "book_history True s b1" "resting_ids b1 \<subseteq> insert (oid ord) (resting_ids b)"
    using decide_history [OF d Cons.prems(2) ord] by simp_all
  have "risk_history L e1" by (rule decide_risk [OF d Cons.prems(3) book_history_inv [OF Cons.prems(2)] ord(1)])
  moreover have "oid ` set ords \<inter> resting_ids b1 = {}"
    by (rule disjoint_insert_trans [OF h(2)]) (use Cons.prems(5,6) in simp_all)
  ultimately have "book_history True s b' \<and> risk_history L e' \<and> resting_ids b' \<subseteq> resting_ids b1 \<union> oid ` set ords"
    using Cons.IH [OF r h(1)] Cons.prems(4,5) by simp
  then show ?case using h(2) by auto
qed simp

lemma decision_stats_sums:
  "orders_created (decision_stats d s) = orders_created s + 1"
  "orders_accepted (decision_stats d s) + orders_rejected (decision_stats d s) = orders_accepted s + orders_rejected s + 1"
  "trades_generated (decision_stats d s) = trades_generated s + of_nat (case d of None \<Rightarrow> 0 | Some (res, ts) \<Rightarrow> length ts)"
  "market_data_msgs (decision_stats d s) = market_data_msgs s" "io_events_dropped (decision_stats d s) = io_events_dropped s"
  by (simp_all add: decision_stats_def algebra_simps split: option.split prod.split)

lemma length_decision_views: "length (decision_views ord d) = 1 + (case fst d of None \<Rightarrow> 0 | Some (res, ts) \<Rightarrow> length ts)"
  by (simp add: decision_views_def split: option.split prod.split)

lemma decide_all_stats:
  assumes "decide_all clk k ords be = (vs, ds, be')"
  shows "orders_created (fold decision_stats ds s) = orders_created s + of_nat (length ords)
    \<and> orders_accepted (fold decision_stats ds s) + orders_rejected (fold decision_stats ds s) = orders_accepted s + orders_rejected s + of_nat (length ords)
    \<and> trades_generated (fold decision_stats ds s) + of_nat (length ords) = trades_generated s + of_nat (length vs)
    \<and> market_data_msgs (fold decision_stats ds s) = market_data_msgs s \<and> io_events_dropped (fold decision_stats ds s) = io_events_dropped s"
  using assms
proof (induction ords arbitrary: k be vs ds s)
  case (Cons ord ords)
  obtain ws es where r: "decide_all clk (Suc k) ords (snd (decide (clk k) ord be)) = (ws, es, be')"
    and vs: "vs = decision_views ord (decide (clk k) ord be) @ ws" "ds = fst (decide (clk k) ord be) # es"
    using Cons.prems by (auto simp: Let_def split: prod.splits)
  let ?d = "fst (decide (clk k) ord be)" let ?s = "decision_stats ?d s"
  have IH: "trades_generated (fold decision_stats es ?s) + of_nat (length ords) = trades_generated ?s + of_nat (length ws)"
    using Cons.IH [OF r, of ?s] by simp
  have "trades_generated (fold decision_stats ds s) + of_nat (length (ord # ords)) = (trades_generated (fold decision_stats es ?s) + of_nat (length ords)) + 1"
    by (simp add: vs)
  also have "\<dots> = trades_generated s + of_nat (length vs)"
    unfolding IH by (simp add: vs decision_stats_sums length_decision_views)
  finally show ?case using Cons.IH [OF r, of ?s] by (simp add: vs decision_stats_sums)
qed simp

section \<open>Steps\<close>

lemma update_latency_keeps [simp]:
  "market_data_msgs (update_latency t0 t1 s) = market_data_msgs s" "orders_created (update_latency t0 t1 s) = orders_created s"
  "orders_accepted (update_latency t0 t1 s) = orders_accepted s" "orders_rejected (update_latency t0 t1 s) = orders_rejected s"
  "trades_generated (update_latency t0 t1 s) = trades_generated s" "io_events_dropped (update_latency t0 t1 s) = io_events_dropped s"
  by (simp_all add: update_latency_def Let_def)

lemma drop_stats_keeps [simp]:
  "market_data_msgs (drop_stats n s) = market_data_msgs s" "orders_created (drop_stats n s) = orders_created s"
  "orders_accepted (drop_stats n s) = orders_accepted s" "orders_rejected (drop_stats n s) = orders_rejected s"
  "trades_generated (drop_stats n s) = trades_generated s" "io_events_dropped (drop_stats n s) = io_events_dropped s + of_nat n"
  by (simp_all add: drop_stats_def)

lemma ledger_sum: "q' + d' = q + d + v \<Longrightarrow> t + v = t' + k \<Longrightarrow> q' + d' + t = q + d + t' + (k :: u64)"
  by (simp add: add.assoc) (simp add: add.commute)

lemma ledger_step: "j + q + d = c + t \<Longrightarrow> q' + d' + t = q + d + t' + k \<Longrightarrow> j + q' + d' = c + k + (t' :: u64)"
proof -
  assume 1: "j + q + d = c + t" and 2: "q' + d' + t = q + d + t' + k"
  have "j + q' + d' + t = j + (q' + d' + t)" by (simp add: add.assoc)
  also have "\<dots> = (j + q + d) + (t' + k)" unfolding 2 by (simp add: add.assoc)
  also have "\<dots> = c + k + t' + t" unfolding 1 by (simp add: ac_simps)
  finally show ?thesis by simp
qed

lemma feed_sum: "m + q = r \<Longrightarrow> r' + q = r + q' \<Longrightarrow> m + q' = (r' :: u64)"
proof -
  assume "m + q = r" "r' + q = r + q'"
  then have "(m + q') + q = r' + q" by (auto simp: ac_simps)
  then show ?thesis by simp
qed

text \<open>One message: what changes, and that the invariant and the balance survive.\<close>

lemma hot_message:
  assumes "chan_ok [] (io_chan p)" and "trading_inv sy (Suc n) p" and "feed_ok [a] (p_feed p)" and "plausible (msgs (p_feed p) a)"
  shows "\<exists>b e c st i mp. process_market_data clk t0 t1 a p = Some (p\<lparr>p_book := b, p_risk := e, p_feed := (p_feed p)\<lparr>msg_pool := mp\<rparr>, io_chan := c, p_stats := st, next_order_id := i\<rparr>)
    \<and> chan_ok [] c \<and> feed_ok [] ((p_feed p)\<lparr>msg_pool := mp\<rparr>) \<and> mempool_free (msg_pool (p_feed p)) a = Some mp \<and> trading_inv sy n (p\<lparr>p_book := b, p_risk := e, next_order_id := i\<rparr>)
    \<and> market_data_msgs st = market_data_msgs (p_stats p) + 1 \<and> orders_created st = orders_created (p_stats p) + 2
    \<and> orders_accepted st + orders_rejected st = orders_accepted (p_stats p) + orders_rejected (p_stats p) + 2
    \<and> of_nat (length (queued c)) + io_events_dropped st + trades_generated (p_stats p)
        = of_nat (length (queued (io_chan p))) + io_events_dropped (p_stats p) + trades_generated st + 2
    \<and> length (queued c) \<ge> length (queued (io_chan p)) + min 2 (length (free_entries (io_chan p)))"
proof -
  let ?m = "msgs (p_feed p) a" and ?i = "next_order_id p"
  have inv: "book_history True sy (p_book p)" "risk_history pipeline_limits (p_risk p)" "resting_ids (p_book p) \<subseteq> {1..<?i}" "1 \<le> ?i"
      "?i + 2 * int (length (feed_queued (p_feed p)) + Suc n) < 2 ^ 31" using assms(2) by (simp_all add: trading_inv_def)
  have ids: "s32 (?i + 1) = ?i + 1" "s32 (2 + ?i) = ?i + 2" "in_s32 ?i" using inv(4,5) by (auto simp: s32_id in_s32_def)
  have tr: "tradable ?m" by (rule plausible_tradable [OF assms(4)])
  let ?ords = "[strategy_order ?i BUY (buy_price ?m) ?m, strategy_order (?i + 1) SELL (sell_price ?m) ?m]"
  have st: "strategy_on_market_data ?m p = (?ords, p\<lparr>next_order_id := ?i + 2\<rparr>)" by (simp add: strategy_eq ids)
  obtain vs ds b e where d: "decide_all clk 0 ?ords (p_book p, p_risk p) = (vs, ds, b, e)" by (rule prod_cases4)
  from process_market_data_spec [OF assms(1) book_history_inv [OF inv(1)] assms(3) ids(3) tr st d, of t0 t1] obtain c mp where
    r: "process_market_data clk t0 t1 a p = Some (p\<lparr>p_book := b, p_risk := e, p_feed := (p_feed p)\<lparr>msg_pool := mp\<rparr>, io_chan := c,
      p_stats := update_latency t0 t1 (drop_stats (length vs - length (free_entries (io_chan p)))
        (fold decision_stats ds ((p_stats p)\<lparr>market_data_msgs := market_data_msgs (p_stats p) + 1\<rparr>))),
      next_order_id := ?i + 2\<rparr>)" "chan_ok [] c" "posted vs (io_chan p) c" "feed_ok [] ((p_feed p)\<lparr>msg_pool := mp\<rparr>)"
      "mempool_free (msg_pool (p_feed p)) a = Some mp"
    by (auto simp: ids)
  let ?s = "(p_stats p)\<lparr>market_data_msgs := market_data_msgs (p_stats p) + 1\<rparr>"
  let ?st = "update_latency t0 t1 (drop_stats (length vs - length (free_entries (io_chan p))) (fold decision_stats ds ?s))"
  note S = decide_all_stats [OF d, of ?s]
  have T: "book_history True sy b \<and> risk_history pipeline_limits e \<and> resting_ids b \<subseteq> resting_ids (p_book p) \<union> oid ` set ?ords"
    by (rule decide_all_trading [OF d inv(1,2)]) (use tr inv(3) in \<open>auto simp: tradable_def\<close>)
  have "trading_inv sy n (p\<lparr>p_book := b, p_risk := e, next_order_id := ?i + 2\<rparr>)"
    using T inv(4,5) subset_trans [OF inv(3), of "{1..<?i + 2}"] unfolding trading_inv_def by auto
  moreover have "2 \<le> length vs" using d by (auto simp: Let_def length_decision_views split: prod.splits)
  moreover have len: "length (queued c) = length (queued (io_chan p)) + min (length (free_entries (io_chan p))) (length vs)"
    using arg_cong [OF conjunct1 [OF r(3) [unfolded posted_def]], of length] by simp
  moreover have "of_nat (length (queued c)) + io_events_dropped ?st + trades_generated (p_stats p)
        = of_nat (length (queued (io_chan p))) + io_events_dropped (p_stats p) + trades_generated ?st + 2"
  proof -
    have "of_nat (min f v) + of_nat (v - f) = (of_nat v :: u64)" for f v by (cases "f \<le> v") (simp_all add: min_def)
    then have "of_nat (length (queued c)) + io_events_dropped ?st = of_nat (length (queued (io_chan p))) + io_events_dropped (p_stats p) + of_nat (length vs)"
      using S by (simp add: len add.assoc add.left_commute)
    moreover have "trades_generated (p_stats p) + of_nat (length vs) = trades_generated ?st + 2" using S by simp
    ultimately show ?thesis by (rule ledger_sum)
  qed
  moreover have "market_data_msgs ?st = market_data_msgs (p_stats p) + 1" "orders_created ?st = orders_created (p_stats p) + 2"
    "orders_accepted ?st + orders_rejected ?st = orders_accepted (p_stats p) + orders_rejected (p_stats p) + 2" using S by simp_all
  ultimately show ?thesis using r(1,2,4,5)
    by (intro exI [of _ b] exI [of _ e] exI [of _ c] exI [of _ ?st] exI [of _ "?i + 2"] exI [of _ mp]) simp
qed

lemma feed_deliver_base: "feed_deliver a m fh = Some (ok, fh') \<Longrightarrow> sim_base_price fh' = sim_base_price fh \<and> feed_running fh' = feed_running fh"
  by (auto simp: feed_deliver_def Let_def split: option.splits bool.splits)

lemma simulate_message_running: "feed_running (snd (simulate_message now fh)) = feed_running fh"
  by (simp add: simulate_message_def rand_size_def rand_double_def xorshift32_def Let_def split_beta)

lemma feed_sim_step_base:
  assumes "feed_sim_step now fh = Some fh'" and "d_within 2684354560 (sim_base_price fh) 268435456000"
  shows "d_within 2684354560 (sim_base_price fh') 268435456000 \<and> feed_running fh' = feed_running fh"
proof -
  obtain a mp where al: "mempool_alloc (msg_pool fh) = Some (a, mp)" using assms(1) by (auto simp: feed_sim_step_def split: option.splits)
  show ?thesis
  proof (cases "a = 0")
    case True
    then show ?thesis using assms al by (auto simp: feed_sim_step_def Let_def)
  next
    case False
    obtain m fh1 where m: "simulate_message now (fh\<lparr>msg_pool := mp\<rparr>) = (m, fh1)" by fastforce
    have "d_within 2684354560 (sim_base_price fh1) 268435456000" "feed_running fh1 = feed_running fh"
      using simulate_message_bounds [of "fh\<lparr>msg_pool := mp\<rparr>" now] simulate_message_running [of now "fh\<lparr>msg_pool := mp\<rparr>"] assms(2) by (simp_all add: m)
    moreover obtain ok fh2 where "feed_deliver a m fh1 = Some (ok, fh2)" "fh' = (if ok then fh2\<lparr>bytes_received := bytes_received fh2 + FEED_MSG_SIZE\<rparr> else fh2)"
      using assms(1) al False m by (auto simp: feed_sim_step_def Let_def split: option.splits)
    ultimately show ?thesis using feed_deliver_base [of a m fh1 ok fh2] by simp
  qed
qed

lemma feed_tick:
  assumes "feed_inv_plausible fh"
  shows "\<exists>fh'. feed_sim_step now fh = Some fh' \<and> feed_inv_plausible fh' \<and> feed_running fh' = feed_running fh
    \<and> msgs_received fh' + of_nat (length (feed_queued fh)) = msgs_received fh + of_nat (length (feed_queued fh'))
    \<and> length (feed_queued fh') \<le> Suc (length (feed_queued fh))"
proof -
  have ok: "feed_ok [] fh" "d_within 2684354560 (sim_base_price fh) 268435456000" using assms by (simp_all add: feed_inv_plausible_def)
  from feed_sim_step_spec [OF ok(1), of now] obtain fh' where
    f: "feed_sim_step now fh = Some fh'" "offered (fst (simulate_message now fh)) [] fh fh'" by blast
  have "plausible (fst (simulate_message now fh))" using simulate_message_bounds [OF ok(2)] by blast
  then have "feed_inv_plausible fh'"
    using f feed_sim_step_base [OF f(1) ok(2)] assms by (auto simp: feed_inv_plausible_def offered_def split: if_splits)
  moreover have "msgs_received fh' + of_nat (length (feed_queued fh)) = msgs_received fh + of_nat (length (feed_queued fh'))"
    "length (feed_queued fh') \<le> Suc (length (feed_queued fh))"
    using f(2) by (auto simp: offered_def split: if_splits)
  ultimately show ?thesis using f(1) feed_sim_step_base [OF f(1) ok(2)] by blast
qed

text \<open>A pop by the hot path.\<close>

lemma feed_pop_plausible:
  assumes "feed_inv_plausible fh"
  shows "\<exists>a fh'. feed_pop fh = Some (a, fh') \<and> feed_running fh' = feed_running fh \<and> msgs_received fh' = msgs_received fh \<and> sim_base_price fh' = sim_base_price fh \<and> msg_pool fh' = msg_pool fh
    \<and> (if a = 0 then feed_queued fh = [] \<and> fh' = fh
       else feed_ok [a] fh' \<and> plausible (msgs fh' a) \<and> (\<forall>m \<in> set (feed_queued fh'). plausible m) \<and> length (feed_queued fh) = Suc (length (feed_queued fh')))"
proof -
  have "feed_ok [] fh" using assms by (simp add: feed_inv_plausible_def)
  from feedq.next_total [OF this] obtain a fh' where
    p: "feed_pop fh = Some (a, fh')" "if a = 0 then feed_queued fh = [] \<and> fh' = fh else feed_ok [a] fh' \<and> feed_queued fh = msgs fh a # feed_queued fh'"
    by auto
  have "msgs fh' = msgs fh" "feed_running fh' = feed_running fh" "msgs_received fh' = msgs_received fh" "sim_base_price fh' = sim_base_price fh" "msg_pool fh' = msg_pool fh"
    using p(1) by (auto simp: feed_pop_def)
  then show ?thesis using p assms by (auto simp: feed_inv_plausible_def)
qed

lemma hot_step:
  assumes "pl_inv sy n m p" and "balanced p"
    and "feed_pop (p_feed p) = Some (a, fh)" and "a \<noteq> 0"
  shows "\<exists>p'. process_market_data clk t0 t1 a (p\<lparr>p_feed := fh\<rparr>) = Some p' \<and> pl_inv sy n m p' \<and> balanced p' \<and> p_running p' = p_running p
    \<and> p_journal p' = p_journal p \<and> p_logger p' = p_logger p \<and> feed_running (p_feed p') = feed_running (p_feed p)
    \<and> length (feed_queued (p_feed p)) = Suc (length (feed_queued (p_feed p')))
    \<and> length (queued (io_chan p')) \<ge> length (queued (io_chan p)) + min 2 (length (free_entries (io_chan p)))"
proof -
  let ?p = "p\<lparr>p_feed := fh\<rparr>"
  have I: "chan_ok [] (io_chan p)" "log_ok (p_logger p)" "feed_inv_plausible (p_feed p)" "trading_inv sy n p" "journal_ok (m + 4294967296) (p_journal p)"
    using assms(1) by (simp_all add: pl_inv_def)
  from feed_pop_plausible [OF I(3)] assms(3,4) have
    f: "feed_running fh = feed_running (p_feed p)" "msgs_received fh = msgs_received (p_feed p)" "sim_base_price fh = sim_base_price (p_feed p)"
      "feed_ok [a] fh" "plausible (msgs fh a)" "\<forall>m \<in> set (feed_queued fh). plausible m" "length (feed_queued (p_feed p)) = Suc (length (feed_queued fh))"
      "msg_pool fh = msg_pool (p_feed p)"
    by auto
  have T: "chan_ok [] (io_chan ?p)" "trading_inv sy (Suc n) ?p" "feed_ok [a] (p_feed ?p)" "plausible (msgs (p_feed ?p) a)"
    using I f by (simp_all add: trading_inv_def)
  from hot_message [OF T, of clk t0 t1] obtain b e c st i mp where
    h: "process_market_data clk t0 t1 a ?p = Some (?p\<lparr>p_book := b, p_risk := e, p_feed := fh\<lparr>msg_pool := mp\<rparr>, io_chan := c, p_stats := st, next_order_id := i\<rparr>)"
      "chan_ok [] c" "feed_ok [] (fh\<lparr>msg_pool := mp\<rparr>) \<and> mempool_free (msg_pool fh) a = Some mp" "trading_inv sy n (?p\<lparr>p_book := b, p_risk := e, next_order_id := i\<rparr>)"
      "market_data_msgs st = market_data_msgs (p_stats p) + 1" "orders_created st = orders_created (p_stats p) + 2"
      "orders_accepted st + orders_rejected st = orders_accepted (p_stats p) + orders_rejected (p_stats p) + 2"
      "of_nat (length (queued c)) + io_events_dropped st + trades_generated (p_stats p)
        = of_nat (length (queued (io_chan p))) + io_events_dropped (p_stats p) + trades_generated st + 2"
      "length (queued c) \<ge> length (queued (io_chan p)) + min 2 (length (free_entries (io_chan p)))" by auto
  let ?q = "?p\<lparr>p_book := b, p_risk := e, p_feed := fh\<lparr>msg_pool := mp\<rparr>, io_chan := c, p_stats := st, next_order_id := i\<rparr>"
  have "mp_slots mp = mp_slots (msg_pool fh)" using feed_free [OF f(4)] h(3) by auto
  then have "pl_inv sy n m ?q" using I h(2-4) f(3,6,8) by (simp add: inv_defs)
  moreover have "balanced ?q"
  proof -
    have "jsequence j + of_nat (length (queued c)) + io_events_dropped st = orders_created (p_stats p) + 2 + trades_generated st" if "p_journal p = Some j" for j
      by (rule ledger_step [OF _ h(8)]) (use assms(2) that in \<open>simp add: balanced_def Let_def\<close>)
    then show ?thesis using assms(2) h(5-7) f(2,7) by (simp add: balanced_def Let_def algebra_simps)
  qed
  ultimately show ?thesis using h(1,9) f by (intro exI [of _ ?q]) simp
qed

lemma io_ran_inv:
  assumes "io_ran es (m + 4294967296) ok p r" and "pl_inv sy n m p" and "balanced p" and "length es \<le> length (queued (io_chan p))"
  shows "\<exists>p'. r = Some p' \<and> pl_inv sy n m p' \<and> balanced p' \<and> p_running p' = p_running p \<and> p_feed p' = p_feed p \<and> p_stats p' = p_stats p
    \<and> p_book p' = p_book p \<and> p_risk p' = p_risk p
    \<and> (p_journal p' = None \<longleftrightarrow> p_journal p = None) \<and> queued (io_chan p') = drop (length es) (queued (io_chan p)) \<and> journal_grows es ok (p_journal p) (p_journal p')"
proof -
  obtain lg jo gw c where
    r: "r = Some (p\<lparr>p_logger := lg, p_journal := jo, p_gateway := gw, io_chan := c\<rparr>)" "log_ok lg" "journal_ok (m + 4294967296) jo"
      "journal_grows es ok (p_journal p) jo" "chan_ok [] c" "queued c = drop (length es) (queued (io_chan p))"
    using assms(1) by (auto simp: io_ran_def)
  let ?q = "p\<lparr>p_logger := lg, p_journal := jo, p_gateway := gw, io_chan := c\<rparr>"
  have "pl_inv sy n m ?q" using assms(2) r by (simp add: pl_inv_def trading_inv_def)
  moreover have "jsequence j' + of_nat (length (queued c)) = jsequence j + of_nat (length (queued (io_chan p)))" if "p_journal p = Some j" "jo = Some j'" for j j'
  proof -
    have "of_nat (length es) + of_nat (length (queued c)) = (of_nat (length (queued (io_chan p))) :: u64)" using assms(4) r(6) by simp
    then show ?thesis using r(4) that by (auto simp: journal_grows_def add.assoc)
  qed
  then have "balanced ?q" using assms(3) r(4) by (auto simp: balanced_def Let_def journal_grows_def split: option.splits)
  moreover have "jo = None \<longleftrightarrow> p_journal p = None" using r(4) by (auto simp: journal_grows_def split: option.splits)
  ultimately show ?thesis using r by (intro exI [of _ ?q]) simp
qed

lemma pl_journal_logger: "pl_journal f p = Some p' \<Longrightarrow> p_logger p' = p_logger p"
  by (auto simp: pl_journal_def split: option.splits)

lemma gateway_send_logger: "p_logger (gateway_send env ev p) = p_logger p"
  by (simp add: gateway_send_def)

lemma process_io_event_running: "process_io_event env ev p = Some p' \<Longrightarrow> log_running (p_logger p') = log_running (p_logger p)"
  by (cases "ev_type ev")
    (auto simp: process_io_event_def journal_order_def gateway_send_logger bind_eq_Some_conv dest!: pl_log_running pl_journal_logger)

lemma io_poll_running: "io_poll env p = Some p' \<Longrightarrow> log_running (p_logger p') = log_running (p_logger p)"
  by (auto simp: io_poll_def split: option.splits if_splits dest!: process_io_event_running)

text \<open>What no iteration touches.\<close>

definition steady :: "event_pipeline \<Rightarrow> event_pipeline \<Rightarrow> bool" where
  "steady p p' \<longleftrightarrow> p_running p' = p_running p \<and> (p_journal p' = None \<longleftrightarrow> p_journal p = None) \<and> feed_running (p_feed p') = feed_running (p_feed p)
     \<and> log_running (p_logger p') = log_running (p_logger p)"

lemma steady_trans: "steady p q \<Longrightarrow> steady q r \<Longrightarrow> steady p r"
  by (simp add: steady_def)

lemma pl_inv_mono: "pl_inv sy n m p \<Longrightarrow> n' \<le> n \<Longrightarrow> m' \<le> m \<Longrightarrow> pl_inv sy n' m' p"
  using journal_ok_mono [of "m + 4294967296" "p_journal p" "m' + 4294967296"] by (auto simp: pl_inv_def trading_inv_def)

lemma pl_op_step_inv:
  assumes "pl_inv sy (n + ticks [op]) (Suc m) p" and "balanced p"
  shows "\<exists>p'. pl_op_step tt op p = Some p' \<and> pl_inv sy n m p' \<and> balanced p' \<and> steady p p'"
proof -
  have I: "chan_ok [] (io_chan p)" "log_ok (p_logger p)" "feed_inv_plausible (p_feed p)" "trading_inv sy (n + ticks [op]) p" "journal_ok (Suc (m + 4294967296)) (p_journal p)"
    using assms(1) by (simp_all add: pl_inv_def)
  have inv: "pl_inv sy n m p" by (rule pl_inv_mono [OF assms(1)]) simp_all
  show ?thesis
  proof (cases op)
    case (FeedTick now)
    from feed_tick [OF I(3), of now] obtain fh where
      f: "feed_sim_step now (p_feed p) = Some fh" "feed_inv_plausible fh" "feed_running fh = feed_running (p_feed p)"
        "msgs_received fh + of_nat (length (feed_queued (p_feed p))) = msgs_received (p_feed p) + of_nat (length (feed_queued fh))" "length (feed_queued fh) \<le> Suc (length (feed_queued (p_feed p)))" by blast
    have "market_data_msgs (p_stats p) + of_nat (length (feed_queued fh)) = msgs_received fh"
      by (rule feed_sum [OF _ f(4)]) (use assms(2) in \<open>simp add: balanced_def Let_def\<close>)
    then have "balanced (p\<lparr>p_feed := fh\<rparr>)" using assms(2) by (simp add: balanced_def Let_def)
    moreover have "pl_inv sy n m (p\<lparr>p_feed := fh\<rparr>)" using inv I(4) f(2,5) by (simp add: pl_inv_def trading_inv_def FeedTick)
    ultimately show ?thesis using f by (simp add: FeedTick steady_def)
  next
    case (HotTick clk t0 t1)
    from feed_pop_plausible [OF I(3)] obtain a fh where
      f: "feed_pop (p_feed p) = Some (a, fh)" "a = 0 \<longrightarrow> fh = p_feed p" by auto
    show ?thesis
    proof (cases "a = 0")
      case True
      then show ?thesis using f inv assms(2) by (simp add: HotTick consumer_poll_def process_market_data_def steady_def)
    next
      case False
      from hot_step [OF inv assms(2) f(1) False, of clk t0 t1] f(1) show ?thesis by (auto simp: HotTick consumer_poll_def steady_def)
    qed
  next
    case (IoTick env)
    from io_ran_inv [OF io_poll_ok [OF I(1,2,5), of env] inv assms(2)] io_poll_running [of env p] show ?thesis by (auto simp: IoTick steady_def)
  next
    case LogTick
    from logger_poll_refines [OF I(2), of tt "[]"] obtain lg where "logger_poll tt (p_logger p) = Some lg" "log_ok lg" by blast
    moreover from this have "pl_inv sy n m (p\<lparr>p_logger := lg\<rparr>)" using inv by (simp add: pl_inv_def trading_inv_def)
    moreover have "balanced (p\<lparr>p_logger := lg\<rparr>)" using assms(2) by (simp add: balanced_def)
    ultimately show ?thesis using logger_poll_running [of tt "p_logger p" lg] by (simp add: LogTick steady_def)
  qed
qed

lemma ticks_Cons: "ticks (op # ops) = ticks [op] + ticks ops"
  by (cases op) simp_all

lemma pl_run_inv:
  "pl_inv sy (n + ticks ops) (m + length ops) p \<Longrightarrow> balanced p \<Longrightarrow> \<exists>p'. pl_run tt ops p = Some p' \<and> pl_inv sy n m p' \<and> balanced p' \<and> steady p p'"
proof (induction ops arbitrary: p)
  case Nil
  then show ?case by (simp add: steady_def)
next
  case (Cons op ops)
  have "pl_inv sy ((n + ticks ops) + ticks [op]) (Suc (m + length ops)) p" using Cons.prems(1) ticks_Cons [of op ops] by (simp add: ac_simps)
  from pl_op_step_inv [OF this Cons.prems(2), of tt] obtain p1 where
    1: "pl_op_step tt op p = Some p1" "pl_inv sy (n + ticks ops) (m + length ops) p1" "balanced p1" "steady p p1" by blast
  from Cons.IH [OF 1(2,3)] obtain p2 where "pl_run tt ops p1 = Some p2" "pl_inv sy n m p2" "balanced p2" "steady p1 p2" by blast
  with 1 steady_trans [of p p1 p2] show ?case by (intro exI [of _ p2]) simp
qed

lemma consumer_drain_inv:
  assumes "pl_inv sy n m p" and "balanced p"
  shows "\<exists>p'. consumer_drain clk lat k p = Some p' \<and> pl_inv sy n m p' \<and> balanced p' \<and> p_running p' = p_running p \<and> p_journal p' = p_journal p
    \<and> feed_queued (p_feed p') = [] \<and> feed_running (p_feed p') = feed_running (p_feed p)
    \<and> length (queued (io_chan p)) \<le> length (queued (io_chan p'))
    \<and> (feed_queued (p_feed p) \<noteq> [] \<and> free_entries (io_chan p) \<noteq> [] \<longrightarrow> queued (io_chan p') \<noteq> [])"
  using assms
proof (induction "length (feed_queued (p_feed p))" arbitrary: p k)
  case 0
  have "feed_ok [] (p_feed p)" using "0.prems"(1) by (simp add: inv_defs)
  then have "feed_pop (p_feed p) = Some (0, p_feed p)" using feedq.next_empty "0.hyps" by simp
  then show ?case using 0 by (intro exI [of _ p], subst consumer_drain.simps) simp
next
  case (Suc l)
  have "feed_inv_plausible (p_feed p)" using Suc.prems(1) by (simp add: pl_inv_def)
  from feed_pop_plausible [OF this] Suc.hyps(2) obtain a fh where f: "feed_pop (p_feed p) = Some (a, fh)" "a \<noteq> 0" by (auto split: if_splits)
  from hot_step [OF Suc.prems f, of "clk k" "fst (lat k)" "snd (lat k)"] obtain p1 where
    1: "process_market_data (clk k) (fst (lat k)) (snd (lat k)) a (p\<lparr>p_feed := fh\<rparr>) = Some p1" "pl_inv sy n m p1" "balanced p1"
      "p_running p1 = p_running p" "p_journal p1 = p_journal p" "feed_running (p_feed p1) = feed_running (p_feed p)"
      "length (feed_queued (p_feed p)) = Suc (length (feed_queued (p_feed p1)))"
      "length (queued (io_chan p1)) \<ge> length (queued (io_chan p)) + min 2 (length (free_entries (io_chan p)))" by blast
  have l: "l = length (feed_queued (p_feed p1))" using 1(7) Suc.hyps(2) by simp
  from Suc.hyps(1) [OF l 1(2,3), of "Suc k"] obtain p2 where
    2: "consumer_drain clk lat (Suc k) p1 = Some p2" "pl_inv sy n m p2" "balanced p2" "p_running p2 = p_running p1" "p_journal p2 = p_journal p1"
      "feed_queued (p_feed p2) = []" "feed_running (p_feed p2) = feed_running (p_feed p1)" "length (queued (io_chan p1)) \<le> length (queued (io_chan p2))" by auto
  have "queued (io_chan p2) \<noteq> []" if "free_entries (io_chan p) \<noteq> []"
  proof -
    have "0 < length (free_entries (io_chan p))" using that by simp
    then have "0 < length (queued (io_chan p2))" using 1(8) 2(8) by linarith
    then show ?thesis by simp
  qed
  moreover have "length (queued (io_chan p)) \<le> length (queued (io_chan p2))" using 1(8) 2(8) by linarith
  ultimately show ?case using f 1 2 by (intro exI [of _ p2], subst consumer_drain.simps) simp
qed

section \<open>Starting up\<close>

text \<open>What the operating system must provide for the engine to come up.\<close>

definition env_ok :: "init_env \<Rightarrow> string \<Rightarrow> bool" where
  "env_ok ie log_path \<longleftrightarrow> (\<forall>n. ie_alloc ie n) \<and> ie_logger_ok ie \<and> ie_fopen ie (cstr log_path) \<noteq> None \<and> cstr log_path \<noteq> ''-'' \<and> ie_log_thread_ok ie
     \<and> ie_log_pool ie \<noteq> 0 \<and> unat (ie_log_pool ie) + 2162688 \<le> 2 ^ 64 \<and> ie_gateway_ok ie
     \<and> ie_feed_addr ie \<noteq> 0 \<and> ie_feed_pool ie \<noteq> 0 \<and> unat (ie_feed_pool ie) + 262144 \<le> 2 ^ 64 \<and> ie_feed_malloc_ok ie
     \<and> ie_event_pool ie \<noteq> 0 \<and> unat (ie_event_pool ie) + 3637248 \<le> 2 ^ 64"

lemma logger_write_ok: "log_ok lg \<Longrightarrow> \<exists>lg'. logger_write now l (Some t) lg = Some lg' \<and> log_ok lg'"
  using logger_write_refines [of lg now l t undefined "[]"] by auto

lemma pl_init_ok:
  assumes "env_ok ie log_path"
  shows "\<exists>lg gw fh c. pl_init ie sm log_path = Some (Inr \<lparr>p_logger = lg, p_journal = None, p_book = new_book sm,
      p_risk = set_limits pipeline_limits new_risk_engine, p_gateway = gw, p_feed = fh, p_running = False, io_chan = c, p_stats = zero_stats, next_order_id = 1\<rparr>)
    \<and> log_ok lg \<and> log_running lg \<and> gw_state gw = GW_CONNECTED
    \<and> gw_init True (ie_fopen ie (sim_log_file pipeline_gw_config)) (ie_time ie) (Some pipeline_gw_config) = Some gw \<and> feed_inv 4096 (fh, [], [], []) \<and> rb_bound (output_queue fh) = 4095 \<and> feed_cfg fh = pipeline_feed_config sm \<and> prng_state fh = 2463534242 + ucast (ie_feed_addr ie)
    \<and> chan_ok [] c \<and> queued c = [] \<and> length (free_entries c) = 4095"
proof -
  have E: "\<And>n. ie_alloc ie n" "ie_logger_ok ie" "cstr log_path \<noteq> ''-''" "ie_log_thread_ok ie"
      "ie_log_pool ie \<noteq> 0" "unat (ie_log_pool ie) + 2162688 \<le> 2 ^ 64" "ie_gateway_ok ie"
      "ie_feed_addr ie \<noteq> 0" "ie_feed_pool ie \<noteq> 0" "unat (ie_feed_pool ie) + 262144 \<le> 2 ^ 64" "ie_feed_malloc_ok ie"
      "ie_event_pool ie \<noteq> 0" "unat (ie_event_pool ie) + 3637248 \<le> 2 ^ 64"
    using assms by (simp_all add: env_ok_def)
  obtain f where "ie_fopen ie (cstr log_path) = Some f" using assms by (auto simp: env_ok_def)
  then obtain lg0 where lg0: "logger_init (ie_alloc ie) True (ie_fopen ie) (ie_log_pool ie) True (Some (cstr log_path)) 4096 = Some (Some lg0)" "log_ok lg0" "log_running lg0"
    using logger_init_ok [of 4096 "ie_alloc ie" "ie_log_pool ie" "ie_fopen ie" "cstr log_path" f] E by auto
  obtain lg1 where lg1: "logger_write (ie_now ie) LOG_INFO (Some (''[INFO]  EventPipeline initializing for symbol '' @ cstr sm)) lg0 = Some lg1" "log_ok lg1"
    using logger_write_ok [OF lg0(2)] by blast
  obtain lg where lg: "logger_write (ie_now ie) LOG_INFO (Some ''[INFO]  EventPipeline initialized successfully'') lg1 = Some lg" "log_ok lg"
    using logger_write_ok [OF lg1(2)] by blast
  obtain gw where gw: "gw_init True (ie_fopen ie (sim_log_file pipeline_gw_config)) (ie_time ie) (Some pipeline_gw_config) = Some gw" "gw_state gw = GW_CONNECTED"
    by (simp add: gw_init_def pipeline_gw_config_def Let_def)
  have "\<exists>fh. feed_init (ie_alloc ie) (ie_feed_addr ie) (ie_feed_pool ie) True no_sockets (Some (pipeline_feed_config sm)) = Some fh
    \<and> feed_inv (unat (output_queue_size (pipeline_feed_config sm))) (fh, [], [], [])
    \<and> msgs_dropped fh = 0 \<and> rb_bound (output_queue fh) = unat (rounded_capacity (output_queue_size (pipeline_feed_config sm))) - 1"
    by (rule feed_init_ok) (use E in \<open>simp_all add: pipeline_feed_config_def\<close>)
  then obtain fh where fh: "feed_init (ie_alloc ie) (ie_feed_addr ie) (ie_feed_pool ie) True no_sockets (Some (pipeline_feed_config sm)) = Some fh"
    "feed_inv 4096 (fh, [], [], [])" "rb_bound (output_queue fh) = unat (rounded_capacity 4096) - 1" by (auto simp: pipeline_feed_config_def)
  have cfg: "feed_cfg fh = pipeline_feed_config sm \<and> prng_state fh = 2463534242 + ucast (ie_feed_addr ie)"
    using fh(1) by (auto simp: feed_init_def Let_def pipeline_feed_config_def split: if_splits prod.splits option.splits)
  have "\<exists>c. channel_init (ie_alloc ie) (ie_event_pool ie) 888 4096 zero_event = Some (Some c) \<and> chan_ok [] c \<and> queued c = []
    \<and> entries c = (\<lambda>_. zero_event) \<and> free_entries c = take (unat (rounded_capacity 4096) - 1) (pool_entries (ie_event_pool ie) 888 4096)"
    by (rule channel_init_ok) (use E in simp_all)
  then obtain c where c: "channel_init (ie_alloc ie) (ie_event_pool ie) 888 4096 zero_event = Some (Some c)" "chan_ok [] c" "queued c = []"
    "free_entries c = take (unat (rounded_capacity 4096) - 1) (pool_entries (ie_event_pool ie) 888 4096)" by blast
  have "rounded_capacity 4096 = 4096" by (simp add: rounded_capacity_def is_power_of_two_def)
  then have "length (free_entries c) = 4095" "rb_bound (output_queue fh) = 4095" using c(4) fh(3) by (simp_all add: pool_entries_def)
  moreover have "log_running lg" using lg0(3) logger_write_running [OF lg1(1)] logger_write_running [OF lg(1)] by simp
  ultimately show ?thesis using lg0 lg1 lg gw fh cfg c E
    by (intro exI [of _ lg] exI [of _ gw] exI [of _ fh] exI [of _ c]) (simp add: pl_init_def)
qed

lemma journal_open_safe:
  assumes "journal_open os f True = Some j" and "length f \<le> 2 ^ 62" and "n < 2 ^ 57"
  shows "journal_safe n j \<and> jsequence j = 0 \<and> jbytes_written j = 0"
proof -
  have d: "unat DEFAULT_MMAP_SIZE = 268435456" by (simp add: DEFAULT_MMAP_SIZE_def)
  have l: "unat (of_nat (length f) :: u64) = length f" using assms(2) by (simp add: unat_of_nat_u64)
  obtain k c where j: "j = \<lparr>use_mmap = True, jsequence = 0, jbytes_written = 0, file_size = k, mapped = True, mmap_size = k,
      mmap_offset = (if 0 < k then k else 0), content = c\<rparr>" and "unat k \<le> length c" "unat k \<le> 2 ^ 62"
  proof (cases "(if fstat_ok os then of_nat (length f) else 0) < DEFAULT_MMAP_SIZE")
    case True
    then show ?thesis using assms(1) that [of DEFAULT_MMAP_SIZE "ftruncate DEFAULT_MMAP_SIZE f"]
      by (simp add: journal_open_def Let_def length_ftruncate d split: if_split_asm)
  next
    case False
    then have "fstat_ok os" by (auto simp: DEFAULT_MMAP_SIZE_def split: if_splits)
    then show ?thesis using False assms(1,2) that [of "of_nat (length f)" f]
      by (simp add: journal_open_def Let_def l split: if_split_asm)
  qed
  moreover have "n * 84 \<le> 2 ^ 57 * 84" using assms(3) by (intro mult_right_mono) simp_all
  moreover have "unat k = 0" if "\<not> 0 < k" using that by (simp add: word_less_nat_alt)
  ultimately show ?thesis by (auto simp: j journal_safe_def word_le_nat_alt)
qed

lemma pl_start_ok:
  assumes "log_ok (p_logger p)" and "\<not> p_running p" and "feed_simulation_mode (feed_cfg (p_feed p))"
  shows "\<exists>lg. pl_start True True True now p = Some (0, p\<lparr>p_logger := lg,
      p_feed := (p_feed p)\<lparr>sim_base_price := d_lit 150 1, feed_running := True\<rparr>, p_running := True\<rparr>) \<and> log_ok lg \<and> log_running lg = log_running (p_logger p)"
proof -
  obtain lg1 where 1: "pl_log now LOG_INFO ''[INFO]  EventPipeline starting...'' p = Some (p\<lparr>p_logger := lg1\<rparr>)" "log_ok lg1"
    using pl_log_ok [OF assms(1)] by blast
  let ?p = "p\<lparr>p_logger := lg1, p_feed := (p_feed p)\<lparr>sim_base_price := d_lit 150 1, feed_running := True\<rparr>, p_running := True\<rparr>"
  have "log_ok (p_logger ?p)" using 1(2) by simp
  from pl_log_ok [OF this] obtain lg where
    2: "pl_log now LOG_INFO (''[INFO]  EventPipeline started '' @ [CHR 0xE2, CHR 0x80, CHR 0x94] @ '' 2-stage pipeline active'') ?p = Some (?p\<lparr>p_logger := lg\<rparr>)" "log_ok lg"
    by blast
  have "log_running lg = log_running (p_logger p)" using pl_log_running [OF 1(1)] pl_log_running [OF 2(1)] by simp
  then show ?thesis using 1 2 assms(2,3) by (intro exI [of _ lg]) (simp add: pl_start_def feed_start_def Let_def)
qed

lemma engine_boot_ok:
  assumes "env_ok ie (opt_log s)" and "length f \<le> 2 ^ 62" and "n < 2 ^ 30" and "m < 2 ^ 56"
  shows "\<exists>en. engine_boot ie os f (True, True, True) s = Some (Inr en) \<and> pl_inv (opt_symbol s) n m (en_pipe en) \<and> balanced (en_pipe en)
    \<and> p_running (en_pipe en) \<and> feed_running (p_feed (en_pipe en)) \<and> log_running (p_logger (en_pipe en)) \<and> g_journal en = (journal_open os f True \<noteq> None)
    \<and> p_journal (en_pipe en) = journal_open os f True \<and> p_stats (en_pipe en) = zero_stats \<and> gw_state (p_gateway (en_pipe en)) = GW_CONNECTED
    \<and> queued (io_chan (en_pipe en)) = [] \<and> length (free_entries (io_chan (en_pipe en))) = 4095 \<and> feed_queued (p_feed (en_pipe en)) = []
    \<and> rb_bound (output_queue (p_feed (en_pipe en))) = 4095
    \<and> p_book (en_pipe en) = new_book (opt_symbol s) \<and> p_risk (en_pipe en) = set_limits pipeline_limits new_risk_engine \<and> next_order_id (en_pipe en) = 1
    \<and> feed_cfg (p_feed (en_pipe en)) = pipeline_feed_config (opt_symbol s) \<and> sim_base_price (p_feed (en_pipe en)) = d_lit 150 1
    \<and> prng_state (p_feed (en_pipe en)) = 2463534242 + ucast (ie_feed_addr ie)
    \<and> gw_init True (ie_fopen ie (sim_log_file pipeline_gw_config)) (ie_time ie) (Some pipeline_gw_config) = Some (p_gateway (en_pipe en))"
proof -
  from pl_init_ok [OF assms(1), of "opt_symbol s"] obtain lg gw fh c where
    i: "pl_init ie (opt_symbol s) (opt_log s) = Some (Inr \<lparr>p_logger = lg, p_journal = None, p_book = new_book (opt_symbol s),
      p_risk = set_limits pipeline_limits new_risk_engine, p_gateway = gw, p_feed = fh, p_running = False, io_chan = c, p_stats = zero_stats, next_order_id = 1\<rparr>)"
      (is "_ = Some (Inr ?p)")
      "log_ok lg \<and> log_running lg" "gw_state gw = GW_CONNECTED \<and> gw_init True (ie_fopen ie (sim_log_file pipeline_gw_config)) (ie_time ie) (Some pipeline_gw_config) = Some gw" "feed_inv 4096 (fh, [], [], []) \<and> rb_bound (output_queue fh) = 4095" "feed_cfg fh = pipeline_feed_config (opt_symbol s) \<and> prng_state fh = 2463534242 + ucast (ie_feed_addr ie)"
      "chan_ok [] c" "queued c = []" "length (free_entries c) = 4095" by blast
  let ?j = "journal_open os f True"
  let ?q = "?p\<lparr>p_journal := ?j\<rparr>"
  have q: "(if ?j \<noteq> None then set_journal ?j ?p else ?p) = ?q" by (simp add: set_journal_def)
  have "log_ok (p_logger ?q)" "\<not> p_running ?q" "feed_simulation_mode (feed_cfg (p_feed ?q))" using i(2,5) by (simp_all add: pipeline_feed_config_def)
  from pl_start_ok [OF this, of "ie_now ie"] obtain lg' where
    st: "pl_start True True True (ie_now ie) ?q = Some (0, ?q\<lparr>p_logger := lg', p_feed := fh\<lparr>sim_base_price := d_lit 150 1, feed_running := True\<rparr>, p_running := True\<rparr>)" "log_ok lg' \<and> log_running lg'"
    using i(2) by auto
  let ?r = "?q\<lparr>p_logger := lg', p_feed := fh\<lparr>sim_base_price := d_lit 150 1, feed_running := True\<rparr>, p_running := True\<rparr>"
  let ?en = "\<lparr>en_pipe = ?r, g_journal = (?j \<noteq> None), closed_file = None\<rparr>"
  have "engine_boot ie os f (True, True, True) s = Some (Inr ?en)" unfolding engine_boot_def Let_def i(1) option.case sum.case q by (simp add: st(1) [simplified])
  moreover have fq: "feed_queued (fh\<lparr>sim_base_price := x, feed_running := y\<rparr>) = []" "feed_ok [] (fh\<lparr>sim_base_price := x, feed_running := y\<rparr>)" "msgs_received fh = 0" "card (mp_slots (msg_pool fh)) = 4096" for x y
    using i(4) by (auto simp: feed_inv_def feed_queued_def feed_ok_def)
  moreover have js: "journal_safe (m + 4294967296) j \<and> jsequence j = 0" if "?j = Some j" for j
    using journal_open_safe [OF that assms(2), of "m + 4294967296"] assms(4) by simp
  moreover have "d_within 2684354560 (d_lit 150 1) 268435456000" by (rule d_within_lit) simp_all
  then have "pl_inv (opt_symbol s) n m ?r"
    using i(6) st(2) fq js assms(3) by (auto simp: inv_defs journal_ok_def resting_ids_def book_entries_def new_book_def
        intro: history_new [unfolded new_book_def] risk_start split: option.split)
  moreover have "balanced ?r" using js i(7) fq by (auto simp: balanced_def zero_stats_def Let_def)
  ultimately show ?thesis using i(3,4,5,7,8) st(2) by (intro exI [of _ ?en]) simp
qed

section \<open>Stopping\<close>

lemma queued_bound: "chan_ok xs c \<Longrightarrow> length (queued c) < 4294967296"
proof -
  assume "chan_ok xs c"
  then have "length (queued c) \<le> rb_bound (filled_queue c)" by (auto simp: chan_ok_def circulating_def queued_def)
  also have "\<dots> < 4294967296" unfolding rb_bound_def using unat_u32_less [of "rb_capacity (filled_queue c)"] by linarith
  finally show ?thesis .
qed

lemma log_lines_ok: "log_ok (p_logger p) \<Longrightarrow> \<exists>lg. log_lines now ts p = Some (p\<lparr>p_logger := lg\<rparr>) \<and> log_ok lg"
proof (induction ts arbitrary: p)
  case Nil
  then show ?case by (intro exI [of _ "p_logger p"]) simp
next
  case (Cons t ts)
  from pl_log_ok [OF Cons.prems, of now LOG_INFO t] obtain lg where 1: "pl_log now LOG_INFO t p = Some (p\<lparr>p_logger := lg\<rparr>)" "log_ok lg" by blast
  from Cons.IH [of "p\<lparr>p_logger := lg\<rparr>"] 1 show ?case by auto
qed

text \<open>The iterations of the feed among the operations of a schedule.\<close>

fun stop_ticks :: "stop_op list \<Rightarrow> nat" where
  "stop_ticks [] = 0"
| "stop_ticks (FeedGoes now # ops) = Suc (stop_ticks ops)"
| "stop_ticks (_ # ops) = stop_ticks ops"

lemma stop_ticks_Cons: "stop_ticks (op # ops) = stop_ticks [op] + stop_ticks ops"
  by (cases op) simp_all

lemma stop_ticks_append: "stop_ticks (xs @ ys) = stop_ticks xs + stop_ticks ys"
  by (induction xs rule: stop_ticks.induct) simp_all

lemma stop_run_append: "stop_run tt (xs @ ys) s = Option.bind (stop_run tt xs s) (stop_run tt ys)"
  by (induction xs arbitrary: s) (simp_all split: bind_split)

text \<open>Once the hot path has ended, an I/O thread that has ended as well has left nothing behind.\<close>

definition left_nothing :: "stop_state \<Rightarrow> bool" where
  "left_nothing s \<longleftrightarrow> consumer_done s \<and> (io_done s \<longrightarrow> queued (io_chan (pl s)) = [])"

text \<open>What the steps of a stop keep, and that a thread that has ended has ended for good.\<close>

definition stop_keeps :: "stop_state \<Rightarrow> stop_state \<Rightarrow> bool" where
  "stop_keeps s s' \<longleftrightarrow> p_running (pl s') = p_running (pl s) \<and> (p_journal (pl s') = None \<longleftrightarrow> p_journal (pl s) = None)
     \<and> (consumer_done s \<longrightarrow> consumer_done s') \<and> (io_done s \<longrightarrow> io_done s') \<and> (left_nothing s \<longrightarrow> left_nothing s')"

lemma stop_keeps_trans: "stop_keeps s t \<Longrightarrow> stop_keeps t u \<Longrightarrow> stop_keeps s u"
  by (simp add: stop_keeps_def)

lemma pl_inv_feed: "pl_inv sy n m p \<Longrightarrow> feed_inv_plausible fh \<Longrightarrow> feed_queued fh = feed_queued (p_feed p) \<Longrightarrow> pl_inv sy n m (p\<lparr>p_feed := fh\<rparr>)"
  by (simp add: pl_inv_def trading_inv_def)

lemma feed_stop_inv:
  assumes "pl_inv sy n m p" and "balanced p"
  shows "pl_feed feed_stop p = p\<lparr>p_feed := (p_feed p)\<lparr>feed_running := False\<rparr>\<rparr> \<and> pl_inv sy n m (pl_feed feed_stop p) \<and> balanced (pl_feed feed_stop p)"
proof -
  have "pl_feed feed_stop p = p\<lparr>p_feed := (p_feed p)\<lparr>feed_running := False\<rparr>\<rparr>" by (simp add: pl_feed_def feed_stop_def)
  moreover have "feed_inv_plausible ((p_feed p)\<lparr>feed_running := False\<rparr>)" "feed_queued ((p_feed p)\<lparr>feed_running := False\<rparr>) = feed_queued (p_feed p)"
      "balanced (p\<lparr>p_feed := (p_feed p)\<lparr>feed_running := False\<rparr>\<rparr>)"
    using assms by (simp_all add: inv_defs feed_ok_def feed_queued_def balanced_def)
  ultimately show ?thesis using pl_inv_feed [OF assms(1)] by simp
qed

lemma io_message_ran:
  assumes "pl_inv sy n (Suc m) p" and "chan_next (io_chan p) = Some (a, c)" and "a \<noteq> 0"
  shows "io_ran [event_entry env (entries c a)] (m + 4294967296) (os_ok (io_os env)) p (process_io_event env (entries c a) (p\<lparr>io_chan := c\<rparr>))
    \<and> queued (io_chan p) = entries c a # queued c"
proof -
  have I: "chan_ok [] (io_chan p)" "log_ok (p_logger p)" "journal_ok (Suc (m + 4294967296)) (p_journal p)" using assms(1) by (simp_all add: pl_inv_def)
  from evq.next_message [OF I(1) assms(2,3)] chan_next_keeps [OF assms(2)] have c: "chan_ok [a] c" "queued (io_chan p) = entries c a # queued c" by auto
  have "log_ok (p_logger (p\<lparr>io_chan := c\<rparr>))" "journal_ok (Suc (m + 4294967296)) (p_journal (p\<lparr>io_chan := c\<rparr>))" using I by simp_all
  from process_io_event_ok [OF this, of env "entries c a"] obtain lg jo gw where
    q: "process_io_event env (entries c a) (p\<lparr>io_chan := c\<rparr>) = Some (p\<lparr>io_chan := c, p_logger := lg, p_journal := jo, p_gateway := gw\<rparr>)" "log_ok lg"
      "journal_ok (m + 4294967296) jo" "journal_grows [event_entry env (entries c a)] (os_ok (io_os env)) (p_journal p) jo" "gw_state gw = gw_state (p_gateway p)"
    by (auto simp: io_processed_def)
  then show ?thesis unfolding io_ran_def using c chan_ok_drop [of "[]" "[a]" c]
    by (intro conjI exI [of _ lg] exI [of _ jo] exI [of _ gw] exI [of _ c]) simp_all
qed

lemma stop_op_step_inv:
  assumes "pl_inv sy (n + stop_ticks [op]) (Suc m) (pl s)" and "balanced (pl s)"
  shows "\<exists>s'. stop_op_step tt op s = Some s' \<and> pl_inv sy n m (pl s') \<and> balanced (pl s') \<and> stop_keeps s s'"
proof -
  have inv: "pl_inv sy n m (pl s)" "pl_inv sy n (Suc m) (pl s)" using pl_inv_mono [OF assms(1)] by simp_all
  have refl: "stop_keeps s s" by (simp add: stop_keeps_def)
  show ?thesis
  proof (cases op)
    case (HotDrain clk t0 t1)
    have "feed_inv_plausible (p_feed (pl s))" using inv(1) by (simp add: pl_inv_def)
    from feed_pop_plausible [OF this] obtain a fh where f: "feed_pop (p_feed (pl s)) = Some (a, fh)" "a = 0 \<longrightarrow> fh = p_feed (pl s)" by auto
    show ?thesis
    proof (cases "consumer_done s \<or> a = 0")
      case True
      then show ?thesis using inv(1) assms(2) f refl by (auto simp: HotDrain stop_keeps_def left_nothing_def)
    next
      case False
      then show ?thesis using hot_step [OF inv(1) assms(2) f(1), of clk t0 t1] f(1) by (auto simp: HotDrain stop_keeps_def left_nothing_def)
    qed
  next
    case (IoLate env)
    have "pl_inv sy (n + ticks [IoTick env]) (Suc m) (pl s)" using inv(2) by simp
    from pl_op_step_inv [OF this assms(2), of tt] inv(1) assms(2) refl show ?thesis
      by (cases "io_draining s \<or> io_done s") (auto simp: IoLate stop_keeps_def left_nothing_def steady_def)
  next
    case (IoDrain env)
    have c0: "chan_ok [] (io_chan (pl s))" using inv(1) by (simp add: pl_inv_def)
    from evq.next_total [OF c0] obtain a c where
      c: "chan_next (io_chan (pl s)) = Some (a, c)" "a = 0 \<longrightarrow> queued (io_chan (pl s)) = [] \<and> c = io_chan (pl s)" by auto
    show ?thesis
    proof (cases "io_done s \<or> a = 0")
      case True
      then show ?thesis using inv(1) assms(2) c refl by (auto simp: IoDrain stop_keeps_def left_nothing_def)
    next
      case False
      note R = io_message_ran [OF inv(2) c(1), of env]
      have "\<exists>p'. process_io_event env (entries c a) ((pl s)\<lparr>io_chan := c\<rparr>) = Some p' \<and> pl_inv sy n m p' \<and> balanced p' \<and> p_running p' = p_running (pl s)
          \<and> (p_journal p' = None \<longleftrightarrow> p_journal (pl s) = None)"
        using io_ran_inv [OF conjunct1 [OF R] inv(1) assms(2)] conjunct2 [OF R] False by auto
      then show ?thesis using False c(1) by (auto simp: IoDrain stop_keeps_def left_nothing_def)
    qed
  next
    case (FeedGoes now)
    have "pl_inv sy (n + ticks [FeedTick now]) (Suc m) (pl s)" using assms(1) by (simp add: FeedGoes)
    from pl_op_step_inv [OF this assms(2), of tt] inv(1) assms(2) refl show ?thesis
      by (cases "feed_running (p_feed (pl s))") (auto simp: FeedGoes stop_keeps_def left_nothing_def steady_def)
  next
    case FeedStops
    then show ?thesis using feed_stop_inv [OF inv(1) assms(2)] inv(1) assms(2) refl
      by (cases "consumer_done s") (auto simp: stop_keeps_def left_nothing_def)
  next
    case LogGoes
    have "pl_inv sy (n + ticks [LogTick]) (Suc m) (pl s)" using inv(2) by simp
    from pl_op_step_inv [OF this assms(2), of tt] show ?thesis by (auto simp: LogGoes stop_keeps_def left_nothing_def steady_def)
  qed
qed

lemma stop_run_inv:
  "pl_inv sy (n + stop_ticks sch) (m + length sch) (pl s) \<Longrightarrow> balanced (pl s) \<Longrightarrow>
    \<exists>s'. stop_run tt sch s = Some s' \<and> pl_inv sy n m (pl s') \<and> balanced (pl s') \<and> stop_keeps s s'"
proof (induction sch arbitrary: s)
  case Nil
  then show ?case by (simp add: stop_keeps_def)
next
  case (Cons op sch)
  have "pl_inv sy ((n + stop_ticks sch) + stop_ticks [op]) (Suc (m + length sch)) (pl s)" using Cons.prems(1) stop_ticks_Cons [of op sch] by (simp add: ac_simps)
  from stop_op_step_inv [OF this Cons.prems(2), of tt] obtain s1 where
    1: "stop_op_step tt op s = Some s1" "pl_inv sy (n + stop_ticks sch) (m + length sch) (pl s1)" "balanced (pl s1)" "stop_keeps s s1" by blast
  from Cons.IH [OF 1(2,3)] obtain s2 where "stop_run tt sch s1 = Some s2" "pl_inv sy n m (pl s2)" "balanced (pl s2)" "stop_keeps s1 s2" by blast
  with 1 stop_keeps_trans [of s s1 s2] show ?case by (intro exI [of _ s2]) simp
qed

lemma stop_start_inv: "pl_inv sy n m p \<Longrightarrow> balanced p \<Longrightarrow> pl_inv sy n m (pl (stop_start p)) \<and> balanced (pl (stop_start p))"
  by (simp add: stop_start_def pl_inv_def trading_inv_def balanced_def)

text \<open>The threads end under every schedule.\<close>

lemma stop_threads_ok:
  assumes "pl_inv sy (n + stop_ticks sch) (m + length sch) p" and "balanced p"
  shows "\<exists>p'. stop_threads tt sch clk lat env p = Some p' \<and> \<not> p_running p' \<and> \<not> feed_running (p_feed p')
    \<and> trading_inv sy n p' \<and> balanced p' \<and> chan_ok [] (io_chan p') \<and> feed_inv_plausible (p_feed p') \<and> log_ok (p_logger p')
    \<and> (p_journal p' = None \<longleftrightarrow> p_journal p = None)"
proof -
  have st: "pl_inv sy (n + stop_ticks sch) (m + length sch) (pl (stop_start p))" "balanced (pl (stop_start p))" using stop_start_inv [OF assms] by simp_all
  from stop_run_inv [OF st, of tt] obtain s where
    s: "stop_run tt sch (stop_start p) = Some s" "pl_inv sy n m (pl s)" "balanced (pl s)" "stop_keeps (stop_start p) s" by blast
  have s4: "\<not> p_running (pl s)" "p_journal (pl s) = None \<longleftrightarrow> p_journal p = None" using s(4) by (simp_all add: stop_keeps_def stop_start_def)
  obtain p1 where p1: "(if consumer_done s then Some (pl s) else consumer_drain clk lat 0 (pl s)) = Some p1" "pl_inv sy n m p1" "balanced p1" "\<not> p_running p1"
      "p_journal p1 = None \<longleftrightarrow> p_journal p = None"
  proof (cases "consumer_done s")
    case True
    then show ?thesis using s s4 by (intro that [of "pl s"]) simp_all
  next
    case False
    from consumer_drain_inv [OF s(2,3), of clk lat 0] obtain q where
      "consumer_drain clk lat 0 (pl s) = Some q" "pl_inv sy n m q" "balanced q" "p_running q = p_running (pl s)" "p_journal q = p_journal (pl s)" by blast
    then show ?thesis using False s4 by (intro that [of q]) simp_all
  qed
  let ?p2 = "pl_feed feed_stop p1"
  from feed_stop_inv [OF p1(2,3)] have p2: "?p2 = p1\<lparr>p_feed := (p_feed p1)\<lparr>feed_running := False\<rparr>\<rparr>" "pl_inv sy n m ?p2" "balanced ?p2" by auto
  then have i2: "chan_ok [] (io_chan ?p2)" "log_ok (p_logger ?p2)" "journal_ok (m + 4294967296) (p_journal ?p2)" "feed_inv_plausible (p_feed ?p2)" "trading_inv sy n ?p2"
    by (simp_all add: pl_inv_def)
  show ?thesis
  proof (cases "io_done s")
    case True
    then show ?thesis using s(1) p1 p2 i2 by (intro exI [of _ ?p2]) (simp add: stop_threads_def Let_def)
  next
    case False
    have "journal_ok (length (queued (io_chan ?p2)) + 0) (p_journal ?p2)" using i2(3) queued_bound [OF i2(1)] by (auto elim: journal_ok_mono)
    from io_drain_ok [OF i2(1,2) this, of env 0] obtain lg jo gw c where
      d: "io_drain env 0 ?p2 = Some (?p2\<lparr>p_logger := lg, p_journal := jo, p_gateway := gw, io_chan := c\<rparr>)" (is "_ = Some ?p3") "log_ok lg"
        "journal_grows (drain_entries env 0 (queued (io_chan ?p2))) (\<forall>i. os_ok (io_os (env i))) (p_journal ?p2) jo" "chan_ok [] c" "queued c = []"
      by (auto simp: io_ran_def)
    have "balanced ?p3" using p2(3) d(3,5) by (auto simp: balanced_def Let_def journal_grows_def split: option.splits)
    moreover have "trading_inv sy n ?p3" using i2(5) by (simp add: trading_inv_def)
    moreover have "jo = None \<longleftrightarrow> p_journal p = None" using d(3) p1(5) p2(1) by (auto simp: journal_grows_def split: option.splits)
    ultimately show ?thesis using False s(1) p1(1,4) p2(1) d(1,2,4) i2(4) by (intro exI [of _ ?p3]) (simp add: stop_threads_def Let_def)
  qed
qed

lemma pl_stop_ok:
  assumes "pl_inv sy (n + stop_ticks sch) (m + length sch) p" and "balanced p" and "p_running p"
  shows "\<exists>p'. pl_stop tt now sch clk lat env p = Some p' \<and> \<not> p_running p' \<and> \<not> feed_running (p_feed p') \<and> gw_state (p_gateway p') = GW_DISCONNECTED
    \<and> trading_inv sy n p' \<and> balanced p' \<and> chan_ok [] (io_chan p') \<and> feed_ok [] (p_feed p')
    \<and> (p_journal p' = None) = (p_journal p = None) \<and> stdio (p_logger p') = [] \<and> \<not> log_running (p_logger p')"
proof -
  have I: "log_ok (p_logger p)" using assms(1) by (simp add: pl_inv_def)
  obtain lg where 1: "pl_log now LOG_INFO ''[INFO]  EventPipeline stopping...'' p = Some (p\<lparr>p_logger := lg\<rparr>)" "log_ok lg" using pl_log_ok [OF I] by blast
  let ?p1 = "p\<lparr>p_logger := lg\<rparr>"
  have i1: "pl_inv sy (n + stop_ticks sch) (m + length sch) ?p1" "balanced ?p1" using assms(1,2) 1(2) by (simp_all add: pl_inv_def trading_inv_def balanced_def)
  from stop_threads_ok [OF i1, of tt clk lat env] obtain p2 where
    2: "stop_threads tt sch clk lat env ?p1 = Some p2" "\<not> p_running p2" "\<not> feed_running (p_feed p2)" "trading_inv sy n p2" "balanced p2"
      "chan_ok [] (io_chan p2)" "feed_inv_plausible (p_feed p2)" "log_ok (p_logger p2)" "p_journal p2 = None \<longleftrightarrow> p_journal p = None" by auto
  let ?p3 = "p2\<lparr>p_gateway := the (gw_shutdown (Some (p_gateway p2)))\<rparr>"
  have "log_ok (p_logger ?p3)" using 2(8) by simp
  from log_lines_ok [OF this, of now "stat_lines (p_stats ?p3)"] obtain lg4 where
    4: "log_lines now (stat_lines (p_stats ?p3)) ?p3 = Some (?p3\<lparr>p_logger := lg4\<rparr>)" "log_ok lg4" by blast
  from logger_shutdown_spec [OF 4(2), of tt] obtain lg5 where 5: "logger_shutdown tt lg4 = Some lg5" "stdio lg5 = []" "\<not> log_running lg5" by blast
  let ?q = "?p3\<lparr>p_logger := lg5\<rparr>"
  have "pl_stop tt now sch clk lat env p = Some ?q" using assms(3) 1(1) 2(1) 4(1) 5(1) by (simp add: pl_stop_def Let_def)
  moreover have "balanced ?q" "trading_inv sy n ?q" "feed_ok [] (p_feed ?q)" using 2(4,5,7) by (simp_all add: balanced_def trading_inv_def feed_inv_plausible_def)
  moreover have "gw_state (the (gw_shutdown (Some (p_gateway p2)))) = GW_DISCONNECTED" by (simp add: gw_shutdown_def)
  ultimately show ?thesis using 2 5 by (intro exI [of _ ?q]) simp
qed

end
