(* ===== verification/Pipeline_Properties.thy ===== *)
theory Pipeline_Properties
  imports Pipeline_Run
begin

text \<open>
  The properties of the pipeline and of the whole engine: the hot path refines its specification, the I/O path reads
  only valid fields, positions and the book stay in order over every run, the engine's life from start to end with
  balanced books, and what an unlucky schedule can lose when it stops.
\<close>

section \<open>Destroying\<close>

lemma drain_ring_ok: "rb_ok q \<Longrightarrow> 0 \<notin> set (rb_contents q) \<Longrightarrow> \<exists>q'. drain_ring q = Some q' \<and> rb_contents q' = []"
proof -
  assume "rb_ok q" "0 \<notin> set (rb_contents q)"
  then have "ring_src [] q" by (simp add: ring_src_def)
  then show ?thesis
  proof (induction q rule: ringq.drain_induct)
    case (empty q)
    then show ?case by (subst drain_ring.simps) simp
  next
    case (message q a q1)
    have "ring_src [] q1" using message.hyps(4) by (simp add: ring_src_def)
    from message.IH [OF this refl] message.hyps(2,3) show ?case by (subst drain_ring.simps) simp
  qed
qed

lemma pl_destroy_ok: "chan_ok [] (io_chan p) \<Longrightarrow> feed_ok [] (p_feed p) \<Longrightarrow>
    pl_destroy p = Some (logger_destroy (p_logger p), gw_destroy (Some (p_gateway p)))"
proof -
  assume c: "chan_ok [] (io_chan p)" and "feed_ok [] (p_feed p)"
  then obtain fh where "feed_drain (p_feed p) = Some fh" using feed_drain_spec by blast
  moreover obtain q1 q2 where "drain_ring (free_queue (io_chan p)) = Some q1" "drain_ring (filled_queue (io_chan p)) = Some q2"
    using drain_ring_ok [of "free_queue (io_chan p)"] drain_ring_ok [of "filled_queue (io_chan p)"] c by (auto simp: chan_ok_def circulating_def)
  ultimately show ?thesis by (simp add: pl_destroy_def feed_destroy_def)
qed

section \<open>The engine's life\<close>

text \<open>An environment in which everything succeeds.\<close>

definition ex_env :: init_env where
  "ex_env = \<lparr>ie_alloc = (\<lambda>_. True), ie_logger_ok = True, ie_fopen = (\<lambda>_. Some ''''), ie_log_pool = 4096, ie_log_thread_ok = True, ie_gateway_ok = True,
     ie_time = 5, ie_feed_addr = 64, ie_feed_pool = 4096, ie_feed_malloc_ok = True, ie_event_pool = 4096, ie_now = 7\<rparr>"

lemma ex_env_ok: "env_ok ex_env (opt_log default_settings)"
  by (simp add: env_ok_def ex_env_def default_settings_def cstr_def NUL_def)

text \<open>The engine runs from start to end without a fault and its books balance. When the system provides memory,
  files and threads, \<open>main\<close> brings the pipeline up; every sequence of loop iterations of feed, hot path,
  I/O thread and logger, in any order and at any clock readings, runs without an invalid access, as long as the feed
  has made fewer than \<open>2\<^sup>3\<^sup>0\<close> messages, whose orders use up the 32-bit ids; \<open>stop\<close> then
  returns under every schedule of the ending threads, and the destructor returns. In the final report every message has made two orders,
  every order was accepted or rejected, all received messages were processed or are left in the feed's queue, and the records in the
  journal, the counted drops and the events left in the I/O queue are exactly the orders and trades.\<close>

theorem engine_lifecycle:
  assumes "env_ok ie (opt_log s)" and "length f \<le> 2 ^ 62" and "ticks ops + stop_ticks sch < 2 ^ 30" and "length ops + length sch < 2 ^ 55"
  shows "\<exists>en p fin thr rep. engine_boot ie os f (True, True, True) s = Some (Inr en)
    \<and> pl_run tt ops (en_pipe en) = Some p
    \<and> engine_finish tt now sch clk lat env os s (en\<lparr>en_pipe := p\<rparr>) = Some (fin, thr, rep)
    \<and> pl_destroy (en_pipe fin) \<noteq> None \<and> \<not> p_running (en_pipe fin) \<and> \<not> log_running (p_logger (en_pipe fin))
    \<and> orders_created (p_stats (en_pipe fin)) = 2 * market_data_msgs (p_stats (en_pipe fin))
    \<and> orders_accepted (p_stats (en_pipe fin)) + orders_rejected (p_stats (en_pipe fin)) = orders_created (p_stats (en_pipe fin))
    \<and> market_data_msgs (p_stats (en_pipe fin)) + of_nat (length (feed_queued (p_feed (en_pipe fin)))) = msgs_received (p_feed (en_pipe fin))
    \<and> (rep = None \<longleftrightarrow> journal_open os f True = None)
    \<and> (\<forall>bytes records. rep = Some (bytes, records) \<longrightarrow>
         records + of_nat (length (queued (io_chan (en_pipe fin)))) + io_events_dropped (p_stats (en_pipe fin))
           = orders_created (p_stats (en_pipe fin)) + trades_generated (p_stats (en_pipe fin)))
    \<and> g_journal fin = False"
proof -
  have "(0 + stop_ticks sch) + ticks ops < 2 ^ 30" "(0 + length sch) + length ops < 2 ^ 56" using assms(3,4) by simp_all
  from engine_boot_ok [OF assms(1,2) this, of os] obtain en where
    en: "engine_boot ie os f (True, True, True) s = Some (Inr en)" "pl_inv (opt_symbol s) ((0 + stop_ticks sch) + ticks ops) ((0 + length sch) + length ops) (en_pipe en)"
      "balanced (en_pipe en)" "p_running (en_pipe en)" "g_journal en = (journal_open os f True \<noteq> None)" "p_journal (en_pipe en) = journal_open os f True"
    by (elim exE conjE) (rule that)
  from pl_run_inv [OF en(2,3)] obtain p where
    p: "pl_run tt ops (en_pipe en) = Some p" "pl_inv (opt_symbol s) (0 + stop_ticks sch) (0 + length sch) p" "balanced p" "steady (en_pipe en) p" by blast
  have p': "p_running p" "p_journal p = None \<longleftrightarrow> journal_open os f True = None" using p(4) en(4,6) by (simp_all add: steady_def)
  from pl_stop_ok [OF p(2,3) p'(1), of tt now clk lat env] obtain q where
    q: "pl_stop tt now sch clk lat env p = Some q" "\<not> p_running q" "balanced q" "\<not> log_running (p_logger q)"
      "chan_ok [] (io_chan q)" "feed_ok [] (p_feed q)" "p_journal q = None \<longleftrightarrow> journal_open os f True = None" using p'(2) by auto
  let ?e = "en\<lparr>en_pipe := q\<rparr>" and ?g = "journal_open os f True \<noteq> None"
  let ?rep = "if ?g then Some (journal_bytes_written (p_journal q), journal_sequence (p_journal q)) else None"
  have fin: "engine_finish tt now sch clk lat env os s (en\<lparr>en_pipe := p\<rparr>) = Some (close_journal os ?e, throughput (duration_sec s) (p_stats q), ?rep)"
    using q(1) en(5) by (simp add: engine_finish_def Let_def)
  have cl: "en_pipe (close_journal os ?e) = q" "g_journal (close_journal os ?e) = False"
    using en(5) q(7) by (auto simp: close_journal_def split: option.split bool.split)
  have rec: "r + of_nat (length (queued (io_chan q))) + io_events_dropped (p_stats q) = orders_created (p_stats q) + trades_generated (p_stats q)" if "?rep = Some (b, r)" for b r
    using that q(3,7) by (cases "p_journal q") (auto simp: balanced_def Let_def journal_sequence_def split: if_splits)
  have bal: "orders_created (p_stats q) = 2 * market_data_msgs (p_stats q)" "orders_accepted (p_stats q) + orders_rejected (p_stats q) = orders_created (p_stats q)"
      "market_data_msgs (p_stats q) + of_nat (length (feed_queued (p_feed q))) = msgs_received (p_feed q)"
    using q(3) by (simp_all add: balanced_def Let_def)
  show ?thesis
    by (intro exI [of _ en] exI [of _ p] exI [of _ "close_journal os ?e"] exI [of _ "throughput (duration_sec s) (p_stats q)"] exI [of _ ?rep])
      (use en(1) p(1) fin cl q(2,4) bal rec pl_destroy_ok [OF q(5,6)] in auto)
qed

definition ex_clock :: "nat \<Rightarrow> clock" where
  "ex_clock k = \<lparr>clock_sec = 100, clock_trade = (\<lambda>i. of_int i)\<rparr>"

definition ex_io :: io_env where
  "ex_io = \<lparr>io_log_now = 1, io_jrnl_now = 2, io_gw_now = 3, io_os = ex_os\<rparr>"

theorem engine_lifecycle_witness:
  "\<exists>en p fin thr rep. engine_boot ex_env ex_os [] (True, True, True) default_settings = Some (Inr en)
    \<and> pl_run (\<lambda>_. ''t'') [FeedTick 9, HotTick ex_clock 1 2, IoTick ex_io, LogTick, FeedTick 10] (en_pipe en) = Some p
    \<and> engine_finish (\<lambda>_. ''t'') 11 [FeedGoes 12, IoDrain ex_io] (\<lambda>_. ex_clock) (\<lambda>_. (1, 2)) (\<lambda>_. ex_io) ex_os default_settings (en\<lparr>en_pipe := p\<rparr>) = Some (fin, thr, rep)
    \<and> orders_created (p_stats (en_pipe fin)) = 2 * market_data_msgs (p_stats (en_pipe fin))"
  using engine_lifecycle [OF ex_env_ok, of "[]" "[FeedTick 9, HotTick ex_clock 1 2, IoTick ex_io, LogTick, FeedTick 10]" "[FeedGoes 12, IoDrain ex_io]" ex_os "\<lambda>_. ''t''" 11 "\<lambda>_. ex_clock"
      "\<lambda>_. (1, 2)" "\<lambda>_. ex_io"]
  by (auto simp del: pl_run.simps)

section \<open>Trading stays in order\<close>

text \<open>C5: positions stay within the limits that \<open>init\<close> configures, end to end. In every run of the engine, at every
  moment and for every symbol, the net position is at most 10,000,000 in absolute value, the gross exposure at most
  50,000,000, and neither wraps around.\<close>

theorem engine_positions_within_limits:
  assumes "env_ok ie (opt_log s)" and "length f \<le> 2 ^ 62" and "ticks ops < 2 ^ 30" and "length ops < 2 ^ 55"
  shows "\<exists>en p. engine_boot ie os f (True, True, True) s = Some (Inr en) \<and> pl_run tt ops (en_pipe en) = Some p
    \<and> \<bar>net_position (get_position_cstr sm (p_risk p))\<bar> \<le> 10000000
    \<and> 0 \<le> gross_exposure (get_position_cstr sm (p_risk p)) \<and> gross_exposure (get_position_cstr sm (p_risk p)) \<le> 50000000
    \<and> \<bar>net_position (get_position_cstr sm (p_risk p))\<bar> \<le> gross_exposure (get_position_cstr sm (p_risk p))"
proof -
  from engine_boot_ok [OF assms(1,2), of "0 + ticks ops" "0 + length ops" os] assms(3,4) obtain en where
    en: "engine_boot ie os f (True, True, True) s = Some (Inr en)" "pl_inv (opt_symbol s) (0 + ticks ops) (0 + length ops) (en_pipe en)" "balanced (en_pipe en)" by auto
  from pl_run_inv [OF en(2,3)] obtain p where p: "pl_run tt ops (en_pipe en) = Some p" "pl_inv (opt_symbol s) 0 0 p" by blast
  have "risk_history pipeline_limits (p_risk p)" using p(2) by (simp add: pl_inv_def trading_inv_def)
  moreover have "limits_ok pipeline_limits" by (simp add: limits_ok_def pipeline_limits_def)
  ultimately have "within_limits pipeline_limits (position_of (p_risk p) k)" for k using risk_history_inv by blast
  then have "within_limits pipeline_limits (get_position_cstr sm (p_risk p))" by (simp add: get_position_cstr_def)
  then show ?thesis using en(1) p(1) by (auto simp: within_limits_def pipeline_limits_def)
qed

theorem engine_positions_within_limits_witness:
  "\<exists>en p. engine_boot ex_env ex_os [] (True, True, True) default_settings = Some (Inr en)
    \<and> pl_run (\<lambda>_. ''t'') [FeedTick 9, HotTick ex_clock 1 2] (en_pipe en) = Some p
    \<and> \<bar>net_position (get_position_cstr ''AAPL'' (p_risk p))\<bar> \<le> 10000000"
  using engine_positions_within_limits [OF ex_env_ok, of "[]" "[FeedTick 9, HotTick ex_clock 1 2]" ex_os "\<lambda>_. ''t''" "''AAPL''"]
  by (auto simp del: pl_run.simps)

lemma distinct_resting_ids: "book_history True sy b \<Longrightarrow> distinct (map (oid \<circ> snd) (book_entries b))"
proof -
  assume h: "book_history True sy b"
  have full: "index_full (book_sig b) (order_index b)" using book_history_ids [OF h] by (simp add: ids_indexed_def)
  have d: "distinct (map fst (book_sig b))" using book_history_inv [OF h] by (simp add: book_inv_def index_inv_def)
  have "inj_on snd (set (book_sig b))"
    using index_fullD [OF full] by (intro inj_onI) (metis option.inject prod.collapse)
  then have "distinct (map snd (book_sig b))" using d by (simp add: distinct_map)
  moreover have "map snd (book_sig b) = map (oid \<circ> snd) (book_entries b)" by (simp add: book_sig_entries sig_of_def split_beta comp_def)
  ultimately show ?thesis by simp
qed

text \<open>C6: the order book of a running engine is always in order. After every run its sides are sorted and do not
  cross, \<open>order_count\<close> is the number of resting orders, their ids are pairwise different, positive and below the next id
  to be issued, so that \<open>generate_order_id\<close> never issues the id of a resting order.\<close>

theorem engine_book_in_order:
  assumes "env_ok ie (opt_log s)" and "length f \<le> 2 ^ 62" and "ticks ops < 2 ^ 30" and "length ops < 2 ^ 55"
  shows "\<exists>en p. engine_boot ie os f (True, True, True) s = Some (Inr en) \<and> pl_run tt ops (en_pipe en) = Some p
    \<and> sorted_wrt price_greater (map fst (bids (p_book p))) \<and> sorted_wrt price_less (map fst (asks (p_book p)))
    \<and> (bids (p_book p) \<noteq> [] \<and> asks (p_book p) \<noteq> [] \<longrightarrow> d_lt (best_bid (p_book p)) (best_ask (p_book p)))
    \<and> order_count (p_book p) = length (book_entries (p_book p)) \<and> distinct (map (oid \<circ> snd) (book_entries (p_book p)))
    \<and> (\<forall>(n, ord) \<in> set (book_entries (p_book p)). 0 < oid ord \<and> oid ord < next_order_id p \<and> oid ord \<noteq> fst (generate_order_id p))"
proof -
  from engine_boot_ok [OF assms(1,2), of "0 + ticks ops" "0 + length ops" os] assms(3,4) obtain en where
    en: "engine_boot ie os f (True, True, True) s = Some (Inr en)" "pl_inv (opt_symbol s) (0 + ticks ops) (0 + length ops) (en_pipe en)" "balanced (en_pipe en)" by auto
  from pl_run_inv [OF en(2,3)] obtain p where p: "pl_run tt ops (en_pipe en) = Some p" "pl_inv (opt_symbol s) 0 0 p" by blast
  have h: "book_history True (opt_symbol s) (p_book p)" "resting_ids (p_book p) \<subseteq> {1..<next_order_id p}"
    using p(2) by (simp_all add: pl_inv_def trading_inv_def)
  have inv: "book_inv (p_book p)" by (rule book_history_inv [OF h(1)])
  have "distinct (map (oid \<circ> snd) (book_entries (p_book p)))" by (rule distinct_resting_ids [OF h(1)])
  moreover have "0 < oid ord \<and> oid ord < next_order_id p \<and> oid ord \<noteq> fst (generate_order_id p)" if "(n, ord) \<in> set (book_entries (p_book p))" for n ord
  proof -
    have "oid ord \<in> resting_ids (p_book p)" using that by (force simp: resting_ids_def)
    then show ?thesis using h(2) by (auto simp: generate_order_id_def)
  qed
  ultimately show ?thesis
    using en(1) p(1) inv order_count_entries [OF h(1)] book_inv_uncrossed [OF inv]
    by (auto simp: book_inv_def side_ok_def)
qed

theorem engine_book_in_order_witness:
  "\<exists>en p. engine_boot ex_env ex_os [] (True, True, True) default_settings = Some (Inr en)
    \<and> pl_run (\<lambda>_. ''t'') [FeedTick 9, HotTick ex_clock 1 2] (en_pipe en) = Some p
    \<and> order_count (p_book p) = length (book_entries (p_book p))"
  using engine_book_in_order [OF ex_env_ok, of "[]" "[FeedTick 9, HotTick ex_clock 1 2]" ex_os "\<lambda>_. ''t''"]
  by (auto simp del: pl_run.simps)

section \<open>The two paths\<close>

text \<open>C7: the hot path implements its specification. For well-formed orders, the loop of \<open>process_market_data\<close> never
  faults; it leaves book and risk engine as \<open>decide_all\<close> says: a rejected order touches neither the book nor a
  position, an accepted one goes through \<open>add_order\<close> exactly once and its fill is booked at once. The events queued are the
  specified ones in order, each order's result before its trades, up to the number of free entries; the rest, and only
  it, is counted as dropped; and the other counters are those of the decisions.\<close>

theorem process_orders_refines:
  assumes "chan_ok [] (io_chan p)" and "book_inv (p_book p)" and "\<forall>ord \<in> set ords. submittable ord \<and> \<not> is_nan (price ord)"
    and "decide_all clk 0 ords (p_book p, p_risk p) = (vs, ds, b', e')"
  shows "\<exists>p'. process_orders clk 0 ords p = Some p' \<and> p_book p' = b' \<and> p_risk p' = e' \<and> book_inv b'
    \<and> map event_view (queued (io_chan p')) = map event_view (queued (io_chan p)) @ take (length (free_entries (io_chan p))) vs
    \<and> io_events_dropped (p_stats p') = io_events_dropped (p_stats p) + of_nat (length vs - length (free_entries (io_chan p)))
    \<and> p_stats p' = (fold decision_stats ds (p_stats p))\<lparr>io_events_dropped := io_events_dropped (p_stats p')\<rparr>
    \<and> p_feed p' = p_feed p \<and> p_journal p' = p_journal p \<and> p_gateway p' = p_gateway p \<and> p_logger p' = p_logger p"
proof -
  from process_orders_spec [OF assms] obtain c where
    c: "process_orders clk 0 ords p = Some (p\<lparr>p_book := b', p_risk := e', io_chan := c,
      p_stats := drop_stats (length vs - length (free_entries (io_chan p))) (fold decision_stats ds (p_stats p))\<rparr>)" (is "_ = Some ?q")
      "posted vs (io_chan p) c" "book_inv b'" by blast
  have "io_events_dropped (fold decision_stats ds (p_stats p)) = io_events_dropped (p_stats p)" using decide_all_stats [OF assms(4)] by blast
  then show ?thesis using c by (intro exI [of _ ?q]) (simp add: posted_def drop_stats_def)
qed

theorem process_orders_refines_witness:
  "\<exists>en vs ds b' e' p'. engine_boot ex_env ex_os [] (True, True, True) default_settings = Some (Inr en)
    \<and> decide_all ex_clock 0 [strategy_order 1 BUY 0 zero_feed_msg] (p_book (en_pipe en), p_risk (en_pipe en)) = (vs, ds, b', e')
    \<and> process_orders ex_clock 0 [strategy_order 1 BUY 0 zero_feed_msg] (en_pipe en) = Some p' \<and> p_book p' = b'
    \<and> map event_view (queued (io_chan p')) = take 4095 vs"
proof -
  obtain en where en: "engine_boot ex_env ex_os [] (True, True, True) default_settings = Some (Inr en)" "pl_inv (opt_symbol default_settings) 1 1 (en_pipe en)"
      "queued (io_chan (en_pipe en)) = []" "length (free_entries (io_chan (en_pipe en))) = 4095"
    using engine_boot_ok [OF ex_env_ok, of "[]" 1 1 ex_os] by auto
  let ?ords = "[strategy_order 1 BUY 0 zero_feed_msg]"
  obtain vs ds b' e' where d: "decide_all ex_clock 0 ?ords (p_book (en_pipe en), p_risk (en_pipe en)) = (vs, ds, b', e')" by (rule prod_cases4)
  have 1: "chan_ok [] (io_chan (en_pipe en))" "book_inv (p_book (en_pipe en))"
    using en(2) by (auto simp: pl_inv_def trading_inv_def intro: book_history_inv)
  have 2: "\<forall>ord \<in> set ?ords. submittable ord \<and> \<not> is_nan (price ord)"
    by (auto intro!: strategy_order_submittable simp: in_s32_def zero_feed_msg_def is_nan_def d_mag_def inf_mag_def)
  from process_orders_refines [OF 1 2 d] en d show ?thesis by auto
qed

text \<open>Stale fields are never read. The I/O path treats two events alike that agree in the fields valid for
  their type; what an event record keeps from its former use has no effect on journal, log or gateway.\<close>

theorem process_io_event_valid_fields_only:
  assumes "event_view e = event_view e'"
  shows "process_io_event env e p = process_io_event env e' p"
  using assms
  by (cases "ev_type e"; cases "ev_type e'")
    (simp_all add: event_view_def process_io_event_def journal_order_def gateway_send_def [abs_def] split: if_splits)

theorem process_io_event_valid_fields_only_witness:
  "\<forall>t p. process_io_event ex_io (trade_event t zero_event) p = process_io_event ex_io (trade_event t (zero_event\<lparr>gw_msg := ''stale'', ev_order_id := 7\<rparr>)) p"
  by (intro allI process_io_event_valid_fields_only) (simp add: trade_event_view)

section \<open>Stopping under every schedule\<close>

lemma consumer_drain_steps:
  assumes "consumer_drain clk lat k p = Some p'"
  shows "stop_step\<^sup>*\<^sup>* \<lparr>pl = p, consumer_done = False, io_draining = g, io_done = d\<rparr> \<lparr>pl = p', consumer_done = True, io_draining = g, io_done = d\<rparr>"
proof (rule consumer_drain.raw_induct [OF _ assms])
  fix f clk lat k p p'
  let ?s = "\<lambda>p b. \<lparr>pl = p, consumer_done = b, io_draining = g, io_done = d\<rparr>"
  assume IH: "\<And>clk lat k p p'. f clk lat k p = Some p' \<Longrightarrow> stop_step\<^sup>*\<^sup>* (?s p False) (?s p' True)"
    and run: "(case feed_pop (p_feed p) of None \<Rightarrow> None
     | Some (a, fh) \<Rightarrow> if a = 0 then Some (p\<lparr>p_feed := fh\<rparr>)
        else case process_market_data (clk k) (fst (lat k)) (snd (lat k)) a (p\<lparr>p_feed := fh\<rparr>) of
               None \<Rightarrow> None | Some p \<Rightarrow> f clk lat (Suc k) p) = Some p'"
  then obtain a fh where a: "feed_pop (p_feed p) = Some (a, fh)" by (auto split: option.splits)
  show "stop_step\<^sup>*\<^sup>* (?s p False) (?s p' True)"
  proof (cases "a = 0")
    case True
    then have "p' = p\<lparr>p_feed := fh\<rparr>" using run a by simp
    then show ?thesis using consumer_ends [of "?s p False" fh] a True by auto
  next
    case False
    then obtain p1 where p1: "process_market_data (clk k) (fst (lat k)) (snd (lat k)) a (p\<lparr>p_feed := fh\<rparr>) = Some p1" "f clk lat (Suc k) p1 = Some p'"
      using run a by (auto split: option.splits)
    have "stop_step (?s p False) (?s p1 False)"
      using consumer_message [of "?s p False" a fh "clk k" "fst (lat k)" "snd (lat k)" p1] a False p1(1) by simp
    then show ?thesis using IH [OF p1(2)] by (rule converse_rtranclp_into_rtranclp)
  qed
qed

lemma stop_step_after_end: "stop_step s s' \<Longrightarrow> consumer_done s \<Longrightarrow> io_done s \<Longrightarrow>
    consumer_done s' \<and> io_done s' \<and> p_journal (pl s') = p_journal (pl s) \<and> io_chan (pl s') = io_chan (pl s)"
  by (induction rule: stop_step.induct) (auto simp: pl_feed_def split: option.split)

lemma stop_steps_after_end: "stop_step\<^sup>*\<^sup>* s s' \<Longrightarrow> consumer_done s \<Longrightarrow> io_done s \<Longrightarrow>
    consumer_done s' \<and> io_done s' \<and> p_journal (pl s') = p_journal (pl s) \<and> io_chan (pl s') = io_chan (pl s)"
  by (induction rule: rtranclp_induct) (auto dest: stop_step_after_end)

lemma first_message:
  assumes "pl_inv sy n m p" and "feed_queued (p_feed p) = []" and "rb_bound (output_queue (p_feed p)) = 4095"
  shows "\<exists>fh. feed_sim_step now (p_feed p) = Some fh \<and> length (feed_queued fh) = 1"
proof -
  have ok: "feed_ok [] (p_feed p)" "card (mp_slots (msg_pool (p_feed p))) = 4096" using assms(1) by (simp_all add: inv_defs)
  have "mp_avail (msg_pool (p_feed p)) \<noteq> {}" using feed_ok_count [OF ok(1)] ok(2) assms(2) by auto
  then show ?thesis using feed_sim_step_spec [OF ok(1), of now] assms(2,3) by (auto simp: offered_def)
qed

text \<open>C20: \<open>stop\<close> can lose events. Both threads watch the same flag, and the I/O thread ends as soon as it finds its queue
  empty, whether or not the hot path still has messages to drain. From a started engine with one message in the feed
  queue there is a schedule of the stopping threads in which the I/O thread ends first, the hot path then queues the events
  of the message, and both have ended with the events still in the queue; no later step writes them to the
  journal, and no counter records the loss.\<close>

theorem stop_can_lose_events:
  assumes "env_ok ie (opt_log s)" and "length f \<le> 2 ^ 62" and "journal_open os f True = Some j"
  shows "\<exists>en p s'. engine_boot ie os f (True, True, True) s = Some (Inr en) \<and> pl_run tt [FeedTick now] (en_pipe en) = Some p
    \<and> stop_step\<^sup>*\<^sup>* (stop_start p) s' \<and> consumer_done s' \<and> io_done s' \<and> queued (io_chan (pl s')) \<noteq> []
    \<and> io_events_dropped (p_stats (pl s')) + of_nat (length (queued (io_chan (pl s')))) = orders_created (p_stats (pl s')) + trades_generated (p_stats (pl s'))
    \<and> (\<forall>s''. stop_step\<^sup>*\<^sup>* s' s'' \<longrightarrow> p_journal (pl s'') = Some j) \<and> jsequence j = 0"
proof -
  from engine_boot_ok [OF assms(1,2), of "0 + ticks [FeedTick now]" "0 + length [FeedTick now]" os] obtain en where
    en: "engine_boot ie os f (True, True, True) s = Some (Inr en)" "pl_inv (opt_symbol s) (0 + ticks [FeedTick now]) (0 + length [FeedTick now]) (en_pipe en)" "balanced (en_pipe en)"
      "p_journal (en_pipe en) = journal_open os f True" "queued (io_chan (en_pipe en)) = []" "length (free_entries (io_chan (en_pipe en))) = 4095"
      "feed_queued (p_feed (en_pipe en)) = []" "rb_bound (output_queue (p_feed (en_pipe en))) = 4095" by auto
  from first_message [OF en(2,7,8), of now] obtain fh where fh: "feed_sim_step now (p_feed (en_pipe en)) = Some fh" "length (feed_queued fh) = 1" by blast
  let ?p = "(en_pipe en)\<lparr>p_feed := fh\<rparr>"
  have run: "pl_run tt [FeedTick now] (en_pipe en) = Some ?p" using fh(1) by simp
  with pl_run_inv [OF en(2,3), of tt] have inv: "pl_inv (opt_symbol s) 0 0 ?p" "balanced ?p" by auto
  let ?q = "?p\<lparr>p_running := False\<rparr>"
  have iq: "pl_inv (opt_symbol s) 0 0 ?q" "balanced ?q" using inv by (simp_all add: pl_inv_def trading_inv_def balanced_def)
  from consumer_drain_inv [OF iq, of undefined undefined 0] obtain r where
    r: "consumer_drain undefined undefined 0 ?q = Some r" "balanced r" "p_journal r = p_journal (en_pipe en)" "queued (io_chan r) \<noteq> []"
    using fh(2) en(6) by (auto simp: Let_def)
  have "chan_next (io_chan ?q) = Some (0, io_chan ?q)"
    using evq.next_empty [of "[]" "io_chan ?q"] iq(1) en(5) by (simp add: pl_inv_def)
  then have "stop_step (stop_start ?p) \<lparr>pl = ?q, consumer_done = False, io_draining = False, io_done = True\<rparr>"
    using io_ends [of "stop_start ?p" "io_chan ?q"] by (simp add: stop_start_def)
  then have steps: "stop_step\<^sup>*\<^sup>* (stop_start ?p) \<lparr>pl = r, consumer_done = True, io_draining = False, io_done = True\<rparr>" (is "stop_step\<^sup>*\<^sup>* _ ?s")
    using consumer_drain_steps [OF r(1), of False True] by (rule converse_rtranclp_into_rtranclp)
  have j0: "jsequence j = 0" using journal_open_safe [OF assms(3,2), of 0] by simp
  have "p_journal (pl s'') = Some j" if "stop_step\<^sup>*\<^sup>* ?s s''" for s''
    using stop_steps_after_end [OF that] r(3) en(4) assms(3) by simp
  moreover have "io_events_dropped (p_stats r) + of_nat (length (queued (io_chan r))) = orders_created (p_stats r) + trades_generated (p_stats r)"
    using r(2,3) en(4) assms(3) j0 by (simp add: balanced_def Let_def add.commute)
  ultimately show ?thesis using en(1) run steps r(4) j0 by (intro exI [of _ en] exI [of _ ?p] exI [of _ ?s]) simp
qed

theorem stop_can_lose_events_witness:
  "\<exists>en p s'. engine_boot ex_env ex_os [] (True, True, True) default_settings = Some (Inr en) \<and> pl_run (\<lambda>_. ''t'') [FeedTick 9] (en_pipe en) = Some p
    \<and> stop_step\<^sup>*\<^sup>* (stop_start p) s' \<and> consumer_done s' \<and> io_done s' \<and> queued (io_chan (pl s')) \<noteq> []"
proof -
  obtain j where "journal_open ex_os [] True = Some j" by (simp add: journal_open_def ex_os_def Let_def)
  from stop_can_lose_events [OF ex_env_ok _ this, of "\<lambda>_. ''t''" 9] show ?thesis by (auto simp del: pl_run.simps)
qed

text \<open>The invariant along the steps of the stopping threads.\<close>

lemma stop_step_inv:
  assumes "stop_step s s'" and "pl_inv sy (Suc n) (Suc m) (pl s)" and "balanced (pl s)"
  shows "pl_inv sy n m (pl s') \<and> balanced (pl s') \<and> (left_nothing s \<longrightarrow> left_nothing s')"
proof -
  obtain tt op where op: "stop_op_step tt op s = Some s'" using stop_step_op [OF assms(1)] by blast
  have "n + stop_ticks [op] \<le> Suc n" by (cases op) simp_all
  then have "pl_inv sy (n + stop_ticks [op]) (Suc m) (pl s)" by (rule pl_inv_mono [OF assms(2)]) simp
  from stop_op_step_inv [OF this assms(3), of tt] op show ?thesis by (simp add: stop_keeps_def)
qed

lemma stop_steps_inv: "(stop_step ^^ k) s s' \<Longrightarrow> pl_inv sy (n + k) (m + k) (pl s) \<Longrightarrow> balanced (pl s) \<Longrightarrow>
    pl_inv sy n m (pl s') \<and> balanced (pl s') \<and> (left_nothing s \<longrightarrow> left_nothing s')"
proof (induction k arbitrary: n m s')
  case (Suc k)
  then obtain s1 where s1: "(stop_step ^^ k) s s1" "stop_step s1 s'" by auto
  have "pl_inv sy (Suc n + k) (Suc m + k) (pl s)" using Suc.prems(2) by simp
  from Suc.IH [OF s1(1) this Suc.prems(3)] stop_step_inv [OF s1(2), of sy n m] show ?case by blast
qed simp

text \<open>C19: when the I/O thread ends last, nothing is lost. In every schedule of the stopping threads in which the hot
  path has ended before the I/O thread, the queue is empty once the I/O thread has ended, and the journal's records and
  the counted drops add up to all orders and trades.\<close>

theorem stop_lossless_when_io_last:
  assumes "env_ok ie (opt_log s)" and "length f \<le> 2 ^ 62" and "length ops < 2 ^ 55"
    and "ticks ops < 2 ^ 29" and "engine_boot ie os f (True, True, True) s = Some (Inr en)" and "pl_run tt ops (en_pipe en) = Some p"
    and "(stop_step ^^ i) (stop_start p) s1" and "consumer_done s1" and "\<not> io_done s1"
    and "(stop_step ^^ k) s1 s2" and "io_done s2" and "i + k < 2 ^ 29"
  shows "queued (io_chan (pl s2)) = []
    \<and> (\<forall>j. p_journal (pl s2) = Some j \<longrightarrow>
         jsequence j + io_events_dropped (p_stats (pl s2)) = orders_created (p_stats (pl s2)) + trades_generated (p_stats (pl s2)))"
proof -
  have en: "pl_inv (opt_symbol s) (0 + k + i + ticks ops) (0 + k + i + length ops) (en_pipe en)" "balanced (en_pipe en)"
    using engine_boot_ok [OF assms(1,2), of "0 + k + i + ticks ops" "0 + k + i + length ops" os] assms(3,4,5,12) by auto
  from pl_run_inv [OF en, of tt] assms(6) have p: "pl_inv (opt_symbol s) (0 + k + i) (0 + k + i) p" "balanced p" by auto
  then have st: "pl_inv (opt_symbol s) (0 + k + i) (0 + k + i) (pl (stop_start p))" "balanced (pl (stop_start p))"
    by (simp_all add: stop_start_def pl_inv_def trading_inv_def balanced_def)
  from stop_steps_inv [OF assms(7) st] have 1: "pl_inv (opt_symbol s) (0 + k) (0 + k) (pl s1)" "balanced (pl s1)" by auto
  have "left_nothing s1" using assms(8,9) by (simp add: left_nothing_def)
  with stop_steps_inv [OF assms(10) 1] have "balanced (pl s2)" "queued (io_chan (pl s2)) = []" using assms(11) by (auto simp: left_nothing_def)
  then show ?thesis by (auto simp: balanced_def Let_def)
qed

theorem stop_lossless_when_io_last_witness:
  "\<exists>en s2. engine_boot ex_env ex_os [] (True, True, True) default_settings = Some (Inr en)
    \<and> (stop_step ^^ 2) (stop_start (en_pipe en)) s2 \<and> io_done s2 \<and> queued (io_chan (pl s2)) = []"
proof -
  obtain en where en: "engine_boot ex_env ex_os [] (True, True, True) default_settings = Some (Inr en)" "pl_inv (opt_symbol default_settings) 1 1 (en_pipe en)"
      "queued (io_chan (en_pipe en)) = []" "feed_queued (p_feed (en_pipe en)) = []"
    using engine_boot_ok [OF ex_env_ok, of "[]" 1 1 ex_os] by auto
  let ?p = "(en_pipe en)\<lparr>p_running := False\<rparr>"
  let ?s = "\<lambda>c i. \<lparr>pl = ?p, consumer_done = c, io_draining = False, io_done = i\<rparr>"
  have "feed_pop (p_feed ?p) = Some (0, p_feed ?p)" using feedq.next_empty [of "[]" "p_feed ?p"] en(2,4) by (simp add: inv_defs)
  then have 1: "stop_step (?s False False) (?s True False)" using consumer_ends [of "?s False False" "p_feed ?p"] by simp
  have "chan_next (io_chan ?p) = Some (0, io_chan ?p)"
    using evq.next_empty [of "[]" "io_chan ?p"] en(2,3) by (simp add: pl_inv_def)
  then have 2: "stop_step (?s True False) (?s True True)" using io_ends [of "?s True False" "io_chan ?p"] by simp
  have p1: "(stop_step ^^ 1) (stop_start (en_pipe en)) (?s True False)" and p2: "(stop_step ^^ 1) (?s True False) (?s True True)"
    using 1 2 by (auto simp: stop_start_def)
  have "queued (io_chan (pl (?s True True))) = []"
    using stop_lossless_when_io_last [OF ex_env_ok _ _ _ en(1) _ p1 _ _ p2, of "[]" "\<lambda>_. ''t''"] by auto
  moreover have "(stop_step ^^ 2) (stop_start (en_pipe en)) (?s True True)"
    using relpowp_Suc_I [OF p1 2] by (simp only: numeral_2_eq_2 One_nat_def)
  ultimately show ?thesis using en(1) by (intro exI [of _ en] exI [of _ "?s True True"]) simp
qed

section \<open>The main loop\<close>

lemma main_loop_step: "main_loop d t now k = (if 0 < d \<and> d \<le> now k - t then Some k else main_loop d t now (Suc k))"
  by (rule main_loop.simps)

lemma main_loop_finds: "0 < d \<Longrightarrow> d \<le> now n - t \<Longrightarrow> k \<le> n \<Longrightarrow> \<exists>m. main_loop d t now k = Some m"
proof (induction "n - k" arbitrary: k)
  case 0
  then show ?case by (subst main_loop_step) simp
next
  case (Suc x)
  then have "\<exists>m. main_loop d t now (Suc k) = Some m" by (intro Suc.hyps(1)) simp_all
  then show ?case by (subst main_loop_step) simp
qed

lemma main_loop_result: "main_loop d t now k = Some m \<Longrightarrow> 0 < d \<and> d \<le> now m - t \<and> k \<le> m \<and> (\<forall>i. k \<le> i \<longrightarrow> i < m \<longrightarrow> now i - t < d)"
proof (rule main_loop.raw_induct [of "\<lambda>d t now k m. 0 < d \<and> d \<le> now m - t \<and> k \<le> m \<and> (\<forall>i. k \<le> i \<longrightarrow> i < m \<longrightarrow> now i - t < d)"], goal_cases)
  case (1 f d t now k m)
  show ?case
  proof (cases "0 < d \<and> d \<le> now k - t")
    case True
    then show ?thesis using 1(3) by auto
  next
    case False
    then have "f d t now (Suc k) = Some m" using 1(3) by (auto split: if_splits)
    from 1(2) [OF this] False show ?thesis by (metis Suc_leD Suc_leI le_neq_implies_less not_le)
  qed
qed

text \<open>The main loop ends exactly when a positive duration has passed. It returns, and in the first round whose clock
  reading is at least the duration after the start; with a duration of zero or less it never returns, whatever the clock
  shows and whatever signals arrive, since the loop looks at nothing else.\<close>

theorem main_loop_returns_iff:
  "main_loop d t now 0 = Some m \<longleftrightarrow> 0 < d \<and> d \<le> now m - t \<and> (\<forall>i < m. now i - t < d)"
proof
  show "main_loop d t now 0 = Some m \<Longrightarrow> 0 < d \<and> d \<le> now m - t \<and> (\<forall>i < m. now i - t < d)" using main_loop_result [of d t now 0 m] by auto
  assume r: "0 < d \<and> d \<le> now m - t \<and> (\<forall>i < m. now i - t < d)"
  then obtain m' where m': "main_loop d t now 0 = Some m'" using main_loop_finds [of d now m t 0] by auto
  from main_loop_result [OF m'] r have "m' = m" by (metis le0 linorder_neqE_nat not_le)
  then show "main_loop d t now 0 = Some m" using m' by simp
qed

theorem main_loop_returns_iff_witness: "main_loop 10 1000 (\<lambda>k. 1001 + int k) 0 = Some 9"
  using main_loop_returns_iff [of 10 1000 "\<lambda>k. 1001 + int k" 9] by simp

section \<open>Failing to start\<close>

text \<open>What writing messages changes of a logger: nothing but its queues.\<close>

definition log_same :: "logger \<Rightarrow> logger \<Rightarrow> bool" where
  "log_same lg lg' \<longleftrightarrow> (log_ok lg \<longrightarrow> log_ok lg') \<and> log_running lg' = log_running lg \<and> disk lg' = disk lg \<and> stdio lg' = stdio lg \<and> owns_file lg' = owns_file lg"

lemma log_same_trans: "log_same a b \<Longrightarrow> log_same b c \<Longrightarrow> log_same a c"
  by (simp add: log_same_def)

lemma logger_write_same: "logger_write now l (Some m) lg = Some lg' \<Longrightarrow> log_same lg lg'"
  using logger_write_ok [of lg now l m] by (auto simp: log_same_def logger_write_def split: option.splits)

lemma pl_log_same: "pl_log now l t p = Some p' \<Longrightarrow> log_same (p_logger p) (p_logger p')"
  by (auto simp: pl_log_def dest: logger_write_same)

text \<open>A logger that has just been created, with the text of its file.\<close>

definition log_fresh :: "init_env \<Rightarrow> string \<Rightarrow> logger \<Rightarrow> bool" where
  "log_fresh ie path lg \<longleftrightarrow> log_ok lg \<and> log_running lg \<and> stdio lg = [] \<and> owns_file lg = (path \<noteq> ''-'') \<and> (path \<noteq> ''-'' \<longrightarrow> ie_fopen ie path = Some (disk lg))"

text \<open>Memory that the system hands out lies below \<open>2\<^sup>6\<^sup>4\<close>.\<close>

definition pools_fit :: "init_env \<Rightarrow> bool" where
  "pools_fit ie \<longleftrightarrow> unat (ie_log_pool ie) + 2162688 \<le> 2 ^ 64 \<and> unat (ie_feed_pool ie) + 262144 \<le> 2 ^ 64 \<and> unat (ie_event_pool ie) + 3637248 \<le> 2 ^ 64"

lemma env_ok_fit: "env_ok ie path \<Longrightarrow> pools_fit ie"
  by (simp add: env_ok_def pools_fit_def)

lemma rounded_4096: "rounded_capacity 4096 = 4096"
  by (simp add: rounded_capacity_def is_power_of_two_def)

lemma logger_init_fresh:
  assumes "logger_init (ie_alloc ie) (ie_logger_ok ie) (ie_fopen ie) (ie_log_pool ie) (ie_log_thread_ok ie) (Some path) 4096 = Some (Some lg)" and "pools_fit ie"
  shows "log_fresh ie path lg"
proof -
  obtain f c where lg: "channel_init (ie_alloc ie) (ie_log_pool ie) 528 4096 zero_entry = Some (Some c)"
      "lg = \<lparr>log_chan = c, disk = f, stdio = [], log_running = True, owns_file = (path \<noteq> ''-''), batch_count = 0\<rparr>" "path \<noteq> ''-'' \<longrightarrow> ie_fopen ie path = Some f"
    using assms(1) by (auto simp: logger_init_def Let_def split: if_splits option.splits)
  have a: "ie_alloc ie 4096" "ie_log_pool ie \<noteq> 0"
    using lg(1) by (auto simp: channel_init_def ring_buffer_init_def is_power_of_two_def Let_def split: if_splits)
  have "\<exists>c. channel_init (ie_alloc ie) (ie_log_pool ie) 528 4096 zero_entry = Some (Some c) \<and> chan_ok [] c \<and> queued c = []
    \<and> entries c = (\<lambda>_. zero_entry) \<and> free_entries c = take (unat (rounded_capacity 4096) - 1) (pool_entries (ie_log_pool ie) 528 4096)"
    by (rule channel_init_ok) (use a assms(2) in \<open>simp_all add: rounded_4096 pools_fit_def\<close>)
  then show ?thesis using lg by (simp add: log_fresh_def log_ok_def LOG_FLUSH_BATCH_def)
qed

lemma log_fresh_same: "log_fresh ie path lg \<Longrightarrow> log_same lg lg' \<Longrightarrow> log_fresh ie path lg'"
  by (simp add: log_fresh_def log_same_def)

text \<open>Whether \<open>init\<close> succeeds or not, the logger it made has been written to only.\<close>

lemma pl_init_logger:
  assumes "pl_init ie sm log_path = Some r" and "pools_fit ie"
  shows "case r of Inl u \<Rightarrow> (case un_logger u of None \<Rightarrow> un_feed u = None | Some lg \<Rightarrow> log_fresh ie (cstr log_path) lg) | Inr p \<Rightarrow> log_fresh ie (cstr log_path) (p_logger p)"
proof -
  have w: "log_fresh ie (cstr log_path) lg'" if "log_fresh ie (cstr log_path) lg" "logger_write now l (Some m) lg = Some lg'" for lg lg' now l m
    using log_fresh_same [OF that(1) logger_write_same [OF that(2)]] .
  show ?thesis using assms(1) logger_init_fresh [OF _ assms(2), of "cstr log_path"]
    by (auto simp: pl_init_def init_fails_def split: option.splits) (blast dest: w)+
qed

lemma pl_init_feed:
  assumes "pl_init ie sm log_path = Some (Inl u)" and "un_feed u = Some fh" and "pools_fit ie"
  shows "feed_destroy fh \<noteq> None"
proof -
  have f: "feed_init (ie_alloc ie) (ie_feed_addr ie) (ie_feed_pool ie) (ie_feed_malloc_ok ie) no_sockets (Some (pipeline_feed_config sm)) = Some fh"
    using assms(1,2) by (auto simp: pl_init_def init_fails_def split: option.splits)
  let ?c = "pipeline_feed_config sm"
  have c: "output_queue_size ?c = 4096" "feed_simulation_mode ?c" by (simp_all add: pipeline_feed_config_def)
  have a: "ie_alloc ie 4096" "ie_feed_addr ie \<noteq> 0" "ie_feed_malloc_ok ie \<and> ie_feed_pool ie \<noteq> 0"
    using f by (auto simp: feed_init_def c ring_buffer_init_def is_power_of_two_def mempool_init_def Let_def split: if_splits prod.splits option.splits)
  have "\<exists>fh. feed_init (ie_alloc ie) (ie_feed_addr ie) (ie_feed_pool ie) True no_sockets (Some ?c) = Some fh \<and> feed_inv (unat (output_queue_size ?c)) (fh, [], [], [])
    \<and> msgs_dropped fh = 0 \<and> rb_bound (output_queue fh) = unat (rounded_capacity (output_queue_size ?c)) - 1"
    by (rule feed_init_ok) (use a assms(3) c in \<open>simp_all add: rounded_4096 pools_fit_def\<close>)
  then have "feed_ok [] fh" using f a(3) by (auto simp: feed_inv_def)
  then show ?thesis using feed_drain_spec [of "[]" fh] by (auto simp: feed_destroy_def)
qed

lemma logger_poll_grows:
  assumes "log_ok lg" and "logger_poll tt lg = Some lg'"
  shows "prefix (disk lg @ stdio lg) (disk lg' @ stdio lg') \<and> owns_file lg' = owns_file lg \<and> log_ok lg' \<and> log_running lg' = log_running lg"
proof -
  have "log_ok lg'" using logger_poll_refines [OF assms(1), of tt "[]"] assms(2) by auto
  moreover have "prefix (disk lg @ stdio lg) (disk lg' @ stdio lg') \<and> owns_file lg' = owns_file lg"
    using assms(2) by (auto simp: logger_poll_def log_fflush_def Let_def split: option.splits if_splits)
  ultimately show ?thesis using logger_poll_running [OF assms(2)] by simp
qed

lemma logger_polls_grow:
  "log_ok lg \<Longrightarrow> \<exists>lg'. logger_polls tt n lg = Some lg' \<and> prefix (disk lg @ stdio lg) (disk lg' @ stdio lg') \<and> owns_file lg' = owns_file lg \<and> log_running lg' = log_running lg
    \<and> (n = 0 \<longrightarrow> lg' = lg)"
proof (induction n arbitrary: lg)
  case (Suc n)
  obtain lg1 where 1: "logger_poll tt lg = Some lg1" "log_ok lg1" using logger_poll_refines [OF Suc.prems, of tt "[]"] by blast
  from Suc.IH [OF 1(2)] logger_poll_grows [OF Suc.prems 1(1)] 1(1) show ?case by (auto intro: prefix_order.trans)
qed simp

text \<open>The destructor after a failure: it frees the logger while its thread runs.\<close>

definition freed_running :: "init_env \<Rightarrow> string \<Rightarrow> nat \<Rightarrow> string option \<Rightarrow> bool \<Rightarrow> bool" where
  "freed_running ie path n lg alive \<longleftrightarrow> alive \<and> (path \<noteq> ''-'' \<longrightarrow> (\<exists>old t. ie_fopen ie path = Some old \<and> lg = Some t \<and> prefix old t \<and> (n = 0 \<longrightarrow> t = old)))"

lemma log_fresh_destroyed:
  assumes "log_fresh ie path lg"
  shows "\<exists>lg'. logger_polls tt n lg = Some lg' \<and> freed_running ie path n (Some (logger_destroy lg')) (log_running lg')"
proof -
  have "log_ok lg" using assms by (simp add: log_fresh_def)
  from logger_polls_grow [OF this, of tt n] assms show ?thesis
    by (auto simp: freed_running_def log_fresh_def logger_destroy_def)
qed

lemma destroy_unfinished_spec:
  assumes "pl_init ie sm log_path = Some (Inl u)" and "pools_fit ie"
  shows "\<exists>lg gw alive. destroy_unfinished tt n u = Some (lg, gw, alive)
    \<and> (if un_logger u = None then lg = None \<and> \<not> alive else freed_running ie (cstr log_path) n lg alive)"
proof -
  have f: "\<not> (case un_feed u of None \<Rightarrow> False | Some fh \<Rightarrow> feed_destroy fh = None)" using pl_init_feed [OF assms(1) _ assms(2)] by (auto split: option.split)
  show ?thesis
  proof (cases "un_logger u")
    case None
    then show ?thesis using f by (intro exI [of _ None] exI [of _ "gw_destroy (un_gateway u)"] exI [of _ False]) (simp add: destroy_unfinished_def)
  next
    case (Some lg)
    then have "log_fresh ie (cstr log_path) lg" using pl_init_logger [OF assms] by simp
    from log_fresh_destroyed [OF this, of tt n] f Some show ?thesis by (auto simp: destroy_unfinished_def)
  qed
qed

lemma pl_start_fails:
  assumes "log_ok (p_logger p)" and "\<not> p_running p" and "\<not> (fd_ok \<and> io_ok \<and> consumer_ok)"
  shows "\<exists>lg. pl_start fd_ok io_ok consumer_ok now p
    = Some (-1, p\<lparr>p_logger := lg, p_feed := (the (snd (feed_start fd_ok (Some (p_feed p)))))\<lparr>feed_running := False\<rparr>\<rparr>) \<and> log_same (p_logger p) lg"
proof -
  obtain lg where 1: "pl_log now LOG_INFO ''[INFO]  EventPipeline starting...'' p = Some (p\<lparr>p_logger := lg\<rparr>)" "log_ok lg"
    using pl_log_ok [OF assms(1)] by blast
  have s1: "log_same (p_logger p) lg" using pl_log_same [OF 1(1)] by simp
  have err: "\<exists>lg'. pl_log now l t (p\<lparr>p_logger := lg, p_feed := fh\<rparr>) = Some (p\<lparr>p_logger := lg', p_feed := fh\<rparr>) \<and> log_same (p_logger p) lg'" for l t fh
  proof -
    obtain lg' where l: "pl_log now l t (p\<lparr>p_logger := lg, p_feed := fh\<rparr>) = Some (p\<lparr>p_logger := lg, p_feed := fh, p_logger := lg'\<rparr>)"
      using pl_log_ok [of "p\<lparr>p_logger := lg, p_feed := fh\<rparr>" now l t] 1(2) by auto
    then show ?thesis using log_same_trans [OF s1, of lg'] pl_log_same [OF l] by (intro exI [of _ lg']) simp
  qed
  let ?fh = "(the (snd (feed_start fd_ok (Some (p_feed p)))))\<lparr>feed_running := False\<rparr>"
  show ?thesis
  proof (cases fd_ok)
    case False
    then show ?thesis using 1(1) assms(2) err [of LOG_ERROR "''[ERROR] Failed to start feed handler''" ?fh]
      by (auto simp: pl_start_def feed_start_def Let_def)
  next
    case True
    then show ?thesis using 1(1) assms(2,3) err [of LOG_ERROR "''[ERROR] Failed to create I/O thread''" ?fh]
        err [of LOG_ERROR "''[ERROR] Failed to create consumer thread''" ?fh]
      by (cases io_ok) (auto simp: pl_start_def feed_start_def Let_def pl_feed_def feed_stop_def)
  qed
qed

lemma destroy_started_spec:
  assumes "env_ok ie log_path" and "pl_init ie sm log_path = Some (Inr p)" and "\<not> (fd_ok \<and> io_ok \<and> consumer_ok)"
    and "q = (if j \<noteq> None then set_journal j p else p)"
  shows "\<exists>q' lg gw alive. pl_start fd_ok io_ok consumer_ok now q = Some (-1, q') \<and> destroy_started tt n q' = Some (lg, gw, alive) \<and> freed_running ie (cstr log_path) n lg alive"
proof -
  from pl_init_ok [OF assms(1), of sm] assms(2) have
    p: "\<not> p_running p" "feed_ok [] (p_feed p)" "chan_ok [] (io_chan p)" by (auto simp: feed_inv_def)
  have fr: "log_fresh ie (cstr log_path) (p_logger p)" using pl_init_logger [OF assms(2) env_ok_fit [OF assms(1)]] by simp
  have q: "\<not> p_running q" "p_feed q = p_feed p" "io_chan q = io_chan p" "p_logger q = p_logger p" using p(1) by (simp_all add: assms(4) set_journal_def)
  have "log_ok (p_logger q)" using fr q(4) by (simp add: log_fresh_def)
  from pl_start_fails [OF this q(1) assms(3), of now] obtain lg where
    st: "pl_start fd_ok io_ok consumer_ok now q = Some (-1, q\<lparr>p_logger := lg, p_feed := (the (snd (feed_start fd_ok (Some (p_feed q)))))\<lparr>feed_running := False\<rparr>\<rparr>)" (is "_ = Some (-1, ?q)")
      "log_same (p_logger q) lg" by blast
  have "feed_ok [] ((the (snd (feed_start fd_ok (Some (p_feed p)))))\<lparr>feed_running := False\<rparr>)"
    using p(2) by (auto simp: feed_start_def feed_ok_def feed_queued_def)
  then have d: "pl_destroy (?q\<lparr>p_logger := lg'\<rparr>) = Some (logger_destroy lg', gw_destroy (Some (p_gateway q)))" for lg'
    using pl_destroy_ok [of "?q\<lparr>p_logger := lg'\<rparr>"] p(3) q by simp
  have "log_fresh ie (cstr log_path) lg" using log_fresh_same [OF fr] st(2) q(4) by simp
  from log_fresh_destroyed [OF this, of tt n] obtain lg' where "logger_polls tt n lg = Some lg'" "freed_running ie (cstr log_path) n (Some (logger_destroy lg')) (log_running lg')" by blast
  then show ?thesis using st(1) d by (intro exI [of _ ?q]) (simp add: destroy_started_def)
qed

section \<open>Start, strategy and settings\<close>

text \<open>A failed start leaves nothing running. When the feed thread, the I/O thread or the consumer thread cannot be
  created, \<open>start\<close> returns -1 with the pipeline and the feed stopped, and touches neither book, positions,
  counters nor queues.\<close>

theorem pl_start_failure:
  assumes "log_ok (p_logger p)" and "\<not> p_running p" and "\<not> (fd_ok \<and> io_ok \<and> consumer_ok)"
  shows "\<exists>p'. pl_start fd_ok io_ok consumer_ok now p = Some (-1, p') \<and> \<not> p_running p' \<and> \<not> feed_running (p_feed p')
    \<and> p_book p' = p_book p \<and> p_risk p' = p_risk p \<and> p_stats p' = p_stats p \<and> io_chan p' = io_chan p \<and> feed_queued (p_feed p') = feed_queued (p_feed p)"
proof -
  let ?fh = "(the (snd (feed_start fd_ok (Some (p_feed p)))))\<lparr>feed_running := False\<rparr>"
  have "feed_queued ?fh = feed_queued (p_feed p)" by (simp add: feed_start_def feed_queued_def)
  then show ?thesis using pl_start_fails [OF assms, of now] assms(2) by auto
qed

theorem pl_start_failure_witness:
  "\<exists>p p'. pl_init ex_env ''AAPL'' (opt_log default_settings) = Some (Inr p) \<and> pl_start True False True 7 p = Some (-1, p') \<and> \<not> feed_running (p_feed p')"
proof -
  obtain p where p: "pl_init ex_env ''AAPL'' (opt_log default_settings) = Some (Inr p)" "log_ok (p_logger p)" "\<not> p_running p"
    using pl_init_ok [OF ex_env_ok, of "''AAPL''"] by auto
  from pl_start_failure [OF p(2,3), of True False True 7] p(1) show ?thesis by auto
qed

text \<open>C39: the strategy quotes around the middle of a simulated quote. For every plausible message it makes exactly two
  orders, a buy with the next id and a sell with the one after, of 100 each at finite prices, the buy not above and the
  sell not below the mid price in the rounded arithmetic of the code, so that the two can never trade with each
  other except at the very same price.\<close>

theorem strategy_quotes_around_mid:
  assumes "plausible m" and "next_order_id p = i" and "0 < i" and "i + 2 < 2 ^ 31"
  shows "\<exists>b a. strategy_on_market_data m p = ([b, a], p\<lparr>next_order_id := i + 2\<rparr>) \<and> oid b = i \<and> oid a = i + 1
    \<and> side b = BUY \<and> side a = SELL \<and> quantity b = 100 \<and> quantity a = 100 \<and> otype b = LIMIT \<and> otype a = LIMIT
    \<and> symbol b = msg_symbol m \<and> symbol a = msg_symbol m \<and> d_finite (price b) \<and> d_finite (price a)
    \<and> d_le (price b) (d_div (d_add (bid_price m) (ask_price m)) (d_lit 2 1))
    \<and> d_le (d_div (d_add (bid_price m) (ask_price m)) (d_lit 2 1)) (price a) \<and> (d_le (price a) (price b) \<longrightarrow> d_eq (price a) (price b))"
proof -
  have ids: "s32 (i + 1) = i + 1" "s32 (2 + i) = i + 2" using assms(3,4) by (auto simp: s32_id)
  note P = strategy_prices [OF assms(1)]
  have "d_eq (sell_price m) (buy_price m)" if "d_le (sell_price m) (buy_price m)" using P(1,2) that by (auto simp: d_le_def d_eq_def)
  then show ?thesis using P assms(2) by (simp add: strategy_eq ids)
qed

theorem strategy_quotes_around_mid_witness:
  "\<exists>m p b a. strategy_on_market_data m p = ([b, a], p\<lparr>next_order_id := 3\<rparr>) \<and> oid b = 1 \<and> oid a = 2 \<and> d_finite (price b) \<and> d_finite (price a)"
proof -
  have "d_within 2684354560 (d_lit 150 1) 268435456000" by (rule d_within_lit) simp_all
  then have m: "plausible (fst (simulate_message 5 (ex_feed\<lparr>sim_base_price := d_lit 150 1\<rparr>)))" (is "plausible ?m") by (simp add: simulate_message_bounds)
  obtain p :: event_pipeline where p: "next_order_id p = 1" using pl_init_ok [OF ex_env_ok, of "''AAPL''"] by (metis event_pipeline.select_convs(10))
  from strategy_quotes_around_mid [OF m p] show ?thesis by auto
qed

lemma takeWhile_show_nat: "takeWhile is_digit (show_nat n) = show_nat n"
  by (rule takeWhile_eq_all_conv [THEN iffD2]) (use show_nat_digits in blast)

lemma isspace_digit: "is_digit c \<Longrightarrow> \<not> isspace c \<and> c \<noteq> CHR ''-'' \<and> c \<noteq> CHR ''+''"
  by (auto simp: isspace_def is_digit_def)

lemma show_nat_hd: "show_nat n \<noteq> [] \<and> is_digit (hd (show_nat n))"
  using show_nat_digits [of "hd (show_nat n)" n] by (cases "show_nat n") (auto simp: show_nat.simps [of n] split: if_splits)

lemma atoi_show_int: "in_s32 i \<Longrightarrow> atoi (show_int i) = i"
proof -
  assume i: "in_s32 i"
  then have r: "s32 (max (- (2 ^ 63)) (min (2 ^ 63 - 1) i)) = i" by (simp add: in_s32_def max_def min_def s32_id)
  have nul: "cstr (show_nat n) = show_nat n" "cstr (CHR ''-'' # show_nat n) = CHR ''-'' # show_nat n" for n
    using show_nat_digits [of NUL n] is_digit_not_minus(4) by (auto intro!: cstr_no_nul simp: NUL_def)
  have ws: "dropWhile isspace (show_nat n) = show_nat n" for n
    using show_nat_hd [of n] isspace_digit [of "hd (show_nat n)"] by (cases "show_nat n") auto
  have h: "hd (show_nat n) \<noteq> CHR ''-''" "hd (show_nat n) \<noteq> CHR ''+''" for n using show_nat_hd [of n] isspace_digit by blast+
  show ?thesis
  proof (cases "i < 0")
    case True
    then show ?thesis using r by (simp add: atoi_def show_int_def nul Let_def isspace_def takeWhile_show_nat)
  next
    case False
    then show ?thesis using r h show_nat_hd by (simp add: atoi_def show_int_def nul ws Let_def takeWhile_show_nat)
  qed
qed

lemma parse_options_known: "\<forall>(c, x) \<in> set opts. c = CHR ''d'' \<or> c = CHR ''s'' \<or> c = CHR ''l'' \<or> c = CHR ''j'' \<Longrightarrow>
    \<exists>s. parse_options (opts @ rest) s0 = parse_options rest s"
proof (induction opts arbitrary: s0)
  case (Cons co opts)
  obtain c x where co: "co = (c, x)" by fastforce
  have c: "c = CHR ''d'' \<or> c = CHR ''s'' \<or> c = CHR ''l'' \<or> c = CHR ''j''" and rest: "\<forall>(c, x) \<in> set opts. c = CHR ''d'' \<or> c = CHR ''s'' \<or> c = CHR ''l'' \<or> c = CHR ''j''"
    using Cons.prems co by simp_all
  obtain s1 where "parse_options (co # opts @ rest) s0 = parse_options (opts @ rest) s1" using c by (auto simp: co)
  then show ?case using Cons.IH [OF rest, of s1] by simp
qed auto

text \<open>Settings are read as they were written. A duration printed in decimal comes back through \<open>-d\<close> for every
  32-bit value, the other options are taken as they are, and later options override earlier ones.\<close>

theorem parse_options_roundtrip:
  assumes "in_s32 d" and "\<forall>(c, x) \<in> set opts. c = CHR ''d'' \<or> c = CHR ''s'' \<or> c = CHR ''l'' \<or> c = CHR ''j''"
  shows "parse_options (opts @ [(CHR ''d'', show_int d), (CHR ''s'', sm), (CHR ''l'', lg), (CHR ''j'', jr)]) s0
    = Inr \<lparr>duration_sec = d, opt_symbol = sm, opt_log = lg, opt_journal = jr\<rparr>"
proof -
  obtain s where "parse_options (opts @ [(CHR ''d'', show_int d), (CHR ''s'', sm), (CHR ''l'', lg), (CHR ''j'', jr)]) s0
      = parse_options [(CHR ''d'', show_int d), (CHR ''s'', sm), (CHR ''l'', lg), (CHR ''j'', jr)] s"
    using parse_options_known [OF assms(2)] by blast
  then show ?thesis by (simp add: atoi_show_int [OF assms(1)])
qed

theorem parse_options_roundtrip_witness:
  "parse_options [(CHR ''s'', ''MSFT''), (CHR ''d'', show_int 30), (CHR ''s'', ''AAPL''), (CHR ''l'', ''a.log''), (CHR ''j'', ''a.jrnl'')] default_settings
    = Inr \<lparr>duration_sec = 30, opt_symbol = ''AAPL'', opt_log = ''a.log'', opt_journal = ''a.jrnl''\<rparr>"
  using parse_options_roundtrip [of 30 "[(CHR ''s'', ''MSFT'')]" "''AAPL''" "''a.log''" "''a.jrnl''" default_settings]
  by (simp add: in_s32_def)

end
