(* ===== verification/Engine_Spec.thy ===== *)
theory Engine_Spec
  imports Pipeline_Run "HOL-Library.Sublist"
begin

text \<open>
  The running engine as an abstract machine. Its state has no rings, pools, addresses or files: a generator of quotes, the
  quotes that wait, book, positions and next order id, the events that wait for the I/O path and those that
  have passed it. An iteration of a loop is one step. The pipeline implements it step by step, and the journal file is the
  encoding of the events that have passed.
\<close>

section \<open>The machine\<close>

type_synonym generator = "feed_config \<times> double \<times> u32"

record engine_spec =
  s_gen :: generator
  s_quotes :: "feed_msg list"
  s_book :: order_book
  s_risk :: risk_engine
  s_next :: int
  s_traded :: "feed_msg list"
  s_made :: "io_view list"
  s_pending :: "io_view list"
  s_trail :: "io_view list"
  s_lost :: nat

text \<open>The state of the generator inside a feed handler, and a handler with nothing else in it.\<close>

definition gen_of :: "feed_handler \<Rightarrow> generator" where
  "gen_of fh = (feed_cfg fh, sim_base_price fh, prng_state fh)"

definition gen_feed :: "generator \<Rightarrow> feed_handler" where
  "gen_feed g = (case g of (c, b, st) \<Rightarrow> \<lparr>feed_cfg = c, output_queue = zero_ring, msg_pool = zero_pool, msgs = (\<lambda>_. zero_feed_msg),
     feed_running = False, sockfd = 0, msgs_received = 0, msgs_dropped = 0, bytes_received = 0, sim_base_price = b, prng_state = st\<rparr>)"

definition spec_quote :: "u64 \<Rightarrow> generator \<Rightarrow> feed_msg \<times> generator" where
  "spec_quote now g = (case simulate_message now (gen_feed g) of (m, fh) \<Rightarrow> (m, gen_of fh))"

definition spec_orders :: "int \<Rightarrow> feed_msg \<Rightarrow> order list" where
  "spec_orders i m = [strategy_order i BUY (buy_price m) m, strategy_order (i + 1) SELL (sell_price m) m]"

text \<open>Trading on a quote: two orders are decided; their events are queued as far as there is room.\<close>

definition spec_trade :: "nat \<Rightarrow> (nat \<Rightarrow> clock) \<Rightarrow> feed_msg \<Rightarrow> engine_spec \<Rightarrow> engine_spec" where
  "spec_trade room clk m s =
     (let (vs, ds, b, e) = decide_all clk 0 (spec_orders (s_next s) m) (s_book s, s_risk s)
      in s\<lparr>s_book := b, s_risk := e, s_next := s_next s + 2, s_traded := s_traded s @ [m], s_made := s_made s @ vs, s_pending := s_pending s @ take room vs,
           s_lost := s_lost s + (length vs - room)\<rparr>)"

fun engine_step :: "pl_op \<Rightarrow> engine_spec \<Rightarrow> engine_spec" where
  "engine_step (FeedTick now) s = (case spec_quote now (s_gen s) of (m, g) \<Rightarrow>
     s\<lparr>s_gen := g, s_quotes := (if length (s_quotes s) < 4095 then s_quotes s @ [m] else s_quotes s)\<rparr>)"
| "engine_step (HotTick clk t0 t1) s = (case s_quotes s of [] \<Rightarrow> s | m # ms \<Rightarrow> spec_trade (4095 - length (s_pending s)) clk m (s\<lparr>s_quotes := ms\<rparr>))"
| "engine_step (IoTick env) s = (case s_pending s of [] \<Rightarrow> s | v # vs \<Rightarrow> s\<lparr>s_pending := vs, s_trail := s_trail s @ [v]\<rparr>)"
| "engine_step LogTick s = s"

definition engine_run :: "pl_op list \<Rightarrow> engine_spec \<Rightarrow> engine_spec" where
  "engine_run ops = fold engine_step ops"

text \<open>The stop: the machine with the flags of the ending threads and the number of entries that are not recycled any more. The
  operations are those of a schedule.\<close>

record stop_spec =
  st_spec :: engine_spec
  st_taken :: nat
  st_hot_done :: bool
  st_io_draining :: bool
  st_io_done :: bool
  st_feed :: bool

definition st_room :: "stop_spec \<Rightarrow> nat" where
  "st_room t = 4095 - st_taken t - length (s_pending (st_spec t))"

fun stop_spec_step :: "stop_op \<Rightarrow> stop_spec \<Rightarrow> stop_spec" where
  "stop_spec_step (HotDrain clk t0 t1) t = (if st_hot_done t then t else case s_quotes (st_spec t) of
     [] \<Rightarrow> t\<lparr>st_hot_done := True\<rparr>
   | m # ms \<Rightarrow> t\<lparr>st_spec := spec_trade (st_room t) clk m ((st_spec t)\<lparr>s_quotes := ms\<rparr>)\<rparr>)"
| "stop_spec_step (IoLate env) t = (if st_io_draining t \<or> st_io_done t then t else t\<lparr>st_spec := engine_step (IoTick env) (st_spec t)\<rparr>)"
| "stop_spec_step (IoDrain env) t = (if st_io_done t then t else case s_pending (st_spec t) of
     [] \<Rightarrow> t\<lparr>st_io_done := True\<rparr>
   | v # vs \<Rightarrow> t\<lparr>st_spec := engine_step (IoTick env) (st_spec t), st_taken := Suc (st_taken t), st_io_draining := True\<rparr>)"
| "stop_spec_step (FeedGoes now) t = (if st_feed t then t\<lparr>st_spec := engine_step (FeedTick now) (st_spec t)\<rparr> else t)"
| "stop_spec_step FeedStops t = (if st_hot_done t then t\<lparr>st_feed := False\<rparr> else t)"
| "stop_spec_step LogGoes t = t"

definition stop_spec_run :: "stop_op list \<Rightarrow> stop_spec \<Rightarrow> stop_spec" where
  "stop_spec_run sch = fold stop_spec_step sch"

definition stop_spec_start :: "engine_spec \<Rightarrow> stop_spec" where
  "stop_spec_start s = \<lparr>st_spec = s, st_taken = 0, st_hot_done = False, st_io_draining = False, st_io_done = False, st_feed = True\<rparr>"

text \<open>What a schedule leaves to do: the remaining quotes are traded on, then the remaining events pass, unless the thread that would do
  it has ended.\<close>

definition hot_drains :: "(nat \<Rightarrow> nat \<Rightarrow> clock) \<Rightarrow> (nat \<Rightarrow> u64 \<times> u64) \<Rightarrow> nat \<Rightarrow> nat \<Rightarrow> stop_op list" where
  "hot_drains clk lat k n = map (\<lambda>i. HotDrain (clk i) (fst (lat i)) (snd (lat i))) [k..<k + n]"

definition spec_flush :: "engine_spec \<Rightarrow> engine_spec" where
  "spec_flush s = s\<lparr>s_pending := [], s_trail := s_trail s @ s_pending s\<rparr>"

definition spec_stop :: "stop_op list \<Rightarrow> (nat \<Rightarrow> nat \<Rightarrow> clock) \<Rightarrow> (nat \<Rightarrow> u64 \<times> u64) \<Rightarrow> engine_spec \<Rightarrow> engine_spec" where
  "spec_stop sch clk lat s =
     (let t = stop_spec_run sch (stop_spec_start s);
          s' = st_spec (stop_spec_run (hot_drains clk lat 0 (length (s_quotes (st_spec t)))) t)
      in if st_io_done t then s' else spec_flush s')"

text \<open>The I/O thread does not end before the hot path.\<close>

definition io_ends_last :: "stop_op list \<Rightarrow> engine_spec \<Rightarrow> bool" where
  "io_ends_last sch s \<longleftrightarrow> (\<forall>k \<le> length sch. let t = stop_spec_run (take k sch) (stop_spec_start s) in st_io_done t \<longrightarrow> st_hot_done t)"

definition spec_start :: "generator \<Rightarrow> string \<Rightarrow> engine_spec" where
  "spec_start g sy = \<lparr>s_gen = g, s_quotes = [], s_book = new_book sy, s_risk = set_limits pipeline_limits new_risk_engine, s_next = 1, s_traded = [],
     s_made = [], s_pending = [], s_trail = [], s_lost = 0\<rparr>"

section \<open>What the machine keeps\<close>

text \<open>Events pass in the order in which they were made; those that are missing are counted.\<close>

definition spec_inv :: "engine_spec \<Rightarrow> bool" where
  "spec_inv s \<longleftrightarrow> subseq (s_trail s @ s_pending s) (s_made s) \<and> length (s_trail s @ s_pending s) + s_lost s = length (s_made s)"

lemma spec_trade_inv: "spec_inv s \<Longrightarrow> spec_inv (spec_trade room clk m s)"
proof -
  assume inv: "spec_inv s"
  obtain vs ds b e where d: "decide_all clk 0 (spec_orders (s_next s) m) (s_book s, s_risk s) = (vs, ds, b, e)" by (rule prod_cases4)
  have "subseq (take k vs) vs" for k by (metis append_take_drop_id prefixI prefix_imp_subseq)
  then have "subseq ((s_trail s @ s_pending s) @ take k vs) (s_made s @ vs)" for k
    using inv by (intro list_emb_append_mono) (simp_all add: spec_inv_def)
  then show ?thesis using inv by (simp add: spec_trade_def d spec_inv_def Let_def min_def)
qed

lemma engine_step_inv: "spec_inv s \<Longrightarrow> spec_inv (engine_step op s)"
proof (cases op)
  case (HotTick clk t0 t1)
  assume "spec_inv s"
  then have "spec_inv (s\<lparr>s_quotes := ms\<rparr>)" for ms by (simp add: spec_inv_def)
  then show ?thesis using \<open>spec_inv s\<close> by (simp add: HotTick spec_trade_inv split: list.split)
qed (auto simp: spec_inv_def split: prod.split list.split)

lemma engine_run_inv: "spec_inv s \<Longrightarrow> spec_inv (engine_run ops s)"
  unfolding engine_run_def by (induction ops arbitrary: s) (simp_all add: engine_step_inv)

lemma engine_run_simps [simp]: "engine_run [] s = s" "engine_run (op # ops) s = engine_run ops (engine_step op s)"
  "engine_run (xs @ ys) s = engine_run ys (engine_run xs s)"
  by (simp_all add: engine_run_def)

section \<open>The stop\<close>

lemma stop_spec_run_simps [simp]: "stop_spec_run [] t = t" "stop_spec_run (op # ops) t = stop_spec_run ops (stop_spec_step op t)"
  "stop_spec_run (xs @ ys) t = stop_spec_run ys (stop_spec_run xs t)"
  by (simp_all add: stop_spec_run_def)

lemma stop_spec_step_inv: "spec_inv (st_spec t) \<Longrightarrow> spec_inv (st_spec (stop_spec_step op t))"
proof (cases op)
  case (HotDrain clk t0 t1)
  assume "spec_inv (st_spec t)"
  then have "spec_inv ((st_spec t)\<lparr>s_quotes := ms\<rparr>)" for ms by (simp add: spec_inv_def)
  then show ?thesis using \<open>spec_inv (st_spec t)\<close> by (simp add: HotDrain spec_trade_inv split: list.split)
qed (auto intro: engine_step_inv simp del: engine_step.simps split: list.split)

lemma stop_spec_run_inv: "spec_inv (st_spec t) \<Longrightarrow> spec_inv (st_spec (stop_spec_run sch t))"
  by (induction sch arbitrary: t) (simp_all add: stop_spec_step_inv)

lemma stop_spec_run_taken: "st_io_draining t \<or> st_taken t = 0 \<Longrightarrow> st_io_draining (stop_spec_run sch t) \<or> st_taken (stop_spec_run sch t) = 0"
proof (induction sch arbitrary: t)
  case (Cons op sch)
  have "st_io_draining (stop_spec_step op t) \<or> st_taken (stop_spec_step op t) = 0" using Cons.prems by (cases op) (auto split: list.split)
  then show ?case using Cons.IH by simp
qed simp

text \<open>Whatever the schedule, events pass in the order in which they were made, and those that neither passed nor were left in the queue are counted.\<close>

lemma spec_stop_inv: "spec_inv s \<Longrightarrow> spec_inv (spec_stop sch clk lat s)"
proof -
  assume inv: "spec_inv s"
  let ?t = "stop_spec_run sch (stop_spec_start s)"
  have "spec_inv (st_spec (stop_spec_run (hot_drains clk lat 0 (length (s_quotes (st_spec ?t)))) ?t))"
    by (intro stop_spec_run_inv) (simp add: stop_spec_start_def inv)
  then show ?thesis by (auto simp: spec_stop_def Let_def spec_flush_def spec_inv_def)
qed

definition st_clean :: "stop_spec \<Rightarrow> bool" where
  "st_clean t \<longleftrightarrow> (st_io_done t \<longrightarrow> st_hot_done t \<and> s_pending (st_spec t) = [])"

lemma stop_spec_step_clean: "st_clean t \<Longrightarrow> (st_io_done (stop_spec_step op t) \<longrightarrow> st_hot_done (stop_spec_step op t)) \<Longrightarrow> st_clean (stop_spec_step op t)"
  by (cases op) (auto simp: st_clean_def split: list.splits if_splits prod.splits)

lemma hot_drains_done: "st_hot_done t \<Longrightarrow> stop_spec_run (hot_drains clk lat k n) t = t"
proof -
  assume "st_hot_done t"
  then have "stop_spec_run (map (\<lambda>i. HotDrain (f i) (g i) (h i)) xs) t = t" for f g h and xs :: "nat list" by (induction xs) simp_all
  then show ?thesis by (simp add: hot_drains_def)
qed

text \<open>Nothing is left behind when the I/O thread does not end before the hot path.\<close>

lemma spec_stop_lossless:
  assumes "io_ends_last sch s"
  shows "s_pending (spec_stop sch clk lat s) = []"
proof -
  have "st_clean (stop_spec_run (take k sch) (stop_spec_start s))" if "k \<le> length sch" for k
    using that
  proof (induction k)
    case (Suc k)
    then have "stop_spec_run (take (Suc k) sch) (stop_spec_start s) = stop_spec_step (sch ! k) (stop_spec_run (take k sch) (stop_spec_start s))"
      by (simp add: take_Suc_conv_app_nth)
    moreover have "st_io_done (stop_spec_run (take (Suc k) sch) (stop_spec_start s)) \<longrightarrow> st_hot_done (stop_spec_run (take (Suc k) sch) (stop_spec_start s))"
      using assms Suc.prems unfolding io_ends_last_def Let_def by blast
    ultimately show ?case using Suc.IH Suc.prems stop_spec_step_clean by simp
  qed (simp add: st_clean_def stop_spec_start_def)
  from this [of "length sch"] show ?thesis
    by (cases "st_io_done (stop_spec_run sch (stop_spec_start s))") (simp_all add: spec_stop_def Let_def st_clean_def hot_drains_done spec_flush_def)
qed

section \<open>Progress\<close>

fun hot_count :: "pl_op list \<Rightarrow> nat" where
  "hot_count [] = 0"
| "hot_count (HotTick clk t0 t1 # ops) = Suc (hot_count ops)"
| "hot_count (_ # ops) = hot_count ops"

fun io_count :: "pl_op list \<Rightarrow> nat" where
  "io_count [] = 0"
| "io_count (IoTick env # ops) = Suc (io_count ops)"
| "io_count (_ # ops) = io_count ops"

lemma spec_trade_frame [simp]: "s_traded (spec_trade room clk m s) = s_traded s @ [m]" "s_quotes (spec_trade room clk m s) = s_quotes s" "s_trail (spec_trade room clk m s) = s_trail s"
  by (simp_all add: spec_trade_def Let_def split: prod.split)

lemma spec_trade_pending: "\<exists>vs. s_pending (spec_trade room clk m s) = s_pending s @ vs"
  by (simp add: spec_trade_def Let_def split: prod.split)

text \<open>Quotes are traded on in the order of their arrival, one in every iteration of the hot path that finds one; events
  pass in the same way.\<close>

lemma engine_run_quotes:
  "\<exists>new. s_traded (engine_run ops s) @ s_quotes (engine_run ops s) = s_traded s @ s_quotes s @ new
    \<and> length (s_traded s) + min (hot_count ops) (length (s_quotes s)) \<le> length (s_traded (engine_run ops s))"
proof (induction ops arbitrary: s)
  case (Cons op ops)
  from Cons.IH [of "engine_step op s"] obtain new where
    IH: "s_traded (engine_run ops (engine_step op s)) @ s_quotes (engine_run ops (engine_step op s)) = s_traded (engine_step op s) @ s_quotes (engine_step op s) @ new"
      "length (s_traded (engine_step op s)) + min (hot_count ops) (length (s_quotes (engine_step op s))) \<le> length (s_traded (engine_run ops (engine_step op s)))"
    by blast
  show ?case
  proof (cases op)
    case (FeedTick now)
    obtain m g where q: "spec_quote now (s_gen s) = (m, g)" by (rule prod.exhaust)
    show ?thesis using IH by (cases "length (s_quotes s) < 4095") (auto simp: FeedTick q)
  next
    case (HotTick clk t0 t1)
    show ?thesis
    proof (cases "s_quotes s")
      case Nil
      then show ?thesis using IH by (auto simp: HotTick)
    next
      case (Cons m ms)
      then show ?thesis using IH by (intro exI [of _ new]) (auto simp: HotTick)
    qed
  next
    case (IoTick env)
    then show ?thesis using IH by (cases "s_pending s") auto
  qed (use IH in auto)
qed simp

lemma engine_run_events:
  "\<exists>new. s_trail (engine_run ops s) @ s_pending (engine_run ops s) = s_trail s @ s_pending s @ new
    \<and> length (s_trail s) + min (io_count ops) (length (s_pending s)) \<le> length (s_trail (engine_run ops s))"
proof (induction ops arbitrary: s)
  case (Cons op ops)
  from Cons.IH [of "engine_step op s"] obtain new where
    IH: "s_trail (engine_run ops (engine_step op s)) @ s_pending (engine_run ops (engine_step op s)) = s_trail (engine_step op s) @ s_pending (engine_step op s) @ new"
      "length (s_trail (engine_step op s)) + min (io_count ops) (length (s_pending (engine_step op s))) \<le> length (s_trail (engine_run ops (engine_step op s)))"
    by blast
  show ?case
  proof (cases op)
    case (FeedTick now)
    obtain m g where q: "spec_quote now (s_gen s) = (m, g)" by (rule prod.exhaust)
    show ?thesis using IH by (cases "length (s_quotes s) < 4095") (auto simp: FeedTick q)
  next
    case (HotTick clk t0 t1)
    show ?thesis
    proof (cases "s_quotes s")
      case Nil
      then show ?thesis using IH by (auto simp: HotTick)
    next
      case (Cons m ms)
      obtain vs where "s_pending (spec_trade (4095 - length (s_pending s)) clk m (s\<lparr>s_quotes := ms\<rparr>)) = s_pending s @ vs"
        using spec_trade_pending [of "4095 - length (s_pending s)" clk m "s\<lparr>s_quotes := ms\<rparr>"] by auto
      then show ?thesis using IH Cons by (intro exI [of _ "vs @ new"]) (auto simp: HotTick)
    qed
  next
    case (IoTick env)
    then show ?thesis using IH by (cases "s_pending s") auto
  qed (use IH in auto)
qed simp

lemma prefix_of_equal: "xs @ ys = us @ vs @ new \<Longrightarrow> length us + length vs \<le> length xs \<Longrightarrow> prefix (us @ vs) xs"
proof -
  assume e: "xs @ ys = us @ vs @ new" and l: "length us + length vs \<le> length xs"
  have "us @ vs = take (length us + length vs) (xs @ ys)" unfolding e by simp
  also have "\<dots> = take (length us + length vs) xs" using l by simp
  finally show ?thesis by (simp add: take_is_prefix)
qed

lemma engine_run_progress:
  "length (s_quotes s) \<le> hot_count ops \<Longrightarrow> prefix (s_traded s @ s_quotes s) (s_traded (engine_run ops s))"
  "length (s_pending s) \<le> io_count ops \<Longrightarrow> prefix (s_trail s @ s_pending s) (s_trail (engine_run ops s))"
proof -
  show "length (s_quotes s) \<le> hot_count ops \<Longrightarrow> prefix (s_traded s @ s_quotes s) (s_traded (engine_run ops s))"
    using engine_run_quotes [of ops s] by (auto simp: min_absorb2 intro: prefix_of_equal)
  show "length (s_pending s) \<le> io_count ops \<Longrightarrow> prefix (s_trail s @ s_pending s) (s_trail (engine_run ops s))"
    using engine_run_events [of ops s] by (auto simp: min_absorb2 intro: prefix_of_equal)
qed

end
