(* ===== verification/Engine_Refinement.thy ===== *)
theory Engine_Refinement
  imports Engine_Spec
begin

text \<open>
  The pipeline implements the abstract machine: each iteration of a loop is a step of it, the operations of a schedule of \<open>stop\<close> are
  steps of its stop, and the journal holds the encoding of the events that have passed.
\<close>

section \<open>The relation\<close>

text \<open>\<open>k\<close> entries of the pool are neither free nor queued: the I/O thread has taken them while it drained.\<close>

definition implements_at :: "nat \<Rightarrow> engine_spec \<Rightarrow> event_pipeline \<Rightarrow> bool" where
  "implements_at k s p \<longleftrightarrow> gen_of (p_feed p) = s_gen s \<and> feed_queued (p_feed p) = s_quotes s \<and> rb_bound (output_queue (p_feed p)) = 4095
     \<and> p_book p = s_book s \<and> p_risk p = s_risk s \<and> next_order_id p = s_next s
     \<and> map event_view (queued (io_chan p)) = s_pending s \<and> length (free_entries (io_chan p)) + length (s_pending s) + k = 4095
     \<and> io_events_dropped (p_stats p) = of_nat (s_lost s) \<and> market_data_msgs (p_stats p) = of_nat (length (s_traded s))
     \<and> (\<forall>j. p_journal p = Some j \<longrightarrow> jsequence j = of_nat (length (s_trail s)))"

abbreviation implements :: "engine_spec \<Rightarrow> event_pipeline \<Rightarrow> bool" where
  "implements \<equiv> implements_at 0"

lemmas implements_def = implements_at_def

text \<open>The journal file is \<open>old\<close> followed by a record for every event that has passed, numbered from 0.\<close>

definition journalled :: "byte list \<Rightarrow> engine_spec \<Rightarrow> event_pipeline \<Rightarrow> bool" where
  "journalled old s p \<longleftrightarrow> (\<forall>j. p_journal p = Some j \<longrightarrow>
     (\<exists>es. written old (expected_records 0 es) j \<and> jsequence j = of_nat (length es) \<and> map snd es = map view_record (s_trail s)))"

lemma journalled_keeps: "journalled old s p \<Longrightarrow> p_journal p' = p_journal p \<Longrightarrow> s_trail s' = s_trail s \<Longrightarrow> journalled old s' p'"
  by (simp add: journalled_def)

lemma journalled_grows:
  assumes "journalled old s p" and "journal_grows es True (p_journal p) (p_journal p')" and "s_trail s' = s_trail s @ vs"
    and "map snd es = map view_record vs"
  shows "journalled old s' p'"
  unfolding journalled_def
proof (intro allI impI)
  fix j' assume j': "p_journal p' = Some j'"
  then obtain j where j: "p_journal p = Some j" "jsequence j' = jsequence j + of_nat (length es)"
      "\<And>rs. written old rs j \<Longrightarrow> written old (rs @ expected_records (jsequence j) es) j'"
    using assms(2) by (auto simp: journal_grows_def split: option.splits)
  obtain fs where fs: "written old (expected_records 0 fs) j" "jsequence j = of_nat (length fs)" "map snd fs = map view_record (s_trail s)"
    using assms(1) j(1) by (auto simp: journalled_def)
  have "written old (expected_records 0 (fs @ es)) j'" using j(3) [OF fs(1)] fs(2) by (simp add: expected_records_append)
  then show "\<exists>es. written old (expected_records 0 es) j' \<and> jsequence j' = of_nat (length es) \<and> map snd es = map view_record (s_trail s')"
    using j(2) fs(2,3) assms(3,4) by (intro exI [of _ "fs @ es"]) simp
qed

text \<open>What an event does to the gateway, and the gateway after the events that have passed, each at some time.\<close>

fun gateway_view :: "u64 \<Rightarrow> io_view \<Rightarrow> execution_gateway \<Rightarrow> execution_gateway" where
  "gateway_view now (OrderView t i a pr q fl ts sd ot st sm reason (Some (msg, len))) gw =
     the (snd (snd (gw_send_order now (Some gw) (Some msg) len i)))"
| "gateway_view now _ gw = gw"

definition dispatched :: "execution_gateway \<Rightarrow> engine_spec \<Rightarrow> event_pipeline \<Rightarrow> bool" where
  "dispatched g0 s p \<longleftrightarrow> (\<exists>ts. length ts = length (s_trail s) \<and> p_gateway p = fold (\<lambda>(t, v). gateway_view t v) (zip ts (s_trail s)) g0)"

lemma dispatched_keeps: "dispatched g0 s p \<Longrightarrow> p_gateway p' = p_gateway p \<Longrightarrow> s_trail s' = s_trail s \<Longrightarrow> dispatched g0 s' p'"
  by (simp add: dispatched_def)

lemma dispatched_grows:
  assumes "dispatched g0 s p" and "p_gateway p' = fold (\<lambda>(t, v). gateway_view t v) (zip ts vs) (p_gateway p)" and "length ts = length vs"
    and "s_trail s' = s_trail s @ vs"
  shows "dispatched g0 s' p'"
proof -
  obtain us where us: "length us = length (s_trail s)" "p_gateway p = fold (\<lambda>(t, v). gateway_view t v) (zip us (s_trail s)) g0"
    using assms(1) by (auto simp: dispatched_def)
  then show ?thesis using assms(2-) unfolding dispatched_def by (intro exI [of _ "us @ ts"]) simp
qed

lemma pl_log_gateway: "pl_log now l t p = Some p' \<Longrightarrow> p_gateway p' = p_gateway p \<and> io_chan p' = io_chan p"
  by (auto simp: pl_log_def)

lemma pl_journal_gateway: "pl_journal f p = Some p' \<Longrightarrow> p_gateway p' = p_gateway p \<and> io_chan p' = io_chan p"
  by (auto simp: pl_journal_def split: option.splits)

lemma gateway_send_gateway: "ev_type ev = ORDER_ACCEPTED \<or> ev_type ev = ORDER_FILLED \<Longrightarrow>
    p_gateway (gateway_send env ev p) = gateway_view (io_gw_now env) (event_view ev) (p_gateway p)"
  by (auto simp: gateway_send_def event_view_def)

lemma gateway_send_chan: "io_chan (gateway_send env ev p) = io_chan p"
  by (simp add: gateway_send_def)

lemma process_io_event_gateway:
  "process_io_event env ev p = Some p' \<Longrightarrow> p_gateway p' = gateway_view (io_gw_now env) (event_view ev) (p_gateway p) \<and> io_chan p' = io_chan p"
  by (cases "ev_type ev")
    (auto simp: process_io_event_def journal_order_def gateway_send_gateway gateway_send_chan bind_eq_Some_conv event_view_def [of ev] split: if_splits
      dest!: pl_log_gateway pl_journal_gateway)

section \<open>The feed\<close>

lemma simulate_gen: "spec_quote now (gen_of fh) = (fst (simulate_message now fh), gen_of (snd (simulate_message now fh)))"
  by (simp add: spec_quote_def gen_of_def gen_feed_def simulate_message_def rand_size_def rand_double_def xorshift32_def Let_def split_beta)

lemma feed_deliver_gen: "feed_deliver a m fh = Some (ok, fh') \<Longrightarrow> gen_of fh' = gen_of fh"
  by (auto simp: feed_deliver_def gen_of_def Let_def split: option.splits bool.splits)

lemma feed_sim_step_gen:
  assumes "feed_sim_step now fh = Some fh'" and "mempool_alloc (msg_pool fh) = Some (a, mp)" and "a \<noteq> 0"
  shows "gen_of fh' = snd (spec_quote now (gen_of fh))"
proof -
  obtain m fh1 where m: "simulate_message now (fh\<lparr>msg_pool := mp\<rparr>) = (m, fh1)" by fastforce
  obtain ok fh2 where d: "feed_deliver a m fh1 = Some (ok, fh2)" "fh' = (if ok then fh2\<lparr>bytes_received := bytes_received fh2 + FEED_MSG_SIZE\<rparr> else fh2)"
    using assms m by (auto simp: feed_sim_step_def Let_def split: option.splits)
  have "gen_of fh' = gen_of fh2" by (simp add: d(2) gen_of_def)
  also have "\<dots> = gen_of fh1" by (rule feed_deliver_gen [OF d(1)])
  also have "\<dots> = snd (spec_quote now (gen_of (fh\<lparr>msg_pool := mp\<rparr>)))" by (simp add: simulate_gen m)
  finally show ?thesis by (simp add: gen_of_def)
qed

lemma feed_tick_refines:
  assumes "feed_inv_plausible fh" and "rb_bound (output_queue fh) = 4095" and "feed_sim_step now fh = Some fh'"
    and "spec_quote now (gen_of fh) = (m, g)"
  shows "gen_of fh' = g \<and> rb_bound (output_queue fh') = 4095
    \<and> feed_queued fh' = (if length (feed_queued fh) < 4095 then feed_queued fh @ [m] else feed_queued fh)"
proof -
  have ok: "feed_ok [] fh" "card (mp_slots (msg_pool fh)) = 4096" using assms(1) by (simp_all add: feed_inv_plausible_def)
  have "length (feed_queued fh) \<le> 4095" using rbq.bounded [of "output_queue fh"] ok(1) assms(2) by (simp add: feed_ok_def feed_queued_def)
  then have av: "mp_avail (msg_pool fh) \<noteq> {}" using feed_ok_count [OF ok(1)] ok(2) by auto
  then obtain a mp where al: "mempool_alloc (msg_pool fh) = Some (a, mp)" "a \<noteq> 0" using feed_alloc [OF ok(1)] by auto
  have "offered (fst (simulate_message now fh)) [] fh fh'" using feed_sim_step_spec [OF ok(1), of now] assms(3) by auto
  then show ?thesis using av feed_sim_step_gen [OF assms(3) al] assms(2,4) by (simp add: offered_def simulate_gen)
qed

lemma feed_pop_keeps:
  assumes "feed_ok hl fh" and "feed_pop fh = Some (a, fh')"
  shows "gen_of fh' = gen_of fh \<and> rb_bound (output_queue fh') = rb_bound (output_queue fh) \<and> msgs fh' = msgs fh"
proof -
  have ok: "rb_ok (output_queue fh)" using assms(1) by (simp add: feed_ok_def)
  obtain q where q: "ring_buffer_pop (output_queue fh) = Some (a, q)" "fh' = fh\<lparr>output_queue := q\<rparr>" using assms(2) by (auto simp: feed_pop_def)
  have "rb_bound q = rb_bound (output_queue fh)"
    using rbq.pop_empty [OF ok] rbq.pop_item [OF ok] q(1) by (cases "rb_contents (output_queue fh)") fastforce+
  then show ?thesis by (simp add: q(2) gen_of_def)
qed

section \<open>The hot path\<close>

lemma hot_refines:
  assumes "pl_inv sy n m p" and "implements_at k s p" and "feed_pop (p_feed p) = Some (a, fh)" and "a \<noteq> 0"
    and "process_market_data clk t0 t1 a (p\<lparr>p_feed := fh\<rparr>) = Some p'"
  shows "\<exists>q qs. s_quotes s = q # qs \<and> implements_at k (spec_trade (4095 - k - length (s_pending s)) clk q (s\<lparr>s_quotes := qs\<rparr>)) p' \<and> p_journal p' = p_journal p
    \<and> p_gateway p' = p_gateway p"
proof -
  let ?p = "p\<lparr>p_feed := fh\<rparr>"
  have I: "chan_ok [] (io_chan p)" "feed_inv_plausible (p_feed p)" "trading_inv sy n p" "feed_ok [] (p_feed p)" using assms(1) by (simp_all add: inv_defs)
  note S = assms(2) [unfolded implements_def]
  note K = feed_pop_keeps [OF I(4) assms(3)]
  have f: "feed_ok [a] fh" "feed_queued (p_feed p) = msgs (p_feed p) a # feed_queued fh" "plausible (msgs fh a)"
    using feedq.next_message [OF I(4) assms(3,4)] feed_pop_plausible [OF I(2)] assms(3,4) by auto
  have ids: "s32 (next_order_id p + 1) = next_order_id p + 1" "s32 (2 + next_order_id p) = next_order_id p + 2" "in_s32 (next_order_id p)"
    using I(3) f(2) by (auto simp: trading_inv_def s32_id in_s32_def)
  let ?q = "msgs (p_feed p) a"
  obtain vs ds b e where d: "decide_all clk 0 (spec_orders (s_next s) ?q) (s_book s, s_risk s) = (vs, ds, b, e)" by (rule prod_cases4)
  have st: "strategy_on_market_data (msgs (p_feed ?p) a) ?p = (spec_orders (s_next s) ?q, ?p\<lparr>next_order_id := next_order_id p + 2\<rparr>)"
    using S K by (simp add: strategy_eq spec_orders_def ids [simplified S])
  have inv: "chan_ok [] (io_chan ?p)" "book_inv (p_book ?p)" "feed_ok [a] (p_feed ?p)" "in_s32 (next_order_id ?p)" "tradable (msgs (p_feed ?p) a)"
    "decide_all clk 0 (spec_orders (s_next s) ?q) (p_book ?p, p_risk ?p) = (vs, ds, b, e)"
    using I f ids S d by (auto simp: trading_inv_def intro: book_history_inv plausible_tradable)
  from process_market_data_spec [OF inv(1-5) st inv(6), of t0 t1] assms(5) obtain c mp where
    r: "p' = ?p\<lparr>p_book := b, p_risk := e, p_feed := fh\<lparr>msg_pool := mp\<rparr>, io_chan := c,
        p_stats := update_latency t0 t1 (drop_stats (length vs - length (free_entries (io_chan p)))
          (fold decision_stats ds ((p_stats p)\<lparr>market_data_msgs := market_data_msgs (p_stats p) + 1\<rparr>))),
        next_order_id := next_order_id p + 2\<rparr>" "posted vs (io_chan p) c" by (auto simp: ids)
  have free: "length (free_entries (io_chan p)) = 4095 - k - length (s_pending s)" using S by linarith
  have "io_events_dropped (fold decision_stats ds ((p_stats p)\<lparr>market_data_msgs := market_data_msgs (p_stats p) + 1\<rparr>)) = io_events_dropped (p_stats p)"
    "market_data_msgs (fold decision_stats ds ((p_stats p)\<lparr>market_data_msgs := market_data_msgs (p_stats p) + 1\<rparr>)) = market_data_msgs (p_stats p) + 1"
    using decide_all_stats [OF d] by simp_all
  then have "implements_at k (spec_trade (4095 - k - length (s_pending s)) clk ?q (s\<lparr>s_quotes := feed_queued fh\<rparr>)) p'"
    using S K r(2) free by (simp add: implements_def spec_trade_def d r(1) Let_def posted_def gen_of_def) arith
  moreover have "s_quotes s = ?q # feed_queued fh" using S f(2) by simp
  moreover have "p_journal p' = p_journal p" "p_gateway p' = p_gateway p" by (simp_all add: r(1))
  ultimately show ?thesis by blast
qed

section \<open>The I/O path\<close>

lemma io_poll_gateway:
  assumes "chan_ok [] (io_chan p)" and "io_poll env p = Some p'"
  shows "p_gateway p' = fold (\<lambda>(t, v). gateway_view t v) (zip [io_gw_now env] (take 1 (map event_view (queued (io_chan p))))) (p_gateway p)"
proof -
  from evq.next_total [OF assms(1)] obtain a c where
    c: "chan_next (io_chan p) = Some (a, c)"
      "if a = 0 then queued (io_chan p) = [] \<and> c = io_chan p else chan_ok [a] c \<and> queued (io_chan p) = entries (io_chan p) a # queued c" by blast
  then show ?thesis using assms(2) chan_next_keeps [OF c(1)]
    by (cases "a = 0") (auto simp: io_poll_def split: option.splits dest!: process_io_event_gateway)
qed

lemma io_drain_gateway:
  assumes "chan_ok [] (io_chan p)" and "io_drain env k p = Some p'"
  shows "p_gateway p' = fold (\<lambda>(t, v). gateway_view t v)
    (zip (map (io_gw_now \<circ> env) [k..<k + length (queued (io_chan p))]) (map event_view (queued (io_chan p)))) (p_gateway p)"
  using assms
proof (induction "length (queued (io_chan p))" arbitrary: p k)
  case 0
  have "chan_next (io_chan p) = Some (0, io_chan p)" using evq.next_empty [OF "0.prems"(1)] "0.hyps" by simp
  then have "p' = p" using "0.prems"(2) by (subst (asm) io_drain.simps) simp
  then show ?case using "0.hyps" by simp
next
  case (Suc l)
  from evq.next_total [OF Suc.prems(1)] Suc.hyps(2) obtain a c where
    c: "chan_next (io_chan p) = Some (a, c)" "chan_ok [a] c" "a \<noteq> 0" "queued (io_chan p) = entries (io_chan p) a # queued c"
    by (auto split: if_splits)
  then obtain q where q: "process_io_event (env k) (entries c a) (p\<lparr>io_chan := c\<rparr>) = Some q" "io_drain env (Suc k) q = Some p'"
    using Suc.prems(2) by (subst (asm) io_drain.simps) (auto split: option.splits)
  note Q = process_io_event_gateway [OF q(1)]
  have "l = length (queued (io_chan q))" "chan_ok [] (io_chan q)" using Q c Suc.hyps(2) chan_ok_drop [of "[]" "[a]" c] by simp_all
  from Suc.hyps(1) [OF this q(2)] Q c chan_next_keeps [OF c(1)] show ?case
    by (simp add: upt_conv_Cons del: upt_Suc)
qed

lemma io_poll_free:
  assumes "chan_ok [] (io_chan p)" and "log_ok (p_logger p)" and "journal_ok (Suc n) (p_journal p)" and "io_poll env p = Some p'"
  shows "length (free_entries (io_chan p')) = length (free_entries (io_chan p)) + length (take 1 (queued (io_chan p)))"
proof -
  from evq.next_total [OF assms(1)] obtain a c where
    c: "chan_next (io_chan p) = Some (a, c)"
      "if a = 0 then queued (io_chan p) = [] \<and> c = io_chan p else chan_ok [a] c \<and> queued (io_chan p) = entries (io_chan p) a # queued c" by blast
  show ?thesis
  proof (cases "a = 0")
    case True
    then show ?thesis using c assms(4) by (auto simp: io_poll_def)
  next
    case False
    have "log_ok (p_logger (p\<lparr>io_chan := c\<rparr>))" "journal_ok (Suc n) (p_journal (p\<lparr>io_chan := c\<rparr>))" using assms by simp_all
    from process_io_event_ok [OF this, of env "entries c a"] obtain q where
      q: "process_io_event env (entries c a) (p\<lparr>io_chan := c\<rparr>) = Some q" "io_chan q = c" by (auto simp: io_processed_def)
    have "chan_ok [a] c" using c(2) False by simp
    from chan_recycle_spec [OF this, of "\<lambda>e. e"] obtain c' where "chan_recycle a (\<lambda>e. e) c = Some c'" "free_entries c' = free_entries c @ [a]" by blast
    then show ?thesis using False c q assms(4) chan_next_keeps [OF c(1)] by (auto simp: io_poll_def)
  qed
qed

lemma io_refines:
  assumes "pl_inv sy n (Suc m) p" and "implements s p" and "io_poll env p = Some p'"
  shows "implements (engine_step (IoTick env) s) p' \<and> (dispatched g0 s p \<longrightarrow> dispatched g0 (engine_step (IoTick env) s) p')
    \<and> (os_ok (io_os env) \<longrightarrow> journalled old s p \<longrightarrow> journalled old (engine_step (IoTick env) s) p')"
proof -
  have I: "chan_ok [] (io_chan p)" "log_ok (p_logger p)" "journal_ok (Suc (m + 4294967296)) (p_journal p)" using assms(1) by (simp_all add: pl_inv_def)
  let ?vs = "take 1 (s_pending s)" and ?es = "map (event_entry env) (take 1 (queued (io_chan p)))"
  have S: "engine_step (IoTick env) s = s\<lparr>s_pending := drop 1 (s_pending s), s_trail := s_trail s @ ?vs\<rparr>" by (cases "s_pending s") simp_all
  have V: "map event_view (queued (io_chan p)) = s_pending s" using assms(2) by (simp add: implements_def)
  from io_poll_ok [OF I, of env] assms(3) obtain lg jo gw c where
    r: "p' = p\<lparr>p_logger := lg, p_journal := jo, p_gateway := gw, io_chan := c\<rparr>" "journal_grows ?es (os_ok (io_os env)) (p_journal p) jo"
      "queued c = drop (length ?es) (queued (io_chan p))" by (auto simp: io_ran_def)
  have "map snd ?es = map view_record (take 1 (map event_view (queued (io_chan p))))" by (simp add: take_map event_entry_def)
  then have es: "map snd ?es = map view_record ?vs" unfolding V .
  have len: "length (queued (io_chan p)) = length (s_pending s)" using V by (metis length_map)
  have "drop (length ?es) (queued (io_chan p)) = drop 1 (queued (io_chan p))" by (cases "queued (io_chan p)") simp_all
  then have "map event_view (queued c) = drop 1 (s_pending s)" using r(3) V by (metis drop_map)
  moreover have "length (free_entries c) + length (drop 1 (s_pending s)) = 4095"
    using assms(2) io_poll_free [OF I assms(3)] r(1) len by (simp add: implements_def) arith
  moreover have "jsequence j = of_nat (length (s_trail s @ ?vs))" if "jo = Some j" for j
    using assms(2) r(2) that len by (auto simp: implements_def journal_grows_def split: option.splits)
  ultimately have "implements (engine_step (IoTick env) s) p'"
    unfolding S using assms(2) r(1) by (simp add: implements_def)
  moreover have "journalled old (engine_step (IoTick env) s) p'" if "os_ok (io_os env)" "journalled old s p"
    unfolding S by (rule journalled_grows [OF that(2), of ?es]) (use r(1,2) that(1) es in simp_all)
  moreover have "dispatched g0 (engine_step (IoTick env) s) p'" if "dispatched g0 s p"
    unfolding S by (rule dispatched_grows [OF that, of _ "take (length ?vs) [io_gw_now env]" ?vs])
      (use io_poll_gateway [OF I(1) assms(3)] V in \<open>cases "s_pending s"; simp\<close>)+
  ultimately show ?thesis by blast
qed

section \<open>Steps and runs\<close>

fun op_ok :: "pl_op \<Rightarrow> bool" where
  "op_ok (IoTick env) = os_ok (io_os env)"
| "op_ok _ = True"

lemma pl_op_step_refines:
  assumes "pl_inv sy (n + ticks [op]) (Suc m) p" and "implements s p" and "pl_op_step tt op p = Some p'"
  shows "implements (engine_step op s) p' \<and> (dispatched g0 s p \<longrightarrow> dispatched g0 (engine_step op s) p')
    \<and> (op_ok op \<longrightarrow> journalled old s p \<longrightarrow> journalled old (engine_step op s) p')"
proof (cases op)
  case (FeedTick now)
  obtain fh where fh: "feed_sim_step now (p_feed p) = Some fh" "p' = p\<lparr>p_feed := fh\<rparr>" using assms(3) by (auto simp: FeedTick)
  obtain q g where q: "spec_quote now (gen_of (p_feed p)) = (q, g)" by (rule prod.exhaust)
  have F: "feed_inv_plausible (p_feed p)" "rb_bound (output_queue (p_feed p)) = 4095" using assms(1,2) by (simp_all add: pl_inv_def implements_def)
  from feed_tick_refines [OF F fh(1) q] assms(2) have "implements (engine_step op s) p'" using q fh(2) by (simp add: FeedTick implements_def)
  then show ?thesis using journalled_keeps [of old s p p' "engine_step op s"] dispatched_keeps [of g0 s p p' "engine_step op s"] fh(2) by (simp add: FeedTick split: prod.split)
next
  case (HotTick clk t0 t1)
  obtain a fh where a: "feed_pop (p_feed p) = Some (a, fh)" "process_market_data clk t0 t1 a (p\<lparr>p_feed := fh\<rparr>) = Some p'"
    using assms(3) by (auto simp: HotTick consumer_poll_def split: option.splits)
  show ?thesis
  proof (cases "a = 0")
    case True
    have "feed_ok [] (p_feed p)" using assms(1) by (simp add: inv_defs)
    from feedq.next_null [OF this] a True have "feed_queued (p_feed p) = []" "p' = p" by (auto simp: process_market_data_def)
    then show ?thesis using assms(2) by (simp add: HotTick implements_def)
  next
    case False
    from hot_refines [OF assms(1,2) a(1) False a(2)] obtain q qs where
      h: "s_quotes s = q # qs" "implements (spec_trade (4095 - length (s_pending s)) clk q (s\<lparr>s_quotes := qs\<rparr>)) p'" "p_journal p' = p_journal p"
        "p_gateway p' = p_gateway p" by auto
    show ?thesis using h journalled_keeps [of old s p p'] dispatched_keeps [of g0 s p p'] by (simp add: HotTick)
  qed
next
  case (IoTick env)
  have "pl_inv sy n (Suc m) p" by (rule pl_inv_mono [OF assms(1)]) simp_all
  from io_refines [OF this assms(2), of env p' g0 old] assms(3) show ?thesis by (simp add: IoTick)
next
  case LogTick
  then obtain lg where "p' = p\<lparr>p_logger := lg\<rparr>" using assms(3) by auto
  then show ?thesis using assms(2) by (simp add: LogTick implements_def journalled_def dispatched_def)
qed

lemma pl_run_refines:
  "pl_inv sy (n + ticks ops) (m + length ops) p \<Longrightarrow> balanced p \<Longrightarrow> implements s p \<Longrightarrow> pl_run tt ops p = Some p' \<Longrightarrow>
    implements (engine_run ops s) p' \<and> (dispatched g0 s p \<longrightarrow> dispatched g0 (engine_run ops s) p') \<and> ((\<forall>op \<in> set ops. op_ok op) \<longrightarrow> journalled old s p \<longrightarrow> journalled old (engine_run ops s) p')"
proof (induction ops arbitrary: p s)
  case (Cons op ops)
  have inv: "pl_inv sy ((n + ticks ops) + ticks [op]) (Suc (m + length ops)) p" using Cons.prems(1) ticks_Cons [of op ops] by (simp add: ac_simps)
  from pl_op_step_inv [OF inv Cons.prems(2), of tt] obtain p1 where
    1: "pl_op_step tt op p = Some p1" "pl_inv sy (n + ticks ops) (m + length ops) p1" "balanced p1" by blast
  have 2: "pl_run tt ops p1 = Some p'" using Cons.prems(4) 1(1) by simp
  from pl_op_step_refines [OF inv Cons.prems(3) 1(1), of g0 old] Cons.IH [OF 1(2,3) _ 2] show ?case by auto
qed simp

section \<open>The stop\<close>

text \<open>A stop of the pipeline and a stop of the machine in the same state.\<close>

definition stop_refines :: "stop_spec \<Rightarrow> stop_state \<Rightarrow> bool" where
  "stop_refines t s \<longleftrightarrow> implements_at (st_taken t) (st_spec t) (pl s) \<and> st_hot_done t = consumer_done s \<and> st_io_draining t = io_draining s
     \<and> st_io_done t = io_done s \<and> st_feed t = feed_running (p_feed (pl s))"

fun stop_op_ok :: "stop_op \<Rightarrow> bool" where
  "stop_op_ok (IoLate env) = os_ok (io_os env)"
| "stop_op_ok (IoDrain env) = os_ok (io_os env)"
| "stop_op_ok _ = True"

text \<open>Journal and gateway follow from one state to the next.\<close>

definition outputs_follow :: "execution_gateway \<Rightarrow> byte list \<Rightarrow> bool \<Rightarrow> engine_spec \<Rightarrow> event_pipeline \<Rightarrow> engine_spec \<Rightarrow> event_pipeline \<Rightarrow> bool" where
  "outputs_follow g0 old ok s p s' p' \<longleftrightarrow> (dispatched g0 s p \<longrightarrow> dispatched g0 s' p') \<and> (ok \<longrightarrow> journalled old s p \<longrightarrow> journalled old s' p')"

lemma outputs_follow_keeps: "p_journal p' = p_journal p \<Longrightarrow> p_gateway p' = p_gateway p \<Longrightarrow> s_trail s' = s_trail s \<Longrightarrow> outputs_follow g0 old ok s p s' p'"
  by (simp add: outputs_follow_def journalled_def dispatched_def)

lemma outputs_follow_trans: "outputs_follow g0 old ok s p s1 p1 \<Longrightarrow> outputs_follow g0 old ok' s1 p1 s2 p2 \<Longrightarrow> outputs_follow g0 old (ok \<and> ok') s p s2 p2"
  by (simp add: outputs_follow_def)

lemma io_drain_refines:
  assumes "pl_inv sy n (Suc m) p" and "implements_at k s p" and "chan_next (io_chan p) = Some (a, c)" and "a \<noteq> 0"
    and "process_io_event env (entries c a) (p\<lparr>io_chan := c\<rparr>) = Some p'"
  shows "\<exists>v vs. s_pending s = v # vs \<and> implements_at (Suc k) (engine_step (IoTick env) s) p' \<and> outputs_follow g0 old (os_ok (io_os env)) s p (engine_step (IoTick env) s) p'
    \<and> p_feed p' = p_feed p"
proof -
  from io_message_ran [OF assms(1,3,4), of env] assms(5) have q: "queued (io_chan p) = entries c a # queued c"
    and "io_ran [event_entry env (entries c a)] (m + 4294967296) (os_ok (io_os env)) p (Some p')" by simp_all
  then obtain lg jo gw c' where
    r: "p' = p\<lparr>p_logger := lg, p_journal := jo, p_gateway := gw, io_chan := c'\<rparr>" "journal_grows [event_entry env (entries c a)] (os_ok (io_os env)) (p_journal p) jo"
      "queued c' = queued c" by (auto simp: io_ran_def)
  note G = process_io_event_gateway [OF assms(5)]
  have c': "c' = c" using G r(1) by simp
  let ?v = "event_view (entries c a)" and ?vs = "map event_view (queued c)"
  have pend: "s_pending s = ?v # ?vs" using assms(2) q by (simp add: implements_def)
  have S: "engine_step (IoTick env) s = s\<lparr>s_pending := ?vs, s_trail := s_trail s @ [?v]\<rparr>" by (simp add: pend)
  have "length (free_entries c) = length (free_entries (io_chan p))" using chan_next_keeps [OF assms(3)] by simp
  moreover have "jsequence j = of_nat (length (s_trail s @ [?v]))" if "jo = Some j" for j
    using assms(2) r(2) that by (auto simp: implements_def journal_grows_def split: option.splits)
  ultimately have "implements_at (Suc k) (engine_step (IoTick env) s) p'" unfolding S using assms(2) r(1) c' pend by (simp add: implements_def)
  moreover have "journalled old (engine_step (IoTick env) s) p'" if "os_ok (io_os env)" "journalled old s p"
    unfolding S by (rule journalled_grows [OF that(2), of "[event_entry env (entries c a)]" _ _ "[?v]"]) (use r(1,2) that(1) in \<open>simp_all add: event_entry_def\<close>)
  moreover have "dispatched g0 (engine_step (IoTick env) s) p'" if "dispatched g0 s p"
    unfolding S by (rule dispatched_grows [OF that, of _ "[io_gw_now env]" "[?v]"]) (use G in simp_all)
  ultimately show ?thesis using pend r(1) by (auto simp: outputs_follow_def simp del: engine_step.simps)
qed

lemma feed_refines:
  assumes "pl_inv sy n m p" and "implements_at k s p" and "feed_sim_step now (p_feed p) = Some fh"
  shows "implements_at k (engine_step (FeedTick now) s) (p\<lparr>p_feed := fh\<rparr>)"
proof -
  obtain q g where q: "spec_quote now (gen_of (p_feed p)) = (q, g)" by (rule prod.exhaust)
  have F: "feed_inv_plausible (p_feed p)" "rb_bound (output_queue (p_feed p)) = 4095" using assms(1,2) by (simp_all add: pl_inv_def implements_def)
  from feed_tick_refines [OF F assms(3) q] assms(2) show ?thesis using q by (simp add: implements_def)
qed

lemma engine_step_trail: "s_trail (engine_step (FeedTick now) s) = s_trail s"
  by (simp split: prod.split)

lemma stop_op_step_refines:
  assumes "pl_inv sy (n + stop_ticks [op]) (Suc m) (pl s)" and "balanced (pl s)" and "stop_refines t s" and "stop_op_step tt op s = Some s'"
    and "st_io_draining t \<or> st_taken t = 0"
  shows "stop_refines (stop_spec_step op t) s' \<and> outputs_follow g0 old (stop_op_ok op) (st_spec t) (pl s) (st_spec (stop_spec_step op t)) (pl s')
    \<and> (st_io_draining (stop_spec_step op t) \<or> st_taken (stop_spec_step op t) = 0)"
proof -
  have R: "implements_at (st_taken t) (st_spec t) (pl s)" "st_hot_done t = consumer_done s" "st_io_draining t = io_draining s" "st_io_done t = io_done s"
      "st_feed t = feed_running (p_feed (pl s))" using assms(3) by (simp_all add: stop_refines_def)
  have inv: "pl_inv sy n m (pl s)" "pl_inv sy n (Suc m) (pl s)" using pl_inv_mono [OF assms(1)] by simp_all
  have refl: "outputs_follow g0 old ok (st_spec t) (pl s) (st_spec t) (pl s)" for ok by (simp add: outputs_follow_def)
  show ?thesis
  proof (cases op)
    case (HotDrain clk t0 t1)
    have F: "feed_ok [] (p_feed (pl s))" using inv(1) by (simp add: inv_defs)
    from feedq.next_total [OF F] obtain a fh where f: "feed_pop (p_feed (pl s)) = Some (a, fh)" "a = 0 \<longrightarrow> feed_queued (p_feed (pl s)) = [] \<and> fh = p_feed (pl s)" by auto
    show ?thesis
    proof (cases "consumer_done s \<or> a = 0")
      case True
      then show ?thesis
      proof (cases "consumer_done s")
        case False
        then have "s_quotes (st_spec t) = []" "s' = s\<lparr>consumer_done := True\<rparr>" using True assms(4) f R(1) by (simp_all add: HotDrain implements_def)
        then show ?thesis using False R assms(5) refl by (simp add: HotDrain stop_refines_def)
      qed (use assms(3-5) R(2) refl in \<open>simp add: HotDrain\<close>)
    next
      case False
      then obtain p' where p': "process_market_data clk t0 t1 a ((pl s)\<lparr>p_feed := fh\<rparr>) = Some p'" "s' = s\<lparr>pl := p'\<rparr>" using assms(4) f(1) by (auto simp: HotDrain)
      from hot_refines [OF inv(1) R(1) f(1) _ p'(1)] False obtain q qs where
        h: "s_quotes (st_spec t) = q # qs" "implements_at (st_taken t) (spec_trade (4095 - st_taken t - length (s_pending (st_spec t))) clk q ((st_spec t)\<lparr>s_quotes := qs\<rparr>)) p'"
          "p_journal p' = p_journal (pl s)" "p_gateway p' = p_gateway (pl s)" by auto
      moreover have "feed_running (p_feed p') = feed_running (p_feed (pl s))" using hot_step [OF inv(1) assms(2) f(1), of clk t0 t1] False p'(1) by auto
      ultimately show ?thesis using False R p'(2) assms(5) by (simp add: HotDrain stop_refines_def st_room_def outputs_follow_keeps)
    qed
  next
    case (IoLate env)
    show ?thesis
    proof (cases "io_draining s \<or> io_done s")
      case True
      then show ?thesis using assms(3-5) R refl by (simp add: IoLate)
    next
      case False
      then obtain p' where p': "io_poll env (pl s) = Some p'" "s' = s\<lparr>pl := p'\<rparr>" using assms(4) by (auto simp: IoLate)
      have 0: "st_taken t = 0" using False assms(5) R(3) by simp
      have "pl_inv sy (n + ticks [IoTick env]) (Suc m) (pl s)" using inv(2) by simp
      from pl_op_step_inv [OF this assms(2), of tt] p'(1) have "feed_running (p_feed p') = feed_running (p_feed (pl s))" by (auto simp: steady_def)
      with io_refines [OF inv(2) R(1) [unfolded 0] p'(1), of g0 old] False R p'(2) 0 show ?thesis
        by (simp add: IoLate stop_refines_def outputs_follow_def del: engine_step.simps)
    qed
  next
    case (IoDrain env)
    have c0: "chan_ok [] (io_chan (pl s))" using inv(1) by (simp add: pl_inv_def)
    from evq.next_total [OF c0] obtain a c where
      c: "chan_next (io_chan (pl s)) = Some (a, c)" "a = 0 \<longrightarrow> queued (io_chan (pl s)) = [] \<and> c = io_chan (pl s)" by auto
    show ?thesis
    proof (cases "io_done s \<or> a = 0")
      case True
      then show ?thesis
      proof (cases "io_done s")
        case False
        then have "s_pending (st_spec t) = []" "s' = s\<lparr>io_done := True\<rparr>" using True assms(4) c R(1) by (simp_all add: IoDrain implements_def)
        then show ?thesis using False R assms(5) refl by (simp add: IoDrain stop_refines_def)
      qed (use assms(3-5) R(4) refl in \<open>simp add: IoDrain\<close>)
    next
      case False
      then obtain p' where p': "process_io_event env (entries c a) ((pl s)\<lparr>io_chan := c\<rparr>) = Some p'" "s' = s\<lparr>pl := p', io_draining := True\<rparr>"
        using assms(4) c(1) by (auto simp: IoDrain)
      from io_drain_refines [OF inv(2) R(1) c(1) _ p'(1), of g0 old] False obtain v vs where
        "s_pending (st_spec t) = v # vs" "implements_at (Suc (st_taken t)) (engine_step (IoTick env) (st_spec t)) p'"
          "outputs_follow g0 old (os_ok (io_os env)) (st_spec t) (pl s) (engine_step (IoTick env) (st_spec t)) p'" "p_feed p' = p_feed (pl s)" by blast
      then show ?thesis using False R p'(2) by (simp add: IoDrain stop_refines_def del: engine_step.simps)
    qed
  next
    case (FeedGoes now)
    show ?thesis
    proof (cases "feed_running (p_feed (pl s))")
      case True
      then obtain fh where fh: "feed_sim_step now (p_feed (pl s)) = Some fh" "s' = s\<lparr>pl := (pl s)\<lparr>p_feed := fh\<rparr>\<rparr>" using assms(4) by (auto simp: FeedGoes)
      have "feed_running fh" using feed_tick [of "p_feed (pl s)" now] inv(1) fh(1) True by (auto simp: pl_inv_def)
      then show ?thesis using feed_refines [OF inv(1) R(1) fh(1)] fh(2) R True assms(5)
        by (simp add: FeedGoes stop_refines_def outputs_follow_keeps engine_step_trail del: engine_step.simps)
    qed (use assms(3-5) R refl in \<open>simp add: FeedGoes\<close>)
  next
    case FeedStops
    have "outputs_follow g0 old True (st_spec t) (pl s) (st_spec t) (pl_feed feed_stop (pl s))"
      "implements_at (st_taken t) (st_spec t) (pl_feed feed_stop (pl s))" "\<not> feed_running (p_feed (pl_feed feed_stop (pl s)))"
      using R(1) feed_stop_inv [OF inv(1) assms(2)] by (simp_all add: outputs_follow_keeps implements_def gen_of_def feed_queued_def)
    moreover have "s' = (if consumer_done s then s\<lparr>pl := pl_feed feed_stop (pl s)\<rparr> else s)" using assms(4) by (auto simp: FeedStops)
    ultimately show ?thesis using assms(3,5) R refl by (simp add: FeedStops stop_refines_def)
  next
    case LogGoes
    then obtain lg where "s' = s\<lparr>pl := (pl s)\<lparr>p_logger := lg\<rparr>\<rparr>" using assms(4) by auto
    then show ?thesis using R assms(5) by (simp add: LogGoes stop_refines_def implements_def outputs_follow_keeps)
  qed
qed

lemma stop_run_refines:
  "pl_inv sy (n + stop_ticks sch) (m + length sch) (pl s) \<Longrightarrow> balanced (pl s) \<Longrightarrow> stop_refines t s \<Longrightarrow> stop_run tt sch s = Some s' \<Longrightarrow>
    st_io_draining t \<or> st_taken t = 0 \<Longrightarrow>
    stop_refines (stop_spec_run sch t) s' \<and> outputs_follow g0 old (\<forall>op \<in> set sch. stop_op_ok op) (st_spec t) (pl s) (st_spec (stop_spec_run sch t)) (pl s')"
proof (induction sch arbitrary: s t)
  case Nil
  then show ?case by (simp add: outputs_follow_def)
next
  case (Cons op sch)
  have inv: "pl_inv sy ((n + stop_ticks sch) + stop_ticks [op]) (Suc (m + length sch)) (pl s)" using Cons.prems(1) stop_ticks_Cons [of op sch] by (simp add: ac_simps)
  from stop_op_step_inv [OF inv Cons.prems(2), of tt] obtain s1 where
    1: "stop_op_step tt op s = Some s1" "pl_inv sy (n + stop_ticks sch) (m + length sch) (pl s1)" "balanced (pl s1)" by blast
  have 2: "stop_run tt sch s1 = Some s'" using Cons.prems(4) 1(1) by simp
  note A = stop_op_step_refines [OF inv Cons.prems(2,3) 1(1) Cons.prems(5), of g0 old]
  from Cons.IH [OF 1(2,3) conjunct1 [OF A] 2 conjunct2 [OF conjunct2 [OF A]]] A show ?case by (auto simp: outputs_follow_def)
qed

lemma hot_drains_simps [simp]: "stop_ticks (hot_drains clk lat k n) = 0" "length (hot_drains clk lat k n) = n" "\<forall>op \<in> set (hot_drains clk lat k n). stop_op_ok op"
proof -
  have "stop_ticks (map (\<lambda>i. HotDrain (f i) (g i) (h i)) xs) = 0" for f g h and xs :: "nat list" by (induction xs) simp_all
  then show "stop_ticks (hot_drains clk lat k n) = 0" by (simp add: hot_drains_def)
qed (auto simp: hot_drains_def)

lemma consumer_drain_run:
  assumes "pl_inv sy n m (pl s)" and "balanced (pl s)" and "\<not> consumer_done s"
  shows "stop_run tt (hot_drains clk lat k (length (feed_queued (p_feed (pl s))))) s = map_option (\<lambda>p. s\<lparr>pl := p\<rparr>) (consumer_drain clk lat k (pl s))"
  using assms
proof (induction "length (feed_queued (p_feed (pl s)))" arbitrary: s k)
  case 0
  have "feed_ok [] (p_feed (pl s))" using "0.prems"(1) by (simp add: inv_defs)
  then have "feed_pop (p_feed (pl s)) = Some (0, p_feed (pl s))" using feedq.next_empty "0.hyps" by simp
  then show ?case using "0.hyps" by (subst consumer_drain.simps) (simp add: hot_drains_def)
next
  case (Suc l)
  have "feed_ok [] (p_feed (pl s))" using Suc.prems(1) by (simp add: inv_defs)
  from feedq.next_total [OF this] Suc.hyps(2) obtain a fh where f: "feed_pop (p_feed (pl s)) = Some (a, fh)" "a \<noteq> 0" by (auto split: if_splits)
  from hot_step [OF Suc.prems(1,2) f, of "clk k" "fst (lat k)" "snd (lat k)"] obtain p1 where
    1: "process_market_data (clk k) (fst (lat k)) (snd (lat k)) a ((pl s)\<lparr>p_feed := fh\<rparr>) = Some p1" "pl_inv sy n m p1" "balanced p1"
      "length (feed_queued (p_feed (pl s))) = Suc (length (feed_queued (p_feed p1)))" by blast
  have "hot_drains clk lat k (Suc l) = HotDrain (clk k) (fst (lat k)) (snd (lat k)) # hot_drains clk lat (Suc k) l"
    by (simp add: hot_drains_def upt_conv_Cons del: upt_Suc)
  moreover have "l = length (feed_queued (p_feed (pl (s\<lparr>pl := p1\<rparr>))))" using 1(4) Suc.hyps(2) by simp
  ultimately show ?case using f 1 Suc.hyps(1) [of "s\<lparr>pl := p1\<rparr>" "Suc k"] Suc.hyps(2) Suc.prems(3)
    by (subst consumer_drain.simps) (simp add: option.map_comp o_def)
qed

lemma implements_quotes_bound:
  assumes "implements_at k s p" and "pl_inv sy n m p"
  shows "length (feed_queued (p_feed p)) \<le> 4095"
proof -
  have "rb_ok (output_queue (p_feed p))" "rb_bound (output_queue (p_feed p)) = 4095" using assms by (simp_all add: inv_defs implements_def feed_ok_def)
  then show ?thesis using rbq.bounded [of "output_queue (p_feed p)"] by (simp add: feed_queued_def)
qed

text \<open>What remains of the relation when all threads have ended; events may be left in the queue.\<close>

definition finished :: "engine_spec \<Rightarrow> event_pipeline \<Rightarrow> bool" where
  "finished s p \<longleftrightarrow> p_book p = s_book s \<and> p_risk p = s_risk s \<and> next_order_id p = s_next s \<and> map event_view (queued (io_chan p)) = s_pending s
     \<and> feed_queued (p_feed p) = s_quotes s \<and> io_events_dropped (p_stats p) = of_nat (s_lost s) \<and> market_data_msgs (p_stats p) = of_nat (length (s_traded s))
     \<and> (\<forall>j. p_journal p = Some j \<longrightarrow> jsequence j = of_nat (length (s_trail s)))"

lemma map_snd_drain: "map snd (drain_entries env k evs) = map view_record (map event_view evs)"
  by (induction evs arbitrary: k) (simp_all add: event_entry_def)

lemma io_drain_flush:
  assumes "pl_inv sy n m p" and "implements_at k s p" and "io_drain env 0 p = Some p'"
  shows "finished (spec_flush s) p' \<and> outputs_follow g0 old (\<forall>i. os_ok (io_os (env i))) s p (spec_flush s) p'"
proof -
  have c: "chan_ok [] (io_chan p)" "log_ok (p_logger p)" using assms(1) by (simp_all add: pl_inv_def)
  have "journal_ok (length (queued (io_chan p)) + 0) (p_journal p)" using assms(1) queued_bound [OF c(1)] by (auto simp: pl_inv_def elim: journal_ok_mono)
  from io_drain_ok [OF c this, of env 0] assms(3) obtain lg jo gw ch where
    r: "p' = p\<lparr>p_logger := lg, p_journal := jo, p_gateway := gw, io_chan := ch\<rparr>" "queued ch = []"
      "journal_grows (drain_entries env 0 (queued (io_chan p))) (\<forall>i. os_ok (io_os (env i))) (p_journal p) jo"
    by (auto simp: io_ran_def)
  have V: "s_pending s = map event_view (queued (io_chan p))" using assms(2) by (simp add: implements_def)
  have "jsequence j = of_nat (length (s_trail s @ s_pending s))" if "jo = Some j" for j
    using assms(2) r(3) that by (auto simp: implements_def journal_grows_def V split: option.splits)
  then have "finished (spec_flush s) p'" using assms(2) r by (simp add: finished_def spec_flush_def implements_def)
  moreover have "journalled old (spec_flush s) p'" if "\<forall>i. os_ok (io_os (env i))" "journalled old s p"
    by (rule journalled_grows [OF that(2), of "drain_entries env 0 (queued (io_chan p))" _ _ "s_pending s"])
      (use r that(1) V in \<open>simp_all add: spec_flush_def map_snd_drain\<close>)
  moreover have "dispatched g0 (spec_flush s) p'" if "dispatched g0 s p"
    by (rule dispatched_grows [OF that io_drain_gateway [OF c(1) assms(3)]]) (simp_all add: spec_flush_def V)
  ultimately show ?thesis by (simp add: outputs_follow_def)
qed

lemma stop_threads_refines:
  assumes "pl_inv sy (n + stop_ticks sch) (m + 4095 + length sch) p" and "balanced p" and "implements s p" and "feed_running (p_feed p)"
    and "stop_threads tt sch clk lat env p = Some p'"
  shows "finished (spec_stop sch clk lat s) p'
    \<and> outputs_follow g0 old ((\<forall>op \<in> set sch. stop_op_ok op) \<and> (\<forall>i. os_ok (io_os (env i)))) s p (spec_stop sch clk lat s) p'"
proof -
  let ?ok = "\<forall>op \<in> set sch. stop_op_ok op" and ?okd = "\<forall>i. os_ok (io_os (env i))"
  define t where "t = stop_spec_run sch (stop_spec_start s)"
  define t1 where "t1 = stop_spec_run (hot_drains clk lat 0 (length (s_quotes (st_spec t)))) t"
  have st: "pl_inv sy (n + stop_ticks sch) (m + 4095 + length sch) (pl (stop_start p))" "balanced (pl (stop_start p))" using stop_start_inv [OF assms(1,2)] by simp_all
  obtain x where x: "stop_run tt sch (stop_start p) = Some x" "pl_inv sy n (m + 4095) (pl x)" "balanced (pl x)" using stop_run_inv [OF st, of tt] by blast
  have "stop_refines (stop_spec_start s) (stop_start p)" "st_io_draining (stop_spec_start s) \<or> st_taken (stop_spec_start s) = 0"
    using assms(3,4) by (simp_all add: stop_refines_def stop_spec_start_def stop_start_def implements_def)
  from stop_run_refines [OF st this(1) x(1) this(2), of g0 old, folded t_def] have
    r: "stop_refines t x" "outputs_follow g0 old ?ok s p (st_spec t) (pl x)"
    by (simp_all add: stop_spec_start_def stop_start_def outputs_follow_def journalled_def dispatched_def)
  then have R: "implements_at (st_taken t) (st_spec t) (pl x)" "st_hot_done t = consumer_done x" "st_io_done t = io_done x" by (simp_all add: stop_refines_def)
  have len: "length (s_quotes (st_spec t)) = length (feed_queued (p_feed (pl x)))" using R(1) by (simp add: implements_def)
  obtain p1 where
    p1: "(if consumer_done x then Some (pl x) else consumer_drain clk lat 0 (pl x)) = Some p1" "pl_inv sy n m p1" "balanced p1"
      "implements_at (st_taken t1) (st_spec t1) p1" "st_io_done t1 = io_done x" "outputs_follow g0 old True (st_spec t) (pl x) (st_spec t1) p1"
  proof (cases "consumer_done x")
    case True
    then have "t1 = t" using R(2) by (simp add: t1_def hot_drains_done)
    then show ?thesis using True x(2,3) R pl_inv_mono [OF x(2)] by (intro that [of "pl x"]) (simp_all add: outputs_follow_def)
  next
    case False
    from consumer_drain_inv [OF x(2,3), of clk lat 0] obtain q where q: "consumer_drain clk lat 0 (pl x) = Some q" "pl_inv sy n (m + 4095) q" "balanced q" by blast
    have run: "stop_run tt (hot_drains clk lat 0 (length (s_quotes (st_spec t)))) x = Some (x\<lparr>pl := q\<rparr>)"
      using consumer_drain_run [OF x(2,3) False, of tt clk lat 0] q(1) by (simp add: len)
    have "pl_inv sy (n + stop_ticks (hot_drains clk lat 0 (length (s_quotes (st_spec t))))) (0 + length (hot_drains clk lat 0 (length (s_quotes (st_spec t))))) (pl x)"
      using pl_inv_mono [OF x(2)] implements_quotes_bound [OF R(1) x(2)] len by simp
    moreover have "st_io_draining t \<or> st_taken t = 0"
      unfolding t_def by (rule stop_spec_run_taken) (simp add: stop_spec_start_def)
    ultimately have "stop_refines t1 (x\<lparr>pl := q\<rparr>) \<and> outputs_follow g0 old True (st_spec t) (pl x) (st_spec t1) q"
      using stop_run_refines [OF _ x(3) r(1) run, of sy n 0 g0 old, folded t1_def] r(1) by simp
    then show ?thesis using False q pl_inv_mono [OF q(2)] by (intro that [of q]) (simp_all add: stop_refines_def)
  qed
  let ?p2 = "pl_feed feed_stop p1"
  from feed_stop_inv [OF p1(2,3)] have p2: "?p2 = p1\<lparr>p_feed := (p_feed p1)\<lparr>feed_running := False\<rparr>\<rparr>" "pl_inv sy n m ?p2" by auto
  have i2: "implements_at (st_taken t1) (st_spec t1) ?p2" using p1(4) p2(1) by (simp add: implements_def gen_of_def feed_queued_def)
  have f2: "outputs_follow g0 old ?ok s p (st_spec t1) ?p2"
    using outputs_follow_trans [OF r(2) p1(6)] p2(1) by (simp add: outputs_follow_def journalled_def dispatched_def)
  have sp: "spec_stop sch clk lat s = (if io_done x then st_spec t1 else spec_flush (st_spec t1))"
    using R(3) by (simp add: spec_stop_def Let_def t1_def t_def)
  show ?thesis
  proof (cases "io_done x")
    case True
    then have "p' = ?p2" using assms(5) x(1) p1(1) by (simp add: stop_threads_def Let_def)
    then show ?thesis using True i2 f2 sp by (auto simp: finished_def implements_def outputs_follow_def)
  next
    case False
    then have "io_drain env 0 ?p2 = Some p'" using assms(5) x(1) p1(1) by (simp add: stop_threads_def Let_def)
    from io_drain_flush [OF p2(2) i2 this, of g0 old] outputs_follow_trans [OF f2, of ?okd "spec_flush (st_spec t1)" p'] False sp show ?thesis by simp
  qed
qed

lemma pl_stop_refines:
  assumes "pl_inv sy (n + stop_ticks sch) (m + 4095 + length sch) p" and "balanced p" and "p_running p" and "implements s p" and "feed_running (p_feed p)"
    and "pl_stop tt now sch clk lat env p = Some p'"
  shows "finished (spec_stop sch clk lat s) p'
    \<and> (dispatched g0 s p \<longrightarrow> (\<exists>q. dispatched g0 (spec_stop sch clk lat s) q \<and> p_gateway p' = the (gw_shutdown (Some (p_gateway q)))))
    \<and> ((\<forall>op \<in> set sch. stop_op_ok op) \<longrightarrow> (\<forall>i. os_ok (io_os (env i))) \<longrightarrow> journalled old s p \<longrightarrow> journalled old (spec_stop sch clk lat s) p')"
proof -
  obtain lg where 1: "pl_log now LOG_INFO ''[INFO]  EventPipeline stopping...'' p = Some (p\<lparr>p_logger := lg\<rparr>)" "log_ok lg"
    using pl_log_ok [of p now LOG_INFO] assms(1) by (auto simp: pl_inv_def)
  let ?p1 = "p\<lparr>p_logger := lg\<rparr>"
  have i1: "pl_inv sy (n + stop_ticks sch) (m + 4095 + length sch) ?p1" "balanced ?p1" "implements s ?p1" "feed_running (p_feed ?p1)"
    using assms(1,2,4,5) 1(2) by (simp_all add: pl_inv_def trading_inv_def balanced_def implements_def)
  from stop_threads_ok [OF i1(1,2), of tt clk lat env] obtain p2 where 2: "stop_threads tt sch clk lat env ?p1 = Some p2" "log_ok (p_logger p2)" by blast
  note R = stop_threads_refines [OF i1 2(1), of g0 old]
  let ?p3 = "p2\<lparr>p_gateway := the (gw_shutdown (Some (p_gateway p2)))\<rparr>"
  have "log_ok (p_logger ?p3)" using 2(2) by simp
  from log_lines_ok [OF this, of now "stat_lines (p_stats ?p3)"] obtain lg4 where
    4: "log_lines now (stat_lines (p_stats ?p3)) ?p3 = Some (?p3\<lparr>p_logger := lg4\<rparr>)" "log_ok lg4" by blast
  from logger_shutdown_spec [OF 4(2), of tt] obtain lg5 where 5: "logger_shutdown tt lg4 = Some lg5" by blast
  have p': "p' = ?p3\<lparr>p_logger := lg5\<rparr>" using assms(3,6) 1(1) 2(1) 4(1) 5 by (simp add: pl_stop_def Let_def)
  then show ?thesis using R by (auto simp: finished_def outputs_follow_def journalled_def dispatched_def)
qed

section \<open>From start to end\<close>

definition first_generator :: "init_env \<Rightarrow> string \<Rightarrow> generator" where
  "first_generator ie sy = (pipeline_feed_config sy, d_lit 150 1, 2463534242 + ucast (ie_feed_addr ie))"

lemma journal_open_written:
  assumes "journal_open os f True = Some j" and "length f \<le> 2 ^ 62"
  shows "written (content j) [] j \<and> jsequence j = 0"
proof -
  have d: "unat DEFAULT_MMAP_SIZE = 268435456" by (simp add: DEFAULT_MMAP_SIZE_def)
  have l: "unat (of_nat (length f) :: u64) = length f" using assms(2) by (simp add: unat_of_nat_u64)
  show ?thesis
  proof (cases "(if fstat_ok os then of_nat (length f) else 0) < DEFAULT_MMAP_SIZE")
    case True
    then show ?thesis using assms(1)
      by (auto simp: journal_open_def Let_def length_ftruncate d written_def split: if_splits) (simp_all add: DEFAULT_MMAP_SIZE_def)
  next
    case False
    then have "fstat_ok os" by (auto simp: DEFAULT_MMAP_SIZE_def split: if_splits)
    then show ?thesis using False assms(1) l by (auto simp: journal_open_def Let_def written_def word_gt_0 split: if_splits)
  qed
qed

lemma engine_starts_spec:
  assumes "env_ok ie (opt_log s)" and "length f \<le> 2 ^ 62" and "n < 2 ^ 30" and "m < 2 ^ 56"
  shows "\<exists>en. engine_boot ie os f (True, True, True) s = Some (Inr en) \<and> pl_inv (opt_symbol s) n m (en_pipe en) \<and> balanced (en_pipe en)
    \<and> p_running (en_pipe en) \<and> feed_running (p_feed (en_pipe en)) \<and> log_running (p_logger (en_pipe en)) \<and> g_journal en = (journal_open os f True \<noteq> None) \<and> p_journal (en_pipe en) = journal_open os f True
    \<and> implements (spec_start (first_generator ie (opt_symbol s)) (opt_symbol s)) (en_pipe en)
    \<and> dispatched (p_gateway (en_pipe en)) (spec_start (first_generator ie (opt_symbol s)) (opt_symbol s)) (en_pipe en)
    \<and> gw_init True (ie_fopen ie (sim_log_file pipeline_gw_config)) (ie_time ie) (Some pipeline_gw_config) = Some (p_gateway (en_pipe en))
    \<and> (\<forall>j. journal_open os f True = Some j \<longrightarrow> journalled (content j) (spec_start (first_generator ie (opt_symbol s)) (opt_symbol s)) (en_pipe en))"
proof -
  from engine_boot_ok [OF assms, of os] obtain en where
    en: "engine_boot ie os f (True, True, True) s = Some (Inr en)" "pl_inv (opt_symbol s) n m (en_pipe en)" "balanced (en_pipe en)" "p_running (en_pipe en) \<and> feed_running (p_feed (en_pipe en)) \<and> log_running (p_logger (en_pipe en))"
      "g_journal en = (journal_open os f True \<noteq> None)" "p_journal (en_pipe en) = journal_open os f True"
      "implements (spec_start (first_generator ie (opt_symbol s)) (opt_symbol s)) (en_pipe en)"
      "gw_init True (ie_fopen ie (sim_log_file pipeline_gw_config)) (ie_time ie) (Some pipeline_gw_config) = Some (p_gateway (en_pipe en))"
    using journal_open_written [OF _ assms(2), of os] by (auto simp: implements_def spec_start_def first_generator_def gen_of_def zero_stats_def)
  moreover have "dispatched (p_gateway (en_pipe en)) (spec_start (first_generator ie (opt_symbol s)) (opt_symbol s)) (en_pipe en)"
    by (simp add: dispatched_def spec_start_def)
  moreover have "journalled (content j) (spec_start (first_generator ie (opt_symbol s)) (opt_symbol s)) (en_pipe en)" if "journal_open os f True = Some j" for j
    using journal_open_written [OF that assms(2)] en(6) that by (auto simp: journalled_def spec_start_def intro!: exI [of _ "[]"])
  ultimately show ?thesis by blast
qed

text \<open>A whole life: start, a run, the stop.\<close>

lemma engine_ends_spec:
  fixes clk :: "nat \<Rightarrow> nat \<Rightarrow> clock" and lat :: "nat \<Rightarrow> u64 \<times> u64"
  assumes "env_ok ie (opt_log s)" and "length f \<le> 2 ^ 62" and "ticks ops + stop_ticks sch < 2 ^ 30" and "length ops + length sch < 2 ^ 55"
  defines "s1 \<equiv> engine_run ops (spec_start (first_generator ie (opt_symbol s)) (opt_symbol s))"
  defines "sp \<equiv> spec_stop sch clk lat s1"
  shows "\<exists>en p q r g0. engine_boot ie os f (True, True, True) s = Some (Inr en) \<and> pl_run tt ops (en_pipe en) = Some p
    \<and> log_running (p_logger (en_pipe en)) \<and> p_running (en_pipe en) \<and> feed_running (p_feed (en_pipe en)) \<and> steady (en_pipe en) p
    \<and> pl_stop tt now sch clk lat env p = Some q \<and> finished sp q \<and> g_journal en = (journal_open os f True \<noteq> None)
    \<and> (p_journal q \<noteq> None) = (journal_open os f True \<noteq> None)
    \<and> gw_init True (ie_fopen ie (sim_log_file pipeline_gw_config)) (ie_time ie) (Some pipeline_gw_config) = Some g0
    \<and> dispatched g0 sp r \<and> p_gateway q = the (gw_shutdown (Some (p_gateway r)))
    \<and> ((\<forall>op \<in> set ops. op_ok op) \<longrightarrow> (\<forall>op \<in> set sch. stop_op_ok op) \<longrightarrow> (\<forall>i. os_ok (io_os (env i))) \<longrightarrow>
         (\<forall>j. journal_open os f True = Some j \<longrightarrow> journalled (content j) sp q))
    \<and> subseq (s_trail sp @ s_pending sp) (s_made sp) \<and> length (s_trail sp @ s_pending sp) + s_lost sp = length (s_made sp)
    \<and> (io_ends_last sch s1 \<longrightarrow> s_pending sp = [])
    \<and> balanced q \<and> chan_ok [] (io_chan q) \<and> feed_ok [] (p_feed q) \<and> \<not> p_running q \<and> \<not> feed_running (p_feed q) \<and> \<not> log_running (p_logger q)"
proof -
  let ?s0 = "spec_start (first_generator ie (opt_symbol s)) (opt_symbol s)"
  have "(0 + stop_ticks sch) + ticks ops < 2 ^ 30" "(0 + 4095 + length sch) + length ops < 2 ^ 56" using assms(3,4) by simp_all
  from engine_starts_spec [OF assms(1,2) this, of os] obtain en where
    en: "engine_boot ie os f (True, True, True) s = Some (Inr en)" "pl_inv (opt_symbol s) ((0 + stop_ticks sch) + ticks ops) ((0 + 4095 + length sch) + length ops) (en_pipe en)" "balanced (en_pipe en)"
      "p_running (en_pipe en)" "feed_running (p_feed (en_pipe en))" "g_journal en = (journal_open os f True \<noteq> None)" "p_journal (en_pipe en) = journal_open os f True"
      "implements ?s0 (en_pipe en)" "dispatched (p_gateway (en_pipe en)) ?s0 (en_pipe en)"
      "gw_init True (ie_fopen ie (sim_log_file pipeline_gw_config)) (ie_time ie) (Some pipeline_gw_config) = Some (p_gateway (en_pipe en))"
      "\<forall>j. journal_open os f True = Some j \<longrightarrow> journalled (content j) ?s0 (en_pipe en)" "log_running (p_logger (en_pipe en))" by (elim exE conjE) (rule that)
  from pl_run_inv [OF en(2,3), of tt] obtain p where
    p: "pl_run tt ops (en_pipe en) = Some p" "pl_inv (opt_symbol s) (0 + stop_ticks sch) (0 + 4095 + length sch) p" "balanced p" "steady (en_pipe en) p" by blast
  have r: "implements s1 p" "dispatched (p_gateway (en_pipe en)) s1 p" using pl_run_refines [OF en(2,3,8) p(1)] en(9) by (simp_all add: s1_def)
  have run: "p_running p" "feed_running (p_feed p)" "(p_journal p = None) = (journal_open os f True = None)" using p(4) en(4,5,7) by (simp_all add: steady_def)
  from pl_stop_ok [OF p(2,3) run(1), of tt now clk lat env] obtain q where
    q: "pl_stop tt now sch clk lat env p = Some q" "(p_journal q = None) = (p_journal p = None)"
      "balanced q" "chan_ok [] (io_chan q)" "feed_ok [] (p_feed q)" "\<not> p_running q" "\<not> feed_running (p_feed q)" "\<not> log_running (p_logger q)" by (elim exE conjE) (rule that)
  note stop = pl_stop_refines [OF p(2,3) run(1) r(1) run(2) q(1), folded sp_def]
  obtain x where x: "dispatched (p_gateway (en_pipe en)) sp x" "p_gateway q = the (gw_shutdown (Some (p_gateway x)))" using stop r(2) by blast
  have "journalled (content j) sp q"
    if "\<forall>op \<in> set ops. op_ok op" "\<forall>op \<in> set sch. stop_op_ok op" "\<forall>i. os_ok (io_os (env i))" "journal_open os f True = Some j" for j
  proof -
    have "journalled (content j) s1 p" using pl_run_refines [OF en(2,3,8) p(1)] en(11) that(1,4) unfolding s1_def by blast
    then show ?thesis using stop that(2,3) by blast
  qed
  moreover have "spec_inv sp" unfolding sp_def s1_def by (intro spec_stop_inv engine_run_inv) (simp add: spec_inv_def spec_start_def)
  moreover have "s_pending sp = []" if "io_ends_last sch s1" unfolding sp_def by (rule spec_stop_lossless [OF that])
  ultimately show ?thesis using en(1,4-6,10,12) p(1,4) q run(3) x stop
    by (intro exI [of _ en] exI [of _ p] exI [of _ q] exI [of _ x] exI [of _ "p_gateway (en_pipe en)"]) (simp add: spec_inv_def)
qed

end
