(* ===== verification/Engine_Properties.thy ===== *)
theory Engine_Properties
  imports Engine_Refinement Pipeline_Properties
begin

text \<open>
  The engine as a whole against the abstract machine: every run, the journal file and the gateway's log it leaves behind,
  and the progress it makes.
\<close>

abbreviation spec_boot :: "init_env \<Rightarrow> settings \<Rightarrow> engine_spec" where
  "spec_boot ie s \<equiv> spec_start (first_generator ie (opt_symbol s)) (opt_symbol s)"

lemma spec_boot_inv [simp]: "spec_inv (spec_start g sy)"
  by (simp add: spec_inv_def spec_start_def)

section \<open>Runs\<close>

text \<open>C1: the engine refines an abstract machine without queues of pointers, pools or addresses. In every run, under every
  order of the loops' iterations, the waiting quotes, the book, the positions, the next order id, the waiting events and
  the number of lost events are those of the machine; and events wait and pass in the order in which the decisions
  made them.\<close>

theorem engine_refines_spec:
  assumes "env_ok ie (opt_log s)" and "length f \<le> 2 ^ 62" and "ticks ops < 2 ^ 30" and "length ops < 2 ^ 55"
  shows "\<exists>en p. engine_boot ie os f (True, True, True) s = Some (Inr en) \<and> pl_run tt ops (en_pipe en) = Some p
    \<and> (let sp = engine_run ops (spec_boot ie s) in
         feed_queued (p_feed p) = s_quotes sp \<and> p_book p = s_book sp \<and> p_risk p = s_risk sp \<and> next_order_id p = s_next sp
         \<and> map event_view (queued (io_chan p)) = s_pending sp \<and> io_events_dropped (p_stats p) = of_nat (s_lost sp)
         \<and> subseq (s_trail sp @ s_pending sp) (s_made sp) \<and> length (s_trail sp @ s_pending sp) + s_lost sp = length (s_made sp))"
proof -
  have "0 + ticks ops < 2 ^ 30" "0 + length ops < 2 ^ 56" using assms(3,4) by simp_all
  from engine_starts_spec [OF assms(1,2) this, of os] obtain en where
    en: "engine_boot ie os f (True, True, True) s = Some (Inr en)" "pl_inv (opt_symbol s) (0 + ticks ops) (0 + length ops) (en_pipe en)" "balanced (en_pipe en)"
      "implements (spec_boot ie s) (en_pipe en)" by blast
  from pl_run_inv [OF en(2,3), of tt] obtain p where p: "pl_run tt ops (en_pipe en) = Some p" by blast
  have "implements (engine_run ops (spec_boot ie s)) p" using pl_run_refines [OF en(2-4) p] by blast
  moreover have "spec_inv (engine_run ops (spec_boot ie s))" by (simp add: engine_run_inv)
  ultimately show ?thesis using en(1) p by (auto simp: implements_def spec_inv_def Let_def)
qed

theorem engine_refines_spec_witness:
  "\<exists>en p. engine_boot ex_env ex_os [] (True, True, True) default_settings = Some (Inr en)
    \<and> pl_run (\<lambda>_. ''t'') [FeedTick 9, HotTick ex_clock 1 2, IoTick ex_io] (en_pipe en) = Some p
    \<and> p_book p = s_book (engine_run [FeedTick 9, HotTick ex_clock 1 2, IoTick ex_io] (spec_boot ex_env default_settings))"
  using engine_refines_spec [OF ex_env_ok, of "[]" "[FeedTick 9, HotTick ex_clock 1 2, IoTick ex_io]" ex_os "\<lambda>_. ''t''"]
  by (auto simp: Let_def simp del: pl_run.simps engine_run_simps)

section \<open>The journal\<close>

lemma length_view_record: "length (snd (view_record v)) = 52"
  by (cases v) (simp_all add: order_payload_bytes_def trade_payload_bytes_def length_le_bytes_sum)

lemma expected_records_entries:
  "map (\<lambda>(h, body). (record_type h, body)) (expected_records sq es) = map (\<lambda>(t, body). (record_code t, body)) (map snd es)"
  by (induction es arbitrary: sq) (auto simp: build_header_def Let_def)

lemma length_records: "\<forall>(now, t, body) \<in> set es. length body = 52 \<Longrightarrow> length (concat (map record_bytes (expected_records sq es))) = 84 * length es"
  by (induction es arbitrary: sq) (auto simp: record_bytes_def)

lemma journal_close_written:
  assumes "written old rs j" and "os_ok os"
  shows "journal_close os j = old @ concat (map record_bytes rs)"
  using assms by (simp add: journal_close_def written_def os_ok_def ftruncate_def)

text \<open>What a reader finds in the file of a journal that is closed.\<close>

lemma journalled_file:
  assumes "journalled old sp p" and "p_journal p = Some j" and "os_ok os"
  shows "take (length old) (journal_close os j) = old \<and> length (journal_close os j) = length old + 84 * length (s_trail sp)
    \<and> (let rs = jfmt.read_all (length (s_trail sp)) (drop (length old) (journal_close os j)) in
         map (\<lambda>(h, body). (record_type h, body)) rs = map (\<lambda>(t, body). (record_code t, body)) (map view_record (s_trail sp))
         \<and> map (sequence_number \<circ> fst) rs = map of_nat [0..<length (s_trail sp)])"
proof -
  obtain es where es: "written old (expected_records 0 es) j" "map snd es = map view_record (s_trail sp)"
    using assms(1,2) by (auto simp: journalled_def)
  have len: "length es = length (s_trail sp)" using es(2) by (metis length_map)
  have "\<forall>x \<in> set (map snd es). length (snd x) = 52" unfolding es(2) by (auto simp: length_view_record)
  then have bod: "\<forall>(now, t, body) \<in> set es. length body = 52" by fastforce
  then have ok: "\<forall>(now, t, body) \<in> set es. length body < 4294967296" by fastforce
  note closed = journal_close_written [OF es(1) assms(3)]
  have lr: "length (expected_records sq es) = length es" for sq by (induction es arbitrary: sq) auto
  have "jfmt.read_all (length (s_trail sp)) (concat (map record_bytes (expected_records 0 es))) = expected_records 0 es"
    by (rule jfmt.read_all_concat) (use expected_records_ok [OF ok] len lr in auto)
  then show ?thesis using expected_records_ok [OF ok, of 0] length_records [OF bod, of 0] len
    by (simp add: closed Let_def expected_records_entries es(2))
qed

text \<open>C2: the journal is a faithful audit trail of every event that passed the I/O thread, under every order of the threads' iterations while
  the engine runs and while it stops. When files can be written, the file that \<open>main\<close> leaves behind consists of its former contents and one
  record of 84 bytes for each event that passed, with the type and payload of the decision, in the order of the decisions,
  numbered from 0, each with a correct checksum. The events without a record are those dropped on a full queue,
  which \<open>io_events_dropped\<close> counts exactly, and those still in the queue when both threads have ended, which nothing counts; there are none of the
  latter when the I/O thread does not end before the hot path.\<close>

theorem engine_audit_trail:
  assumes "env_ok ie (opt_log s)" and "length f \<le> 2 ^ 62" and "ticks ops + stop_ticks sch < 2 ^ 30" and "length ops + length sch < 2 ^ 55"
    and "journal_open os f True = Some j" and "os_ok os" and "\<forall>op \<in> set ops. op_ok op" and "\<forall>op \<in> set sch. stop_op_ok op" and "\<forall>i. os_ok (io_os (env i))"
  shows "\<exists>en p fin thr rep file. engine_boot ie os f (True, True, True) s = Some (Inr en) \<and> pl_run tt ops (en_pipe en) = Some p
    \<and> engine_finish tt now sch clk lat env os s (en\<lparr>en_pipe := p\<rparr>) = Some (fin, thr, rep) \<and> closed_file fin = Some file
    \<and> (let s1 = engine_run ops (spec_boot ie s); sp = spec_stop sch clk lat s1;
           rs = jfmt.read_all (length (s_trail sp)) (drop (length (content j)) file)
       in take (length (content j)) file = content j \<and> length file = length (content j) + 84 * length (s_trail sp)
          \<and> map (\<lambda>(h, body). (record_type h, body)) rs = map (\<lambda>(t, body). (record_code t, body)) (map view_record (s_trail sp))
          \<and> map (sequence_number \<circ> fst) rs = map of_nat [0..<length (s_trail sp)]
          \<and> subseq (s_trail sp @ s_pending sp) (s_made sp) \<and> length (s_trail sp) + length (s_pending sp) + s_lost sp = length (s_made sp)
          \<and> io_events_dropped (p_stats (en_pipe fin)) = of_nat (s_lost sp) \<and> map event_view (queued (io_chan (en_pipe fin))) = s_pending sp
          \<and> (io_ends_last sch s1 \<longrightarrow> s_pending sp = []))"
proof -
  let ?s1 = "engine_run ops (spec_boot ie s)"
  let ?sp = "spec_stop sch clk lat ?s1"
  from engine_ends_spec [OF assms(1-4), of os tt now clk lat env] obtain en p q where
    e: "engine_boot ie os f (True, True, True) s = Some (Inr en)" "pl_run tt ops (en_pipe en) = Some p" "pl_stop tt now sch clk lat env p = Some q"
      "finished ?sp q" "g_journal en = (journal_open os f True \<noteq> None)" "(p_journal q \<noteq> None) = (journal_open os f True \<noteq> None)"
      "(\<forall>op \<in> set ops. op_ok op) \<longrightarrow> (\<forall>op \<in> set sch. stop_op_ok op) \<longrightarrow> (\<forall>i. os_ok (io_os (env i))) \<longrightarrow>
         (\<forall>j. journal_open os f True = Some j \<longrightarrow> journalled (content j) ?sp q)"
      "subseq (s_trail ?sp @ s_pending ?sp) (s_made ?sp)" "length (s_trail ?sp @ s_pending ?sp) + s_lost ?sp = length (s_made ?sp)"
      "io_ends_last sch ?s1 \<longrightarrow> s_pending ?sp = []"
    by (elim exE conjE) (rule that)
  have jn: "journalled (content j) ?sp q" using e(7) assms(5,7-9) by blast
  obtain k where k: "p_journal q = Some k" using e(6) assms(5) by auto
  let ?fin = "(en\<lparr>en_pipe := q\<rparr>)\<lparr>closed_file := Some (journal_close os k), g_journal := False\<rparr>"
  have fin: "engine_finish tt now sch clk lat env os s (en\<lparr>en_pipe := p\<rparr>)
      = Some (?fin, throughput (duration_sec s) (p_stats q), Some (journal_bytes_written (p_journal q), journal_sequence (p_journal q)))"
    using e(3,5) k assms(5) by (simp add: engine_finish_def close_journal_def Let_def)
  have q: "io_events_dropped (p_stats q) = of_nat (s_lost ?sp)" "map event_view (queued (io_chan q)) = s_pending ?sp" using e(4) by (simp_all add: finished_def)
  show ?thesis using e(1,2,8-10) fin q journalled_file [OF jn k assms(6)]
    by (intro exI [of _ en] exI [of _ p] exI [of _ ?fin] exI) (simp add: Let_def)
qed

text \<open>The engine stops while a message waits, and its I/O thread looks at its queue once before the hot path does.\<close>

theorem engine_audit_trail_witness:
  "\<exists>j en p fin thr rep file. journal_open ex_os [] True = Some j \<and> engine_boot ex_env ex_os [] (True, True, True) default_settings = Some (Inr en)
    \<and> pl_run (\<lambda>_. ''t'') [FeedTick 9, HotTick ex_clock 1 2, IoTick ex_io, FeedTick 10] (en_pipe en) = Some p
    \<and> engine_finish (\<lambda>_. ''t'') 11 [IoDrain ex_io, FeedGoes 12] (\<lambda>_. ex_clock) (\<lambda>_. (1, 2)) (\<lambda>_. ex_io) ex_os default_settings (en\<lparr>en_pipe := p\<rparr>) = Some (fin, thr, rep)
    \<and> closed_file fin = Some file \<and> take (length (content j)) file = content j"
proof -
  let ?ops = "[FeedTick 9, HotTick ex_clock 1 2, IoTick ex_io, FeedTick 10]" and ?sch = "[IoDrain ex_io, FeedGoes 12]"
  obtain j where j: "journal_open ex_os [] True = Some j" by (simp add: journal_open_def ex_os_def Let_def)
  have os: "os_ok ex_os" "\<forall>i. os_ok (io_os ((\<lambda>_. ex_io) i))" by (simp_all add: os_ok_def ex_os_def full_writes_def ex_io_def)
  then have ok: "\<forall>op \<in> set ?ops. op_ok op" "\<forall>op \<in> set ?sch. stop_op_ok op" by simp_all
  have n: "length ([] :: byte list) \<le> 2 ^ 62" "ticks ?ops + stop_ticks ?sch < 2 ^ 30" "length ?ops + length ?sch < 2 ^ 55" by simp_all
  from engine_audit_trail [OF ex_env_ok n j os(1) ok os(2), of "\<lambda>_. ''t''" 11 "\<lambda>_. ex_clock" "\<lambda>_. (1, 2)"] j show ?thesis
    unfolding Let_def by blast
qed

section \<open>The gateway\<close>

text \<open>The line that an event leaves in the gateway's log.\<close>

fun sent_line :: "u64 \<Rightarrow> io_view \<Rightarrow> string" where
  "sent_line now (OrderView t i a pr q fl ts sd ot st sm reason (Some (msg, len))) =
     (if len = 0 then [] else ''SEND | '' @ show_nat (unat now) @ '' | '' @ cstr msg @ [CHR 0x0A])"
| "sent_line now _ = []"

fun is_sent :: "io_view \<Rightarrow> bool" where
  "is_sent (OrderView t i a pr q fl ts sd ot st sm reason (Some (msg, len))) \<longleftrightarrow> len \<noteq> 0"
| "is_sent _ \<longleftrightarrow> False"

lemma gateway_view_connected:
  assumes "gw_state g = GW_CONNECTED" and "sim_file g = Some x"
  shows "gw_state (gateway_view t v g) = GW_CONNECTED \<and> sim_file (gateway_view t v g) = Some (x @ sent_line t v)
    \<and> orders_sent (gateway_view t v g) = orders_sent g + (if is_sent v then 1 else 0)
    \<and> orders_acked (gateway_view t v g) = orders_acked g + (if is_sent v then 1 else 0) \<and> gw_orders_rejected (gateway_view t v g) = gw_orders_rejected g"
  using assms by (cases "(t, v, g)" rule: gateway_view.cases) (auto simp: gw_send_order_def gw_printf_def Let_def)

lemma gateway_views_connected:
  assumes "length ts = length vs" and "gw_state g = GW_CONNECTED" and "sim_file g = Some x"
  defines "g' \<equiv> fold (\<lambda>(t, v). gateway_view t v) (zip ts vs) g"
  shows "sim_file g' = Some (x @ concat (map2 sent_line ts vs)) \<and> orders_sent g' = orders_sent g + of_nat (length (filter is_sent vs))
    \<and> orders_acked g' = orders_acked g + of_nat (length (filter is_sent vs)) \<and> gw_orders_rejected g' = gw_orders_rejected g"
  unfolding g'_def using assms(1-3)
proof (induction ts vs arbitrary: g x rule: list_induct2)
  case (Cons t ts v vs)
  note G = gateway_view_connected [OF Cons.prems, of t v]
  from Cons.IH [of "gateway_view t v g" "x @ sent_line t v"] G show ?case by (auto simp: algebra_simps)
qed simp

text \<open>C9: what leaves the engine. Under every order of the threads' iterations while the engine runs and while it stops, the gateway's log is the
  opening line, a line for every order that its decision left resting or partly filled and whose event passed the I/O thread, in the order of
  the decisions, and the closing summary, whose counts of orders sent and acknowledged are the number of these lines. Orders whose
  event was dropped on a full queue or is left in the queue at the end have no line; the events are those of the audit trail.\<close>

theorem engine_gateway_log:
  assumes "env_ok ie (opt_log s)" and "length f \<le> 2 ^ 62" and "ticks ops + stop_ticks sch < 2 ^ 30" and "length ops + length sch < 2 ^ 55"
    and "ie_fopen ie ''execution_gateway.log'' = Some x"
  shows "\<exists>en p fin thr rep ts. engine_boot ie os f (True, True, True) s = Some (Inr en) \<and> pl_run tt ops (en_pipe en) = Some p
    \<and> engine_finish tt now sch clk lat env os s (en\<lparr>en_pipe := p\<rparr>) = Some (fin, thr, rep)
    \<and> (let sp = spec_stop sch clk lat (engine_run ops (spec_boot ie s)); vs = s_trail sp; left = map event_view (queued (io_chan (en_pipe fin)));
           n = show_nat (unat (of_nat (length (filter is_sent vs)) :: u64)) in
         subseq (vs @ left) (s_made sp) \<and> length vs + length left + s_lost sp = length (s_made sp)
         \<and> length ts = length vs \<and> gw_destroy (Some (p_gateway (en_pipe fin))) = Some (x
           @ ''=== Execution Gateway Started at '' @ show_nat (unat (ie_time ie)) @ '' ==='' @ [CHR 0x0A]
           @ concat (map2 sent_line ts vs)
           @ ''=== Execution Gateway Shutdown ==='' @ [CHR 0x0A] @ ''  Orders sent:     '' @ n @ [CHR 0x0A]
           @ ''  Orders acked:    '' @ n @ [CHR 0x0A] @ ''  Orders rejected: 0'' @ [CHR 0x0A]))"
proof -
  let ?sp = "spec_stop sch clk lat (engine_run ops (spec_boot ie s))"
  from engine_ends_spec [OF assms(1-4), of os tt now clk lat env] obtain en p q r g0 where
    e: "engine_boot ie os f (True, True, True) s = Some (Inr en)" "pl_run tt ops (en_pipe en) = Some p" "pl_stop tt now sch clk lat env p = Some q"
      "gw_init True (ie_fopen ie (sim_log_file pipeline_gw_config)) (ie_time ie) (Some pipeline_gw_config) = Some g0"
      "dispatched g0 ?sp r" "p_gateway q = the (gw_shutdown (Some (p_gateway r)))" "finished ?sp q"
      "subseq (s_trail ?sp @ s_pending ?sp) (s_made ?sp)" "length (s_trail ?sp @ s_pending ?sp) + s_lost ?sp = length (s_made ?sp)"
    by (elim exE conjE) (rule that)
  obtain ts where ts: "length ts = length (s_trail ?sp)" "p_gateway r = fold (\<lambda>(t, v). gateway_view t v) (zip ts (s_trail ?sp)) g0"
    using e(5) by (auto simp: dispatched_def)
  have g0: "gw_state g0 = GW_CONNECTED" "sim_file g0 = Some (x @ ''=== Execution Gateway Started at '' @ show_nat (unat (ie_time ie)) @ '' ==='' @ [CHR 0x0A])"
      "orders_sent g0 = 0" "orders_acked g0 = 0" "gw_orders_rejected g0 = 0"
    using e(4) assms(5) by (auto simp: gw_init_def pipeline_gw_config_def gw_printf_def Let_def)
  have z: "show_nat 0 = ''0''" by code_simp
  obtain fin thr rep where fin: "engine_finish tt now sch clk lat env os s (en\<lparr>en_pipe := p\<rparr>) = Some (fin, thr, rep)" "en_pipe fin = q"
    using e(3) by (auto simp: engine_finish_def close_journal_def Let_def split: option.split bool.split)
  have "gw_destroy (Some (p_gateway q)) = Some (x
           @ ''=== Execution Gateway Started at '' @ show_nat (unat (ie_time ie)) @ '' ==='' @ [CHR 0x0A]
           @ concat (map2 sent_line ts (s_trail ?sp))
           @ ''=== Execution Gateway Shutdown ==='' @ [CHR 0x0A] @ ''  Orders sent:     '' @ show_nat (unat (of_nat (length (filter is_sent (s_trail ?sp))) :: u64)) @ [CHR 0x0A]
           @ ''  Orders acked:    '' @ show_nat (unat (of_nat (length (filter is_sent (s_trail ?sp))) :: u64)) @ [CHR 0x0A] @ ''  Orders rejected: 0'' @ [CHR 0x0A])"
    using gateway_views_connected [OF ts(1) g0(1,2)] g0(3-) unfolding e(6) ts(2) [symmetric]
    by (simp add: gw_shutdown_def gw_destroy_def gw_printf_def z)
  moreover have "map event_view (queued (io_chan (en_pipe fin))) = s_pending ?sp" using e(7) fin(2) by (simp add: finished_def)
  ultimately show ?thesis using e(1,2,8,9) fin ts(1) by (intro exI [of _ en] exI [of _ p] exI [of _ fin] exI [of _ thr] exI [of _ rep] exI [of _ ts]) (simp add: Let_def)
qed

theorem engine_gateway_log_witness:
  "\<exists>en p fin thr rep text. engine_boot ex_env ex_os [] (True, True, True) default_settings = Some (Inr en)
    \<and> pl_run (\<lambda>_. ''t'') [FeedTick 9, HotTick ex_clock 1 2, IoTick ex_io] (en_pipe en) = Some p
    \<and> engine_finish (\<lambda>_. ''t'') 11 [IoDrain ex_io] (\<lambda>_. ex_clock) (\<lambda>_. (1, 2)) (\<lambda>_. ex_io) ex_os default_settings (en\<lparr>en_pipe := p\<rparr>) = Some (fin, thr, rep)
    \<and> gw_destroy (Some (p_gateway (en_pipe fin))) = Some text"
proof -
  let ?ops = "[FeedTick 9, HotTick ex_clock 1 2, IoTick ex_io]" and ?sch = "[IoDrain ex_io]"
  have x: "ie_fopen ex_env ''execution_gateway.log'' = Some ''''" by (simp add: ex_env_def)
  have n: "length ([] :: byte list) \<le> 2 ^ 62" "ticks ?ops + stop_ticks ?sch < 2 ^ 30" "length ?ops + length ?sch < 2 ^ 55" by simp_all
  from engine_gateway_log [OF ex_env_ok n x, of ex_os "\<lambda>_. ''t''" 11 "\<lambda>_. ex_clock" "\<lambda>_. (1, 2)" "\<lambda>_. ex_io"]
  show ?thesis unfolding Let_def by blast
qed

section \<open>Progress\<close>

lemma ticks_append: "ticks (xs @ ys) = ticks xs + ticks ys"
  by (induction xs rule: ticks.induct) simp_all

text \<open>C8: nothing waits for ever. Whatever has happened before, once the hot path has run as many iterations as messages
  were waiting and the I/O thread as many as events were waiting, in any order and with any other iterations in between, every
  one of these messages has been traded on and every one of these events has been handed to the journal, oldest first;
  \<open>market_data_msgs\<close> and the journal's record count say how many.\<close>

theorem engine_progress:
  assumes "env_ok ie (opt_log s)" and "length f \<le> 2 ^ 62" and "ticks (ops @ ops2) < 2 ^ 30" and "length (ops @ ops2) < 2 ^ 55"
    and "engine_boot ie os f (True, True, True) s = Some (Inr en)" and "pl_run tt ops (en_pipe en) = Some p"
    and "length (feed_queued (p_feed p)) \<le> hot_count ops2" and "length (queued (io_chan p)) \<le> io_count ops2"
  shows "\<exists>p'. pl_run tt ops2 p = Some p'
    \<and> (let s1 = engine_run ops (spec_boot ie s); s2 = engine_run ops2 s1 in
         prefix (s_traded s1 @ feed_queued (p_feed p)) (s_traded s2) \<and> prefix (s_trail s1 @ map event_view (queued (io_chan p))) (s_trail s2)
         \<and> market_data_msgs (p_stats p') = of_nat (length (s_traded s2))
         \<and> (\<forall>j. p_journal p' = Some j \<longrightarrow> jsequence j = of_nat (length (s_trail s2))))"
proof -
  have n: "(0 + ticks ops2) + ticks ops < 2 ^ 30" "(0 + length ops2) + length ops < 2 ^ 56" using assms(3,4) by (simp_all add: ticks_append)
  from engine_starts_spec [OF assms(1,2) this, of os] assms(5) have
    en: "pl_inv (opt_symbol s) ((0 + ticks ops2) + ticks ops) ((0 + length ops2) + length ops) (en_pipe en)" "balanced (en_pipe en)" "implements (spec_boot ie s) (en_pipe en)"
    by auto
  let ?s1 = "engine_run ops (spec_boot ie s)"
  have p: "pl_inv (opt_symbol s) (0 + ticks ops2) (0 + length ops2) p" "balanced p" using pl_run_inv [OF en(1,2), of tt] assms(6) by auto
  have 1: "implements ?s1 p" using pl_run_refines [OF en assms(6)] by blast
  from pl_run_inv [OF p, of tt] obtain p' where p': "pl_run tt ops2 p = Some p'" by blast
  have 2: "implements (engine_run ops2 ?s1) p'" using pl_run_refines [OF p 1 p'] by blast
  have q: "feed_queued (p_feed p) = s_quotes ?s1" "map event_view (queued (io_chan p)) = s_pending ?s1" using 1 by (simp_all add: implements_def)
  have "length (s_quotes ?s1) \<le> hot_count ops2" "length (s_pending ?s1) \<le> io_count ops2"
    using assms(7,8) by (simp_all flip: q)
  from engine_run_progress(1) [OF this(1)] engine_run_progress(2) [OF this(2)] show ?thesis using p' 2 q by (auto simp: implements_def Let_def)
qed

theorem engine_progress_witness:
  "\<exists>en p p'. engine_boot ex_env ex_os [] (True, True, True) default_settings = Some (Inr en)
    \<and> pl_run (\<lambda>_. ''t'') [FeedTick 9] (en_pipe en) = Some p \<and> pl_run (\<lambda>_. ''t'') [HotTick ex_clock 1 2, LogTick] p = Some p'
    \<and> prefix (feed_queued (p_feed p)) (s_traded (engine_run [HotTick ex_clock 1 2, LogTick] (engine_run [FeedTick 9] (spec_boot ex_env default_settings))))"
proof -
  let ?s1 = "engine_run [FeedTick 9] (spec_boot ex_env default_settings)"
  have "0 + ticks [FeedTick 9] < 2 ^ 30" "0 + length [FeedTick 9] < 2 ^ 56" by simp_all
  from engine_starts_spec [OF ex_env_ok _ this, of "[]" ex_os] obtain en where
    en: "engine_boot ex_env ex_os [] (True, True, True) default_settings = Some (Inr en)"
      "pl_inv (opt_symbol default_settings) (0 + ticks [FeedTick 9]) (0 + length [FeedTick 9]) (en_pipe en)" "balanced (en_pipe en)"
      "implements (spec_boot ex_env default_settings) (en_pipe en)" by auto
  from pl_run_inv [OF en(2,3), of "\<lambda>_. ''t''"] obtain p where p: "pl_run (\<lambda>_. ''t'') [FeedTick 9] (en_pipe en) = Some p" by blast
  have "implements ?s1 p" using pl_run_refines [OF en(2-4) p] by blast
  then have e: "feed_queued (p_feed p) = s_quotes ?s1" "map event_view (queued (io_chan p)) = s_pending ?s1" by (simp_all add: implements_def)
  have "length (s_quotes ?s1) \<le> 1" "s_pending ?s1 = []" "s_traded ?s1 = []" by (simp_all add: spec_start_def split: prod.split)
  then have "length (feed_queued (p_feed p)) \<le> hot_count [HotTick ex_clock 1 2, LogTick]" "length (queued (io_chan p)) \<le> io_count [HotTick ex_clock 1 2, LogTick]"
    "s_traded ?s1 = []" using e by simp_all
  with engine_progress [OF ex_env_ok _ _ _ en(1) p this(1,2)] en(1) p show ?thesis by (auto simp: Let_def simp del: pl_run.simps engine_run_simps)
qed

end
