(* ===== verification/Command_Line.thy ===== *)
theory Command_Line
  imports Trading_Engine
begin

text \<open>
  The command line of \<open>src/main.cpp\<close>: \<open>getopt_long\<close> of the C library with the option string and the table of long
  options that \<open>main\<close> passes to it, and the texts that concern the options.

  \<open>getopt_long\<close> is modelled as the GNU C library documents it: clusters of short options, arguments attached or in the next
  word, long options with \<open>=\<close> or the next word, unique abbreviations of long names, \<open>--\<close> ends the options, other words are
  skipped wherever they stand (\<open>POSIXLY_CORRECT\<close> is not set). An unknown or ambiguous option and a missing or superfluous argument give \<open>'?'\<close>; \<open>main\<close> ends
  there, so the list of results ends there too. The text with that last result is the library's diagnostic, which it prints on the error stream
  after the name of the program.
\<close>

section \<open>The options\<close>

text \<open>The string \<open>d:s:l:j:h\<close>: whether the option takes an argument.\<close>

definition short_option :: "char \<Rightarrow> bool option" where
  "short_option c = (if c \<in> {CHR ''d'', CHR ''s'', CHR ''l'', CHR ''j''} then Some True else if c = CHR ''h'' then Some False else None)"

definition long_options :: "(string \<times> bool \<times> char) list" where
  "long_options = [(''duration'', True, CHR ''d''), (''symbol'', True, CHR ''s''), (''log'', True, CHR ''l''),
     (''journal'', True, CHR ''j''), (''help'', False, CHR ''h'')]"

definition is_prefix :: "string \<Rightarrow> string \<Rightarrow> bool" where
  "is_prefix s t \<longleftrightarrow> take (length s) t = s"

text \<open>An exact name, or the only name with this beginning.\<close>

definition find_long :: "string \<Rightarrow> (bool \<times> char) option" where
  "find_long name = (case map_of long_options name of
     Some r \<Rightarrow> Some r
   | None \<Rightarrow> (case filter (\<lambda>(n, _). is_prefix name n) long_options of [(_, r)] \<Rightarrow> Some r | _ \<Rightarrow> None))"

definition bad_option :: "string \<Rightarrow> (char \<times> string) list" where
  "bad_option diagnostic = [(CHR ''?'', diagnostic)]"

definition quoted :: "string \<Rightarrow> string" where
  "quoted s = [CHR 0x27] @ s @ [CHR 0x27]"

text \<open>No long name, or several, begin with the name given in the word \<open>w\<close>; only the empty beginning has several.\<close>

definition unknown_long :: "string \<Rightarrow> string \<Rightarrow> string" where
  "unknown_long w name = (case filter (\<lambda>(n, _). is_prefix name n) long_options of
     [] \<Rightarrow> ''unrecognized option '' @ quoted w
   | ms \<Rightarrow> ''option '' @ quoted w @ '' is ambiguous; possibilities:'' @ concat (map (\<lambda>(n, _). '' '' @ quoted (''--'' @ n)) ms))"

definition full_name :: "char \<Rightarrow> string" where
  "full_name c = ''--'' @ (case filter (\<lambda>(_, _, c'). c' = c) long_options of [] \<Rightarrow> [] | (n, _) # _ \<Rightarrow> n)"

text \<open>The first argument is what is left of a cluster of short options, the second the remaining words.\<close>

function getopts :: "string \<Rightarrow> string list \<Rightarrow> (char \<times> string) list" where
  "getopts [] [] = []"
| "getopts [] (w # ws) =
     (if w = ''--'' then []
      else if is_prefix ''--'' w then
        (let name = takeWhile (\<lambda>c. c \<noteq> CHR ''='') (drop 2 w); rest = dropWhile (\<lambda>c. c \<noteq> CHR ''='') (drop 2 w) in
         case find_long name of
           None \<Rightarrow> bad_option (unknown_long w name)
         | Some (needs, c) \<Rightarrow>
             if rest \<noteq> [] then (if needs then (c, tl rest) # getopts [] ws else bad_option (''option '' @ quoted (full_name c) @ '' doesn'' @ [CHR 0x27] @ ''t allow an argument''))
             else if needs then (case ws of [] \<Rightarrow> bad_option (''option '' @ quoted (full_name c) @ '' requires an argument'') | v # vs \<Rightarrow> (c, v) # getopts [] vs)
             else (c, []) # getopts [] ws)
      else if is_prefix ''-'' w \<and> w \<noteq> ''-'' then getopts (tl w) ws
      else getopts [] ws)"
| "getopts (c # cs) ws = (case short_option c of
     None \<Rightarrow> bad_option (''invalid option -- '' @ quoted [c])
   | Some False \<Rightarrow> (c, []) # getopts cs ws
   | Some True \<Rightarrow>
       if cs \<noteq> [] then (c, cs) # getopts [] ws
       else (case ws of [] \<Rightarrow> bad_option (''option requires an argument -- '' @ quoted [c]) | v # vs \<Rightarrow> (c, v) # getopts [] vs))"
  by pat_completeness auto
termination
  by (relation "measure (\<lambda>(cs, ws). length cs + sum_list (map (\<lambda>w. Suc (length w)) ws))") (auto simp: is_prefix_def)

definition getopt_long :: "string list \<Rightarrow> (char \<times> string) list" where
  "getopt_long args = getopts [] args"

section \<open>The usage text\<close>

definition LF :: string where
  "LF = [CHR 0x0A]"

definition print_usage :: "string \<Rightarrow> string" where
  "print_usage prog = ''Usage: '' @ prog @ '' [OPTIONS]'' @ LF @ LF
     @ ''Options:'' @ LF
     @ ''  -d, --duration <sec>   Run duration in seconds (default: 10, 0 = infinite)'' @ LF
     @ ''  -s, --symbol <sym>     Trading symbol (default: AAPL)'' @ LF
     @ ''  -l, --log <path>       Log file path (default: trading_engine.log)'' @ LF
     @ ''  -j, --journal <path>   Journal file path (default: trading_engine.jrnl)'' @ LF
     @ ''  -h, --help             Show this help message'' @ LF
     @ LF
     @ ''Press Ctrl+C to stop gracefully.'' @ LF
     @ LF"

section \<open>Writing a command line\<close>

text \<open>The ways to write an option with an argument, and words that are no options. A long name may be cut short; the names differ in
  their first letters.\<close>

datatype arg_style = LongEq | LongSep | ShortSep | ShortAttached

datatype arg_item = Operand string | Setting arg_style string char string

fun item_words :: "arg_item \<Rightarrow> string list" where
  "item_words (Operand w) = [w]"
| "item_words (Setting LongEq n c v) = [''--'' @ n @ ''='' @ v]"
| "item_words (Setting LongSep n c v) = [''--'' @ n, v]"
| "item_words (Setting ShortSep n c v) = [[CHR ''-'', c], v]"
| "item_words (Setting ShortAttached n c v) = [CHR ''-'' # c # v]"

fun item_ok :: "arg_item \<Rightarrow> bool" where
  "item_ok (Operand w) \<longleftrightarrow> w = ''-'' \<or> \<not> is_prefix ''-'' w"
| "item_ok (Setting st n c v) \<longleftrightarrow> n \<noteq> [] \<and> (\<exists>(full, needs, c') \<in> set long_options. needs \<and> c' = c \<and> is_prefix n full) \<and> (st = ShortAttached \<longrightarrow> v \<noteq> [])"

fun item_results :: "arg_item \<Rightarrow> (char \<times> string) list" where
  "item_results (Operand w) = []"
| "item_results (Setting st n c v) = [(c, v)]"

lemma long_option_names:
  assumes "n \<noteq> []" and "\<exists>(full, needs, c') \<in> set long_options. needs \<and> c' = c \<and> is_prefix n full"
  shows "find_long n = Some (True, c)" "CHR ''='' \<notin> set n" "short_option c = Some True" "c \<noteq> CHR ''-''"
proof -
  obtain full where f: "(full, True, c) \<in> set long_options" "is_prefix n full" using assms(2) by auto
  obtain x xs where n: "n = x # xs" using assms(1) by (cases n) auto
  have "set n \<subseteq> set full" using f(2) by (metis is_prefix_def set_take_subset)
  then show "CHR ''='' \<notin> set n" using f(1) by (auto simp: long_options_def)
  show "short_option c = Some True" "c \<noteq> CHR ''-''" using f(1) by (auto simp: long_options_def short_option_def)
  have first: "is_prefix (b # bs) (a # as) \<longleftrightarrow> b = a \<and> is_prefix bs as" for a as b bs by (auto simp: is_prefix_def)
  consider "full = ''duration'' \<and> c = CHR ''d''" | "full = ''symbol'' \<and> c = CHR ''s''" | "full = ''log'' \<and> c = CHR ''l''" | "full = ''journal'' \<and> c = CHR ''j''"
    using f(1) by (auto simp: long_options_def)
  then show "find_long n = Some (True, c)" by cases (use f(2) in \<open>simp_all add: n long_options_def find_long_def first\<close>)
qed

lemma getopts_item: "item_ok it \<Longrightarrow> getopts [] (item_words it @ ws) = item_results it @ getopts [] ws"
proof (cases it)
  case (Operand w)
  assume "item_ok it"
  then have "w = ''-'' \<or> \<not> is_prefix ''-'' w" by (simp add: Operand)
  moreover from this have "\<not> is_prefix ''--'' w" "w \<noteq> ''--''" by (cases w; auto simp: is_prefix_def)+
  ultimately show ?thesis by (auto simp: Operand)
next
  case (Setting st n c v)
  assume "item_ok it"
  then have it: "n \<noteq> []" "st = ShortAttached \<longrightarrow> v \<noteq> []" "\<exists>(full, needs, c') \<in> set long_options. needs \<and> c' = c \<and> is_prefix n full" by (simp_all add: Setting)
  note N = long_option_names [OF it(1,3)] it(1)
  have T: "takeWhile (\<lambda>c. c \<noteq> CHR ''='') n = n" "dropWhile (\<lambda>c. c \<noteq> CHR ''='') n = []" using N(2) by (auto simp: takeWhile_eq_all_conv dropWhile_eq_Nil_conv)
  have "takeWhile (\<lambda>c. c \<noteq> CHR ''='') (n @ CHR ''='' # v) = n" "dropWhile (\<lambda>c. c \<noteq> CHR ''='') (n @ CHR ''='' # v) = CHR ''='' # v"
    using N(2) by (simp_all add: takeWhile_append dropWhile_append)
  then show ?thesis using N it(2) by (cases st) (simp_all add: Setting is_prefix_def Let_def T)
qed

lemma getopt_long_items: "\<forall>it \<in> set items. item_ok it \<Longrightarrow> getopt_long (concat (map item_words items)) = concat (map item_results items)"
  unfolding getopt_long_def by (induction items) (simp_all add: getopts_item)

end
