(* ===== verification/Main_Program.thy ===== *)
theory Main_Program
  imports Command_Line Engine_Properties
begin

text \<open>
  The function \<open>main\<close> of \<open>src/main.cpp\<close> from its arguments to its exit status, with everything it prints and the files it
  leaves behind. While \<open>main\<close> sleeps, the threads of the pipeline run; \<open>me_ops k\<close> are their iterations during round \<open>k\<close> of the
  main loop, each of them only if the flag that the thread's loop tests is still set. A signal may arrive in one of these rounds; its handler runs
  between the round's iterations and the next figures. The schedules of the two calls of \<open>stop\<close>, in the handler and at the end, are
  \<open>sg_sched\<close> and \<open>me_sched\<close>.
\<close>

section \<open>Texts\<close>

text \<open>The source is encoded in UTF-8.\<close>

definition utf8 :: "nat \<Rightarrow> string" where
  "utf8 n = (if n < 0x80 then [char_of n]
     else if n < 0x800 then [char_of (0xC0 + n div 64), char_of (0x80 + n mod 64)]
     else [char_of (0xE0 + n div 4096), char_of (0x80 + n div 64 mod 64), char_of (0x80 + n mod 64)])"

definition box_rule :: "nat \<Rightarrow> nat \<Rightarrow> string" where
  "box_rule l r = utf8 l @ concat (replicate 54 (utf8 0x2550)) @ utf8 r @ LF"

definition box_line :: "string \<Rightarrow> string" where
  "box_line t = utf8 0x2551 @ t @ utf8 0x2551 @ LF"

definition print_banner :: string where
  "print_banner = LF
     @ box_rule 0x2554 0x2557
     @ box_line ''         Aspira High-Performance Trading Engine        ''
     @ box_line ''                    Version 1.0.0                       ''
     @ box_rule 0x2560 0x2563
     @ box_line ''  Architecture:                                        ''
     @ box_line (''    Market Data '' @ utf8 0x2192 @ '' Strategy '' @ utf8 0x2192 @ '' Risk '' @ utf8 0x2192 @ '' Book '' @ utf8 0x2192 @ '' Execution   '')
     @ box_line ''                                                       ''
     @ box_line ''  Key Features:                                        ''
     @ box_line (''    '' @ utf8 0x2022 @ '' Lock-free SPSC ring buffers                      '')
     @ box_line (''    '' @ utf8 0x2022 @ '' Price-time priority order book                   '')
     @ box_line (''    '' @ utf8 0x2022 @ '' Pre-trade risk validation                        '')
     @ box_line (''    '' @ utf8 0x2022 @ '' Async logging & persistence journal              '')
     @ box_line (''    '' @ utf8 0x2022 @ '' Event-driven pipeline architecture               '')
     @ box_rule 0x255A 0x255D
     @ LF"

definition print_config :: "settings \<Rightarrow> string" where
  "print_config s = ''Configuration:'' @ LF
     @ ''  Symbol:     '' @ opt_symbol s @ LF
     @ ''  Duration:   '' @ show_int (duration_sec s) @ '' seconds'' @ (if duration_sec s = 0 then '' (infinite)'' else []) @ LF
     @ ''  Log:        '' @ opt_log s @ LF
     @ ''  Journal:    '' @ opt_journal s @ LF @ LF"

definition running_text :: "settings \<Rightarrow> string" where
  "running_text s = ''Trading engine is running. ''
     @ (if 0 < duration_sec s then ''Will run for '' @ show_int (duration_sec s) @ '' seconds...'' @ LF @ LF
        else ''Running indefinitely (Ctrl+C to stop)...'' @ LF @ LF)"

definition final_report :: "u64 \<Rightarrow> pipeline_stats \<Rightarrow> string" where
  "final_report thr s = LF
     @ box_rule 0x2554 0x2557
     @ box_line ''              Final Performance Report                 ''
     @ box_rule 0x2560 0x2563
     @ box_line (''  Market Data Messages:  '' @ pad_left 10 (show_nat (unat (market_data_msgs s))) @ ''                  '')
     @ box_line (''  Orders Created:        '' @ pad_left 10 (show_nat (unat (orders_created s))) @ ''                  '')
     @ box_line (''  Orders Accepted:       '' @ pad_left 10 (show_nat (unat (orders_accepted s))) @ ''                  '')
     @ box_line (''  Orders Rejected:       '' @ pad_left 10 (show_nat (unat (orders_rejected s))) @ ''                  '')
     @ box_line (''  Orders Executed:       '' @ pad_left 10 (show_nat (unat (orders_executed s))) @ ''                  '')
     @ box_line (''  Trades Generated:      '' @ pad_left 10 (show_nat (unat (trades_generated s))) @ ''                  '')
     @ box_line (''  I/O Events Dropped:   '' @ pad_left 10 (show_nat (unat (io_events_dropped s))) @ ''                  '')
     @ box_line (''  Average Latency:       '' @ pad_left 8 (show_fixed 2 (avg_latency_us s)) @ '' '' @ utf8 0xB5 @ ''s               '')
     @ box_rule 0x2560 0x2563
     @ box_line (''  Throughput:            '' @ pad_left 8 (show_nat (unat thr)) @ '' msgs/sec          '')
     @ box_rule 0x255A 0x255D
     @ LF"

definition journal_closed_text :: "(u64 \<times> u64) option \<Rightarrow> string" where
  "journal_closed_text rep = (case rep of None \<Rightarrow> []
     | Some (bytes, records) \<Rightarrow> ''Journal closed: '' @ show_nat (unat bytes) @ '' bytes, '' @ show_nat (unat records) @ '' records'' @ LF)"

section \<open>The program\<close>

text \<open>The signal comes at the end of round \<open>sg_round\<close>; the other fields are what the handler's call of \<open>stop\<close> gets from outside.\<close>

record signal_info =
  sg_round :: nat
  sg_now :: u64
  sg_sched :: "stop_op list"
  sg_clk :: "nat \<Rightarrow> nat \<Rightarrow> clock"
  sg_lat :: "nat \<Rightarrow> u64 \<times> u64"
  sg_io :: "nat \<Rightarrow> io_env"

record main_env =
  me_init :: init_env
  me_os :: os
  me_file :: "string \<Rightarrow> byte list"
  me_threads :: "bool \<times> bool \<times> bool"
  me_time_text :: "u64 \<Rightarrow> string"
  me_start :: int
  me_now :: "nat \<Rightarrow> int"
  me_ops :: "nat \<Rightarrow> pl_op list"
  me_stop_now :: u64
  me_sched :: "stop_op list"
  me_clk :: "nat \<Rightarrow> nat \<Rightarrow> clock"
  me_lat :: "nat \<Rightarrow> u64 \<times> u64"
  me_io :: "nat \<Rightarrow> io_env"
  me_signal :: "signal_info option"
  me_polls :: nat

record main_result =
  exit_status :: int
  out_text :: string
  err_text :: string
  journal_file :: "byte list option"
  log_file :: "string option"
  gateway_file :: "string option"
  logger_freed_running :: bool

text \<open>\<open>log_file\<close> and \<open>gateway_file\<close> have the texts of the two logs, as far as they were opened. \<open>logger_freed_running\<close> tells that the logger
  was freed while its thread ran, after \<open>me_polls\<close> iterations; what the program does from there on is undefined.

  What happens during \<open>sleep (1)\<close>: the threads run, as long as their flags are set, and the signal handler, which writes to the error stream.\<close>

definition signal_text :: string where
  "signal_text = LF @ LF @ ''*** Signal received '' @ utf8 0x2014 @ '' shutting down gracefully ***'' @ LF @ LF"

fun flag_set :: "pl_op \<Rightarrow> event_pipeline \<Rightarrow> bool" where
  "flag_set (FeedTick now) p = feed_running (p_feed p)"
| "flag_set (HotTick clk t0 t1) p = p_running p"
| "flag_set (IoTick env) p = p_running p"
| "flag_set LogTick p = log_running (p_logger p)"

fun flagged_run :: "(u64 \<Rightarrow> string) \<Rightarrow> pl_op list \<Rightarrow> event_pipeline \<Rightarrow> event_pipeline option" where
  "flagged_run tt [] p = Some p"
| "flagged_run tt (op # ops) p = (if flag_set op p then Option.bind (pl_op_step tt op p) (flagged_run tt ops) else flagged_run tt ops p)"

definition threads_run :: "main_env \<Rightarrow> nat \<Rightarrow> engine \<Rightarrow> engine option" where
  "threads_run me k en = map_option (\<lambda>p. en\<lparr>en_pipe := p\<rparr>) (flagged_run (me_time_text me) (me_ops me k) (en_pipe en))"

definition main_sleep :: "main_env \<Rightarrow> nat \<Rightarrow> engine \<Rightarrow> (string \<times> engine) option" where
  "main_sleep me k en = Option.bind (threads_run me k en) (\<lambda>en. case me_signal me of
     None \<Rightarrow> Some ([], en)
   | Some sg \<Rightarrow>
       if k = sg_round sg then map_option (Pair signal_text)
         (signal_handler (me_time_text me) (sg_now sg) (sg_sched sg) (sg_clk sg) (sg_lat sg) (sg_io sg) (me_os me) en)
       else Some ([], en))"

text \<open>The rounds of the main loop: a second passes, the figures are printed, the duration is checked.\<close>

partial_function (option) main_rounds :: "main_env \<Rightarrow> int \<Rightarrow> nat \<Rightarrow> string \<Rightarrow> string \<Rightarrow> engine \<Rightarrow> (string \<times> string \<times> engine) option" where
  "main_rounds me duration k out err en =
     (case main_sleep me k en of
        None \<Rightarrow> None
      | Some (said, en') \<Rightarrow>
          if 0 < duration \<and> duration \<le> me_now me k - me_start me
          then Some (out @ print_stats (p_stats (en_pipe en')) @ LF @ LF @ ''Duration reached '' @ utf8 0x2014 @ '' shutting down...'' @ LF @ LF, err @ said, en')
          else main_rounds me duration (Suc k) (out @ print_stats (p_stats (en_pipe en'))) (err @ said) en')"

definition opened_text :: "settings \<Rightarrow> bool \<Rightarrow> string" where
  "opened_text s opened = print_banner @ print_config s @ (if opened then ''Journal opened: '' @ opt_journal s @ '' (mmap mode)'' @ LF else [])
     @ ''Initializing pipeline...'' @ LF"

definition journal_warning :: "settings \<Rightarrow> bool \<Rightarrow> string" where
  "journal_warning s opened = (if opened then [] else ''Warning: failed to open journal at '' @ opt_journal s @ LF)"

definition main_run :: "main_env \<Rightarrow> settings \<Rightarrow> main_result option" where
  "main_run me s =
     (let opened = (journal_open (me_os me) (me_file me (opt_journal s)) True \<noteq> None);
          out = opened_text s opened; err = journal_warning s opened; starting = ''Starting trading engine...'' @ LF @ LF
      in case engine_boot (me_init me) (me_os me) (me_file me (opt_journal s)) (me_threads me) s of
           None \<Rightarrow> None
         | Some (Inl (INIT_FAILED u, f)) \<Rightarrow> map_option (\<lambda>(lg, gw, left).
             \<lparr>exit_status = 1, out_text = out, err_text = err @ (if un_logger u = None then ''EventPipeline: failed to initialize logger'' @ LF else [])
                @ ''FATAL: Pipeline initialization failed'' @ LF,
              journal_file = f, log_file = lg, gateway_file = gw, logger_freed_running = left\<rparr>) (destroy_unfinished (me_time_text me) (me_polls me) u)
         | Some (Inl (START_FAILED p, f)) \<Rightarrow> map_option (\<lambda>(lg, gw, left).
             \<lparr>exit_status = 1, out_text = out @ starting, err_text = err @ ''FATAL: Pipeline start failed'' @ LF,
              journal_file = f, log_file = lg, gateway_file = gw, logger_freed_running = left\<rparr>) (destroy_started (me_time_text me) (me_polls me) p)
         | Some (Inr en) \<Rightarrow>
             (case main_rounds me (duration_sec s) 0 (out @ starting @ running_text s) err en of
                None \<Rightarrow> None
              | Some (out, err, en) \<Rightarrow>
                 (case engine_finish (me_time_text me) (me_stop_now me) (me_sched me) (me_clk me) (me_lat me) (me_io me) (me_os me) s en of
                    None \<Rightarrow> None
                  | Some (fin, thr, rep) \<Rightarrow> map_option (\<lambda>(lg, gw).
                      \<lparr>exit_status = 0, out_text = out @ final_report thr (p_stats (en_pipe fin)) @ journal_closed_text rep
                         @ LF @ ''Trading engine shut down successfully.'' @ LF @ LF,
                       err_text = err, journal_file = closed_file fin, log_file = Some lg, gateway_file = gw,
                       logger_freed_running = log_running (p_logger (en_pipe fin))\<rparr>) (pl_destroy (en_pipe fin)))))"

definition main :: "main_env \<Rightarrow> string \<Rightarrow> string list \<Rightarrow> main_result option" where
  "main me prog args = (let results = getopt_long args in case parse_options results default_settings of
     Inl rc \<Rightarrow> Some \<lparr>exit_status = rc, out_text = print_usage prog, err_text = (if rc = 1 then prog @ '': '' @ snd (last results) @ LF else []),
       journal_file = None, log_file = None, gateway_file = None, logger_freed_running = False\<rparr>
   | Inr s \<Rightarrow> main_run me s)"

section \<open>Running to the end\<close>

lemma flagged_run_append: "flagged_run tt (xs @ ys) p = Option.bind (flagged_run tt xs p) (flagged_run tt ys)"
proof (induction xs arbitrary: p)
  case (Cons op xs)
  then show ?case by (cases "pl_op_step tt op p") simp_all
qed simp

text \<open>While all threads run, their flags are set; once all have ended, nothing happens any more.\<close>

lemma flagged_run_running:
  "pl_inv sy (n + ticks ops) (m + length ops) p \<Longrightarrow> balanced p \<Longrightarrow> p_running p \<Longrightarrow> feed_running (p_feed p) \<Longrightarrow> log_running (p_logger p) \<Longrightarrow>
    flagged_run tt ops p = pl_run tt ops p"
proof (induction ops arbitrary: p)
  case (Cons op ops)
  have "pl_inv sy ((n + ticks ops) + ticks [op]) (Suc (m + length ops)) p" using Cons.prems(1) ticks_Cons [of op ops] by (simp add: ac_simps)
  from pl_op_step_inv [OF this Cons.prems(2), of tt] obtain q where
    q: "pl_op_step tt op p = Some q" "pl_inv sy (n + ticks ops) (m + length ops) q" "balanced q" "steady p q" by blast
  have "flag_set op p" using Cons.prems(3-) by (cases op) simp_all
  moreover have "flagged_run tt ops q = pl_run tt ops q" using Cons.IH [OF q(2,3)] q(4) Cons.prems(3-) by (simp add: steady_def)
  ultimately show ?case using q(1) by simp
qed simp

lemma flagged_run_ended: "\<not> p_running p \<Longrightarrow> \<not> feed_running (p_feed p) \<Longrightarrow> \<not> log_running (p_logger p) \<Longrightarrow> flagged_run tt ops p = Some p"
proof (induction ops)
  case (Cons op ops)
  then show ?case by (cases op) simp_all
qed simp

text \<open>The rounds follow a sequence of states; the loop ends in round \<open>m\<close>.\<close>

lemma main_rounds_trace:
  assumes "k \<le> m" and "0 < d" and "d \<le> me_now me m - me_start me" and "\<forall>i. k \<le> i \<longrightarrow> i < m \<longrightarrow> me_now me i - me_start me < d"
    and "\<And>i. k \<le> i \<Longrightarrow> i \<le> m \<Longrightarrow> main_sleep me i (E i) = Some (said i, E (Suc i))"
  shows "\<exists>shown. main_rounds me d k out err (E k) = Some (out @ shown, err @ concat (map said [k..<Suc m]), E (Suc m))"
  using assms(1,4,5)
proof (induction "m - k" arbitrary: k out err)
  case 0
  then have "k = m" by simp
  then show ?case using 0 assms(2,3) by (subst main_rounds.simps) simp
next
  case (Suc l)
  then have k: "k < m" "[k..<Suc m] = k # [Suc k..<Suc m]" by (simp_all add: upt_conv_Cons)
  have "\<exists>shown. main_rounds me d (Suc k) (out @ print_stats (p_stats (en_pipe (E (Suc k))))) (err @ said k) (E (Suc k))
      = Some ((out @ print_stats (p_stats (en_pipe (E (Suc k))))) @ shown, (err @ said k) @ concat (map said [Suc k..<Suc m]), E (Suc m))"
    by (rule Suc.hyps(1)) (use Suc.hyps(2) Suc.prems k(1) in auto)
  moreover have "\<not> (0 < d \<and> d \<le> me_now me k - me_start me)" using Suc.prems(2) k(1) by auto
  ultimately show ?case using Suc.prems(3) [of k] k by (subst main_rounds.simps) (auto simp del: upt_Suc)
qed

lemma main_rounds_returns: "main_rounds me d k out err en = Some r \<Longrightarrow> 0 < d"
proof (rule main_rounds.raw_induct [of "\<lambda>me d k out err en r. 0 < d"], goal_cases)
  case (1 mr me d k out err en r)
  then show ?case by (cases r) (auto split: option.splits if_splits)
qed assumption

text \<open>The pipeline after the rounds before \<open>i\<close>.\<close>

definition pipe_at :: "main_env \<Rightarrow> event_pipeline \<Rightarrow> nat \<Rightarrow> event_pipeline" where
  "pipe_at me p i = the (flagged_run (me_time_text me) (concat (map (me_ops me) [0..<i])) p)"

lemma pipe_at_step:
  assumes "flagged_run (me_time_text me) (concat (map (me_ops me) [0..<Suc n])) p = Some p'" and "i \<le> n"
  shows "flagged_run (me_time_text me) (me_ops me i) (pipe_at me p i) = Some (pipe_at me p (Suc i))"
proof -
  have "[0..<Suc n] = [0..<Suc i] @ [Suc i..<Suc n]" using assms(2) upt_add_eq_append [of 0 "Suc i" "n - i"] by simp
  then have "flagged_run (me_time_text me) (concat (map (me_ops me) [0..<Suc i])) p \<noteq> None"
    using assms(1) by (auto simp: flagged_run_append bind_eq_Some_conv simp del: upt_Suc)
  then show ?thesis by (auto simp: pipe_at_def flagged_run_append bind_eq_None_conv bind_eq_Some_conv)
qed

lemma pipe_at_end: "flagged_run (me_time_text me) (concat (map (me_ops me) [0..<i])) p = Some p' \<Longrightarrow> pipe_at me p i = p'"
  by (simp add: pipe_at_def)

lemma pipe_at_0 [simp]: "pipe_at me p 0 = p"
  by (simp add: pipe_at_def)

text \<open>A journal file with former contents \<open>old\<close> and a record for each of the events \<open>vs\<close>, numbered from 0.\<close>

definition audit_file :: "byte list \<Rightarrow> io_view list \<Rightarrow> byte list \<Rightarrow> bool" where
  "audit_file old vs file \<longleftrightarrow> take (length old) file = old \<and> length file = length old + 84 * length vs
     \<and> (let rs = jfmt.read_all (length vs) (drop (length old) file) in
          map (\<lambda>(h, body). (record_type h, body)) rs = map (\<lambda>(t, body). (record_code t, body)) (map view_record vs)
          \<and> map (sequence_number \<circ> fst) rs = map of_nat [0..<length vs])"

lemma close_journal_audit:
  assumes "journalled old sp q" and "p_journal q \<noteq> None" and "g_journal en" and "os_ok os"
  shows "\<exists>file. closed_file (close_journal os (en\<lparr>en_pipe := q\<rparr>)) = Some file \<and> audit_file old (s_trail sp) file"
proof -
  obtain k where k: "p_journal q = Some k" using assms(2) by blast
  from journalled_file [OF assms(1) k assms(4)] k assms(3) show ?thesis by (simp add: close_journal_def audit_file_def Let_def)
qed

lemma close_journal_pipe [simp]: "en_pipe (close_journal os en) = en_pipe en"
  by (simp add: close_journal_def split: option.split bool.split)

lemma close_journal_closed: "\<not> g_journal en \<Longrightarrow> close_journal os en = en"
  by (simp add: close_journal_def)

text \<open>The counts of a report that fits the machine \<open>sp\<close> at its end: every message traded on has made two orders, each accepted or rejected;
  the events that passed, were dropped or are left are all orders and trades.\<close>

definition report_of :: "engine_spec \<Rightarrow> pipeline_stats \<Rightarrow> bool" where
  "report_of sp st \<longleftrightarrow> market_data_msgs st = of_nat (length (s_traded sp)) \<and> orders_created st = 2 * market_data_msgs st
     \<and> orders_accepted st + orders_rejected st = orders_created st \<and> io_events_dropped st = of_nat (s_lost sp)"

text \<open>The events of the machine at its end: they passed in the order of the decisions; the rest was dropped or is left.\<close>

definition events_of :: "engine_spec \<Rightarrow> bool" where
  "events_of sp \<longleftrightarrow> subseq (s_trail sp @ s_pending sp) (s_made sp) \<and> length (s_trail sp) + length (s_pending sp) + s_lost sp = length (s_made sp)"

text \<open>The engine of \<open>main\<close> from its start to the point where all its threads have ended.\<close>

lemma main_engine:
  fixes me :: main_env and clk :: "nat \<Rightarrow> nat \<Rightarrow> clock" and lat :: "nat \<Rightarrow> u64 \<times> u64"
  assumes "env_ok (me_init me) (opt_log s)" and "length (me_file me (opt_journal s)) \<le> 2 ^ 62" and "me_threads me = (True, True, True)"
    and "ticks ops + stop_ticks sch < 2 ^ 30" and "length ops + length sch < 2 ^ 55"
  defines "o' \<equiv> journal_open (me_os me) (me_file me (opt_journal s)) True" and "s1 \<equiv> engine_run ops (spec_boot (me_init me) s)"
  defines "sp \<equiv> spec_stop sch clk lat s1"
  shows "\<exists>en p q. engine_boot (me_init me) (me_os me) (me_file me (opt_journal s)) (me_threads me) s = Some (Inr en)
    \<and> flagged_run (me_time_text me) ops (en_pipe en) = Some p \<and> pl_stop (me_time_text me) now sch clk lat io p = Some q
    \<and> g_journal en = (o' \<noteq> None) \<and> report_of sp (p_stats q) \<and> events_of sp \<and> (io_ends_last sch s1 \<longrightarrow> s_pending sp = [])
    \<and> (o' \<noteq> None \<longrightarrow> journal_sequence (p_journal q) = of_nat (length (s_trail sp))
         \<and> journal_sequence (p_journal q) + of_nat (length (s_pending sp)) + io_events_dropped (p_stats q) = orders_created (p_stats q) + trades_generated (p_stats q))
    \<and> pl_destroy q = Some (logger_destroy (p_logger q), gw_destroy (Some (p_gateway q)))
    \<and> \<not> p_running q \<and> \<not> feed_running (p_feed q) \<and> \<not> log_running (p_logger q)
    \<and> \<not> g_journal (close_journal (me_os me) (en\<lparr>en_pipe := q\<rparr>))
    \<and> (\<forall>j. o' = Some j \<longrightarrow> os_ok (me_os me) \<longrightarrow> (\<forall>op \<in> set ops. op_ok op) \<longrightarrow> (\<forall>op \<in> set sch. stop_op_ok op) \<longrightarrow> (\<forall>i. os_ok (io_os (io i))) \<longrightarrow>
         (\<exists>file. closed_file (close_journal (me_os me) (en\<lparr>en_pipe := q\<rparr>)) = Some file \<and> audit_file (content j) (s_trail sp) file))"
proof -
  let ?f = "me_file me (opt_journal s)"
  from engine_ends_spec [OF assms(1,2,4,5), of "me_os me" "me_time_text me" now clk lat io, folded o'_def s1_def sp_def] obtain en p q where
    e: "engine_boot (me_init me) (me_os me) ?f (True, True, True) s = Some (Inr en)" "pl_run (me_time_text me) ops (en_pipe en) = Some p"
      "log_running (p_logger (en_pipe en))" "p_running (en_pipe en)" "feed_running (p_feed (en_pipe en))"
      "pl_stop (me_time_text me) now sch clk lat io p = Some q" "finished sp q" "g_journal en = (o' \<noteq> None)" "(p_journal q \<noteq> None) = (o' \<noteq> None)"
      "(\<forall>op \<in> set ops. op_ok op) \<longrightarrow> (\<forall>op \<in> set sch. stop_op_ok op) \<longrightarrow> (\<forall>i. os_ok (io_os (io i))) \<longrightarrow> (\<forall>j. o' = Some j \<longrightarrow> journalled (content j) sp q)"
      "subseq (s_trail sp @ s_pending sp) (s_made sp)" "length (s_trail sp @ s_pending sp) + s_lost sp = length (s_made sp)" "io_ends_last sch s1 \<longrightarrow> s_pending sp = []"
      "balanced q" "chan_ok [] (io_chan q)" "feed_ok [] (p_feed q)" "\<not> p_running q" "\<not> feed_running (p_feed q)" "\<not> log_running (p_logger q)"
    by (elim exE conjE) (rule that)
  have "0 + ticks ops < 2 ^ 30" "0 + length ops < 2 ^ 56" using assms(4,5) by simp_all
  from engine_boot_ok [OF assms(1,2) this, of "me_os me"] e(1) have inv: "pl_inv (opt_symbol s) (0 + ticks ops) (0 + length ops) (en_pipe en)" "balanced (en_pipe en)" by auto
  have run: "flagged_run (me_time_text me) ops (en_pipe en) = Some p" using flagged_run_running [OF inv e(4,5,3)] e(2) by simp
  have left: "length (queued (io_chan q)) = length (s_pending sp)" using e(7) by (metis finished_def length_map)
  have seq: "journal_sequence (p_journal q) = of_nat (length (s_trail sp))
      \<and> journal_sequence (p_journal q) + of_nat (length (s_pending sp)) + io_events_dropped (p_stats q) = orders_created (p_stats q) + trades_generated (p_stats q)" if "o' \<noteq> None"
    using that e(7,9,14) left by (cases "p_journal q") (simp_all add: balanced_def Let_def journal_sequence_def finished_def)
  have rep: "report_of sp (p_stats q)" "events_of sp" using e(7,11,12,14) by (simp_all add: report_of_def events_of_def finished_def balanced_def Let_def)
  have shut: "\<not> g_journal (close_journal (me_os me) (en\<lparr>en_pipe := q\<rparr>))" using e(8,9) by (auto simp: close_journal_def split: option.split bool.split)
  have audit: "\<exists>file. closed_file (close_journal (me_os me) (en\<lparr>en_pipe := q\<rparr>)) = Some file \<and> audit_file (content j) (s_trail sp) file"
    if h: "o' = Some j" "os_ok (me_os me)" "\<forall>op \<in> set ops. op_ok op" "\<forall>op \<in> set sch. stop_op_ok op" "\<forall>i. os_ok (io_os (io i))" for j
    by (rule close_journal_audit) (use e(8-10) h in auto)
  show ?thesis unfolding assms(3)
    by (rule exI [of _ en], rule exI [of _ p], rule exI [of _ q])
      (intro conjI allI impI e(1,6,8,17-19) run rep pl_destroy_ok [OF e(15,16)] shut; (use seq e(13) audit in blast))
qed

text \<open>C3: the program as a whole. Given a command line that parses and a system that provides memory, files and threads,
  \<open>main\<close> returns 0 once the duration has passed, whatever the threads did in the meantime and while they were stopped, and in which order. It
  prints a final report in which every message traded on has made two orders, each accepted or rejected; the journal's records, the counted
  drops and the events left in the queue, which nothing counts, are all orders and trades, and none is left when the I/O thread does not end
  before the hot path. When the journal could be written, its file holds the former contents
  and then one record for every event of the abstract machine that passed the I/O thread, in the order of the decisions. The logger's thread has ended when the logger is freed.\<close>

theorem main_completes:
  assumes "parse_options (getopt_long args) default_settings = Inr s" and "env_ok (me_init me) (opt_log s)"
    and "length (me_file me (opt_journal s)) \<le> 2 ^ 62" and "me_threads me = (True, True, True)" and "me_signal me = None"
    and "main_loop (duration_sec s) (me_start me) (me_now me) 0 = Some m" and "ops = concat (map (me_ops me) [0..<Suc m])"
    and "ticks ops + stop_ticks (me_sched me) < 2 ^ 30" and "length ops + length (me_sched me) < 2 ^ 55"
    and "s1 = engine_run ops (spec_boot (me_init me) s)" and "sp = spec_stop (me_sched me) (me_clk me) (me_lat me) s1"
  shows "\<exists>res pre thr st rep. main me prog args = Some res \<and> exit_status res = 0 \<and> \<not> logger_freed_running res
    \<and> out_text res = pre @ final_report thr st @ journal_closed_text rep @ LF @ ''Trading engine shut down successfully.'' @ LF @ LF
    \<and> report_of sp st \<and> events_of sp \<and> (io_ends_last (me_sched me) s1 \<longrightarrow> s_pending sp = [])
    \<and> (\<forall>bytes records. rep = Some (bytes, records) \<longrightarrow> records = of_nat (length (s_trail sp))
         \<and> records + of_nat (length (s_pending sp)) + io_events_dropped st = orders_created st + trades_generated st)
    \<and> (\<forall>j. journal_open (me_os me) (me_file me (opt_journal s)) True = Some j \<longrightarrow> rep \<noteq> None \<and> (os_ok (me_os me) \<longrightarrow> (\<forall>op \<in> set ops. op_ok op) \<longrightarrow>
         (\<forall>op \<in> set (me_sched me). stop_op_ok op) \<longrightarrow> (\<forall>i. os_ok (io_os (me_io me i))) \<longrightarrow>
         (\<exists>file. journal_file res = Some file \<and> audit_file (content j) (s_trail sp) file)))"
proof -
  let ?o = "journal_open (me_os me) (me_file me (opt_journal s)) True"
  from main_engine [OF assms(2-4,8,9), of "me_stop_now me" "me_clk me" "me_lat me" "me_io me", folded assms(10), folded assms(11)] obtain en p q where
    e: "engine_boot (me_init me) (me_os me) (me_file me (opt_journal s)) (me_threads me) s = Some (Inr en)" "flagged_run (me_time_text me) ops (en_pipe en) = Some p"
      "pl_stop (me_time_text me) (me_stop_now me) (me_sched me) (me_clk me) (me_lat me) (me_io me) p = Some q" "g_journal en = (?o \<noteq> None)"
      "report_of sp (p_stats q)" "events_of sp" "io_ends_last (me_sched me) s1 \<longrightarrow> s_pending sp = []"
      "?o \<noteq> None \<longrightarrow> journal_sequence (p_journal q) = of_nat (length (s_trail sp))
         \<and> journal_sequence (p_journal q) + of_nat (length (s_pending sp)) + io_events_dropped (p_stats q) = orders_created (p_stats q) + trades_generated (p_stats q)"
      "pl_destroy q = Some (logger_destroy (p_logger q), gw_destroy (Some (p_gateway q)))" "\<not> log_running (p_logger q)"
      "\<forall>j. ?o = Some j \<longrightarrow> os_ok (me_os me) \<longrightarrow> (\<forall>op \<in> set ops. op_ok op) \<longrightarrow> (\<forall>op \<in> set (me_sched me). stop_op_ok op) \<longrightarrow> (\<forall>i. os_ok (io_os (me_io me i))) \<longrightarrow>
         (\<exists>file. closed_file (close_journal (me_os me) (en\<lparr>en_pipe := q\<rparr>)) = Some file \<and> audit_file (content j) (s_trail sp) file)"
    by (elim exE conjE) (rule that)
  note L = main_loop_result [OF assms(6)]
  define E where "E i = en\<lparr>en_pipe := pipe_at me (en_pipe en) i\<rparr>" for i
  have run: "flagged_run (me_time_text me) (concat (map (me_ops me) [0..<Suc m])) (en_pipe en) = Some p" using e(2) assms(7) by simp
  have E: "E 0 = en" "E (Suc m) = en\<lparr>en_pipe := p\<rparr>" using pipe_at_end [OF run] by (simp_all add: E_def)
  have sleep: "main_sleep me i (E i) = Some ([], E (Suc i))" if "i \<le> m" for i
    using pipe_at_step [OF run that] assms(5) by (simp add: main_sleep_def threads_run_def E_def)
  let ?out = "opened_text s (?o \<noteq> None) @ (''Starting trading engine...'' @ LF @ LF) @ running_text s"
  obtain shown where rounds: "main_rounds me (duration_sec s) 0 ?out (journal_warning s (?o \<noteq> None)) en
      = Some (?out @ shown, journal_warning s (?o \<noteq> None) @ concat (map (\<lambda>_. []) [0..<Suc m]), en\<lparr>en_pipe := p\<rparr>)"
    using main_rounds_trace [of 0 m "duration_sec s" me E "\<lambda>_. []" ?out "journal_warning s (?o \<noteq> None)"] L sleep by (auto simp: E)
  let ?rep = "if ?o \<noteq> None then Some (journal_bytes_written (p_journal q), journal_sequence (p_journal q)) else None"
  let ?fin = "close_journal (me_os me) (en\<lparr>en_pipe := q\<rparr>)"
  have fin: "engine_finish (me_time_text me) (me_stop_now me) (me_sched me) (me_clk me) (me_lat me) (me_io me) (me_os me) s (en\<lparr>en_pipe := p\<rparr>)
      = Some (?fin, throughput (duration_sec s) (p_stats q), ?rep)"
    using e(3,4) by (simp add: engine_finish_def Let_def)
  obtain res where res: "main me prog args = Some res" "exit_status res = 0" "\<not> logger_freed_running res" "journal_file res = closed_file ?fin"
    "out_text res = (?out @ shown) @ final_report (throughput (duration_sec s) (p_stats q)) (p_stats q) @ journal_closed_text ?rep
       @ LF @ ''Trading engine shut down successfully.'' @ LF @ LF"
    using assms(1) e(1,9,10) rounds fin by (simp add: main_def main_run_def Let_def del: append_assoc)
  show ?thesis
    by (intro exI [of _ res] exI [of _ "?out @ shown"] exI [of _ "throughput (duration_sec s) (p_stats q)"] exI [of _ "p_stats q"] exI [of _ ?rep])
      (use res e(5-8,11) in auto)
qed

definition ex_me :: main_env where
  "ex_me = \<lparr>me_init = ex_env, me_os = ex_os, me_file = (\<lambda>_. []), me_threads = (True, True, True), me_time_text = (\<lambda>_. ''t''),
     me_start = 100, me_now = (\<lambda>k. 101 + int k), me_ops = (\<lambda>_. [FeedTick 9, HotTick ex_clock 1 2, IoTick ex_io]), me_stop_now = 11,
     me_sched = [FeedGoes 12, IoDrain ex_io, HotDrain ex_clock 3 4], me_clk = (\<lambda>_. ex_clock), me_lat = (\<lambda>_. (1, 2)), me_io = (\<lambda>_. ex_io),
     me_signal = None, me_polls = 0\<rparr>"

theorem main_completes_witness:
  "\<exists>res pre thr st rep. main ex_me ''trading_engine'' [''--duration=1''] = Some res \<and> exit_status res = 0
    \<and> out_text res = pre @ final_report thr st @ journal_closed_text rep @ LF @ ''Trading engine shut down successfully.'' @ LF @ LF
    \<and> report_of (spec_stop (me_sched ex_me) (me_clk ex_me) (me_lat ex_me)
        (engine_run (concat (map (me_ops ex_me) [0..<Suc 0])) (spec_boot (me_init ex_me) (default_settings\<lparr>duration_sec := 1\<rparr>)))) st"
proof -
  let ?s = "default_settings\<lparr>duration_sec := 1\<rparr>" and ?ops = "concat (map (me_ops ex_me) [0..<Suc 0])"
  have parse: "parse_options (getopt_long [''--duration=1'']) default_settings = Inr ?s" by code_simp
  have env: "env_ok (me_init ex_me) (opt_log ?s)" using ex_env_ok by (simp add: ex_me_def)
  have loop: "main_loop (duration_sec ?s) (me_start ex_me) (me_now ex_me) 0 = Some 0" by (subst main_loop_step) (simp add: ex_me_def)
  have hyps: "length (me_file ex_me (opt_journal ?s)) \<le> 2 ^ 62" "me_threads ex_me = (True, True, True)" "me_signal ex_me = None"
    "ticks ?ops + stop_ticks (me_sched ex_me) < 2 ^ 30" "length ?ops + length (me_sched ex_me) < 2 ^ 55"
    by (simp_all add: ex_me_def)
  from main_completes [OF parse env hyps(1-3) loop refl hyps(4,5) refl refl, of "''trading_engine''"] show ?thesis
    by (elim exE conjE) (intro exI conjI)
qed

section \<open>A signal\<close>

text \<open>The states at the beginnings of the rounds when a signal comes, and what is written to the error stream.\<close>

lemma signal_trace:
  assumes "me_signal me = Some sg" and "flagged_run (me_time_text me) (concat (map (me_ops me) [0..<Suc (sg_round sg)])) (en_pipe en) = Some p"
    and "pl_stop (me_time_text me) (sg_now sg) (sg_sched sg) (sg_clk sg) (sg_lat sg) (sg_io sg) p = Some q"
    and "\<not> p_running q" and "\<not> feed_running (p_feed q)" and "\<not> log_running (p_logger q)"
  shows "\<exists>E said. E 0 = en \<and> (\<forall>i. main_sleep me i (E i) = Some (said i, E (Suc i)))
    \<and> (\<forall>m \<ge> sg_round sg. E (Suc m) = close_journal (me_os me) (en\<lparr>en_pipe := q\<rparr>) \<and> concat (map said [0..<Suc m]) = signal_text)"
proof -
  let ?r = "sg_round sg" and ?fin = "close_journal (me_os me) (en\<lparr>en_pipe := q\<rparr>)"
  define E where "E i = (if i \<le> ?r then en\<lparr>en_pipe := pipe_at me (en_pipe en) i\<rparr> else ?fin)" for i
  define said where "said i = (if i = ?r then signal_text else [])" for i
  have "main_sleep me i (E i) = Some (said i, E (Suc i))" for i
  proof (cases "i \<le> ?r")
    case True
    have "pipe_at me (en_pipe en) (Suc ?r) = p" by (rule pipe_at_end [OF assms(2)])
    then show ?thesis using pipe_at_step [OF assms(2) True] True assms(1,3)
      by (auto simp: main_sleep_def threads_run_def E_def said_def signal_handler_def)
  next
    case False
    have "?fin\<lparr>en_pipe := q\<rparr> = ?fin" by (simp add: close_journal_def split: option.split bool.split)
    then have "threads_run me i ?fin = Some ?fin" using flagged_run_ended [OF assms(4-6)] by (simp add: threads_run_def)
    then show ?thesis using False assms(1) by (simp add: main_sleep_def E_def said_def)
  qed
  moreover have "concat (map said [0..<Suc m]) = signal_text" if "?r \<le> m" for m
  proof -
    have "[0..<Suc m] = [0..<?r] @ ?r # [Suc ?r..<Suc m]" using that upt_add_eq_append [of 0 ?r "Suc m - ?r"] by (simp add: upt_conv_Cons)
    moreover have "concat (map said [0..<?r]) = []" "concat (map said [Suc ?r..<Suc m]) = []" by (auto simp: said_def)
    ultimately show ?thesis by (simp add: said_def [of ?r] del: upt_Suc concat_eq_Nil_conv)
  qed
  moreover have "E 0 = en" "\<And>m. ?r \<le> m \<Longrightarrow> E (Suc m) = ?fin" by (simp_all add: E_def)
  ultimately show ?thesis by (intro exI [of _ E] exI [of _ said]) blast
qed

text \<open>How the program ends, or not, when the pipeline has been stopped and the journal closed before the duration has passed.\<close>

lemma main_endless:
  assumes "parse_options (getopt_long args) default_settings = Inr s"
    and "engine_boot (me_init me) (me_os me) (me_file me (opt_journal s)) (me_threads me) s = Some (Inr en)" and "duration_sec s \<le> 0"
  shows "main me prog args = None"
proof -
  have "main_rounds me (duration_sec s) 0 out err en = None" for out err
    using main_rounds_returns assms(3) by (cases "main_rounds me (duration_sec s) 0 out err en") force+
  then show ?thesis using assms(1,2) by (simp add: main_def main_run_def Let_def)
qed

lemma main_after_stop:
  assumes "parse_options (getopt_long args) default_settings = Inr s"
    and "engine_boot (me_init me) (me_os me) (me_file me (opt_journal s)) (me_threads me) s = Some (Inr en)"
    and "main_loop (duration_sec s) (me_start me) (me_now me) 0 = Some m"
    and "E 0 = en" and "\<And>i. main_sleep me i (E i) = Some (said i, E (Suc i))" and "E (Suc m) = fin \<and> concat (map said [0..<Suc m]) = t"
    and "\<not> p_running (en_pipe fin)" and "\<not> g_journal fin" and "pl_destroy (en_pipe fin) = Some files"
  shows "\<exists>res pre thr. main me prog args = Some res \<and> exit_status res = 0
    \<and> out_text res = pre @ final_report thr (p_stats (en_pipe fin)) @ LF @ ''Trading engine shut down successfully.'' @ LF @ LF
    \<and> err_text res = journal_warning s (journal_open (me_os me) (me_file me (opt_journal s)) True \<noteq> None) @ t \<and> journal_file res = closed_file fin"
proof -
  let ?o = "journal_open (me_os me) (me_file me (opt_journal s)) True"
  let ?out = "opened_text s (?o \<noteq> None) @ (''Starting trading engine...'' @ LF @ LF) @ running_text s" and ?err = "journal_warning s (?o \<noteq> None)"
  obtain shown where rounds: "main_rounds me (duration_sec s) 0 ?out ?err en = Some (?out @ shown, ?err @ t, fin)"
    using main_rounds_trace [of 0 m "duration_sec s" me E said ?out ?err] main_loop_result [OF assms(3)] assms(4-6) by (auto simp del: upt_Suc)
  have "engine_finish (me_time_text me) (me_stop_now me) (me_sched me) (me_clk me) (me_lat me) (me_io me) (me_os me) s fin
      = Some (fin, throughput (duration_sec s) (p_stats (en_pipe fin)), None)"
    using assms(7,8) by (simp add: engine_finish_def pl_stop_def Let_def close_journal_closed)
  then obtain res where "main me prog args = Some res" "exit_status res = 0" "journal_file res = closed_file fin" "err_text res = ?err @ t"
    "out_text res = (?out @ shown) @ final_report (throughput (duration_sec s) (p_stats (en_pipe fin))) (p_stats (en_pipe fin)) @ journal_closed_text None
       @ LF @ ''Trading engine shut down successfully.'' @ LF @ LF"
    using assms(1,2,9) rounds by (cases files) (simp add: main_def main_run_def Let_def del: append_assoc)
  then show ?thesis
    by (intro exI [of _ res] exI [of _ "?out @ shown"] exI [of _ "throughput (duration_sec s) (p_stats (en_pipe fin))"]) (simp add: journal_closed_text_def)
qed

text \<open>C21: ctrl+C ends the trading, not the program. When a signal arrives in a round of the main loop, the handler stops all threads, under any
  schedule, and closes the journal: the file holds the former contents and a record for every event that passed the I/O thread, in the order of
  the decisions; the rest was dropped and counted or is left in the queue, nothing of it when the I/O thread does not end before the hot path. From
  then on no thread does anything, whatever iterations are attempted, and nothing is appended to the closed journal. The main loop goes on until the
  duration has passed; then \<open>main\<close> prints a report that fits, without the line about the journal, and returns 0. With a duration that is
  not positive it never returns, one round following the other without a fault, although the start-up message says that Ctrl+C stops it.\<close>

theorem main_interrupted:
  assumes "parse_options (getopt_long args) default_settings = Inr s" and "env_ok (me_init me) (opt_log s)"
    and "length (me_file me (opt_journal s)) \<le> 2 ^ 62" and "me_threads me = (True, True, True)" and "me_signal me = Some sg"
    and "ops = concat (map (me_ops me) [0..<Suc (sg_round sg)])" and "ticks ops + stop_ticks (sg_sched sg) < 2 ^ 30" and "length ops + length (sg_sched sg) < 2 ^ 55"
    and "s1 = engine_run ops (spec_boot (me_init me) s)" and "sp = spec_stop (sg_sched sg) (sg_clk sg) (sg_lat sg) s1"
  shows "\<exists>E said. engine_boot (me_init me) (me_os me) (me_file me (opt_journal s)) (me_threads me) s = Some (Inr (E 0))
    \<and> (\<forall>i. main_sleep me i (E i) = Some (said i, E (Suc i)))
    \<and> (\<forall>i > sg_round sg. E i = E (Suc (sg_round sg)) \<and> \<not> p_running (en_pipe (E i)) \<and> \<not> g_journal (E i))
    \<and> events_of sp \<and> (io_ends_last (sg_sched sg) s1 \<longrightarrow> s_pending sp = [])
    \<and> (\<forall>j. journal_open (me_os me) (me_file me (opt_journal s)) True = Some j \<longrightarrow> os_ok (me_os me) \<longrightarrow> (\<forall>op \<in> set ops. op_ok op) \<longrightarrow>
         (\<forall>op \<in> set (sg_sched sg). stop_op_ok op) \<longrightarrow> (\<forall>i. os_ok (io_os (sg_io sg i))) \<longrightarrow>
         (\<exists>file. closed_file (E (Suc (sg_round sg))) = Some file \<and> audit_file (content j) (s_trail sp) file))
    \<and> (duration_sec s \<le> 0 \<longrightarrow> main me prog args = None)
    \<and> (\<forall>m. main_loop (duration_sec s) (me_start me) (me_now me) 0 = Some m \<longrightarrow> sg_round sg \<le> m \<longrightarrow>
        (\<exists>res pre thr st. main me prog args = Some res \<and> exit_status res = 0
          \<and> out_text res = pre @ final_report thr st @ LF @ ''Trading engine shut down successfully.'' @ LF @ LF \<and> report_of sp st
          \<and> err_text res = journal_warning s (journal_open (me_os me) (me_file me (opt_journal s)) True \<noteq> None) @ signal_text
          \<and> journal_file res = closed_file (E (Suc (sg_round sg)))))"
proof -
  let ?o = "journal_open (me_os me) (me_file me (opt_journal s)) True" and ?r = "sg_round sg"
  from main_engine [OF assms(2-4,7,8), of "sg_now sg" "sg_clk sg" "sg_lat sg" "sg_io sg", folded assms(9), folded assms(10)] obtain en p q where
    e: "engine_boot (me_init me) (me_os me) (me_file me (opt_journal s)) (me_threads me) s = Some (Inr en)" "flagged_run (me_time_text me) ops (en_pipe en) = Some p"
      "pl_stop (me_time_text me) (sg_now sg) (sg_sched sg) (sg_clk sg) (sg_lat sg) (sg_io sg) p = Some q" "g_journal en = (?o \<noteq> None)" "report_of sp (p_stats q)"
      "pl_destroy q = Some (logger_destroy (p_logger q), gw_destroy (Some (p_gateway q)))" "\<not> p_running q" "\<not> feed_running (p_feed q)" "\<not> log_running (p_logger q)"
      "\<not> g_journal (close_journal (me_os me) (en\<lparr>en_pipe := q\<rparr>))"
      "\<forall>j. ?o = Some j \<longrightarrow> os_ok (me_os me) \<longrightarrow> (\<forall>op \<in> set ops. op_ok op) \<longrightarrow> (\<forall>op \<in> set (sg_sched sg). stop_op_ok op) \<longrightarrow> (\<forall>i. os_ok (io_os (sg_io sg i))) \<longrightarrow>
         (\<exists>file. closed_file (close_journal (me_os me) (en\<lparr>en_pipe := q\<rparr>)) = Some file \<and> audit_file (content j) (s_trail sp) file)"
      "events_of sp" "io_ends_last (sg_sched sg) s1 \<longrightarrow> s_pending sp = []"
    by (elim exE conjE) (rule that)
  have run: "flagged_run (me_time_text me) (concat (map (me_ops me) [0..<Suc ?r])) (en_pipe en) = Some p" using e(2) assms(6) by simp
  let ?fin = "close_journal (me_os me) (en\<lparr>en_pipe := q\<rparr>)"
  from signal_trace [OF assms(5) run e(3,7-9)] obtain E said where
    E: "E 0 = en" "\<And>i. main_sleep me i (E i) = Some (said i, E (Suc i))" "\<And>m. ?r \<le> m \<Longrightarrow> E (Suc m) = ?fin \<and> concat (map said [0..<Suc m]) = signal_text" by blast
  have never: "main me prog args = None" if "duration_sec s \<le> 0" by (rule main_endless [OF assms(1) e(1) that])
  have ends: "\<exists>res pre thr st. main me prog args = Some res \<and> exit_status res = 0
      \<and> out_text res = pre @ final_report thr st @ LF @ ''Trading engine shut down successfully.'' @ LF @ LF \<and> report_of sp st
      \<and> err_text res = journal_warning s (?o \<noteq> None) @ signal_text \<and> journal_file res = closed_file ?fin"
    if m: "main_loop (duration_sec s) (me_start me) (me_now me) 0 = Some m" "?r \<le> m" for m
  proof -
    have fin: "en_pipe ?fin = q" by simp
    from main_after_stop [OF assms(1) e(1) m(1) E(1,2) E(3) [OF m(2)], unfolded fin, OF e(7,10,6), of prog]
    show ?thesis using e(5) by (elim exE conjE) (rule exI conjI | assumption)+
  qed
  have after: "E i = E (Suc ?r) \<and> \<not> p_running (en_pipe (E i)) \<and> \<not> g_journal (E i)" if "?r < i" for i
  proof -
    have "Suc (i - 1) = i" "?r \<le> i - 1" using that by linarith+
    then have "E i = ?fin" "E (Suc ?r) = ?fin" using E(3) [of "i - 1"] E(3) [of ?r] by simp_all
    then show ?thesis using e(7,10) by simp
  qed
  have F: "E (Suc ?r) = ?fin" using E(3) [of ?r] by simp
  show ?thesis
  proof (intro exI [of _ E] exI [of _ said] conjI)
    show "engine_boot (me_init me) (me_os me) (me_file me (opt_journal s)) (me_threads me) s = Some (Inr (E 0))" using e(1) E(1) by simp
  qed (use E(2) after e(11-13) never ends in \<open>unfold F; blast\<close>)+
qed

definition ex_signal :: signal_info where
  "ex_signal = \<lparr>sg_round = 1, sg_now = 12, sg_sched = [IoDrain ex_io, FeedGoes 13], sg_clk = (\<lambda>_. ex_clock), sg_lat = (\<lambda>_. (1, 2)), sg_io = (\<lambda>_. ex_io)\<rparr>"

theorem main_interrupted_witness:
  "\<exists>res pre thr st. main (ex_me\<lparr>me_signal := Some ex_signal\<rparr>) ''trading_engine'' [''-d'', ''2''] = Some res
    \<and> exit_status res = 0 \<and> out_text res = pre @ final_report thr st @ LF @ ''Trading engine shut down successfully.'' @ LF @ LF
    \<and> main (ex_me\<lparr>me_signal := Some ex_signal\<rparr>) ''trading_engine'' [''-d'', ''0''] = None"
proof -
  let ?me = "ex_me\<lparr>me_signal := Some ex_signal\<rparr>" and ?s = "\<lambda>d. default_settings\<lparr>duration_sec := d\<rparr>"
  let ?ops = "concat (map (me_ops ?me) [0..<Suc (sg_round ex_signal)])"
  have parse: "parse_options (getopt_long [''-d'', ''2'']) default_settings = Inr (?s 2)" "parse_options (getopt_long [''-d'', ''0'']) default_settings = Inr (?s 0)"
    by code_simp+
  have env: "env_ok (me_init ?me) (opt_log (?s d))" for d using ex_env_ok by (simp add: ex_me_def)
  have hyps: "length (me_file ?me (opt_journal (?s d))) \<le> 2 ^ 62" "me_threads ?me = (True, True, True)" "me_signal ?me = Some ex_signal"
    "ticks ?ops + stop_ticks (sg_sched ex_signal) < 2 ^ 30" "length ?ops + length (sg_sched ex_signal) < 2 ^ 55" for d
    by (simp_all add: ex_me_def ex_signal_def ticks_append)
  have loop: "main_loop (duration_sec (?s 2)) (me_start ?me) (me_now ?me) 0 = Some 1" by (simp add: main_loop_step ex_me_def)
  have "duration_sec (?s 0) \<le> 0" "sg_round ex_signal \<le> 1" by (simp_all add: ex_signal_def)
  with main_interrupted [OF parse(2) env hyps(1-3) refl hyps(4,5) refl refl, of "''trading_engine''"]
    main_interrupted [OF parse(1) env hyps(1-3) refl hyps(4,5) refl refl, of "''trading_engine''"] loop
  show ?thesis by blast
qed

section \<open>Command lines\<close>

text \<open>The last argument given to an option, read by \<open>f\<close>.\<close>

definition last_of :: "char \<Rightarrow> 'a \<Rightarrow> (string \<Rightarrow> 'a) \<Rightarrow> (char \<times> string) list \<Rightarrow> 'a" where
  "last_of c d f rs = (case filter (\<lambda>(o', v). o' = c) rs of [] \<Rightarrow> d | xs \<Rightarrow> f (snd (last xs)))"

lemma last_of_simps: "last_of c d f [] = d" "last_of c d f ((o', v) # rs) = (if o' = c then last_of c (f v) f rs else last_of c d f rs)"
  by (auto simp: last_of_def split: list.split)

lemma parse_options_last:
  "\<forall>(c, v) \<in> set rs. c \<in> {CHR ''d'', CHR ''s'', CHR ''l'', CHR ''j''} \<Longrightarrow>
   parse_options (rs @ rest) s = parse_options rest \<lparr>duration_sec = last_of (CHR ''d'') (duration_sec s) atoi rs, opt_symbol = last_of (CHR ''s'') (opt_symbol s) id rs,
     opt_log = last_of (CHR ''l'') (opt_log s) id rs, opt_journal = last_of (CHR ''j'') (opt_journal s) id rs\<rparr>"
proof (induction rs arbitrary: s)
  case Nil
  then show ?case by (cases s) (simp add: last_of_simps)
next
  case (Cons r rs)
  then show ?case by (cases r) (auto simp: last_of_simps)
qed

lemma item_results_known: "item_ok it \<Longrightarrow> (c, v) \<in> set (item_results it) \<Longrightarrow> c \<in> {CHR ''d'', CHR ''s'', CHR ''l'', CHR ''j''}"
  by (cases it) (auto simp: long_options_def)

lemma getopts_items: "\<forall>it \<in> set items. item_ok it \<Longrightarrow> getopts [] (concat (map item_words items) @ ws) = concat (map item_results items) @ getopts [] ws"
  by (induction items) (simp_all add: getopts_item)

text \<open>The words at which \<open>getopt_long\<close> gives up, with its diagnostic: an unknown letter, an unknown long name, a letter whose argument is
  missing.\<close>

definition wrong_word :: "string \<Rightarrow> string list \<Rightarrow> string \<Rightarrow> bool" where
  "wrong_word w ws diagnostic \<longleftrightarrow>
     (\<exists>c cs. w = CHR ''-'' # c # cs \<and> c \<noteq> CHR ''-'' \<and> c \<notin> {CHR ''d'', CHR ''s'', CHR ''l'', CHR ''j'', CHR ''h''} \<and> diagnostic = ''invalid option -- '' @ [CHR 0x27, c, CHR 0x27])
   \<or> (\<exists>name. w = ''--'' @ name \<and> (\<forall>n \<in> {''duration'', ''symbol'', ''log'', ''journal'', ''help''}. takeWhile (\<lambda>c. c \<noteq> CHR ''='') name \<noteq> take (length (takeWhile (\<lambda>c. c \<noteq> CHR ''='') name)) n)
        \<and> diagnostic = ''unrecognized option '' @ [CHR 0x27] @ w @ [CHR 0x27])
   \<or> (\<exists>c \<in> {CHR ''d'', CHR ''s'', CHR ''l'', CHR ''j''}. w = [CHR ''-'', c] \<and> ws = [] \<and> diagnostic = ''option requires an argument -- '' @ [CHR 0x27, c, CHR 0x27])"

lemma getopts_wrong: "wrong_word w ws t \<Longrightarrow> getopts [] (w # ws) = bad_option t"
  unfolding wrong_word_def
proof (elim disjE exE conjE bexE, goal_cases)
  case (1 c cs)
  then show ?case by (simp add: is_prefix_def short_option_def quoted_def)
next
  case (2 name)
  let ?n = "takeWhile (\<lambda>c. c \<noteq> CHR ''='') name"
  have none: "filter (\<lambda>(n, _). is_prefix ?n n) long_options = []" using 2(2) by (auto simp: long_options_def is_prefix_def)
  have "map_of long_options ?n = None"
  proof (rule ccontr)
    assume "map_of long_options ?n \<noteq> None"
    then obtain r where "(?n, r) \<in> set long_options" using map_of_SomeD by fastforce
    then have "(?n, r) \<in> set (filter (\<lambda>(n, _). is_prefix ?n n) long_options)" by (simp add: is_prefix_def)
    then show False using none by simp
  qed
  then have "find_long ?n = None" using none by (simp add: find_long_def)
  moreover have "name \<noteq> []" using 2(2) by auto
  ultimately show ?case using 2(1,3) none by (simp add: is_prefix_def unknown_long_def quoted_def)
next
  case (3 c)
  then show ?case by (auto simp: is_prefix_def short_option_def quoted_def)
qed

text \<open>C23: the command line. Settings written as \<open>-d 5\<close>, \<open>-d5\<close>, \<open>--duration 5\<close> or \<open>--duration=5\<close>, the long name possibly cut short, in any
  order, repeated or mixed with words that are no options, are what the program runs with: the last value of each option counts, the
  others keep their defaults; what follows \<open>--\<close> does not count; a printed 32-bit number is read back as the duration. With \<open>-h\<close> or \<open>--help\<close> after
  them the program prints the usage text and returns 0. At an unknown letter, an unknown long name, or one of the letters d, s, l, j as the last word without its argument, it
  prints the usage text, with the diagnostic of \<open>getopt_long\<close> on the error stream, and returns 1. In these cases no file is opened or written.\<close>

theorem main_command_line:
  assumes "\<forall>it \<in> set items. item_ok it" and "rs = concat (map item_results items)" and "words = concat (map item_words items)"
  shows "main me prog words = main_run me \<lparr>duration_sec = last_of (CHR ''d'') 10 atoi rs, opt_symbol = last_of (CHR ''s'') ''AAPL'' id rs,
       opt_log = last_of (CHR ''l'') ''trading_engine.log'' id rs, opt_journal = last_of (CHR ''j'') ''trading_engine.jrnl'' id rs\<rparr>
    \<and> main me prog (words @ ''--'' # more_words) = main me prog words
    \<and> (- (2 ^ 31) \<le> d \<and> d < 2 ^ 31 \<longrightarrow> atoi (show_int d) = d)
    \<and> (w = ''-h'' \<or> w = ''--help'' \<longrightarrow> main me prog (words @ w # more_words)
         = Some \<lparr>exit_status = 0, out_text = print_usage prog, err_text = [], journal_file = None, log_file = None, gateway_file = None, logger_freed_running = False\<rparr>)
    \<and> (wrong_word w more_words diagnostic \<longrightarrow> main me prog (words @ w # more_words)
         = Some \<lparr>exit_status = 1, out_text = print_usage prog, err_text = prog @ '': '' @ diagnostic @ LF, journal_file = None, log_file = None, gateway_file = None,
             logger_freed_running = False\<rparr>)"
proof -
  have G: "getopt_long (words @ ws) = rs @ getopts [] ws" for ws using getopts_items [OF assms(1)] assms(2,3) by (simp add: getopt_long_def)
  have K: "\<forall>(c, v) \<in> set rs. c \<in> {CHR ''d'', CHR ''s'', CHR ''l'', CHR ''j''}" using assms(1,2) item_results_known by fastforce
  have "getopts [] (''-h'' # more_words) = (CHR ''h'', []) # getopts [] more_words" "getopts [] (''--help'' # more_words) = (CHR ''h'', []) # getopts [] more_words"
    by (simp_all add: is_prefix_def short_option_def find_long_def long_options_def)
  then have usage: "parse_options (getopt_long (words @ w # more_words)) default_settings = Inl 0" if "w = ''-h'' \<or> w = ''--help''"
    using that by (auto simp only: G parse_options_last [OF K]) simp_all
  have bad: "parse_options (getopt_long (words @ w # more_words)) default_settings = Inl 1" "snd (last (getopt_long (words @ w # more_words))) = diagnostic"
    if "wrong_word w more_words diagnostic"
    using getopts_wrong [OF that] by (simp_all only: G parse_options_last [OF K]) (simp_all add: bad_option_def)
  have dash: "getopt_long (words @ ''--'' # more_words) = getopt_long words" using G [of "''--'' # more_words"] G [of "[]"] by simp
  have "main me prog words = main_run me \<lparr>duration_sec = last_of (CHR ''d'') 10 atoi rs, opt_symbol = last_of (CHR ''s'') ''AAPL'' id rs,
       opt_log = last_of (CHR ''l'') ''trading_engine.log'' id rs, opt_journal = last_of (CHR ''j'') ''trading_engine.jrnl'' id rs\<rparr>"
    using G [of "[]"] parse_options_last [OF K, of "[]"] by (simp add: main_def default_settings_def)
  moreover have "main me prog (words @ ''--'' # more_words) = main me prog words" by (simp add: main_def dash)
  ultimately show ?thesis using usage bad by (auto simp: main_def atoi_show_int in_s32_def)
qed

theorem main_command_line_witness:
  "main ex_me ''trading_engine'' [''-d'', ''5'', ''extra'', ''--sym=MSFT'', ''-d30'']
     = main_run ex_me \<lparr>duration_sec = 30, opt_symbol = ''MSFT'', opt_log = ''trading_engine.log'', opt_journal = ''trading_engine.jrnl''\<rparr>
   \<and> exit_status (the (main ex_me ''trading_engine'' [''-d'', ''5'', ''extra'', ''--sym=MSFT'', ''-d30'', ''--help''])) = 0
   \<and> err_text (the (main ex_me ''trading_engine'' [''-d'', ''5'', ''extra'', ''--sym=MSFT'', ''-d30'', ''-x'', ''-h'']))
       = ''trading_engine: invalid option -- '' @ [CHR 0x27, CHR ''x'', CHR 0x27] @ LF"
proof -
  let ?items = "[Setting ShortSep ''duration'' (CHR ''d'') ''5'', Operand ''extra'', Setting LongEq ''sym'' (CHR ''s'') ''MSFT'', Setting ShortAttached ''duration'' (CHR ''d'') ''30'']"
  have ok: "\<forall>it \<in> set ?items. item_ok it" by (simp add: long_options_def is_prefix_def)
  have n: "atoi ''30'' = 30" by code_simp
  have x: "wrong_word ''-x'' [''-h''] (''invalid option -- '' @ [CHR 0x27, CHR ''x'', CHR 0x27])" by (simp add: wrong_word_def)
  from main_command_line [OF ok refl refl, of ex_me "''trading_engine''" "[]" 0 "''--help''" undefined] x
    main_command_line [OF ok refl refl, of ex_me "''trading_engine''" "[''-h'']" 0 "''-x''" "''invalid option -- '' @ [CHR 0x27, CHR ''x'', CHR 0x27]"]
  show ?thesis by (simp add: n last_of_simps)
qed

section \<open>Failing to come up\<close>

text \<open>C22: a start that fails. When the pipeline cannot be initialised, or one of its threads cannot be created,
  \<open>main\<close> returns 1 with a message that says which of the two it was; when the journal had been opened, it is closed, and its
  file begins with everything it held before, extended with zero bytes to 256 MB if it was shorter. But unless it was the logger that could
  not be created, the destructor frees the logger while its thread still runs, and of the messages in its queue, the one about the failure
  among them, the log file may hold none.\<close>

theorem main_start_failure:
  assumes "parse_options (getopt_long args) default_settings = Inr s" and "os_ok (me_os me)" and "fstat_ok (me_os me)"
    and "length (me_file me (opt_journal s)) \<le> 2 ^ 62"
    and "pl_init (me_init me) (opt_symbol s) (opt_log s) = Some (Inl u) \<and> pools_fit (me_init me) \<and> why = ''initialization'' \<and> no_logger = (un_logger u = None)
       \<or> env_ok (me_init me) (opt_log s) \<and> me_threads me \<noteq> (True, True, True) \<and> why = ''start'' \<and> no_logger = False"
  shows "\<exists>res. main me prog args = Some res \<and> exit_status res = 1
    \<and> err_text res = journal_warning s (journal_file res \<noteq> None) @ (if no_logger then ''EventPipeline: failed to initialize logger'' @ LF else [])
        @ ''FATAL: Pipeline '' @ why @ '' failed'' @ LF
    \<and> (case journal_open (me_os me) (me_file me (opt_journal s)) True of
         None \<Rightarrow> journal_file res = None
       | Some j \<Rightarrow> journal_file res = Some (me_file me (opt_journal s) @ replicate (2 ^ 28 - length (me_file me (opt_journal s))) 0))
    \<and> logger_freed_running res = (\<not> no_logger)
    \<and> (no_logger \<longrightarrow> log_file res = None)
    \<and> (\<not> no_logger \<and> cstr (opt_log s) \<noteq> ''-'' \<longrightarrow> (\<exists>old t. ie_fopen (me_init me) (cstr (opt_log s)) = Some old \<and> log_file res = Some t
         \<and> prefix old t \<and> (me_polls me = 0 \<longrightarrow> t = old)))"
proof -
  let ?f = "me_file me (opt_journal s)" and ?j = "journal_open (me_os me) (me_file me (opt_journal s)) True"
  have closed: "journal_close (me_os me) j = ?f @ replicate (2 ^ 28 - length ?f) 0" if o: "?j = Some j" for j
  proof -
    have "journal_close (me_os me) j = content j"
      using journal_close_written [OF _ assms(2)] journal_open_written [OF o assms(4)] by fastforce
    also have "content j = ?f @ replicate (2 ^ 28 - length ?f) 0" using o assms(3,4)
      by (auto simp: journal_open_def Let_def ftruncate_def DEFAULT_MMAP_SIZE_def word_less_nat_alt unat_of_nat_u64 split: if_splits)
    finally show ?thesis .
  qed
  consider (init) "pl_init (me_init me) (opt_symbol s) (opt_log s) = Some (Inl u)" "pools_fit (me_init me)" "why = ''initialization''" "no_logger = (un_logger u = None)"
    | (start) "env_ok (me_init me) (opt_log s)" "me_threads me \<noteq> (True, True, True)" "why = ''start''" "\<not> no_logger" using assms(5) by blast
  then show ?thesis
  proof cases
    case init
    from destroy_unfinished_spec [OF init(1,2), of "me_time_text me" "me_polls me"] obtain lg gw left where
      d: "destroy_unfinished (me_time_text me) (me_polls me) u = Some (lg, gw, left)"
        "if un_logger u = None then lg = None \<and> \<not> left else freed_running (me_init me) (cstr (opt_log s)) (me_polls me) lg left" by blast
    show ?thesis using assms(1) closed init d(1) d(2) [unfolded freed_running_def]
      by (cases "un_logger u = None") (simp_all add: main_def main_run_def engine_boot_def Let_def split: option.split)
  next
    case start
    obtain a b c where th: "me_threads me = (a, b, c)" by (cases "me_threads me") auto
    then have bad: "\<not> (a \<and> b \<and> c)" using start(2) by auto
    obtain p where p: "pl_init (me_init me) (opt_symbol s) (opt_log s) = Some (Inr p)" using pl_init_ok [OF start(1), of "opt_symbol s"] by auto
    from destroy_started_spec [OF start(1) p bad refl, of "ie_now (me_init me)" ?j "me_time_text me" "me_polls me"] obtain q lg gw left where
      q: "pl_start a b c (ie_now (me_init me)) (if ?j \<noteq> None then set_journal ?j p else p) = Some (-1, q)"
        "destroy_started (me_time_text me) (me_polls me) q = Some (lg, gw, left)" "freed_running (me_init me) (cstr (opt_log s)) (me_polls me) lg left" by blast
    have "engine_boot (me_init me) (me_os me) ?f (me_threads me) s = Some (Inl (START_FAILED q, map_option (journal_close (me_os me)) ?j))"
      using q(1) by (simp add: engine_boot_def Let_def p th)
    then show ?thesis using assms(1) closed start(3,4) q(2,3) by (simp add: main_def main_run_def Let_def freed_running_def split: option.split)
  qed
qed

theorem main_start_failure_witness:
  "\<exists>res. main (ex_me\<lparr>me_threads := (True, False, True)\<rparr>) ''trading_engine'' [] = Some res \<and> exit_status res = 1
    \<and> journal_file res = Some (replicate (2 ^ 28) 0) \<and> logger_freed_running res \<and> log_file res = Some []"
proof -
  let ?me = "ex_me\<lparr>me_threads := (True, False, True)\<rparr>"
  have parse: "parse_options (getopt_long []) default_settings = Inr default_settings" by code_simp
  have os: "os_ok (me_os ?me)" "fstat_ok (me_os ?me)" "length (me_file ?me (opt_journal default_settings)) \<le> 2 ^ 62"
    by (simp_all add: ex_me_def os_ok_def ex_os_def full_writes_def)
  have why: "pl_init (me_init ?me) (opt_symbol default_settings) (opt_log default_settings) = Some (Inl undefined) \<and> pools_fit (me_init ?me) \<and> ''start'' = ''initialization''
         \<and> False = (un_logger undefined = None)
       \<or> env_ok (me_init ?me) (opt_log default_settings) \<and> me_threads ?me \<noteq> (True, True, True) \<and> ''start'' = ''start'' \<and> False = False"
    using ex_env_ok by (simp add: ex_me_def)
  obtain j where j: "journal_open ex_os [] True = Some j" by (simp add: journal_open_def ex_os_def Let_def)
  have path: "cstr (opt_log default_settings) \<noteq> ''-''" "ie_fopen ex_env x = Some []" for x by (simp_all add: default_settings_def cstr_def NUL_def ex_env_def)
  from main_start_failure [OF parse os why, of "''trading_engine''"] j path show ?thesis by (auto simp: ex_me_def simp del: replicate.simps)
qed

end
