(* ===== verification/Hot_Steps.thy ===== *)
theory Hot_Steps
  imports Engine_Properties
begin

text \<open>
  The two threads of the pipeline in small steps. An iteration of \<open>consumer_loop\<close> and one of \<open>io_loop\<close> take many accesses to
  the queues between them, and the threads run at the same time; here an iteration is a sequence of tasks with at most one
  access to a shared queue each, in the order of the code.

  A task of the hot path works on the pipeline and leaves further tasks that come next. Between two
  accesses to the event channel the hot path works on fields that no other thread touches (book, risk engine, counters), so these parts
  are one step, and so is the release of a message to the feed's pool. These definitions repeat what \<open>process_market_data\<close> and \<open>process_order\<close> have
  as one function; the last lemma checks that the steps of an iteration, taken together, are that iteration.
\<close>

section \<open>The hot path\<close>

datatype hot_task =
    Submit clock order
  | Post "io_event \<Rightarrow> io_event"
  | Fill ptr "io_event \<Rightarrow> io_event"
  | Report order double
  | PostTrade trade
  | Settle order double
  | Release address u64 u64

text \<open>Validating an order and submitting it to the book, up to the first event.\<close>

definition submit :: "clock \<Rightarrow> order \<Rightarrow> event_pipeline \<Rightarrow> hot_task list \<times> event_pipeline" where
  "submit clk ord p0 =
     (let p = count (\<lambda>s. s\<lparr>orders_created := orders_created s + 1\<rparr>) p0;
          mid = mid_price (p_book p);
          (accepted, e) = validate (clock_sec clk) ord mid (p_risk p);
          p = p\<lparr>p_risk := e\<rparr>
      in if \<not> accepted then
           ([Post (reject_event ord (last_reject e))], count (\<lambda>s. s\<lparr>orders_rejected := orders_rejected s + 1\<rparr>) p)
         else
           let p = count (\<lambda>s. s\<lparr>orders_accepted := orders_accepted s + 1\<rparr>) p;
               (result, b) = add_order (clock_trade clk) ord (p_book p);
               p = p\<lparr>p_book := b\<rparr>;
               send = (status result = NEW \<or> status result = PARTIAL);
               (r, buf) = (if send then gateway_line result else (-1, None));
               msg = (case buf of None \<Rightarrow> '''' | Some m \<Rightarrow> m);
               ok = (send \<and> r = 0);
               len = (if ok then of_nat (length (cstr msg)) else 0);
               p = (if ok then count (\<lambda>s. s\<lparr>orders_executed := orders_executed s + 1\<rparr>) p else p)
           in ([Post (result_event result send msg len), Report result mid], p))"

definition settle :: "order \<Rightarrow> double \<Rightarrow> risk_engine \<Rightarrow> risk_engine" where
  "settle result mid e = (if 0 < filled_qty result
     then on_order_executed result (filled_qty result) (if d_lt 0 (price result) then price result else mid) e else e)"

fun hot_task_step :: "hot_task \<Rightarrow> event_pipeline \<Rightarrow> (hot_task list \<times> event_pipeline) option" where
  "hot_task_step (Submit clk ord) p = Some (submit clk ord p)"
| "hot_task_step (Post f) p = map_option (\<lambda>(a, c). let p = p\<lparr>io_chan := c\<rparr> in
     if a = 0 then ([], count (\<lambda>s. s\<lparr>io_events_dropped := io_events_dropped s + 1\<rparr>) p) else ([Fill a f], p)) (chan_take (io_chan p))"
| "hot_task_step (Fill a f) p = map_option (\<lambda>c. ([], p\<lparr>io_chan := c\<rparr>)) (chan_publish a f (io_chan p))"
| "hot_task_step (Report result mid) p = (case drain_trades (p_book p) of (ts, b) \<Rightarrow>
     Some (map PostTrade ts @ [Settle result mid], p\<lparr>p_book := b\<rparr>))"
| "hot_task_step (PostTrade t) p = Some ([Post (trade_event t)], count (\<lambda>s. s\<lparr>trades_generated := trades_generated s + 1\<rparr>) p)"
| "hot_task_step (Settle result mid) p = Some ([], p\<lparr>p_risk := settle result mid (p_risk p)\<rparr>)"
| "hot_task_step (Release a t0 t1) p = (case feed_return_msg (Some (p_feed p)) a of
     Some (Some fh) \<Rightarrow> Some ([], count (update_latency t0 t1) (p\<lparr>p_feed := fh\<rparr>)) | _ \<Rightarrow> None)"

text \<open>The beginning of an iteration: the next message and its orders.\<close>

definition hot_begin :: "(nat \<Rightarrow> clock) \<Rightarrow> u64 \<Rightarrow> u64 \<Rightarrow> event_pipeline \<Rightarrow> (hot_task list \<times> event_pipeline) option" where
  "hot_begin clk t0 t1 p = map_option (\<lambda>(a, fh). let p = p\<lparr>p_feed := fh\<rparr> in
     if a = 0 then ([], p)
     else let m = msgs (p_feed p) a;
              p = count (\<lambda>s. s\<lparr>market_data_msgs := market_data_msgs s + 1\<rparr>) p;
              (ords, p) = strategy_on_market_data m p
          in (map (\<lambda>(k, ord). Submit (clk k) ord) (enumerate 0 ords) @ [Release a t0 t1], p)) (feed_pop (p_feed p))"

section \<open>The I/O path\<close>

datatype io_task = IoIdle | IoHandle ptr | IoRecycle ptr

fun io_task_step :: "io_env \<Rightarrow> io_task \<Rightarrow> event_pipeline \<Rightarrow> (io_task \<times> event_pipeline) option" where
  "io_task_step env IoIdle p = map_option (\<lambda>(a, c). (if a = 0 then IoIdle else IoHandle a, p\<lparr>io_chan := c\<rparr>)) (chan_next (io_chan p))"
| "io_task_step env (IoHandle a) p = map_option (Pair (IoRecycle a)) (process_io_event env (entries (io_chan p) a) p)"
| "io_task_step env (IoRecycle a) p = map_option (\<lambda>c. (IoIdle, p\<lparr>io_chan := c\<rparr>)) (chan_recycle a (\<lambda>e. e) (io_chan p))"

section \<open>The small steps of an iteration are the iteration\<close>

inductive tasks_run :: "hot_task list \<Rightarrow> event_pipeline \<Rightarrow> event_pipeline \<Rightarrow> bool" where
  no_task: "tasks_run [] p p"
| next_task: "hot_task_step t p = Some (new, p1) \<Longrightarrow> tasks_run (new @ ts) p1 p' \<Longrightarrow> tasks_run (t # ts) p p'"

inductive_cases no_taskE: "tasks_run [] p p'"
inductive_cases next_taskE: "tasks_run (t # ts) p p'"

lemma tasks_run_det: "tasks_run ts p p1 \<Longrightarrow> tasks_run ts p p2 \<Longrightarrow> p2 = p1"
proof (induction arbitrary: p2 rule: tasks_run.induct)
  case (next_task t p new p1 ts p')
  from next_task.prems next_task.hyps(1) have "tasks_run (new @ ts) p1 p2" by (auto elim: next_taskE)
  then show ?case by (rule next_task.IH)
qed (auto elim: no_taskE)

lemma tasks_run_append: "tasks_run ts p p1 \<Longrightarrow> tasks_run us p1 p2 \<Longrightarrow> tasks_run (ts @ us) p p2"
proof (induction rule: tasks_run.induct)
  case (next_task t p new p1 ts p')
  then have "tasks_run (new @ ts @ us) p1 p2" by simp
  then show ?case using next_task.hyps(1) by (auto intro: tasks_run.next_task)
qed simp

lemma tasks_run_one: "hot_task_step t p = Some (new, p1) \<Longrightarrow> tasks_run new p1 p' \<Longrightarrow> tasks_run [t] p p'"
  by (auto intro: tasks_run.next_task)

lemma tasks_run_Cons: "tasks_run [t] p p1 \<Longrightarrow> tasks_run ts p1 p2 \<Longrightarrow> tasks_run (t # ts) p p2"
  using tasks_run_append [of "[t]" p p1 ts p2] by simp

lemma emit_tasks: "emit f p = Some p' \<Longrightarrow> tasks_run [Post f] p p'"
proof -
  assume e: "emit f p = Some p'"
  then obtain a c where t: "chan_take (io_chan p) = Some (a, c)" by (auto simp: emit_def chan_send_def split: option.splits)
  show ?thesis
  proof (cases "a = 0")
    case True
    then show ?thesis using e t by (intro tasks_run_one [of "Post f" p "[]"]) (auto simp: emit_def chan_send_def Let_def intro: no_task)
  next
    case False
    then obtain c' where "chan_publish a f c = Some c'" "p' = p\<lparr>io_chan := c'\<rparr>" using e t by (auto simp: emit_def chan_send_def Let_def)
    then have "tasks_run [Fill a f] (p\<lparr>io_chan := c\<rparr>) p'" by (intro tasks_run_one [of "Fill a f" _ "[]"]) (auto intro: no_task)
    then show ?thesis using t False by (intro tasks_run_one [of "Post f" p "[Fill a f]"]) (auto simp: Let_def)
  qed
qed

lemma emit_trades_tasks: "emit_trades ts p = Some p' \<Longrightarrow> tasks_run (map PostTrade ts) p p'"
proof (induction ts arbitrary: p)
  case (Cons t ts)
  then obtain p1 where 1: "emit (trade_event t) (count (\<lambda>s. s\<lparr>trades_generated := trades_generated s + 1\<rparr>) p) = Some p1" "emit_trades ts p1 = Some p'"
    by (auto split: option.splits)
  have "tasks_run [PostTrade t] p p1" using emit_tasks [OF 1(1)] by (intro tasks_run_one [of "PostTrade t"]) auto
  then show ?case using Cons.IH [OF 1(2)] by (auto intro: tasks_run_Cons)
qed (auto intro: no_task)

text \<open>\<open>process_order\<close> is \<open>submit\<close> and then its tasks.\<close>

lemma process_order_cases:
  "process_order clk ord p = (case submit clk ord p of
     ([Post f], q) \<Rightarrow> emit f q
   | ([Post f, Report res mid], q) \<Rightarrow> (case emit f q of None \<Rightarrow> None | Some q \<Rightarrow> (case drain_trades (p_book q) of (ts, b) \<Rightarrow>
       map_option (\<lambda>q. q\<lparr>p_risk := settle res mid (p_risk q)\<rparr>) (emit_trades ts (q\<lparr>p_book := b\<rparr>)))))"
proof -
  let ?p = "count (\<lambda>s. s\<lparr>orders_created := orders_created s + 1\<rparr>) p"
  obtain ok e where v: "validate (clock_sec clk) ord (mid_price (p_book ?p)) (p_risk ?p) = (ok, e)" by fastforce
  let ?q = "count (\<lambda>s. s\<lparr>orders_accepted := orders_accepted s + 1\<rparr>) (?p\<lparr>p_risk := e\<rparr>)"
  obtain res b where a: "add_order (clock_trade clk) ord (p_book ?q) = (res, b)" by fastforce
  obtain r buf where g: "gateway_line res = (r, buf)" by fastforce
  show ?thesis
  proof (cases ok)
    case False
    then show ?thesis by (simp add: process_order_def submit_def Let_def v)
  next
    case True
    then show ?thesis
      by (cases "0 < filled_qty res")
        (simp_all add: process_order_def submit_def Let_def v a g settle_def split: option.split prod.split split del: if_split)
  qed
qed

lemma process_order_tasks:
  assumes "process_order clk ord p = Some p'"
  shows "tasks_run [Submit clk ord] p p'"
proof -
  obtain new q where s: "submit clk ord p = (new, q)" by fastforce
  then consider (rejected) f where "new = [Post f]" | (accepted) f res mid where "new = [Post f, Report res mid]"
    by (auto simp: submit_def Let_def split: prod.splits if_splits)
  then have "tasks_run new q p'"
  proof cases
    case rejected
    then show ?thesis using assms s emit_tasks by (simp add: process_order_cases)
  next
    case accepted
    then obtain q1 ts b q2 where q: "emit f q = Some q1" "drain_trades (p_book q1) = (ts, b)" "emit_trades ts (q1\<lparr>p_book := b\<rparr>) = Some q2"
        "p' = q2\<lparr>p_risk := settle res mid (p_risk q2)\<rparr>"
      using assms s by (auto simp: process_order_cases split: prod.splits option.splits)
    have "tasks_run [Settle res mid] q2 p'" using q(4) by (intro tasks_run_one [of _ _ "[]"]) (auto intro: no_task)
    then have "tasks_run (map PostTrade ts @ [Settle res mid]) (q1\<lparr>p_book := b\<rparr>) p'" by (rule tasks_run_append [OF emit_trades_tasks [OF q(3)]])
    then have "tasks_run [Report res mid] q1 p'" using q(2) by (intro tasks_run_one [of "Report res mid"]) auto
    with emit_tasks [OF q(1)] show ?thesis using accepted by (auto intro: tasks_run_Cons)
  qed
  then show ?thesis using s by (auto intro: tasks_run_one)
qed

lemma process_orders_tasks:
  "process_orders clk k ords p = Some p' \<Longrightarrow> tasks_run (map (\<lambda>(k, ord). Submit (clk k) ord) (enumerate k ords)) p p'"
proof (induction ords arbitrary: k p)
  case (Cons ord ords)
  then obtain p1 where "process_order (clk k) ord p = Some p1" "process_orders clk (Suc k) ords p1 = Some p'" by (auto split: option.splits)
  then show ?case using tasks_run_Cons [OF process_order_tasks Cons.IH] by simp
qed (auto intro: no_task)

lemma consumer_poll_tasks:
  assumes "consumer_poll clk t0 t1 p = Some p'"
  shows "\<exists>ts p1. hot_begin clk t0 t1 p = Some (ts, p1) \<and> tasks_run ts p1 p'"
proof -
  obtain a fh where a: "feed_pop (p_feed p) = Some (a, fh)" "process_market_data clk t0 t1 a (p\<lparr>p_feed := fh\<rparr>) = Some p'"
    using assms by (auto simp: consumer_poll_def split: option.splits)
  show ?thesis
  proof (cases "a = 0")
    case True
    then show ?thesis using a by (auto simp: hot_begin_def process_market_data_def Let_def intro: no_task)
  next
    case False
    obtain ords q where st: "strategy_on_market_data (msgs fh a) (count (\<lambda>s. s\<lparr>market_data_msgs := market_data_msgs s + 1\<rparr>) (p\<lparr>p_feed := fh\<rparr>)) = (ords, q)" by fastforce
    then obtain q1 fh1 where q: "process_orders clk 0 ords q = Some q1" "feed_return_msg (Some (p_feed q1)) a = Some (Some fh1)"
        "p' = count (update_latency t0 t1) (q1\<lparr>p_feed := fh1\<rparr>)"
      using a(2) False by (auto simp: process_market_data_def Let_def split: option.splits)
    have "tasks_run [Release a t0 t1] q1 p'" using q(2,3) by (intro tasks_run_one [of _ _ "[]"]) (auto intro: no_task)
    with process_orders_tasks [OF q(1)] show ?thesis using a(1) False st by (auto simp: hot_begin_def Let_def intro: tasks_run_append)
  qed
qed

text \<open>The steps against the iterations of \<open>Event_Pipeline\<close>, a check that the two versions agree: an iteration of the hot path, taken apart into
  its tasks and run without interruption, has exactly one result, that of \<open>consumer_poll\<close>; and the three steps of the I/O thread make one
  \<open>io_poll\<close>.\<close>

lemma small_steps_are_iterations:
  "(consumer_poll clk t0 t1 p = Some p' \<longrightarrow>
     (\<exists>ts p1. hot_begin clk t0 t1 p = Some (ts, p1) \<and> (\<forall>p2. tasks_run ts p1 p2 \<longleftrightarrow> p2 = p')))
   \<and> io_poll env p = Option.bind (io_task_step env IoIdle p) (\<lambda>(t, p1). if t = IoIdle then Some p1
       else Option.bind (io_task_step env t p1) (\<lambda>(t, p2). map_option snd (io_task_step env t p2)))"
proof
  show "consumer_poll clk t0 t1 p = Some p' \<longrightarrow>
     (\<exists>ts p1. hot_begin clk t0 t1 p = Some (ts, p1) \<and> (\<forall>p2. tasks_run ts p1 p2 \<longleftrightarrow> p2 = p'))"
    using consumer_poll_tasks [of clk t0 t1 p p'] tasks_run_det by (metis (no_types))
  show "io_poll env p = Option.bind (io_task_step env IoIdle p) (\<lambda>(t, p1). if t = IoIdle then Some p1
       else Option.bind (io_task_step env t p1) (\<lambda>(t, p2). map_option snd (io_task_step env t p2)))"
    by (auto simp: io_poll_def option.map_comp comp_def split: option.splits)
qed

lemma small_steps_are_iterations_example:
  "\<exists>en p p' ts p1. engine_boot ex_env ex_os [] (True, True, True) default_settings = Some (Inr en) \<and> pl_run (\<lambda>_. ''t'') [FeedTick 9] (en_pipe en) = Some p
    \<and> consumer_poll ex_clock 1 2 p = Some p' \<and> hot_begin ex_clock 1 2 p = Some (ts, p1) \<and> tasks_run ts p1 p'"
proof -
  have "0 + ticks [FeedTick 9, HotTick ex_clock 1 2] < 2 ^ 30" "0 + length [FeedTick 9, HotTick ex_clock 1 2] < 2 ^ 56" by simp_all
  from engine_starts_spec [OF ex_env_ok _ this, of "[]" ex_os] obtain en where
    en: "engine_boot ex_env ex_os [] (True, True, True) default_settings = Some (Inr en)"
      "pl_inv (opt_symbol default_settings) (0 + ticks [FeedTick 9, HotTick ex_clock 1 2]) (0 + length [FeedTick 9, HotTick ex_clock 1 2]) (en_pipe en)" "balanced (en_pipe en)"
    by auto
  from pl_run_inv [OF en(2,3), of "\<lambda>_. ''t''"] obtain p p' where
    p: "pl_run (\<lambda>_. ''t'') [FeedTick 9] (en_pipe en) = Some p" "consumer_poll ex_clock 1 2 p = Some p'" by (auto split: option.splits)
  with small_steps_are_iterations [of ex_clock 1 2 p p'] en(1) show ?thesis by blast
qed

end
