(* ===== verification/Overlap.thy ===== *)
theory Overlap
  imports Hot_Steps
begin

text \<open>
  The engine with its threads truly at the same time: feed, hot path, I/O thread and logger take turns after every small
  step, in any order. Whatever the interleaving, the trading is that of a sequential hot path on the same messages, and the
  events reach the journal in order, each once, except those counted as dropped.

  A step of the hot path or the I/O thread makes at most one access to a ring or pool, as a whole; an iteration of the feed or the
  logger is one step. For the rings this is what \<open>Ring_Concurrent\<close> justifies; for the feed's
  message pool it excludes the schedules of \<open>Memory_Pool\<close> in which an allocation and a release meet.
\<close>

section \<open>The system\<close>

text \<open>\<open>ov_traded\<close> and \<open>ov_trail\<close> record what has happened: the messages that the hot path has begun, with the clock readings for their
  orders, and the events that the I/O thread has processed.\<close>

record overlap =
  ov_pipe :: event_pipeline
  ov_hot :: "hot_task list"
  ov_io :: io_task
  ov_traded :: "((nat \<Rightarrow> clock) \<times> feed_msg) list"
  ov_trail :: "io_view list"

datatype ov_op = FeedStep u64 | HotStep "nat \<Rightarrow> clock" u64 u64 | IoStep io_env | LogStep

fun ov_step :: "(u64 \<Rightarrow> string) \<Rightarrow> ov_op \<Rightarrow> overlap \<Rightarrow> overlap option" where
  "ov_step tt (FeedStep now) s = map_option (\<lambda>fh. s\<lparr>ov_pipe := (ov_pipe s)\<lparr>p_feed := fh\<rparr>\<rparr>) (feed_sim_step now (p_feed (ov_pipe s)))"
| "ov_step tt (HotStep clk t0 t1) s = (case ov_hot s of
     [] \<Rightarrow> map_option (\<lambda>(ts, p). s\<lparr>ov_pipe := p, ov_hot := ts,
             ov_traded := ov_traded s @ (if ts = [] then [] else [(clk, hd (feed_queued (p_feed (ov_pipe s))))])\<rparr>) (hot_begin clk t0 t1 (ov_pipe s))
   | t # ts \<Rightarrow> map_option (\<lambda>(new, p). s\<lparr>ov_pipe := p, ov_hot := new @ ts\<rparr>) (hot_task_step t (ov_pipe s)))"
| "ov_step tt (IoStep env) s = map_option (\<lambda>(t, p). s\<lparr>ov_pipe := p, ov_io := t,
     ov_trail := ov_trail s @ (case ov_io s of IoHandle a \<Rightarrow> [event_view (entries (io_chan (ov_pipe s)) a)] | _ \<Rightarrow> [])\<rparr>) (io_task_step env (ov_io s) (ov_pipe s))"
| "ov_step tt LogStep s = map_option (\<lambda>lg. s\<lparr>ov_pipe := (ov_pipe s)\<lparr>p_logger := lg\<rparr>\<rparr>) (logger_poll tt (p_logger (ov_pipe s)))"

fun ov_run :: "(u64 \<Rightarrow> string) \<Rightarrow> ov_op list \<Rightarrow> overlap \<Rightarrow> overlap option" where
  "ov_run tt [] s = Some s"
| "ov_run tt (op # ops) s = Option.bind (ov_step tt op s) (ov_run tt ops)"

definition ov_start :: "event_pipeline \<Rightarrow> overlap" where
  "ov_start p = \<lparr>ov_pipe = p, ov_hot = [], ov_io = IoIdle, ov_traded = [], ov_trail = []\<rparr>"

fun feed_steps :: "ov_op list \<Rightarrow> nat" where
  "feed_steps [] = 0"
| "feed_steps (FeedStep now # ops) = Suc (feed_steps ops)"
| "feed_steps (_ # ops) = feed_steps ops"

section \<open>The sequential reference\<close>

text \<open>All decisions on a list of messages, one message after the other: the events made, the next order id, book and positions.\<close>

definition decide_message :: "(nat \<Rightarrow> clock) \<times> feed_msg \<Rightarrow> io_view list \<times> int \<times> order_book \<times> risk_engine \<Rightarrow> io_view list \<times> int \<times> order_book \<times> risk_engine" where
  "decide_message = (\<lambda>(clk, m) (made, i, b, e). case decide_all clk 0 (spec_orders i m) (b, e) of (vs, ds, b', e') \<Rightarrow> (made @ vs, i + 2, b', e'))"

definition decide_messages :: "string \<Rightarrow> ((nat \<Rightarrow> clock) \<times> feed_msg) list \<Rightarrow> io_view list \<times> int \<times> order_book \<times> risk_engine" where
  "decide_messages sy ms = fold decide_message ms ([], 1, new_book sy, set_limits pipeline_limits new_risk_engine)"

lemma decide_messages_snoc: "decide_messages sy (ms @ [x]) = decide_message x (decide_messages sy ms)"
  by (simp add: decide_messages_def)

section \<open>What the remaining tasks will do\<close>

fun owed :: "hot_task list \<Rightarrow> order_book \<times> risk_engine \<Rightarrow> io_view list \<times> order_book \<times> risk_engine" where
  "owed [] be = ([], be)"
| "owed (Submit clk ord # ts) be = (let d = decide clk ord be; (vs, be') = owed ts (snd d) in (decision_views ord d @ vs, be'))"
| "owed (Post f # ts) be = (case owed ts be of (vs, be') \<Rightarrow> (event_view (f zero_event) # vs, be'))"
| "owed (Fill a f # ts) be = (case owed ts be of (vs, be') \<Rightarrow> (event_view (f zero_event) # vs, be'))"
| "owed (Report res mid # ts) be = (let (trs, b) = drain_trades (fst be); (vs, be') = owed ts (b, settle res mid (snd be)) in (map trade_view trs @ vs, be'))"
| "owed (PostTrade t # ts) be = (case owed ts be of (vs, be') \<Rightarrow> (trade_view t # vs, be'))"
| "owed (Settle res mid # ts) be = owed ts (fst be, settle res mid (snd be))"
| "owed (Release a t0 t1 # ts) be = owed ts be"

text \<open>The entries and messages in the hands of the hot path, and the entry in the hands of the I/O thread.\<close>

fun task_entries :: "hot_task \<Rightarrow> ptr list" where
  "task_entries (Fill a f) = [a]"
| "task_entries _ = []"

fun task_msgs :: "hot_task \<Rightarrow> address list" where
  "task_msgs (Release a t0 t1) = [a]"
| "task_msgs _ = []"

definition hot_entries :: "hot_task list \<Rightarrow> ptr list" where
  "hot_entries ts = concat (map task_entries ts)"

definition hot_msgs :: "hot_task list \<Rightarrow> address list" where
  "hot_msgs ts = concat (map task_msgs ts)"

fun io_entries :: "io_task \<Rightarrow> ptr list" where
  "io_entries IoIdle = []"
| "io_entries (IoHandle a) = [a]"
| "io_entries (IoRecycle a) = [a]"

text \<open>The event that the I/O thread has taken and not yet processed.\<close>

fun io_hand :: "io_task \<Rightarrow> io_event channel \<Rightarrow> io_view list" where
  "io_hand (IoHandle a) c = [event_view (entries c a)]"
| "io_hand _ c = []"

definition same_view :: "(io_event \<Rightarrow> io_event) \<Rightarrow> bool" where
  "same_view f \<longleftrightarrow> (\<forall>e. event_view (f e) = event_view (f zero_event))"

fun task_ok :: "hot_task \<Rightarrow> bool" where
  "task_ok (Submit clk ord) \<longleftrightarrow> submittable ord \<and> \<not> is_nan (price ord)"
| "task_ok (Post f) \<longleftrightarrow> same_view f"
| "task_ok (Fill a f) \<longleftrightarrow> same_view f"
| "task_ok _ \<longleftrightarrow> True"

section \<open>The invariant\<close>

text \<open>The events in the system: processed, in the hand of the I/O thread and queued; \<open>kept\<close> are the events made so far, \<open>lost\<close> of them
  are missing.\<close>

definition flow_ok :: "io_view list \<Rightarrow> overlap \<Rightarrow> bool" where
  "flow_ok kept s \<longleftrightarrow> (let p = ov_pipe s; there = ov_trail s @ io_hand (ov_io s) (io_chan p) @ map event_view (queued (io_chan p)) in
     subseq there kept \<and> (\<exists>lost. length there + lost = length kept \<and> io_events_dropped (p_stats p) = of_nat lost))"

definition trades_ok :: "string \<Rightarrow> overlap \<Rightarrow> bool" where
  "trades_ok sy s \<longleftrightarrow> (\<exists>kept todo b e. owed (ov_hot s) (p_book (ov_pipe s), p_risk (ov_pipe s)) = (todo, b, e)
     \<and> decide_messages sy (ov_traded s) = (kept @ todo, next_order_id (ov_pipe s), b, e) \<and> flow_ok kept s)"

definition parts_ok :: "nat \<Rightarrow> nat \<Rightarrow> overlap \<Rightarrow> bool" where
  "parts_ok n m s \<longleftrightarrow> (let p = ov_pipe s in
     chan_ok (hot_entries (ov_hot s) @ io_entries (ov_io s)) (io_chan p) \<and> log_ok (p_logger p) \<and> journal_ok m (p_journal p)
     \<and> feed_ok (hot_msgs (ov_hot s)) (p_feed p) \<and> (\<forall>q \<in> set (feed_queued (p_feed p)). plausible q)
     \<and> d_within 2684354560 (sim_base_price (p_feed p)) 268435456000
     \<and> book_inv (p_book p) \<and> (\<forall>t \<in> set (ov_hot s). task_ok t)
     \<and> 1 \<le> next_order_id p \<and> next_order_id p + 2 * int (length (feed_queued (p_feed p)) + n) < 2 ^ 31)"

section \<open>A task of the hot path\<close>

text \<open>What a task keeps, and which events it leaves behind: of the events \<open>gone\<close> from those still owed, \<open>sent\<close> are queued and
  \<open>lost\<close> are counted as dropped. \<open>ys\<close> are the entries in the hands of the I/O thread.\<close>

definition kept_parts :: "ptr list \<Rightarrow> hot_task list \<Rightarrow> event_pipeline \<Rightarrow> event_pipeline \<Rightarrow> bool" where
  "kept_parts ys ts p p' \<longleftrightarrow> chan_ok (hot_entries ts @ ys) (io_chan p') \<and> (\<forall>q \<in> set ys. entries (io_chan p') q = entries (io_chan p) q)
     \<and> feed_ok (hot_msgs ts) (p_feed p') \<and> feed_queued (p_feed p') = feed_queued (p_feed p) \<and> sim_base_price (p_feed p') = sim_base_price (p_feed p)
     \<and> book_inv (p_book p') \<and> (\<forall>t \<in> set ts. task_ok t) \<and> p_logger p' = p_logger p \<and> p_journal p' = p_journal p
     \<and> next_order_id p' = next_order_id p"

definition moved :: "hot_task list \<Rightarrow> event_pipeline \<Rightarrow> hot_task list \<Rightarrow> event_pipeline \<Rightarrow> bool" where
  "moved ts p ts' p' \<longleftrightarrow> (\<exists>gone sent lost todo be. owed ts (p_book p, p_risk p) = (gone @ todo, be) \<and> owed ts' (p_book p', p_risk p') = (todo, be)
     \<and> map event_view (queued (io_chan p')) = map event_view (queued (io_chan p)) @ sent \<and> subseq sent gone
     \<and> length sent + lost = length gone \<and> io_events_dropped (p_stats p') = io_events_dropped (p_stats p) + of_nat lost)"

lemma hot_simps [simp]: "hot_entries [] = []" "hot_entries (t # ts) = task_entries t @ hot_entries ts" "hot_entries (ts @ us) = hot_entries ts @ hot_entries us"
  "hot_msgs [] = []" "hot_msgs (t # ts) = task_msgs t @ hot_msgs ts" "hot_msgs (ts @ us) = hot_msgs ts @ hot_msgs us"
  by (simp_all add: hot_entries_def hot_msgs_def)

lemma moved_quiet:
  assumes "owed ts' (p_book p', p_risk p') = owed ts (p_book p, p_risk p)" and "map event_view (queued (io_chan p')) = map event_view (queued (io_chan p))"
    and "io_events_dropped (p_stats p') = io_events_dropped (p_stats p)"
  shows "moved ts p ts' p'"
  unfolding moved_def using assms
  by (cases "owed ts (p_book p, p_risk p)") (intro exI [of _ "[]"] exI [of _ "0 :: nat"] exI, auto)

lemma owed_trades: "owed (map PostTrade trs @ ts) be = (map trade_view trs @ fst (owed ts be), snd (owed ts be))"
  by (induction trs) (simp_all split: prod.split)

lemma hot_trades: "hot_entries (map PostTrade trs) = []" "hot_msgs (map PostTrade trs) = []"
  by (induction trs) simp_all

lemma same_viewI: "(\<And>e. event_view (f e) = v) \<Longrightarrow> same_view f"
  by (simp add: same_view_def)

lemma submit_rejected:
  assumes "validate (clock_sec clk) ord (mid_price (p_book p)) (p_risk p) = (False, e)"
  shows "\<exists>st. submit clk ord p = ([Post (reject_event ord (last_reject e))], p\<lparr>p_risk := e, p_stats := st\<rparr>) \<and> io_events_dropped st = io_events_dropped (p_stats p)"
  using assms by (intro exI [of _ "p_stats (snd (submit clk ord p))"]) (simp add: submit_def count_def Let_def)

lemma submit_accepted:
  assumes v: "validate (clock_sec clk) ord (mid_price (p_book p)) (p_risk p) = (True, e)" and a: "add_order (clock_trade clk) ord (p_book p) = (res, b)"
    and "book_inv (p_book p)" and "submittable ord"
  shows "\<exists>f st. submit clk ord p = ([Post f, Report res (mid_price (p_book p))], p\<lparr>p_risk := e, p_book := b, p_stats := st\<rparr>)
    \<and> (\<forall>x. event_view (f x) = result_view res) \<and> io_events_dropped st = io_events_dropped (p_stats p)"
proof -
  have ord: "order_ok ord" "in_s32 (oid ord)" "in_s32 (quantity ord)" "length (symbol ord) \<le> 16" using assms(4) by (simp_all add: submittable_def)
  note res = add_order_result [OF assms(3) ord(1) a] add_order_frame [OF assms(3) ord(1) a]
  have line: "gateway_line res = (0, Some (wire_line res))" "length (wire_line res) \<le> 395"
    using gateway_line_ok [of res] length_wire_line [of res] ord res by simp_all
  have out: "(status res = NEW \<or> status res = PARTIAL) = goes_out res" by (simp add: goes_out_def)
  let ?f = "result_event res (goes_out res) (if goes_out res then wire_line res else '''') (if goes_out res then of_nat (length (wire_line res)) else 0)"
  have "event_view (?f x) = result_view res" for x by (rule result_event_view) (use line in auto)
  then show ?thesis using line
    by (intro exI [of _ ?f] exI [of _ "p_stats (snd (submit clk ord p))"]) (cases "goes_out res"; simp add: submit_def count_def Let_def v a out)
qed

lemma submit_step:
  assumes "kept_parts ys (Submit clk ord # ts) p p" and "submit clk ord p = (new, p')"
  shows "kept_parts ys (new @ ts) p p' \<and> moved (Submit clk ord # ts) p (new @ ts) p'"
proof -
  have I: "book_inv (p_book p)" "submittable ord" "\<not> is_nan (price ord)" "order_ok ord" using assms(1) by (simp_all add: kept_parts_def submittable_def)
  obtain ok e where v: "validate (clock_sec clk) ord (mid_price (p_book p)) (p_risk p) = (ok, e)" by fastforce
  show ?thesis
  proof (cases ok)
    case False
    then obtain st where s: "new = [Post (reject_event ord (last_reject e))]" "p' = p\<lparr>p_risk := e, p_stats := st\<rparr>" "io_events_dropped st = io_events_dropped (p_stats p)"
      using submit_rejected [of clk ord p e] v assms(2) by auto
    have "moved (Submit clk ord # ts) p (new @ ts) p'"
      by (rule moved_quiet) (use False s v in \<open>simp_all add: decide_def decision_views_def reject_event_view split: prod.split\<close>)
    then show ?thesis using assms(1) s(1,2) same_viewI [OF reject_event_view] by (simp add: kept_parts_def)
  next
    case True
    obtain res b where a: "add_order (clock_trade clk) ord (p_book p) = (res, b)" by fastforce
    obtain trs b2 where d: "drain_trades b = (trs, b2)" by fastforce
    obtain f st where s: "new = [Post f, Report res (mid_price (p_book p))]" "p' = p\<lparr>p_risk := e, p_book := b, p_stats := st\<rparr>"
        "\<And>x. event_view (f x) = result_view res" "io_events_dropped st = io_events_dropped (p_stats p)"
      using submit_accepted [OF _ a I(1,2), of e] v True assms(2) by auto
    have "moved (Submit clk ord # ts) p (new @ ts) p'"
      by (rule moved_quiet) (use True s a d v in \<open>simp_all add: decide_def decision_views_def settle_def split: prod.split\<close>)
    moreover have "book_inv b" using add_order_inv_aux(1) [OF I(1,4), of "clock_trade clk"] I(3) a by (simp add: good_price_def)
    ultimately show ?thesis using assms(1) s(1,2) same_viewI [of f, OF s(3)] by (simp add: kept_parts_def)
  qed
qed

lemma post_step:
  assumes "kept_parts ys (Post f # ts) p p"
  shows "\<exists>new p'. hot_task_step (Post f) p = Some (new, p') \<and> kept_parts ys (new @ ts) p p' \<and> moved (Post f # ts) p (new @ ts) p'"
proof -
  have ok: "chan_ok (hot_entries ts @ ys) (io_chan p)" "same_view f" using assms by (simp_all add: kept_parts_def)
  from chan_take_spec [OF ok(1)] obtain a c where
    c: "chan_take (io_chan p) = Some (a, c)" "chan_ok (held a @ hot_entries ts @ ys) c" "queued c = queued (io_chan p)" "entries c = entries (io_chan p)" by blast
  show ?thesis
  proof (cases "a = 0")
    case True
    let ?p = "count (\<lambda>s. s\<lparr>io_events_dropped := io_events_dropped s + 1\<rparr>) (p\<lparr>io_chan := c\<rparr>)"
    obtain todo be where o: "owed ts (p_book p, p_risk p) = (todo, be)" by (cases "owed ts (p_book p, p_risk p)")
    then have "moved (Post f # ts) p ([] @ ts) ?p" unfolding moved_def
      by (intro exI [of _ "[event_view (f zero_event)]"] exI [of _ "[]"] exI [of _ 1] exI [of _ todo] exI [of _ be]) (simp add: c(3) count_def)
    then show ?thesis using True c assms by (intro exI [of _ "[]"] exI [of _ ?p]) (simp add: kept_parts_def count_def held_def Let_def)
  next
    case False
    have "moved (Post f # ts) p ([Fill a f] @ ts) (p\<lparr>io_chan := c\<rparr>)" by (rule moved_quiet) (simp_all add: c(3))
    then show ?thesis using False c assms by (intro exI [of _ "[Fill a f]"] exI [of _ "p\<lparr>io_chan := c\<rparr>"]) (simp add: kept_parts_def held_def Let_def)
  qed
qed

lemma fill_step:
  assumes "kept_parts ys (Fill a f # ts) p p"
  shows "\<exists>new p'. hot_task_step (Fill a f) p = Some (new, p') \<and> kept_parts ys (new @ ts) p p' \<and> moved (Fill a f # ts) p (new @ ts) p'"
proof -
  have ok: "chan_ok (a # hot_entries ts @ ys) (io_chan p)" "same_view f" using assms by (simp_all add: kept_parts_def)
  from chan_publish_spec [OF ok(1), of f] obtain c where
    c: "chan_publish a f (io_chan p) = Some c" "chan_ok (hot_entries ts @ ys) c" "queued c = queued (io_chan p) @ [f (entries (io_chan p) a)]"
      "\<And>q. q \<noteq> a \<Longrightarrow> entries c q = entries (io_chan p) q" by blast
  have v: "event_view (f (entries (io_chan p) a)) = event_view (f zero_event)" using ok(2) by (simp add: same_view_def)
  obtain todo be where o: "owed ts (p_book p, p_risk p) = (todo, be)" by (cases "owed ts (p_book p, p_risk p)")
  then have "moved (Fill a f # ts) p ([] @ ts) (p\<lparr>io_chan := c\<rparr>)" unfolding moved_def
    by (intro exI [of _ "[event_view (f zero_event)]"] exI [of _ "[event_view (f zero_event)]"] exI [of _ 0] exI [of _ todo] exI [of _ be]) (simp add: c(3) v)
  moreover have "a \<notin> set ys" using ok(1) by (simp add: chan_ok_def)
  then have "\<forall>q \<in> set ys. entries c q = entries (io_chan p) q" using c(4) by metis
  ultimately show ?thesis using c(1,2) assms by (intro exI [of _ "[]"] exI [of _ "p\<lparr>io_chan := c\<rparr>"]) (simp add: kept_parts_def)
qed

lemma release_step:
  assumes "kept_parts ys (Release a t0 t1 # ts) p p"
  shows "\<exists>new p'. hot_task_step (Release a t0 t1) p = Some (new, p') \<and> kept_parts ys (new @ ts) p p' \<and> moved (Release a t0 t1 # ts) p (new @ ts) p'"
proof -
  have ok: "feed_ok (a # hot_msgs ts) (p_feed p)" using assms by (simp add: kept_parts_def)
  then have "a \<noteq> 0" using feed_ok_not_null [OF ok] by auto
  from feed_free [OF ok] obtain mp where mp: "mempool_free (msg_pool (p_feed p)) a = Some mp" "feed_ok (hot_msgs ts) ((p_feed p)\<lparr>msg_pool := mp\<rparr>)" by blast
  let ?p = "count (update_latency t0 t1) (p\<lparr>p_feed := (p_feed p)\<lparr>msg_pool := mp\<rparr>\<rparr>)"
  have "moved (Release a t0 t1 # ts) p ([] @ ts) ?p" by (rule moved_quiet) (simp_all add: count_def)
  then show ?thesis using mp assms \<open>a \<noteq> 0\<close>
    by (intro exI [of _ "[]"] exI [of _ ?p]) (simp add: kept_parts_def count_def feed_return_msg_def feed_queued_def)
qed

lemma task_step:
  assumes "kept_parts ys (t # ts) p p"
  shows "\<exists>new p'. hot_task_step t p = Some (new, p') \<and> kept_parts ys (new @ ts) p p' \<and> moved (t # ts) p (new @ ts) p'"
proof (cases t)
  case (Submit clk ord)
  obtain new p' where "submit clk ord p = (new, p')" by fastforce
  with submit_step [OF assms [unfolded Submit] this] show ?thesis by (simp add: Submit)
next
  case (Report res mid)
  obtain trs b where d: "drain_trades (p_book p) = (trs, b)" by fastforce
  let ?new = "map PostTrade trs @ [Settle res mid]"
  have "moved (t # ts) p (?new @ ts) (p\<lparr>p_book := b\<rparr>)" by (rule moved_quiet) (use d in \<open>simp_all add: Report owed_trades Let_def split: prod.split\<close>)
  moreover have "book_inv b" using assms d drain_trades_inv_aux [of "p_book p"] by (simp add: kept_parts_def)
  ultimately show ?thesis using assms d by (intro exI [of _ ?new] exI [of _ "p\<lparr>p_book := b\<rparr>"]) (auto simp: kept_parts_def Report hot_trades)
next
  case (PostTrade tr)
  let ?p = "count (\<lambda>s. s\<lparr>trades_generated := trades_generated s + 1\<rparr>) p"
  have "moved (t # ts) p ([Post (trade_event tr)] @ ts) ?p" by (rule moved_quiet) (simp_all add: PostTrade count_def trade_event_view)
  then show ?thesis using assms same_viewI [OF trade_event_view]
    by (intro exI [of _ "[Post (trade_event tr)]"] exI [of _ ?p]) (simp add: kept_parts_def PostTrade count_def)
next
  case (Settle res mid)
  let ?p = "p\<lparr>p_risk := settle res mid (p_risk p)\<rparr>"
  have "moved (t # ts) p ([] @ ts) ?p" by (rule moved_quiet) (simp_all add: Settle)
  then show ?thesis using assms by (intro exI [of _ "[]"] exI [of _ ?p]) (simp add: kept_parts_def Settle)
qed (use assms post_step fill_step release_step in auto)

section \<open>A step of the system\<close>

text \<open>The journal holds the records of the events processed, after \<open>old\<close>.\<close>

definition recorded :: "byte list \<Rightarrow> overlap \<Rightarrow> bool" where
  "recorded old s \<longleftrightarrow> (\<forall>sp. s_trail sp = ov_trail s \<longrightarrow> journalled old sp (ov_pipe s))"

fun ov_op_ok :: "ov_op \<Rightarrow> bool" where
  "ov_op_ok (IoStep env) \<longleftrightarrow> os_ok (io_os env)"
| "ov_op_ok _ \<longleftrightarrow> True"

text \<open>\<open>stepped\<close>: an operation has a result, in which the invariant holds.\<close>

definition stepped :: "string \<Rightarrow> nat \<Rightarrow> nat \<Rightarrow> bool \<Rightarrow> overlap \<Rightarrow> overlap option \<Rightarrow> bool" where
  "stepped sy n m ok s r \<longleftrightarrow> (\<exists>s'. r = Some s' \<and> parts_ok n m s' \<and> trades_ok sy s' \<and> (\<forall>old. ok \<longrightarrow> recorded old s \<longrightarrow> recorded old s'))"

lemma recorded_keeps: "recorded old s \<Longrightarrow> p_journal (ov_pipe s') = p_journal (ov_pipe s) \<Longrightarrow> ov_trail s' = ov_trail s \<Longrightarrow> recorded old s'"
  by (auto simp: recorded_def intro: journalled_keeps)

lemma parts_ok_mono: "parts_ok n m s \<Longrightarrow> n' \<le> n \<Longrightarrow> m' \<le> m \<Longrightarrow> parts_ok n' m' s"
  by (auto simp: parts_ok_def Let_def intro: journal_ok_mono)

lemma flow_moved:
  assumes "flow_ok kept s" and "moved ts (ov_pipe s) ts' p'" and "\<forall>q \<in> set (io_entries (ov_io s)). entries (io_chan p') q = entries (io_chan (ov_pipe s)) q"
    and "owed ts (p_book (ov_pipe s), p_risk (ov_pipe s)) = (todo, be)"
  shows "\<exists>gone todo'. todo = gone @ todo' \<and> owed ts' (p_book p', p_risk p') = (todo', be) \<and> flow_ok (kept @ gone) (s\<lparr>ov_pipe := p', ov_hot := ts'\<rparr>)"
proof -
  obtain gone sent lost todo' where m: "todo = gone @ todo'" "owed ts' (p_book p', p_risk p') = (todo', be)"
      "map event_view (queued (io_chan p')) = map event_view (queued (io_chan (ov_pipe s))) @ sent" "subseq sent gone"
      "length sent + lost = length gone" "io_events_dropped (p_stats p') = io_events_dropped (p_stats (ov_pipe s)) + of_nat lost"
    using assms(2,4) by (auto simp: moved_def)
  have h: "io_hand (ov_io s) (io_chan p') = io_hand (ov_io s) (io_chan (ov_pipe s))" using assms(3) by (cases "ov_io s") simp_all
  let ?there = "ov_trail s @ io_hand (ov_io s) (io_chan (ov_pipe s)) @ map event_view (queued (io_chan (ov_pipe s)))"
  obtain l where f: "subseq ?there kept" "length ?there + l = length kept" "io_events_dropped (p_stats (ov_pipe s)) = of_nat l"
    using assms(1) by (auto simp: flow_ok_def Let_def)
  have "subseq (?there @ sent) (kept @ gone)" using f(1) m(4) by (rule list_emb_append_mono)
  moreover have "length (queued (io_chan p')) = length (queued (io_chan (ov_pipe s))) + length sent" using arg_cong [OF m(3), of length] by simp
  ultimately have "flow_ok (kept @ gone) (s\<lparr>ov_pipe := p', ov_hot := ts'\<rparr>)"
    using f(2,3) m(3,5,6) by (auto simp: flow_ok_def Let_def h intro!: exI [of _ "l + lost"])
  then show ?thesis using m(1,2) by blast
qed

lemma task_stepped:
  assumes "parts_ok n m s" and "trades_ok sy s" and "ov_hot s = t # ts"
  shows "stepped sy n m ok s (ov_step tt (HotStep clk t0 t1) s)"
proof -
  let ?p = "ov_pipe s"
  have "kept_parts (io_entries (ov_io s)) (t # ts) ?p ?p" using assms(1,3) by (simp add: kept_parts_def parts_ok_def Let_def)
  from task_step [OF this] obtain new p' where
    t: "hot_task_step t ?p = Some (new, p')" "kept_parts (io_entries (ov_io s)) (new @ ts) ?p p'" "moved (t # ts) ?p (new @ ts) p'" by blast
  let ?s = "s\<lparr>ov_pipe := p', ov_hot := new @ ts\<rparr>"
  have step: "ov_step tt (HotStep clk t0 t1) s = Some ?s" using assms(3) t(1) by simp
  have "parts_ok n m ?s" using assms(1) t(2) by (simp add: kept_parts_def parts_ok_def Let_def)
  moreover obtain kept todo b e where
    k: "owed (t # ts) (p_book ?p, p_risk ?p) = (todo, b, e)" "decide_messages sy (ov_traded s) = (kept @ todo, next_order_id ?p, b, e)" "flow_ok kept s"
    using assms(2,3) by (auto simp: trades_ok_def)
  have "trades_ok sy ?s" using flow_moved [OF k(3) t(3) _ k(1)] k(2) t(2) by (auto simp: trades_ok_def kept_parts_def)
  moreover have "recorded old s \<Longrightarrow> recorded old ?s" for old by (erule recorded_keeps) (use t(2) in \<open>simp_all add: kept_parts_def\<close>)
  ultimately show ?thesis unfolding step stepped_def by blast
qed

lemma feed_stepped:
  assumes "parts_ok (Suc n) m s" and "trades_ok sy s"
  shows "stepped sy n m ok s (ov_step tt (FeedStep now) s)"
proof -
  let ?fh = "p_feed (ov_pipe s)"
  have I: "feed_ok (hot_msgs (ov_hot s)) ?fh" "\<forall>q \<in> set (feed_queued ?fh). plausible q" "d_within 2684354560 (sim_base_price ?fh) 268435456000"
    using assms(1) by (simp_all add: parts_ok_def Let_def)
  from feed_sim_step_spec [OF I(1), of now] obtain fh where
    f: "feed_sim_step now ?fh = Some fh" "offered (fst (simulate_message now ?fh)) (hot_msgs (ov_hot s)) ?fh fh" by blast
  let ?s = "s\<lparr>ov_pipe := (ov_pipe s)\<lparr>p_feed := fh\<rparr>\<rparr>"
  have q: "feed_queued fh = feed_queued ?fh \<or> feed_queued fh = feed_queued ?fh @ [fst (simulate_message now ?fh)]" "feed_ok (hot_msgs (ov_hot s)) fh"
    using f(2) by (auto simp: offered_def split: if_splits)
  then have "\<forall>q \<in> set (feed_queued fh). plausible q" "length (feed_queued fh) \<le> Suc (length (feed_queued ?fh))"
    using I(2) simulate_message_bounds [OF I(3)] by auto
  then have "parts_ok n m ?s" using assms(1) q(2) feed_sim_step_base [OF f(1) I(3)] by (auto simp: parts_ok_def Let_def)
  moreover have "trades_ok sy ?s" using assms(2) by (simp add: trades_ok_def flow_ok_def Let_def)
  moreover have "recorded old s \<Longrightarrow> recorded old ?s" for old by (erule recorded_keeps) simp_all
  ultimately show ?thesis using f(1) by (auto simp: stepped_def)
qed

lemma log_stepped:
  assumes "parts_ok n m s" and "trades_ok sy s"
  shows "stepped sy n m ok s (ov_step tt LogStep s)"
proof -
  have "log_ok (p_logger (ov_pipe s))" using assms(1) by (simp add: parts_ok_def Let_def)
  from logger_poll_refines [OF this, of tt] obtain lg where l: "logger_poll tt (p_logger (ov_pipe s)) = Some lg" "log_ok lg" by blast
  let ?s = "s\<lparr>ov_pipe := (ov_pipe s)\<lparr>p_logger := lg\<rparr>\<rparr>"
  have "parts_ok n m ?s" "trades_ok sy ?s" using assms l(2) by (simp_all add: parts_ok_def trades_ok_def flow_ok_def Let_def)
  moreover have "recorded old s \<Longrightarrow> recorded old ?s" for old by (erule recorded_keeps) simp_all
  ultimately show ?thesis using l(1) by (auto simp: stepped_def)
qed

text \<open>A message begins: its two orders are still to be decided.\<close>

lemma owed_orders:
  "owed (map (\<lambda>(k, ord). Submit (clk k) ord) (enumerate k ords) @ [Release a t0 t1]) be = (case decide_all clk k ords be of (vs, ds, be') \<Rightarrow> (vs, be'))"
  by (induction ords arbitrary: k be) (auto simp: Let_def split: prod.splits)

lemma hot_orders: "hot_entries (map (\<lambda>(k, ord). Submit (clk k) ord) (enumerate k ords)) = []" "hot_msgs (map (\<lambda>(k, ord). Submit (clk k) ord) (enumerate k ords)) = []"
  by (induction ords arbitrary: k) simp_all

lemma begin_stepped:
  assumes "parts_ok n m s" and "trades_ok sy s" and "ov_hot s = []"
  shows "stepped sy n m ok s (ov_step tt (HotStep clk t0 t1) s)"
proof -
  let ?p = "ov_pipe s" and ?i = "next_order_id (ov_pipe s)"
  have I: "feed_ok [] (p_feed ?p)" "\<forall>q \<in> set (feed_queued (p_feed ?p)). plausible q" "1 \<le> ?i" "?i + 2 * int (length (feed_queued (p_feed ?p)) + n) < 2 ^ 31"
    using assms(1,3) by (simp_all add: parts_ok_def Let_def)
  from feedq.next_total [OF I(1)] obtain a fh where
    a: "feed_pop (p_feed ?p) = Some (a, fh)"
      "if a = 0 then feed_queued (p_feed ?p) = [] \<and> fh = p_feed ?p else feed_ok [a] fh \<and> feed_queued (p_feed ?p) = msgs (p_feed ?p) a # feed_queued fh" by blast
  show ?thesis
  proof (cases "a = 0")
    case True
    then have "ov_step tt (HotStep clk t0 t1) s = Some s" using a assms(3) by (simp add: hot_begin_def)
    then show ?thesis using assms by (simp add: stepped_def del: ov_step.simps)
  next
    case False
    let ?q = "msgs (p_feed ?p) a"
    have f: "feed_ok [a] fh" "feed_queued (p_feed ?p) = ?q # feed_queued fh" using a(2) False by simp_all
    note K = feed_pop_keeps [OF I(1) a(1)]
    have ids: "s32 (?i + 1) = ?i + 1" "s32 (?i + 1 + 1) = ?i + 2" "in_s32 ?i" "in_s32 (?i + 1)" using I(3,4) f(2) by (auto simp: s32_id in_s32_def)
    let ?ts = "map (\<lambda>(k, ord). Submit (clk k) ord) (enumerate 0 (spec_orders ?i ?q)) @ [Release a t0 t1]"
    let ?st = "(p_stats ?p)\<lparr>market_data_msgs := market_data_msgs (p_stats ?p) + 1\<rparr>"
    let ?p' = "?p\<lparr>p_feed := fh, p_stats := ?st, next_order_id := ?i + 2\<rparr>"
    let ?s = "s\<lparr>ov_pipe := ?p', ov_hot := ?ts, ov_traded := ov_traded s @ [(clk, ?q)]\<rparr>"
    have step: "ov_step tt (HotStep clk t0 t1) s = Some ?s"
      using a(1) False K f(2) assms(3) ids by (simp add: hot_begin_def Let_def count_def strategy_eq spec_orders_def)
    have "tradable ?q" using I(2) f(2) plausible_tradable by simp
    then have tasks: "\<forall>t \<in> set ?ts. task_ok t" using ids by (auto simp: spec_orders_def tradable_def intro: strategy_order_submittable)
    have "parts_ok n m ?s" unfolding parts_ok_def Let_def
      using assms(1,3) f K tasks by (simp add: parts_ok_def Let_def hot_orders gen_of_def)
    moreover obtain kept where
      k: "decide_messages sy (ov_traded s) = (kept, ?i, p_book ?p, p_risk ?p)" "flow_ok kept s" using assms(2,3) by (auto simp: trades_ok_def)
    obtain vs ds b e where d: "decide_all clk 0 (spec_orders ?i ?q) (p_book ?p, p_risk ?p) = (vs, ds, b, e)" by (rule prod_cases4)
    have "decide_messages sy (ov_traded ?s) = (kept @ vs, ?i + 2, b, e)" by (simp add: decide_messages_snoc k(1) decide_message_def d)
    moreover have "flow_ok kept ?s" using k(2) by (simp add: flow_ok_def Let_def)
    ultimately have "trades_ok sy ?s" unfolding trades_ok_def
      by (intro exI [of _ kept] exI [of _ vs] exI [of _ b] exI [of _ e]) (simp add: owed_orders d)
    moreover have "recorded old s \<Longrightarrow> recorded old ?s" for old by (erule recorded_keeps) simp_all
    ultimately show ?thesis unfolding step stepped_def using \<open>parts_ok n m ?s\<close> by blast
  qed
qed

lemma io_stepped:
  assumes "parts_ok n (Suc m) s" and "trades_ok sy s"
  shows "stepped sy n m (os_ok (io_os env)) s (ov_step tt (IoStep env) s)"
proof -
  let ?p = "ov_pipe s"
  have I: "chan_ok (hot_entries (ov_hot s) @ io_entries (ov_io s)) (io_chan ?p)" "log_ok (p_logger ?p)" "journal_ok (Suc m) (p_journal ?p)"
    and low: "parts_ok n m s" using assms(1) parts_ok_mono [OF assms(1), of n m] by (simp_all add: parts_ok_def Let_def)
  show ?thesis
  proof (cases "ov_io s")
    case IoIdle
    then have ok: "chan_ok (hot_entries (ov_hot s)) (io_chan ?p)" using I(1) by simp
    from chan_next_spec [OF this] obtain a c where
      c: "chan_next (io_chan ?p) = Some (a, c)" "chan_ok (held a @ hot_entries (ov_hot s)) c" "entries c = entries (io_chan ?p)"
        "if a = 0 then queued (io_chan ?p) = [] \<and> c = io_chan ?p else queued (io_chan ?p) = entries (io_chan ?p) a # queued c" by blast
    let ?s = "s\<lparr>ov_pipe := ?p\<lparr>io_chan := c\<rparr>, ov_io := (if a = 0 then IoIdle else IoHandle a)\<rparr>"
    have "chan_ok (hot_entries (ov_hot s) @ held a) c" using c(2) by (simp add: chan_ok_swap)
    then have "parts_ok n m ?s" using low by (cases "a = 0") (simp_all add: parts_ok_def Let_def held_def)
    moreover have "trades_ok sy ?s" using assms(2) c(3,4) IoIdle by (cases "a = 0") (auto simp: trades_ok_def flow_ok_def Let_def)
    moreover have "recorded old s \<Longrightarrow> recorded old ?s" for old by (erule recorded_keeps) simp_all
    ultimately show ?thesis using c(1) IoIdle by (auto simp: stepped_def)
  next
    case (IoHandle a)
    let ?ev = "entries (io_chan ?p) a"
    from process_io_event_ok [OF I(2,3), of env ?ev] obtain lg jo gw where
      r: "process_io_event env ?ev ?p = Some (?p\<lparr>p_logger := lg, p_journal := jo, p_gateway := gw\<rparr>)" "log_ok lg" "journal_ok m jo"
        "journal_grows [event_entry env ?ev] (os_ok (io_os env)) (p_journal ?p) jo" by (auto simp: io_processed_def)
    let ?s = "s\<lparr>ov_pipe := ?p\<lparr>p_logger := lg, p_journal := jo, p_gateway := gw\<rparr>, ov_io := IoRecycle a, ov_trail := ov_trail s @ [event_view ?ev]\<rparr>"
    have "parts_ok n m ?s" using low r(2,3) IoHandle by (simp add: parts_ok_def Let_def)
    moreover have "trades_ok sy ?s" using assms(2) IoHandle by (simp add: trades_ok_def flow_ok_def Let_def)
    moreover have "recorded old ?s" if "recorded old s" "os_ok (io_os env)" for old unfolding recorded_def
    proof (intro allI impI)
      fix sp :: engine_spec
      assume sp: "s_trail sp = ov_trail ?s"
      have "journalled old (sp\<lparr>s_trail := ov_trail s\<rparr>) ?p" using that(1) by (simp add: recorded_def)
      then show "journalled old sp (ov_pipe ?s)" by (rule journalled_grows [where es = "[event_entry env ?ev]"]) (use r(4) that(2) sp in \<open>auto simp: event_entry_def\<close>)
    qed
    ultimately show ?thesis using r(1) IoHandle by (auto simp: stepped_def)
  next
    case (IoRecycle a)
    then have "chan_ok (a # hot_entries (ov_hot s)) (io_chan ?p)" using I(1) chan_ok_swap [of "hot_entries (ov_hot s)" "[a]" "io_chan ?p"] by simp
    from chan_recycle_spec [OF this, of "\<lambda>e. e"] obtain c where
      c: "chan_recycle a (\<lambda>e. e) (io_chan ?p) = Some c" "chan_ok (hot_entries (ov_hot s)) c" "queued c = queued (io_chan ?p)" by blast
    let ?s = "s\<lparr>ov_pipe := ?p\<lparr>io_chan := c\<rparr>, ov_io := IoIdle\<rparr>"
    have "parts_ok n m ?s" using low c(2) by (simp add: parts_ok_def Let_def)
    moreover have "trades_ok sy ?s" using assms(2) c(3) IoRecycle by (simp add: trades_ok_def flow_ok_def Let_def)
    moreover have "recorded old s \<Longrightarrow> recorded old ?s" for old by (erule recorded_keeps) simp_all
    ultimately show ?thesis using c(1) IoRecycle by (auto simp: stepped_def)
  qed
qed

lemma ov_step_ok:
  assumes "parts_ok (n + feed_steps [op]) (Suc m) s" and "trades_ok sy s"
  shows "stepped sy n m (ov_op_ok op) s (ov_step tt op s)"
proof (cases op)
  case (FeedStep now)
  have "parts_ok (Suc n) m s" using assms(1) by (rule parts_ok_mono) (simp_all add: FeedStep)
  from feed_stepped [OF this assms(2)] show ?thesis by (simp add: FeedStep del: ov_step.simps)
next
  case (HotStep clk t0 t1)
  have p: "parts_ok n m s" using assms(1) by (rule parts_ok_mono) (simp_all add: HotStep)
  show ?thesis using begin_stepped [OF p assms(2)] task_stepped [OF p assms(2)] by (cases "ov_hot s") (simp_all add: HotStep del: ov_step.simps)
next
  case (IoStep env)
  have "parts_ok n (Suc m) s" using assms(1) by (rule parts_ok_mono) (simp_all add: IoStep)
  from io_stepped [OF this assms(2)] show ?thesis by (simp add: IoStep del: ov_step.simps)
next
  case LogStep
  have "parts_ok n m s" using assms(1) by (rule parts_ok_mono) (simp_all add: LogStep)
  from log_stepped [OF this assms(2)] show ?thesis by (simp add: LogStep del: ov_step.simps)
qed

lemma feed_steps_Cons: "feed_steps (op # ops) = feed_steps [op] + feed_steps ops"
  by (cases op) simp_all

lemma ov_run_ok:
  "parts_ok (n + feed_steps ops) (m + length ops) s \<Longrightarrow> trades_ok sy s \<Longrightarrow> stepped sy n m (\<forall>op \<in> set ops. ov_op_ok op) s (ov_run tt ops s)"
proof (induction ops arbitrary: s)
  case (Cons op ops)
  have "parts_ok ((n + feed_steps ops) + feed_steps [op]) (Suc (m + length ops)) s" using Cons.prems(1) feed_steps_Cons [of op ops] by (simp add: ac_simps)
  from ov_step_ok [OF this Cons.prems(2), of tt] obtain s1 where
    1: "ov_step tt op s = Some s1" "parts_ok (n + feed_steps ops) (m + length ops) s1" "trades_ok sy s1" "\<And>old. ov_op_ok op \<Longrightarrow> recorded old s \<Longrightarrow> recorded old s1"
    by (auto simp: stepped_def)
  from Cons.IH [OF 1(2,3)] show ?case using 1(1,4) by (auto simp: stepped_def)
qed (simp add: stepped_def)

section \<open>Every interleaving\<close>

lemma ov_start_ok:
  assumes "pl_inv sy n m p" and "implements (spec_start g sy) p" 
  shows "parts_ok n m (ov_start p)" and "trades_ok sy (ov_start p)" and "journalled old (spec_start g sy) p \<Longrightarrow> recorded old (ov_start p)"
proof -
  have "journal_ok m (p_journal p)" using assms(1) by (auto simp: pl_inv_def intro: journal_ok_mono)
  then show "parts_ok n m (ov_start p)" using assms(1) by (auto simp: inv_defs parts_ok_def ov_start_def Let_def trading_inv_def intro: book_history_inv)
  show "trades_ok sy (ov_start p)"
    using assms(2) by (simp add: trades_ok_def ov_start_def decide_messages_def flow_ok_def Let_def implements_def spec_start_def)
  show "recorded old (ov_start p)" if "journalled old (spec_start g sy) p"
    using that by (simp add: recorded_def ov_start_def journalled_def spec_start_def)
qed

text \<open>C4: the threads may overlap in any way. From the start of the engine, take any interleaving of small steps of feed, hot path, I/O thread and
  logger. Every step can be taken; the messages begun have been decided as if one after the other, up to the events \<open>todo\<close> of the tasks in
  progress; of the events made, those processed, in the I/O thread's hands and queued are there in order, each once,
  \<open>io_events_dropped\<close> counts the missing ones, and the journal holds a record of each event processed, in order, after its
  former contents. Between two messages, book, positions and next order id are those of the sequential decisions.\<close>

theorem overlap_refines:
  assumes "env_ok ie (opt_log st)" and "length f \<le> 2 ^ 62" and "feed_steps ops < 2 ^ 30" and "length ops < 2 ^ 55"
  shows "\<exists>en s made todo i b e lost. engine_boot ie os f (True, True, True) st = Some (Inr en) \<and> ov_run tt ops (ov_start (en_pipe en)) = Some s
    \<and> decide_messages (opt_symbol st) (ov_traded s) = (made @ todo, i, b, e)
    \<and> (let p = ov_pipe s; there = ov_trail s @ io_hand (ov_io s) (io_chan p) @ map event_view (queued (io_chan p)) in
         subseq there made \<and> length there + lost = length made \<and> io_events_dropped (p_stats p) = of_nat lost \<and> next_order_id p = i
         \<and> (ov_hot s = [] \<longrightarrow> todo = [] \<and> p_book p = b \<and> p_risk p = e)
         \<and> (\<forall>j j'. journal_open os f True = Some j \<and> p_journal p = Some j' \<and> os_ok os \<and> (\<forall>op \<in> set ops. ov_op_ok op) \<longrightarrow>
              (let rest = drop (length (content j)) (journal_close os j') in
                 take (length (content j)) (journal_close os j') = content j \<and> length rest = 84 * length (ov_trail s)
                 \<and> map (\<lambda>(h, body). (record_type h, body)) (jfmt.read_all (length (ov_trail s)) rest)
                   = map (\<lambda>(t, body). (record_code t, body)) (map view_record (ov_trail s)))))"
proof -
  let ?sp = "spec_start (first_generator ie (opt_symbol st)) (opt_symbol st)"
  have "0 + feed_steps ops < 2 ^ 30" "0 + length ops < 2 ^ 56" using assms(3,4) by simp_all
  from engine_starts_spec [OF assms(1,2) this, of os] obtain en where
    en: "engine_boot ie os f (True, True, True) st = Some (Inr en)" "pl_inv (opt_symbol st) (0 + feed_steps ops) (0 + length ops) (en_pipe en)"
      "implements ?sp (en_pipe en)" "\<forall>j. journal_open os f True = Some j \<longrightarrow> journalled (content j) ?sp (en_pipe en)" by blast
  note S = ov_start_ok [OF en(2,3)]
  from ov_run_ok [OF S(1,2), of tt] obtain s where
    s: "ov_run tt ops (ov_start (en_pipe en)) = Some s" "trades_ok (opt_symbol st) s"
      "\<And>old. \<forall>op \<in> set ops. ov_op_ok op \<Longrightarrow> recorded old (ov_start (en_pipe en)) \<Longrightarrow> recorded old s" by (auto simp: stepped_def)
  let ?p = "ov_pipe s"
  obtain made todo b e where
    t: "owed (ov_hot s) (p_book ?p, p_risk ?p) = (todo, b, e)" "decide_messages (opt_symbol st) (ov_traded s) = (made @ todo, next_order_id ?p, b, e)" "flow_ok made s"
    using s(2) by (auto simp: trades_ok_def)
  obtain lost where l: "let there = ov_trail s @ io_hand (ov_io s) (io_chan ?p) @ map event_view (queued (io_chan ?p)) in
      subseq there made \<and> length there + lost = length made" "io_events_dropped (p_stats ?p) = of_nat lost" using t(3) by (auto simp: flow_ok_def Let_def)
  have "journalled (content j) (?sp\<lparr>s_trail := ov_trail s\<rparr>) ?p" if "journal_open os f True = Some j" "\<forall>op \<in> set ops. ov_op_ok op" for j
    using s(3) [OF that(2) S(3)] en(4) that(1) by (simp add: recorded_def)
  from journalled_file [OF this] have
    "take (length (content j)) (journal_close os j') = content j \<and> length (journal_close os j') = length (content j) + 84 * length (ov_trail s)
      \<and> map (\<lambda>(h, body). (record_type h, body)) (jfmt.read_all (length (ov_trail s)) (drop (length (content j)) (journal_close os j')))
        = map (\<lambda>(t, body). (record_code t, body)) (map view_record (ov_trail s))"
    if "journal_open os f True = Some j" "p_journal ?p = Some j'" "os_ok os" "\<forall>op \<in> set ops. ov_op_ok op" for j j'
    using that by (simp add: Let_def)
  moreover have "ov_hot s = [] \<longrightarrow> todo = [] \<and> p_book ?p = b \<and> p_risk ?p = e" using t(1) by auto
  ultimately show ?thesis using en(1) s(1) t(2) l
    by (intro exI [of _ en] exI [of _ s] exI [of _ made] exI [of _ todo] exI [of _ "next_order_id ?p"] exI [of _ b] exI [of _ e] exI [of _ lost]) (simp add: Let_def)
qed

text \<open>The I/O thread takes an event while the hot path is still in the middle of the message that made it.\<close>

definition ex_overlap :: "ov_op list" where
  "ex_overlap = [FeedStep 9, HotStep ex_clock 1 2, HotStep ex_clock 1 2, HotStep ex_clock 1 2, HotStep ex_clock 1 2, IoStep ex_io, HotStep ex_clock 1 2,
     FeedStep 10, IoStep ex_io, HotStep ex_clock 1 2, LogStep, IoStep ex_io]"

theorem overlap_refines_witness:
  "\<exists>en s made todo i b e. engine_boot ex_env ex_os [] (True, True, True) default_settings = Some (Inr en)
    \<and> ov_run (\<lambda>_. ''t'') ex_overlap (ov_start (en_pipe en)) = Some s
    \<and> decide_messages (opt_symbol default_settings) (ov_traded s) = (made @ todo, i, b, e) \<and> next_order_id (ov_pipe s) = i
    \<and> subseq (ov_trail s @ io_hand (ov_io s) (io_chan (ov_pipe s)) @ map event_view (queued (io_chan (ov_pipe s)))) made"
proof -
  have "feed_steps ex_overlap < 2 ^ 30" "length ex_overlap < 2 ^ 55" by (simp_all add: ex_overlap_def)
  from overlap_refines [OF ex_env_ok _ this, of "[]" ex_os "\<lambda>_. ''t''"] show ?thesis unfolding Let_def by simp blast
qed

end
