(* ===== verification/Logger_Race.thy ===== *)
theory Logger_Race
  imports Logger
begin

text \<open>
  Two threads in \<open>logger_write\<close> at the same time. The rings of the logger are built for one producer and one consumer each,
  but the main thread logs in \<open>EventPipeline::stop\<close> while the I/O thread logs rejections and trades. Each atomic access of the
  \<open>ring_buffer_pop\<close> that takes a free entry is a step; filling the entry and pushing it are one step each.
\<close>

section \<open>A writer in steps\<close>

datatype writer_pc = WrStart | WrTail u32 | WrHead u32 u32 | WrRead u32 ptr | WrHas ptr | WrFilled ptr | WrEnd

fun writer_step :: "log_entry \<Rightarrow> writer_pc \<Rightarrow> log_entry channel \<Rightarrow> (writer_pc \<times> log_entry channel) option" where
  "writer_step e WrStart c = Some (WrTail (ucast (tail (free_queue c))), c)"
| "writer_step e (WrTail t) c = Some (WrHead t (ucast (head (free_queue c))), c)"
| "writer_step e (WrHead t h) c = (if t = h then Some (WrHas 0, c) else map_option (\<lambda>x. (WrRead t x, c)) (load_slot (free_queue c) t))"
| "writer_step e (WrRead t x) c = Some (WrHas x, c\<lparr>free_queue := (free_queue c)\<lparr>tail := ucast ((t + 1) AND rb_mask (free_queue c))\<rparr>\<rparr>)"
| "writer_step e (WrHas x) c = Some (if x = 0 then (WrEnd, c) else (WrFilled x, c\<lparr>entries := (entries c)(x := e)\<rparr>))"
| "writer_step e (WrFilled x) c = map_option (\<lambda>(_, q). (WrEnd, c\<lparr>filled_queue := q\<rparr>)) (ring_buffer_push (filled_queue c) x)"
| "writer_step e WrEnd c = Some (WrEnd, c)"

text \<open>Two writers with their messages; the schedule says whether the first one moves.\<close>

fun writers_run :: "log_entry \<Rightarrow> log_entry \<Rightarrow> bool list \<Rightarrow> writer_pc \<times> writer_pc \<times> log_entry channel \<Rightarrow> (writer_pc \<times> writer_pc \<times> log_entry channel) option" where
  "writers_run e1 e2 [] s = Some s"
| "writers_run e1 e2 (first # sched) (w1, w2, c) =
     (if first then Option.bind (writer_step e1 w1 c) (\<lambda>(w, c). writers_run e1 e2 sched (w, w2, c))
      else Option.bind (writer_step e2 w2 c) (\<lambda>(w, c). writers_run e1 e2 sched (w1, w, c)))"

section \<open>One after the other, and interleaved\<close>

text \<open>A writer that is not interrupted is \<open>chan_send\<close>.\<close>

lemma writer_alone:
  "chan_send (\<lambda>_. e1) c = Some (ok, c') \<Longrightarrow> writers_run e1 e2 (replicate 6 True @ sched) (WrStart, w2, c) = writers_run e1 e2 sched (WrEnd, w2, c')"
  "chan_send (\<lambda>_. e2) c = Some (ok, c') \<Longrightarrow> writers_run e1 e2 (replicate 6 False @ sched) (w1, WrStart, c) = writers_run e1 e2 sched (w1, WrEnd, c')"
  by (auto simp: numeral_eq_Suc chan_send_def chan_take_def ring_buffer_pop_def chan_publish_def Let_def split: option.splits if_splits)

text \<open>C27: one after the other, both messages are queued. But if the second writer's call falls between the first writer's read of the
  slot and its update of \<open>tail\<close>, both take the same entry: it is queued twice, with the first
  message, and the second message is lost.\<close>

theorem logger_write_race:
  assumes "log_ok lg" and "free_entries (log_chan lg) = a # b # rest"
  shows "(\<exists>c. writers_run e1 e2 (replicate 6 True @ replicate 6 False) (WrStart, WrStart, log_chan lg) = Some (WrEnd, WrEnd, c)
      \<and> queued c = queued (log_chan lg) @ [e1, e2] \<and> free_entries c = rest)
    \<and> (\<exists>c. writers_run e1 e2 (replicate 3 True @ replicate 6 False @ replicate 3 True) (WrStart, WrStart, log_chan lg) = Some (WrEnd, WrEnd, c)
    \<and> queued c = queued (log_chan lg) @ [e1, e1] \<and> free_entries c = b # rest)"
proof -
  let ?c = "log_chan lg"
  let ?f = "free_queue ?c"
  let ?g = "?f\<lparr>tail := ucast ((ucast (tail ?f) + 1 :: u32) AND rb_mask ?f)\<rparr>"
  have ok: "chan_ok [] ?c" "rb_ok ?f" "rb_ok (filled_queue ?c)" "rb_contents ?f = a # b # rest" using assms(1,2) by (simp_all add: log_ok_def chan_ok_def free_entries_def)
  have a: "a \<noteq> 0" "a \<notin> set (rb_contents (filled_queue ?c))" using ok(1,4) by (auto simp: chan_ok_def circulating_def)
  have ne: "(ucast (tail ?f) :: u32) \<noteq> ucast (head ?f)" using rb_empty_iff [OF ok(2)] length_rb_contents [OF ok(2)] ok(4) by auto
  have ld: "load_slot ?f (ucast (tail ?f)) = Some a" using load_tail_rb [OF ok(2)] ok(4) by simp
  have rest: "rb_contents ?g = b # rest" using publish_tail_rb(2) [OF ok(2)] ok(4) by simp
  have "length (rb_contents ?f) + length (rb_contents (filled_queue ?c)) \<le> rb_bound (filled_queue ?c)"
    using ok(1) by (simp only: chan_ok_def circulating_def append_Nil2 length_append)
  moreover have "2 \<le> length (rb_contents ?f)" unfolding ok(4) by simp
  ultimately have len: "length (rb_contents (filled_queue ?c)) + 2 \<le> rb_bound (filled_queue ?c)" by linarith
  from rbq.push_room [OF ok(3), of a] len obtain q1 where
    1: "ring_buffer_push (filled_queue ?c) a = Some (True, q1)" "rb_ok q1" "rb_contents q1 = rb_contents (filled_queue ?c) @ [a]" "rb_bound q1 = rb_bound (filled_queue ?c)" by auto
  from rbq.push_room [OF 1(2), of a] len 1(3,4) obtain q2 where
    2: "ring_buffer_push q1 a = Some (True, q2)" "rb_contents q2 = rb_contents (filled_queue ?c) @ [a, a]" by auto
  let ?d = "?c\<lparr>free_queue := ?g, entries := (entries ?c)(a := e1), filled_queue := q2\<rparr>"
  have "writers_run e1 e2 (replicate 3 True @ replicate 6 False @ replicate 3 True) (WrStart, WrStart, ?c) = Some (WrEnd, WrEnd, ?d)"
    using ne ld a(1) 1(1) 2(1) by (simp add: numeral_eq_Suc)
  moreover obtain c1 where s1: "chan_send (\<lambda>_. e1) ?c = Some (True, c1)" "chan_ok [] c1" "free_entries c1 = b # rest" "queued c1 = queued ?c @ [e1]"
    using chan_send_spec [OF ok(1), of "\<lambda>_. e1"] assms(2) by auto
  obtain c2 where s2: "chan_send (\<lambda>_. e2) c1 = Some (True, c2)" "free_entries c2 = rest" "queued c2 = queued ?c @ [e1, e2]"
    using chan_send_spec [OF s1(2), of "\<lambda>_. e2"] s1(3,4) by auto
  have "writers_run e1 e2 (replicate 6 True @ replicate 6 False) (WrStart, WrStart, ?c) = Some (WrEnd, WrEnd, c2)"
    using writer_alone(1) [OF s1(1), of e2 "replicate 6 False"] writer_alone(2) [OF s2(1), of e1 "[]"] by simp
  moreover have "queued ?d = queued ?c @ [e1, e1]" using 2(2) a(2) by (auto simp: queued_def intro: map_cong)
  moreover have "free_entries ?d = b # rest" using rest by (simp add: free_entries_def)
  ultimately show ?thesis using s2(2,3) by blast
qed

theorem logger_write_race_witness:
  "\<exists>lg c. logger_init (\<lambda>_. True) True (\<lambda>_. Some '''') 4096 True (Some ''trading.log'') 4 = Some (Some lg)
    \<and> writers_run (make_entry 1 LOG_INFO ''stopping'') (make_entry 2 LOG_WARN ''rejected'') (replicate 3 True @ replicate 6 False @ replicate 3 True)
        (WrStart, WrStart, log_chan lg) = Some (WrEnd, WrEnd, c)
    \<and> queued c = [make_entry 1 LOG_INFO ''stopping'', make_entry 1 LOG_INFO ''stopping'']"
proof -
  from logger_init_ok [of 4 "\<lambda>_. True" 4096 "\<lambda>_. Some ''''" "''trading.log''" "''''"] obtain lg where
    lg: "logger_init (\<lambda>_. True) True (\<lambda>_. Some '''') 4096 True (Some ''trading.log'') 4 = Some (Some lg)" "log_ok lg"
      "log_abs lg = (min 4 (unat (rounded_capacity 4) - 1), [], '''')" by auto
  have "rounded_capacity 4 = 4" by (simp add: rounded_capacity_def is_power_of_two_def)
  then have "length (free_entries (log_chan lg)) = 3" "queued (log_chan lg) = []" using lg(3) by (simp_all add: log_abs_def)
  then obtain a b rest where "free_entries (log_chan lg) = a # b # rest" by (cases "free_entries (log_chan lg)"; cases "tl (free_entries (log_chan lg))") auto
  from logger_write_race [OF lg(2) this, of "make_entry 1 LOG_INFO ''stopping''" "make_entry 2 LOG_WARN ''rejected''"] lg(1) \<open>queued (log_chan lg) = []\<close>
  show ?thesis by (auto simp del: writers_run.simps)
qed

end
