(* ===== verification/Unit_Tests.thy ===== *)
theory Unit_Tests
  imports Book_Properties Double_Bounds Ring_Concurrent Memory_Pool "HOL-Library.Monad_Syntax"
begin

text \<open>
  The repository's own unit tests (\<open>tests/\<close>), translated statement by statement and run on the model. A test ends
  with \<open>None\<close> when an assertion fails or an access is invalid. With \<open>NDEBUG\<close>, which the release build defines, \<open>assert\<close>
  does not even evaluate its argument: a call inside it is not made.
\<close>

section \<open>Assertions\<close>

definition assert_that :: "bool \<Rightarrow> bool \<Rightarrow> unit option" where
  "assert_that ndebug c = (if ndebug \<or> c then Some () else None)"

text \<open>\<open>assert\<close> around a call that changes the state and returns whether it succeeded.\<close>

definition assert_call :: "bool \<Rightarrow> bool \<Rightarrow> ('s \<Rightarrow> (bool \<times> 's) option) \<Rightarrow> 's \<Rightarrow> 's option" where
  "assert_call ndebug expected f s = (if ndebug then Some s else f s \<bind> (\<lambda>(r, s'). if r = expected then Some s' else None))"

section \<open>tests/test\_order\_book.cpp\<close>

text \<open>The static counter \<open>next_id\<close> is passed along; \<open>now\<close> gives the clock for the trades.\<close>

definition make_order :: "side \<Rightarrow> order_type \<Rightarrow> double \<Rightarrow> int \<Rightarrow> int \<Rightarrow> order \<times> int" where
  "make_order sd ty pr qty next_id =
     (empty_order\<lparr>oid := next_id, account_id := 1, price := pr, quantity := qty, side := sd, otype := ty, symbol := ''AAPL''\<rparr>, s32 (next_id + 1))"

definition test_add_and_cancel :: "bool \<Rightarrow> (int \<Rightarrow> u64) \<Rightarrow> int \<Rightarrow> int option" where
  "test_add_and_cancel nd now next_id = do {
     let book = new_book ''AAPL'';
     assert_that nd (order_count book = 0);
     let (buy, next_id) = make_order BUY LIMIT (d_lit 150 1) 100 next_id;
     let (result, book) = add_order now buy book;
     assert_that nd (status result = NEW);
     assert_that nd (order_count book = 1);
     assert_that nd (d_eq (best_bid book) (d_lit 150 1));
     assert_that nd (bid_size book = 100);
     book \<leftarrow> assert_call nd True (\<lambda>b. Some (cancel_order (oid buy) b)) book;
     assert_that nd (order_count book = 0);
     assert_that nd (d_eq (best_bid book) 0);
     Some next_id
   }"

definition test_matching :: "bool \<Rightarrow> (int \<Rightarrow> u64) \<Rightarrow> int \<Rightarrow> int option" where
  "test_matching nd now next_id = do {
     let book = new_book ''AAPL'';
     let (sell, next_id) = make_order SELL LIMIT (d_lit 151 1) 50 next_id;
     let (_, book) = add_order now sell book;
     let (buy, next_id) = make_order BUY LIMIT (d_lit 152 1) 100 next_id;
     let (result, book) = add_order now buy book;
     assert_that nd (filled_qty result = 50);
     assert_that nd (status result = PARTIAL);
     assert_that nd (d_eq (best_bid book) (d_lit 152 1));
     assert_that nd (bid_size book = 50);
     assert_that nd (trade_count book = 1);
     let (ts, book) = drain_trades book;
     assert_that nd (length ts = 1);
     assert_that nd (d_eq (trade_price (ts ! 0)) (d_lit 151 1));
     assert_that nd (trade_qty (ts ! 0) = 50);
     Some next_id
   }"

definition test_full_fill :: "bool \<Rightarrow> (int \<Rightarrow> u64) \<Rightarrow> int \<Rightarrow> int option" where
  "test_full_fill nd now next_id = do {
     let book = new_book ''AAPL'';
     let (sell, next_id) = make_order SELL LIMIT (d_lit 100 1) 200 next_id;
     let (_, book) = add_order now sell book;
     let (buy, next_id) = make_order BUY LIMIT (d_lit 100 1) 200 next_id;
     let (result, book) = add_order now buy book;
     assert_that nd (status result = FILLED);
     assert_that nd (filled_qty result = 200);
     assert_that nd (order_count book = 0);
     assert_that nd (trade_count book = 1);
     Some next_id
   }"

definition test_price_time_priority :: "bool \<Rightarrow> (int \<Rightarrow> u64) \<Rightarrow> int \<Rightarrow> int option" where
  "test_price_time_priority nd now next_id = do {
     let book = new_book ''AAPL'';
     let (sell1, next_id) = make_order SELL LIMIT (d_lit 100 1) 50 next_id;
     let sell1 = sell1\<lparr>oid := 2001\<rparr>;
     let (sell2, next_id) = make_order SELL LIMIT (d_lit 100 1) 50 next_id;
     let sell2 = sell2\<lparr>oid := 2002\<rparr>;
     let (_, book) = add_order now sell1 book;
     let (_, book) = add_order now sell2 book;
     let (buy, next_id) = make_order BUY LIMIT (d_lit 100 1) 50 next_id;
     let (result, book) = add_order now buy book;
     assert_that nd (filled_qty result = 50);
     let (ts, book) = drain_trades book;
     assert_that nd (length ts = 1);
     assert_that nd (sell_order_id (ts ! 0) = 2001);
     Some next_id
   }"

definition test_market_order :: "bool \<Rightarrow> (int \<Rightarrow> u64) \<Rightarrow> int \<Rightarrow> int option" where
  "test_market_order nd now next_id = do {
     let book = new_book ''AAPL'';
     let (sell1, next_id) = make_order SELL LIMIT (d_lit 100 1) 50 next_id;
     let (sell2, next_id) = make_order SELL LIMIT (d_lit 101 1) 50 next_id;
     let (_, book) = add_order now sell1 book;
     let (_, book) = add_order now sell2 book;
     let (market_buy, next_id) = make_order BUY MARKET 0 60 next_id;
     let (result, book) = add_market_order now market_buy book;
     assert_that nd (filled_qty result = 60);
     assert_that nd (status result = FILLED);
     assert_that nd (d_eq (best_ask book) (d_lit 101 1));
     assert_that nd (ask_size book = 40);
     Some next_id
   }"

definition test_modify_order :: "bool \<Rightarrow> (int \<Rightarrow> u64) \<Rightarrow> int \<Rightarrow> int option" where
  "test_modify_order nd now next_id = do {
     let book = new_book ''AAPL'';
     let (buy, next_id) = make_order BUY LIMIT (d_lit 150 1) 100 next_id;
     let (_, book) = add_order now buy book;
     let (modified, book) = modify_order now (oid buy) (d_lit 151 1) 50 book;
     assert_that nd (status modified = NEW);
     assert_that nd (d_eq (best_bid book) (d_lit 151 1));
     assert_that nd (bid_size book = 50);
     Some next_id
   }"

definition test_spread_and_mid :: "bool \<Rightarrow> (int \<Rightarrow> u64) \<Rightarrow> int \<Rightarrow> int option" where
  "test_spread_and_mid nd now next_id = do {
     let book = new_book ''AAPL'';
     let (buy, next_id) = make_order BUY LIMIT (d_lit 99 1) 100 next_id;
     let (_, book) = add_order now buy book;
     let (sell, next_id) = make_order SELL LIMIT (d_lit 101 1) 100 next_id;
     let (_, book) = add_order now sell book;
     assert_that nd (d_eq (best_bid book) (d_lit 99 1));
     assert_that nd (d_eq (best_ask book) (d_lit 101 1));
     assert_that nd (d_eq (spread book) (d_lit 2 1));
     assert_that nd (d_eq (mid_price book) (d_lit 100 1));
     Some next_id
   }"

text \<open>\<open>main\<close>, with a clock for each test.\<close>

definition order_book_tests :: "bool \<Rightarrow> (nat \<Rightarrow> int \<Rightarrow> u64) \<Rightarrow> int option" where
  "order_book_tests nd now = test_add_and_cancel nd (now 0) 1000 \<bind> test_matching nd (now 1) \<bind> test_full_fill nd (now 2)
     \<bind> test_price_time_priority nd (now 3) \<bind> test_market_order nd (now 4) \<bind> test_modify_order nd (now 5) \<bind> test_spread_and_mid nd (now 6)"

text \<open>Prices with a small integer value are exact.\<close>

lemma d_lit_int:
  assumes "n < 16777216"
  shows "d_finite (d_lit n (Suc 0))" "d_int (d_lit n (Suc 0)) = int n * int d_unit"
  using d_within_lit [of 1 "int n * 268435456" n "int n * 268435456"] assms by (auto simp: d_within_def d_unit_grain)

lemma d_int_null: "\<not> is_nan (0 :: double)" "d_int 0 = 0" "d_unit \<noteq> 0"
  by (simp_all add: is_nan_def d_mag_def inf_mag_def d_int_def mag_val_def d_unit_def)

lemma d_lit_compare:
  assumes "n < 16777216" "m < 16777216"
  shows "d_lt (d_lit n (Suc 0)) (d_lit m (Suc 0)) \<longleftrightarrow> n < m" "d_eq (d_lit n (Suc 0)) (d_lit m (Suc 0)) \<longleftrightarrow> n = m"
  using d_lit_int [OF assms(1)] d_lit_int [OF assms(2)] by (simp_all add: d_lt_def d_eq_def d_int_null)

lemma d_lit_null: "n < 16777216 \<Longrightarrow> d_eq (d_lit n (Suc 0)) 0 \<longleftrightarrow> n = 0" "d_eq 0 (0 :: double)"
  using d_lit_int [of n] by (simp_all add: d_eq_def d_int_null)

lemma d_within_eq_lit: "d_within (int k * 268435456) x (int k * 268435456) \<Longrightarrow> k < 16777216 \<Longrightarrow> d_eq x (d_lit k (Suc 0))"
  using d_lit_int [of k] by (auto simp: d_eq_def d_within_def d_unit_grain)

lemma quotes_99_101:
  "d_eq (d_sub (d_lit 101 (Suc 0)) (d_lit 99 (Suc 0))) (d_lit 2 (Suc 0))"
  "d_eq (d_div (d_add (d_lit 99 (Suc 0)) (d_lit 101 (Suc 0))) (d_lit 2 (Suc 0))) (d_lit 100 (Suc 0))"
proof -
  have lit: "d_within 26575110144 (d_lit 99 (Suc 0)) 26575110144" "d_within 27111981056 (d_lit 101 (Suc 0)) 27111981056"
    "d_within 536870912 (d_lit 2 (Suc 0)) 536870912" by (rule d_within_lit; simp)+
  show "d_eq (d_sub (d_lit 101 (Suc 0)) (d_lit 99 (Suc 0))) (d_lit 2 (Suc 0))"
    using d_within_sub [OF lit(2,1)] by (intro d_within_eq_lit) simp_all
  have "d_within 53687091200 (d_add (d_lit 99 (Suc 0)) (d_lit 101 (Suc 0))) 53687091200" using d_within_add [OF lit(1,2)] by simp
  from d_within_div [OF this lit(3), of 26843545600 26843545600]
  show "d_eq (d_div (d_add (d_lit 99 (Suc 0)) (d_lit 101 (Suc 0))) (d_lit 2 (Suc 0))) (d_lit 100 (Suc 0))" by (intro d_within_eq_lit) simp_all
qed

lemmas book_test_defs = assert_that_def assert_call_def make_order_def new_book_def empty_order_def Let_def
  add_order_def match_limit_order_def cannot_cross_def final_status_def rest_order_def remaining_def is_filled_def is_buy_def
  fill_def generate_trade_def push_trade_def erase_index_def cancel_order_def modify_order_def add_market_order_def match_market_order_def
  deref_def level_entries_def erase_from_side_def erase_node_def best_bid_def best_ask_def bid_size_def ask_size_def level_total_def
  order_count_def trade_count_def trades_def drain_trades_def price_less_def price_greater_def key_equiv_def s32_def d_lit_compare d_lit_null

lemma add_and_cancel_passes: "test_add_and_cancel nd now 1000 = Some 1001"
  by (cases nd) (simp_all add: test_add_and_cancel_def book_test_defs)

lemma matching_passes: "test_matching nd now 1001 = Some 1003"
  by (cases nd) (simp_all add: test_matching_def book_test_defs)

lemma full_fill_passes: "test_full_fill nd now 1003 = Some 1005"
  by (cases nd) (simp_all add: test_full_fill_def book_test_defs)

lemma price_time_priority_passes: "test_price_time_priority nd now 1005 = Some 1008"
  by (cases nd) (simp_all add: test_price_time_priority_def book_test_defs)

lemma market_order_passes: "test_market_order nd now 1008 = Some 1011"
  by (cases nd) (simp_all add: test_market_order_def book_test_defs)

lemma modify_order_passes: "test_modify_order nd now 1011 = Some 1012"
  by (cases nd) (simp_all add: test_modify_order_def book_test_defs)

lemma spread_and_mid_passes: "test_spread_and_mid nd now 1012 = Some 1014"
  by (cases nd) (simp_all add: test_spread_and_mid_def book_test_defs spread_def mid_price_def quotes_99_101)

section \<open>tests/test\_ring\_buffer.c\<close>

text \<open>\<open>for\<close> over a list of indices, and the address of an element of an array of \<open>int\<close>.\<close>

fun for_each :: "(nat \<Rightarrow> 's \<Rightarrow> 's option) \<Rightarrow> nat list \<Rightarrow> 's \<Rightarrow> 's option" where
  "for_each f [] s = Some s"
| "for_each f (i # is) s = f i s \<bind> for_each f is"

definition elem :: "ptr \<Rightarrow> nat \<Rightarrow> ptr" where
  "elem arr i = arr + 4 * of_nat i"

definition TEST_CAPACITY :: u32 where
  "TEST_CAPACITY = 64"

text \<open>The bodies of the loops that push and pop, where \<open>mem\<close> is the memory of the \<open>int\<close>s. The result of a test is the ring just before
  \<open>ring_buffer_destroy\<close>.\<close>

definition push_value :: "bool \<Rightarrow> ptr \<Rightarrow> nat \<Rightarrow> (ptr \<Rightarrow> int) \<times> ring_buffer \<Rightarrow> ((ptr \<Rightarrow> int) \<times> ring_buffer) option" where
  "push_value nd arr i = (\<lambda>(mem, rb). do {
     let mem = mem(elem arr i := int i + 100);
     (pushed, rb) \<leftarrow> ring_buffer_push rb (elem arr i);
     assert_that nd pushed;
     Some (mem, rb)
   })"

definition pop_value :: "bool \<Rightarrow> ptr \<Rightarrow> (ptr \<Rightarrow> int) \<Rightarrow> nat \<Rightarrow> ring_buffer \<Rightarrow> ring_buffer option" where
  "pop_value nd arr mem i rb = do {
     (v, rb) \<leftarrow> ring_buffer_pop rb;
     assert_that nd (v \<noteq> 0);
     assert_that nd (mem v = mem (elem arr i));
     Some rb
   }"

definition test_basic_push_pop :: "bool \<Rightarrow> (nat \<Rightarrow> bool) \<Rightarrow> ring_buffer \<Rightarrow> ptr \<Rightarrow> (ptr \<Rightarrow> int) \<Rightarrow> ring_buffer option" where
  "test_basic_push_pop nd alloc rb0 arr mem0 = do {
     let (ret, made) = ring_buffer_init alloc (Some rb0) TEST_CAPACITY;
     rb \<leftarrow> made;
     assert_that nd (ret = 0);
     assert_that nd (ring_buffer_empty (Some rb));
     assert_that nd (\<not> ring_buffer_full (Some rb));
     (mem, rb) \<leftarrow> for_each (push_value nd arr) [0..<10] (mem0, rb);
     assert_that nd (ring_buffer_count (Some rb) = 10);
     assert_that nd (\<not> ring_buffer_empty (Some rb));
     rb \<leftarrow> for_each (pop_value nd arr mem) [0..<10] rb;
     assert_that nd (ring_buffer_empty (Some rb));
     (null_pop, rb) \<leftarrow> ring_buffer_pop rb;
     assert_that nd (null_pop = 0);
     Some rb
   }"

definition test_full_buffer :: "bool \<Rightarrow> (nat \<Rightarrow> bool) \<Rightarrow> ring_buffer \<Rightarrow> ptr \<times> ptr \<times> ptr \<times> ptr \<Rightarrow> ring_buffer option" where
  "test_full_buffer nd alloc rb0 vs = do {
     let (v1, v2, v3, v4) = vs;
     let (ret, made) = ring_buffer_init alloc (Some rb0) 4;
     rb \<leftarrow> made;
     assert_that nd (ret = 0);
     rb \<leftarrow> assert_call nd True (\<lambda>rb. ring_buffer_push rb v1) rb;
     rb \<leftarrow> assert_call nd True (\<lambda>rb. ring_buffer_push rb v2) rb;
     rb \<leftarrow> assert_call nd True (\<lambda>rb. ring_buffer_push rb v3) rb;
     rb \<leftarrow> assert_call nd False (\<lambda>rb. ring_buffer_push rb v4) rb;
     assert_that nd (ring_buffer_full (Some rb));
     (popped, rb) \<leftarrow> ring_buffer_pop rb;
     assert_that nd (popped = v1);
     assert_call nd True (\<lambda>rb. ring_buffer_push rb v4) rb
   }"

definition test_wrap_around :: "bool \<Rightarrow> (nat \<Rightarrow> bool) \<Rightarrow> ring_buffer \<Rightarrow> ptr \<Rightarrow> (ptr \<Rightarrow> int) \<Rightarrow> ring_buffer option" where
  "test_wrap_around nd alloc rb0 arr mem0 = do {
     let (ret, made) = ring_buffer_init alloc (Some rb0) 8;
     rb \<leftarrow> made;
     assert_that nd (ret = 0);
     mem \<leftarrow> for_each (\<lambda>i mem. Some (mem(elem arr i := int i))) [0..<20] mem0;
     rb \<leftarrow> for_each (\<lambda>iter rb. do {
         rb \<leftarrow> for_each (\<lambda>i. assert_call nd True (\<lambda>rb. ring_buffer_push rb (elem arr i))) [0..<7] rb;
         for_each (pop_value nd arr mem) [0..<7] rb }) [0..<10] rb;
     assert_that nd (ring_buffer_empty (Some rb));
     Some rb
   }"

text \<open>\<open>test_threaded\<close>: the producer thread pushes its items until each is in, the consumer thread pops until it has as many.
  The state in which both threads have ended:\<close>

definition test_threaded_joined :: "ptr list \<Rightarrow> spsc \<Rightarrow> bool" where
  "test_threaded_joined items s \<longleftrightarrow> pushed s = items \<and> ppc s = PIdle \<and> length (filter (\<lambda>v. v \<noteq> 0) (popped s)) = length items \<and> cpc s = CIdle"

lemma test_init:
  assumes "k < 31" and "\<And>n. alloc n"
  shows "\<exists>rb. ring_buffer_init alloc (Some rb0) (2 ^ k) = (0, Some rb) \<and> rb_ok rb \<and> rb_contents rb = [] \<and> rb_bound rb = 2 ^ k - 1"
proof -
  have u: "unat (2 ^ k :: u32) = 2 ^ k" using unat_of_nat_u32 [of "2 ^ k"] power_strict_increasing [of k 32 "2 :: nat"] assms(1) by simp
  then have p: "is_power_of_two (2 ^ k)" using assms(1) by (auto simp: is_power_of_two_iff)
  then have nz: "(2 ^ k :: u32) \<noteq> 0" using assms(1) by simp
  let ?rb = "rb0\<lparr>buffer := Some (replicate (2 ^ k) 0), rb_capacity := 2 ^ k, rb_mask := 2 ^ k - 1, head := 0, tail := 0\<rparr>"
  have "ring_buffer_init alloc (Some rb0) (2 ^ k) = (0, Some ?rb)" using p nz assms(2) u by (simp add: ring_buffer_init_def Let_def)
  moreover have "rb_ok ?rb" "rb_contents ?rb = []" "rb_bound ?rb = 2 ^ k - 1" using p u by (simp_all add: rb_ok_def rb_contents_def rb_len_def rb_bound_def)
  ultimately show ?thesis by blast
qed

lemma elem_not_null: "arr \<noteq> 0 \<Longrightarrow> unat arr + 4 * n \<le> 2 ^ 64 \<Longrightarrow> i < n \<Longrightarrow> elem arr i \<noteq> 0"
proof -
  assume a: "arr \<noteq> 0" "unat arr + 4 * n \<le> 2 ^ 64" "i < n"
  then have "unat (4 * of_nat i :: ptr) = 4 * i" using unat_of_nat_u64 [of "4 * i"] by simp
  then have "unat (elem arr i) = unat arr + 4 * i" using a by (simp add: elem_def unat_word_ariths(1))
  then show ?thesis using a(1) by (metis add_is_0 unat_0 unat_eq_zero)
qed

lemma push_loop:
  assumes "rb_ok rb" and "length (rb_contents rb) + length is \<le> rb_bound rb"
  shows "\<exists>rb'. for_each (\<lambda>i. assert_call nd True (\<lambda>rb. ring_buffer_push rb (elem arr i))) is rb = Some rb' \<and> rb_ok rb' \<and> rb_bound rb' = rb_bound rb
    \<and> rb_contents rb' = rb_contents rb @ (if nd then [] else map (elem arr) is)"
  using assms
proof (induction "is" arbitrary: rb)
  case (Cons i "is")
  show ?case
  proof (cases nd)
    case True
    then show ?thesis using Cons.IH [of rb] Cons.prems by (simp add: assert_call_def)
  next
    case False
    from rbq.push_room [OF Cons.prems(1), of "elem arr i"] Cons.prems(2) obtain q where
      q: "ring_buffer_push rb (elem arr i) = Some (True, q)" "rb_ok q" "rb_contents q = rb_contents rb @ [elem arr i]" "rb_bound q = rb_bound rb" by auto
    then show ?thesis using Cons.IH [of q] Cons.prems(2) False by (simp add: assert_call_def)
  qed
qed simp

lemma push_value_loop:
  assumes "rb_ok rb" and "length (rb_contents rb) + length is \<le> rb_bound rb"
  shows "\<exists>mem' rb'. for_each (push_value nd arr) is (mem, rb) = Some (mem', rb') \<and> rb_ok rb' \<and> rb_bound rb' = rb_bound rb
    \<and> rb_contents rb' = rb_contents rb @ map (elem arr) is"
  using assms
proof (induction "is" arbitrary: mem rb)
  case (Cons i "is")
  from rbq.push_room [OF Cons.prems(1), of "elem arr i"] Cons.prems(2) obtain q where
    q: "ring_buffer_push rb (elem arr i) = Some (True, q)" "rb_ok q" "rb_contents q = rb_contents rb @ [elem arr i]" "rb_bound q = rb_bound rb" by auto
  then show ?case using Cons.IH [OF q(2), of "mem(elem arr i := int i + 100)"] Cons.prems(2) by (simp add: assert_that_def push_value_def [of nd arr i] del: fun_upd_apply)
qed simp

lemma pop_value_loop:
  assumes "rb_ok rb" and "rb_contents rb = map (elem arr) is \<or> nd \<and> rb_contents rb = []" and "\<forall>i \<in> set is. elem arr i \<noteq> 0"
  shows "\<exists>rb'. for_each (pop_value nd arr mem) is rb = Some rb' \<and> rb_ok rb' \<and> rb_bound rb' = rb_bound rb \<and> rb_contents rb' = []"
  using assms
proof (induction "is" arbitrary: rb)
  case (Cons i "is")
  from rbq.pop_total [OF Cons.prems(1)] obtain v q where
    q: "ring_buffer_pop rb = Some (v, q)" "rb_ok q" "rb_bound q = rb_bound rb" "rb_contents q = tl (rb_contents rb)"
      "v = (case rb_contents rb of [] \<Rightarrow> 0 | y # _ \<Rightarrow> y)" by blast
  then show ?case using Cons.IH [of q] Cons.prems by (auto simp: assert_that_def pop_value_def)
qed auto

lemma ring_queries:
  assumes "rb_ok rb"
  shows "ring_buffer_empty (Some rb) \<longleftrightarrow> rb_contents rb = []" "ring_buffer_full (Some rb) \<longleftrightarrow> length (rb_contents rb) = rb_bound rb"
    "unat (ring_buffer_count (Some rb)) = length (rb_contents rb)"
proof -
  have "rb_contents rb = [] \<longleftrightarrow> rb_len rb = 0" unfolding length_rb_contents [OF assms, symmetric] by simp
  then show "ring_buffer_empty (Some rb) \<longleftrightarrow> rb_contents rb = []" "ring_buffer_full (Some rb) \<longleftrightarrow> length (rb_contents rb) = rb_bound rb"
    "unat (ring_buffer_count (Some rb)) = length (rb_contents rb)"
    using rb_empty_iff [OF assms] rb_indices(5) [OF assms] rb_full_iff [OF assms] length_rb_contents [OF assms]
    by (auto simp: ring_buffer_empty_def ring_buffer_count_def ring_buffer_full_def rb_bound_def)
qed

lemma basic_push_pop_passes:
  assumes "\<And>n. alloc n" and "arr \<noteq> 0" and "unat arr + 40 \<le> 2 ^ 64"
  shows "\<exists>rb. test_basic_push_pop nd alloc rb0 arr mem = Some rb \<and> rb_contents rb = []"
proof -
  obtain rb where rb: "ring_buffer_init alloc (Some rb0) TEST_CAPACITY = (0, Some rb)" "rb_ok rb" "rb_contents rb = []" "rb_bound rb = 63"
    using test_init [of 6 alloc rb0] assms(1) by (auto simp: TEST_CAPACITY_def)
  from push_value_loop [OF rb(2), of "[0..<10]" nd arr mem] rb(3,4) obtain mem' q where
    q: "for_each (push_value nd arr) [0..<10] (mem, rb) = Some (mem', q)" "rb_ok q" "rb_contents q = map (elem arr) [0..<10]"
    by (auto simp del: upt_Suc)
  have "\<forall>i \<in> set [0..<10]. elem arr i \<noteq> 0" using elem_not_null [of arr 10] assms(2,3) by simp
  from pop_value_loop [OF q(2) _ this, of nd mem'] q(3) obtain r where
    r: "for_each (pop_value nd arr mem') [0..<10] q = Some r" "rb_ok r" "rb_contents r = []" by blast
  have "unat (ring_buffer_count (Some q)) = 10" using ring_queries(3) [OF q(2)] q(3) by simp
  then have "ring_buffer_count (Some q) = 10" by (simp add: word_unat_eq_iff)
  moreover have "ring_buffer_pop r = Some (0, r)" using rbq.pop_empty [OF r(2,3)] .
  moreover have "ring_buffer_empty (Some rb)" "\<not> ring_buffer_full (Some rb)" "\<not> ring_buffer_empty (Some q)" "ring_buffer_empty (Some r)"
    using ring_queries [OF rb(2)] ring_queries [OF q(2)] ring_queries [OF r(2)] rb(3,4) q(3) r(3) by simp_all
  ultimately show ?thesis using rb(1) q(1) r by (simp add: test_basic_push_pop_def assert_that_def del: upt_Suc)
qed

lemma full_buffer_passes:
  assumes "\<And>n. alloc n"
  shows "\<exists>rb. test_full_buffer nd alloc rb0 (v1, v2, v3, v4) = Some rb \<and> rb_contents rb = (if nd then [] else [v2, v3, v4])"
proof -
  obtain rb where rb: "ring_buffer_init alloc (Some rb0) 4 = (0, Some rb)" "rb_ok rb" "rb_contents rb = []" "rb_bound rb = 3"
    using test_init [of 2 alloc rb0] assms(1) by auto
  show ?thesis
  proof (cases nd)
    case True
    then show ?thesis using rb rbq.pop_empty [OF rb(2,3)] by (simp add: test_full_buffer_def assert_that_def assert_call_def)
  next
    case False
    from rbq.push_room [OF rb(2), of v1] rb(3,4) obtain r1 where
      1: "ring_buffer_push rb v1 = Some (True, r1)" "rb_ok r1" "rb_contents r1 = [v1]" "rb_bound r1 = 3" by auto
    from rbq.push_room [OF 1(2), of v2] 1(3,4) obtain r2 where
      2: "ring_buffer_push r1 v2 = Some (True, r2)" "rb_ok r2" "rb_contents r2 = [v1, v2]" "rb_bound r2 = 3" by auto
    from rbq.push_room [OF 2(2), of v3] 2(3,4) obtain r3 where
      3: "ring_buffer_push r2 v3 = Some (True, r3)" "rb_ok r3" "rb_contents r3 = [v1, v2, v3]" "rb_bound r3 = 3" by auto
    have full: "ring_buffer_push r3 v4 = Some (False, r3)" "ring_buffer_full (Some r3)" using rbq.push_full [OF 3(2)] ring_queries [OF 3(2)] 3(3,4) by simp_all
    from rbq.pop_item [OF 3(2,3)] 3(4) obtain r4 where
      4: "ring_buffer_pop r3 = Some (v1, r4)" "rb_ok r4" "rb_contents r4 = [v2, v3]" "rb_bound r4 = 3" by auto
    from rbq.push_room [OF 4(2), of v4] 4(3,4) obtain r5 where
      5: "ring_buffer_push r4 v4 = Some (True, r5)" "rb_contents r5 = [v2, v3, v4]" by auto
    show ?thesis using False rb(1) 1(1) 2(1) 3(1) full 4(1) 5 by (simp add: test_full_buffer_def assert_that_def assert_call_def)
  qed
qed

lemma wrap_around_passes:
  assumes "\<And>n. alloc n" and "arr \<noteq> 0" and "unat arr + 80 \<le> 2 ^ 64"
  shows "\<exists>rb. test_wrap_around nd alloc rb0 arr mem = Some rb \<and> rb_contents rb = []"
proof -
  obtain rb where rb: "ring_buffer_init alloc (Some rb0) 8 = (0, Some rb)" "rb_ok rb" "rb_contents rb = []" "rb_bound rb = 7"
    using test_init [of 3 alloc rb0] assms(1) by auto
  have nn: "\<forall>i \<in> set [0..<7]. elem arr i \<noteq> 0" using elem_not_null [of arr 20] assms(2,3) by simp
  have mem: "\<exists>mem'. for_each (\<lambda>i mem. Some (mem(elem arr i := int i))) is mem = Some mem'" for "is" mem by (induction "is" arbitrary: mem) simp_all
  then obtain mem' where m: "for_each (\<lambda>i mem. Some (mem(elem arr i := int i))) [0..<20] mem = Some mem'" by blast
  define round where "round = (\<lambda>(iter :: nat) rb. do {
      rb \<leftarrow> for_each (\<lambda>i. assert_call nd True (\<lambda>rb. ring_buffer_push rb (elem arr i))) [0..<7] rb; for_each (pop_value nd arr mem') [0..<7] rb })"
  have round: "\<exists>q'. round iter q = Some q' \<and> rb_ok q' \<and> rb_contents q' = [] \<and> rb_bound q' = 7" if q: "rb_ok q" "rb_contents q = []" "rb_bound q = 7" for iter q
  proof -
    from push_loop [OF q(1), of "[0..<7]" nd arr] q(2,3) obtain q1 where
      1: "for_each (\<lambda>i. assert_call nd True (\<lambda>rb. ring_buffer_push rb (elem arr i))) [0..<7] q = Some q1" "rb_ok q1" "rb_bound q1 = 7"
        "rb_contents q1 = (if nd then [] else map (elem arr) [0..<7])" by (auto simp del: upt_Suc)
    then have "rb_contents q1 = map (elem arr) [0..<7] \<or> nd \<and> rb_contents q1 = []" by simp
    from pop_value_loop [OF 1(2) this nn, of mem'] 1(1,3) show ?thesis by (auto simp: round_def simp del: upt_Suc)
  qed
  have "\<exists>q'. for_each round is q = Some q' \<and> rb_ok q' \<and> rb_contents q' = [] \<and> rb_bound q' = 7" if "rb_ok q" "rb_contents q = []" "rb_bound q = 7" for "is" q
    using that
  proof (induction "is" arbitrary: q)
    case (Cons i "is")
    with round [OF Cons.prems, of i] show ?case by auto
  qed simp
  from this [OF rb(2-4), of "[0..<10]"] obtain r where r: "for_each round [0..<10] rb = Some r" "rb_ok r" "rb_contents r = []" by blast
  then show ?thesis using rb(1) m ring_queries(1) [OF r(2)] by (simp add: test_wrap_around_def assert_that_def round_def del: upt_Suc)
qed

text \<open>The threads of \<open>test_threaded\<close> can always come to their end: when they take turns, each item is popped right after it was pushed.\<close>

lemma pop_by_steps:
  assumes "cpc s = CIdle" and "rb_ok (ring s)" and "rb_contents (ring s) = x # xs"
  shows "\<exists>rb'. spsc_step\<^sup>*\<^sup>* s (s\<lparr>ring := rb', popped := popped s @ [x]\<rparr>) \<and> rb_ok rb' \<and> rb_contents rb' = xs \<and> rb_bound rb' = rb_bound (ring s)"
proof -
  let ?t = "ucast (tail (ring s)) :: u32" and ?h = "ucast (head (ring s)) :: u32"
  let ?rb = "(ring s)\<lparr>tail := ucast ((?t + 1) AND rb_mask (ring s))\<rparr>"
  let ?s1 = "s\<lparr>cpc := CTail ?t\<rparr>" and ?s2 = "s\<lparr>cpc := CHead ?t ?h\<rparr>" and ?s3 = "s\<lparr>cpc := CRead ?t x\<rparr>"
  have idle: "s\<lparr>cpc := CIdle\<rparr> = s" using assms(1) by (cases s) simp
  have ne: "?t \<noteq> ?h" using rb_empty_iff [OF assms(2)] length_rb_contents [OF assms(2)] assms(3) by auto
  have "spsc_step s ?s1" by (rule c_tail [OF assms(1)])
  moreover have "spsc_step ?s1 ?s2" using c_head [of ?s1 ?t] by simp
  moreover have "spsc_step ?s2 ?s3" using c_load [of ?s2 ?t ?h x] ne load_tail_rb [OF assms(2)] assms(3) by simp
  moreover have "spsc_step ?s3 (s\<lparr>ring := ?rb, popped := popped s @ [x]\<rparr>)" using c_publish [of ?s3 ?t x] idle assms(1) by (cases s) simp
  ultimately have "spsc_step\<^sup>*\<^sup>* s (s\<lparr>ring := ?rb, popped := popped s @ [x]\<rparr>)" by (meson converse_rtranclp_into_rtranclp rtranclp.rtrancl_refl)
  then show ?thesis using publish_tail_rb [OF assms(2)] assms(3) by (intro exI [of _ ?rb]) (simp add: rb_bound_def)
qed

lemma threads_take_turns:
  assumes "spsc_reachable rb s" and "ppc s = PIdle" and "cpc s = CIdle" and "rb_ok (ring s)" and "rb_contents (ring s) = []" and "0 < rb_bound (ring s)"
  shows "\<exists>s'. spsc_reachable rb s' \<and> ppc s' = PIdle \<and> cpc s' = CIdle \<and> pushed s' = pushed s @ items \<and> popped s' = popped s @ items"
  using assms
proof (induction items arbitrary: s)
  case (Cons x items)
  from rbq.push_room [OF Cons.prems(4), of x] Cons.prems(5,6) obtain r where
    r: "ring_buffer_push (ring s) x = Some (True, r)" "rb_ok r" "rb_contents r = [x]" "rb_bound r = rb_bound (ring s)" by auto
  let ?s1 = "s\<lparr>ring := r, pushed := pushed s @ [x]\<rparr>"
  have 1: "spsc_reachable rb ?s1" using spsc_reachable_star [OF push_by_steps [OF Cons.prems(2) r(1)] Cons.prems(1)] by simp
  have "cpc ?s1 = CIdle" "rb_ok (ring ?s1)" "rb_contents (ring ?s1) = [x]" using Cons.prems(3) r by simp_all
  from pop_by_steps [OF this] obtain r2 where
    2: "spsc_step\<^sup>*\<^sup>* ?s1 (?s1\<lparr>ring := r2, popped := popped s @ [x]\<rparr>)" "rb_ok r2" "rb_contents r2 = []" "rb_bound r2 = rb_bound r" by auto
  from Cons.IH [OF spsc_reachable_star [OF 2(1) 1]] Cons.prems 2 r(4) show ?case by simp
qed auto

section \<open>tests/test\_memory\_pool.c\<close>

text \<open>Writing through a pointer: through a null pointer the program crashes. \<open>mem\<close> maps an object to the string in it.\<close>

definition write_string :: "address \<Rightarrow> string \<Rightarrow> (address \<Rightarrow> string) \<Rightarrow> (address \<Rightarrow> string) option" where
  "write_string p t mem = (if p = 0 then None else Some (mem(p := t)))"

text \<open>The body of the allocation loops; the first one also fills the object.\<close>

definition alloc_slot :: "bool \<Rightarrow> string option \<Rightarrow> nat \<Rightarrow> mempool \<times> address list \<times> (address \<Rightarrow> string) \<Rightarrow>
    (mempool \<times> address list \<times> (address \<Rightarrow> string)) option" where
  "alloc_slot nd pat i = (\<lambda>(mp, ptrs, mem). do {
     (p, mp) \<leftarrow> mempool_alloc mp;
     assert_that nd (p \<noteq> 0);
     mem \<leftarrow> (case pat of None \<Rightarrow> Some mem | Some t \<Rightarrow> write_string p t mem);
     Some (mp, ptrs @ [p], mem)
   })"

text \<open>\<open>test_alloc_free\<close>, on the storage at \<open>base\<close>; the pool just before \<open>mempool_destroy\<close>. \<open>memset\<close> fills an object with 64
  bytes \<open>0xAA\<close>.\<close>

definition test_alloc_free :: "bool \<Rightarrow> address \<Rightarrow> mempool \<Rightarrow> (address \<Rightarrow> string) \<Rightarrow> mempool option" where
  "test_alloc_free nd base mp0 mem0 = do {
     let (ret, made) = mempool_init base True (Some mp0) 64 16;
     mp \<leftarrow> made;
     assert_that nd (ret = 0);
     assert_that nd (mempool_available (Some mp) = 16);
     assert_that nd (mempool_capacity (Some mp) = 16);
     (mp, ptrs, mem) \<leftarrow> for_each (alloc_slot nd (Some (replicate 64 (CHR 0xAA)))) [0..<16] (mp, [], mem0);
     assert_that nd (mempool_available (Some mp) = 0);
     (null_alloc, mp) \<leftarrow> mempool_alloc mp;
     assert_that nd (null_alloc = 0);
     mp \<leftarrow> for_each (\<lambda>i mp. mempool_free mp (ptrs ! i)) [0..<8] mp;
     assert_that nd (mempool_available (Some mp) = 8);
     (mp, again, mem) \<leftarrow> for_each (alloc_slot nd None) [0..<8] (mp, [], mem);
     assert_that nd (mempool_available (Some mp) = 0);
     Some mp
   }"

definition test_pointer_validity :: "bool \<Rightarrow> address \<Rightarrow> mempool \<Rightarrow> (address \<Rightarrow> string) \<Rightarrow> mempool option" where
  "test_pointer_validity nd base mp0 mem = do {
     let (ret, made) = mempool_init base True (Some mp0) 128 32;
     mp \<leftarrow> made;
     assert_that nd (ret = 0);
     (p1, mp) \<leftarrow> mempool_alloc mp;
     (p2, mp) \<leftarrow> mempool_alloc mp;
     assert_that nd (p1 \<noteq> 0);
     assert_that nd (p2 \<noteq> 0);
     assert_that nd (pool mp \<le> p1);
     assert_that nd (pool mp \<le> p2);
     assert_that nd (p1 \<noteq> p2);
     mem \<leftarrow> write_string p1 ''Hello, Pool!'' mem;
     mp \<leftarrow> mempool_free mp p1;
     (p3, mp) \<leftarrow> mempool_alloc mp;
     assert_that nd (p3 \<noteq> 0);
     mem \<leftarrow> write_string p3 ''Reused slot'' mem;
     assert_that nd (mem p3 = ''Reused slot'');
     Some mp
   }"

lemma available_card: "mp_ok mp \<Longrightarrow> card (mp_avail mp) = n \<Longrightarrow> mempool_available (Some mp) = of_nat n"
  using card_mp_avail [of mp] by (auto simp: mempool_available_def)

text \<open>What a loop of allocations leaves.\<close>

definition took :: "mempool \<Rightarrow> address list \<Rightarrow> mempool \<Rightarrow> bool" where
  "took mp xs mp' \<longleftrightarrow> mp_ok mp' \<and> distinct xs \<and> set xs \<subseteq> mp_avail mp \<and> mp_avail mp' = mp_avail mp - set xs \<and> mp_slots mp' = mp_slots mp"

lemma alloc_slot_step:
  assumes "mp_ok mp" and "mp_avail mp \<noteq> {}"
  shows "\<exists>x mp' mem'. alloc_slot nd pat i (mp, ptrs, mem) = Some (mp', ptrs @ [x], mem') \<and> took mp [x] mp' \<and> x \<noteq> 0"
proof -
  from mpool.alloc_some [OF assms] obtain x mp' where
    x: "mempool_alloc mp = Some (x, mp')" "mp_ok mp'" "x \<in> mp_avail mp" "mp_avail mp' = mp_avail mp - {x}" "mp_slots mp' = mp_slots mp" by blast
  have "x \<noteq> 0" using x(3) mpool.avail_slots [OF assms(1)] mpool.no_null [OF assms(1)] by auto
  then show ?thesis using x by (cases pat) (simp_all add: alloc_slot_def assert_that_def took_def write_string_def)
qed

lemma took_Cons: "took mp [x] mp1 \<Longrightarrow> took mp1 xs mp2 \<Longrightarrow> took mp (x # xs) mp2"
  by (auto simp: took_def)

lemma finite_avail: "mp_ok mp \<Longrightarrow> finite (mp_avail mp)"
  using mpool.avail_slots [of mp] mpool.finite_slots [of mp] finite_subset by blast

lemma took_card: "took mp xs mp' \<Longrightarrow> mp_ok mp \<Longrightarrow> card (mp_avail mp') = card (mp_avail mp) - length xs"
  by (simp add: took_def card_Diff_subset distinct_card finite_avail)

lemma alloc_loop:
  assumes "mp_ok mp" and "length is \<le> card (mp_avail mp)"
  shows "\<exists>xs mp' mem'. for_each (alloc_slot nd pat) is (mp, ptrs, mem) = Some (mp', ptrs @ xs, mem') \<and> took mp xs mp' \<and> length xs = length is"
  using assms
proof (induction "is" arbitrary: mp ptrs mem)
  case Nil
  then show ?case by (simp add: took_def)
next
  case (Cons i "is")
  have "mp_avail mp \<noteq> {}" using Cons.prems(2) by auto
  from alloc_slot_step [OF Cons.prems(1) this, of nd pat i ptrs mem] obtain x mp1 mem1 where
    1: "alloc_slot nd pat i (mp, ptrs, mem) = Some (mp1, ptrs @ [x], mem1)" "took mp [x] mp1" by blast
  have "mp_ok mp1" "length is \<le> card (mp_avail mp1)" using 1(2) took_card [OF 1(2) Cons.prems(1)] Cons.prems(2) by (simp_all add: took_def)
  from Cons.IH [OF this, of "ptrs @ [x]" mem1] obtain xs mp2 mem2 where
    "for_each (alloc_slot nd pat) is (mp1, ptrs @ [x], mem1) = Some (mp2, ptrs @ x # xs, mem2)" "took mp1 xs mp2" "length xs = length is" by auto
  then show ?case using 1 took_Cons [OF 1(2)] by (intro exI [of _ "x # xs"] exI [of _ mp2] exI [of _ mem2]) simp
qed

lemma free_loop:
  assumes "mp_ok mp" and "distinct (map ((!) ptrs) is)" and "\<forall>i \<in> set is. ptrs ! i \<in> mp_slots mp - mp_avail mp"
  shows "\<exists>mp'. for_each (\<lambda>i mp. mempool_free mp (ptrs ! i)) is mp = Some mp' \<and> mp_ok mp' \<and> card (mp_avail mp') = card (mp_avail mp) + length is"
  using assms
proof (induction "is" arbitrary: mp)
  case (Cons i "is")
  from mpool.free_live [OF Cons.prems(1), of "ptrs ! i"] Cons.prems(3) obtain q where
    q: "mempool_free mp (ptrs ! i) = Some q" "mp_ok q" "mp_avail q = insert (ptrs ! i) (mp_avail mp)" "mp_slots q = mp_slots mp" by auto
  have "\<forall>j \<in> set is. ptrs ! j \<in> mp_slots q - mp_avail q" using Cons.prems(2,3) q(3,4) by (force simp: image_iff)
  moreover have "card (mp_avail q) = Suc (card (mp_avail mp))" using q(3) Cons.prems(1,3) by (simp add: finite_avail)
  ultimately show ?case using Cons.IH [OF q(2)] Cons.prems(2) q(1) by auto
qed simp

lemma alloc_free_passes:
  assumes "base \<noteq> 0" and "unat base + 1024 \<le> 2 ^ 64"
  shows "\<exists>mp. test_alloc_free nd base mp0 mem = Some mp \<and> mempool_available (Some mp) = 0"
proof -
  from mempool_init_ok [of 64 16 base mp0] assms obtain m where
    m: "mempool_init base True (Some mp0) 64 16 = (0, Some m)" "mp_ok m" "mp_capacity m = 16" by auto
  have c: "card (mp_avail m) = 16" using mempool_init_fresh [of 64 16 base mp0] m(1) assms by auto
  from alloc_loop [OF m(2), of "[0..<16]" nd "Some (replicate 64 (CHR 0xAA))" "[]" mem] c obtain xs m1 mem1 where
    1: "for_each (alloc_slot nd (Some (replicate 64 (CHR 0xAA)))) [0..<16] (m, [], mem) = Some (m1, xs, mem1)" "took m xs m1" "length xs = 16"
    by (auto simp del: upt_Suc)
  have ok1: "mp_ok m1" "card (mp_avail m1) = 0" using 1(2) took_card [OF 1(2) m(2)] c 1(3) by (simp_all add: took_def)
  then have e: "mp_avail m1 = {}" using finite_avail [OF ok1(1)] by simp
  have "distinct (map ((!) xs) [0..<8])" using 1(2,3) by (simp add: took_def distinct_map inj_on_def nth_eq_iff_index_eq del: upt_Suc)
  moreover have "set xs \<subseteq> mp_slots m1" using 1(2) mpool.avail_slots [OF m(2)] by (auto simp: took_def)
  then have "\<forall>i \<in> set [0..<8]. xs ! i \<in> mp_slots m1 - mp_avail m1" using 1(3) e nth_mem [of _ xs] by (auto simp: subset_iff)
  ultimately obtain m2 where
    2: "for_each (\<lambda>i mp. mempool_free mp (xs ! i)) [0..<8] m1 = Some m2" "mp_ok m2" "card (mp_avail m2) = 8"
    using free_loop [OF ok1(1), of xs "[0..<8]"] ok1(2) by (auto simp del: upt_Suc)
  from alloc_loop [OF 2(2), of "[0..<8]" nd None "[]" mem1] 2(3) obtain ys m3 mem2 where
    3: "for_each (alloc_slot nd None) [0..<8] (m2, [], mem1) = Some (m3, ys, mem2)" "took m2 ys m3" "length ys = 8" by (auto simp del: upt_Suc)
  have ok3: "mp_ok m3" "card (mp_avail m3) = 0" using 3(2) took_card [OF 3(2) 2(2)] 2(3) 3(3) by (simp_all add: took_def)
  show ?thesis using m 1(1) 2(1) 3(1) mpool.alloc_none [OF ok1(1) e] available_card [OF m(2) c] available_card [OF ok1] available_card [OF 2(2,3)] available_card [OF ok3]
    by (simp add: test_alloc_free_def assert_that_def mempool_capacity_def del: upt_Suc)
qed

lemma slot_above_pool: "mp_ok mp \<Longrightarrow> x \<in> mp_slots mp \<Longrightarrow> pool mp \<le> x"
  by (auto simp: mp_slots_def object_address_unat word_le_nat_alt)

lemma pointer_validity_passes:
  assumes "base \<noteq> 0" and "unat base + 4096 \<le> 2 ^ 64"
  shows "\<exists>mp. test_pointer_validity nd base mp0 mem = Some mp \<and> mempool_available (Some mp) = 30"
proof -
  from mempool_init_fresh [of 128 32 base mp0] assms obtain m where
    m: "mempool_init base True (Some mp0) 128 32 = (0, Some m)" "mp_ok m" "card (mp_avail m) = 32" by auto
  have alloc: "\<exists>x q'. mempool_alloc q = Some (x, q') \<and> took q [x] q' \<and> x \<noteq> 0 \<and> x \<in> mp_slots q" if q: "mp_ok q" "card (mp_avail q) \<noteq> 0" for q
  proof -
    have "mp_avail q \<noteq> {}" using q(2) by auto
    from mpool.alloc_some [OF q(1) this] show ?thesis using mpool.avail_slots [OF q(1)] mpool.no_null [OF q(1)] by (auto simp: took_def)
  qed
  from alloc [OF m(2)] m(3) obtain p1 q1 where 1: "mempool_alloc m = Some (p1, q1)" "took m [p1] q1" "p1 \<noteq> 0" "p1 \<in> mp_slots m" by auto
  have o1: "mp_ok q1" "card (mp_avail q1) = 31" using 1(2) took_card [OF 1(2) m(2)] m(3) by (simp_all add: took_def)
  from alloc [OF o1(1)] o1(2) obtain p2 q2 where 2: "mempool_alloc q1 = Some (p2, q2)" "took q1 [p2] q2" "p2 \<noteq> 0" "p2 \<in> mp_slots q1" by auto
  have o2: "mp_ok q2" "card (mp_avail q2) = 30" using 2(2) took_card [OF 2(2) o1(1)] o1(2) by (simp_all add: took_def)
  have sl: "p1 \<in> mp_slots q2" "p2 \<in> mp_slots q2" "p1 \<notin> mp_avail q2" "p1 \<noteq> p2" using 1 2 by (auto simp: took_def)
  from mpool.free_live [OF o2(1) sl(1,3)] obtain q3 where
    3: "mempool_free q2 p1 = Some q3" "mp_ok q3" "mp_avail q3 = insert p1 (mp_avail q2)" by blast
  have c3: "card (mp_avail q3) = 31" using 3(3) sl(3) o2 by (simp add: finite_avail)
  from alloc [OF 3(2)] c3 obtain p3 q4 where 4: "mempool_alloc q3 = Some (p3, q4)" "took q3 [p3] q4" "p3 \<noteq> 0" by auto
  have o4: "mp_ok q4" "card (mp_avail q4) = 30" using 4(2) took_card [OF 4(2) 3(2)] c3 by (simp_all add: took_def)
  show ?thesis using m(1) 1(1,3) 2(1,3) 3(1) 4(1,3) sl slot_above_pool [OF o2(1)] available_card [OF o4]
    by (simp add: test_pointer_validity_def assert_that_def write_string_def)
qed

section \<open>All tests\<close>

text \<open>C40: the repository's unit tests pass on the model, with or without \<open>NDEBUG\<close>: the order book tests; the sequential ring buffer tests, on any three
  rings and arrays; the threaded ring buffer test, under every interleaving with which the two threads end, and there is one for any items; and the sequential pool
  tests. But with \<open>NDEBUG\<close> \<open>test_full_buffer\<close> pushes nothing at all: the calls are inside the assertions.\<close>

theorem unit_tests_pass:
  assumes "\<And>n. alloc n" and "arr \<noteq> 0" and "unat arr + 80 \<le> 2 ^ 64" and "base \<noteq> 0" and "unat base + 4096 \<le> 2 ^ 64"
  shows "order_book_tests nd now = Some 1014
    \<and> (\<exists>rb. test_basic_push_pop nd alloc rb0 arr mem = Some rb)
    \<and> (\<exists>rb. test_full_buffer nd alloc rb0 (v1, v2, v3, v4) = Some rb \<and> rb_contents rb = (if nd then [] else [v2, v3, v4]))
    \<and> (\<exists>rb. test_wrap_around nd alloc rb0 arr mem = Some rb)
    \<and> (\<exists>rb. ring_buffer_init alloc (Some rb0) 1024 = (0, Some rb)
         \<and> (\<forall>s items. spsc_reachable rb s \<and> test_threaded_joined items s \<longrightarrow> ring_buffer_empty (Some (ring s)))
         \<and> (\<forall>items. 0 \<notin> set items \<longrightarrow> (\<exists>s. spsc_reachable rb s \<and> test_threaded_joined items s)))
    \<and> (\<exists>mp. test_alloc_free nd base mp0 smem = Some mp) \<and> (\<exists>mp. test_pointer_validity nd base mp0 smem = Some mp)"
proof (intro conjI)
  show "order_book_tests nd now = Some 1014"
    by (simp add: order_book_tests_def add_and_cancel_passes matching_passes full_fill_passes price_time_priority_passes market_order_passes
        modify_order_passes spread_and_mid_passes)
  show "\<exists>rb. test_basic_push_pop nd alloc rb0 arr mem = Some rb" using basic_push_pop_passes [of alloc arr nd rb0 mem] assms(1-3) by auto
  show "\<exists>rb. test_full_buffer nd alloc rb0 (v1, v2, v3, v4) = Some rb \<and> rb_contents rb = (if nd then [] else [v2, v3, v4])"
    by (rule full_buffer_passes) (rule assms(1))
  show "\<exists>rb. test_wrap_around nd alloc rb0 arr mem = Some rb" using wrap_around_passes [of alloc arr nd rb0 mem] assms(1-3) by auto
  obtain rb where rb: "ring_buffer_init alloc (Some rb0) 1024 = (0, Some rb)" "rb_ok rb" "rb_contents rb = []" "rb_bound rb = 1023"
    using test_init [of 10 alloc rb0] assms(1) by auto
  have "ring_buffer_empty (Some (ring s))" if s: "spsc_reachable rb s" "test_threaded_joined items s" for s items
  proof -
    have inv: "rb_ok (ring s)" "popped s @ rb_contents (ring s) = pushed s" using spsc_reachable_inv [OF s(1) rb(2,3)] by (simp_all add: spsc_inv_def)
    have "length (pushed s) \<le> length (popped s)" using s(2) length_filter_le [of "\<lambda>v. v \<noteq> 0" "popped s"] by (simp add: test_threaded_joined_def)
    then have "length (rb_contents (ring s)) = 0" using arg_cong [OF inv(2), of length] unfolding length_append by linarith
    then show ?thesis using ring_queries(1) [OF inv(1)] by simp
  qed
  moreover have "\<exists>s. spsc_reachable rb s \<and> test_threaded_joined items s" if "0 \<notin> set items" for items
  proof -
    obtain s where "spsc_reachable rb s" "ppc s = PIdle" "cpc s = CIdle" "pushed s = items" "popped s = items"
      using threads_take_turns [OF spsc_start, of rb items] rb(2-4) by auto
    moreover have "filter (\<lambda>v. v \<noteq> 0) items = items" using that by (auto simp: filter_id_conv)
    ultimately show ?thesis by (intro exI [of _ s]) (simp add: test_threaded_joined_def)
  qed
  ultimately show "\<exists>rb. ring_buffer_init alloc (Some rb0) 1024 = (0, Some rb)
      \<and> (\<forall>s items. spsc_reachable rb s \<and> test_threaded_joined items s \<longrightarrow> ring_buffer_empty (Some (ring s)))
      \<and> (\<forall>items. 0 \<notin> set items \<longrightarrow> (\<exists>s. spsc_reachable rb s \<and> test_threaded_joined items s))" using rb(1) by blast
  show "\<exists>mp. test_alloc_free nd base mp0 smem = Some mp" using alloc_free_passes [of base nd mp0 smem] assms(4,5) by auto
  show "\<exists>mp. test_pointer_validity nd base mp0 smem = Some mp" using pointer_validity_passes [OF assms(4,5)] by blast
qed

theorem unit_tests_pass_witness:
  "(4096 :: ptr) \<noteq> 0 \<and> order_book_tests False (\<lambda>_ _. 5) = Some 1014
    \<and> (\<exists>rb. test_full_buffer True (\<lambda>_. True) ex_ring (1, 2, 3, 4) = Some rb \<and> rb_contents rb = [])"
  using unit_tests_pass [of "\<lambda>_. True" 4096 4096 False "\<lambda>_ _. 5"] unit_tests_pass [of "\<lambda>_. True" 4096 4096 True "\<lambda>_ _. 5" ex_ring _ 1 2 3 4] by simp

end
