(* ===== verification/Pool_Stress_Test.thy ===== *)
theory Pool_Stress_Test
  imports Unit_Tests
begin

text \<open>
  \<open>test_multi_threaded\<close> of \<open>tests/test_memory_pool.c\<close>: four threads allocate from one pool of 1024 objects and give back, at
  random. Each atomic access of \<open>mempool_alloc\<close> and \<open>mempool_free\<close> is a step of its thread and the threads interleave freely, as in
  \<open>Memory_Pool\<close>.

  The test passes under every schedule, since what it checks is the counter. It does so although
  threads may be given an object that another thread still holds.
\<close>

section \<open>The threads\<close>

definition MT_POOL_SIZE :: u32 where
  "MT_POOL_SIZE = 1024"

definition MT_ITERATIONS :: nat where
  "MT_ITERATIONS = 10000"

definition MT_NUM_THREADS :: nat where
  "MT_NUM_THREADS = 4"

text \<open>Where a thread is: between calls; in \<open>mempool_alloc\<close> after the decrement, with the old value; in \<open>mempool_free\<close> of \<open>ptrs[k]\<close>
  after the increment, with the index and the slot.\<close>

datatype worker_pc = WIdle | WSub u32 | WAdd nat u32 u32

record worker =
  w_iter :: nat
  w_prng :: u32
  w_ptrs :: "address list"
  w_pc :: worker_pc

record stress =
  st_pool :: mempool
  st_workers :: "worker list"

definition mt_xorshift32 :: "u32 \<Rightarrow> u32" where
  "mt_xorshift32 x = (let x = x XOR push_bit 13 x; x = x XOR drop_bit 17 x; x = x XOR push_bit 5 x in x)"

text \<open>The test at the top of the loop body: allocate or free; the generator runs only when at least four objects are held.\<close>

definition wants_alloc :: "worker \<Rightarrow> bool \<times> u32" where
  "wants_alloc w = (if length (w_ptrs w) < 4 then (True, w_prng w) else let r = mt_xorshift32 (w_prng w) in (r mod 3 = 0, r))"

text \<open>After a call: the next iteration. A pointer given back is replaced by the last one, or, once the iterations are done,
  the loop over the remaining objects goes on to the next.\<close>

definition next_iter :: "worker \<Rightarrow> worker" where
  "next_iter w = w\<lparr>w_pc := WIdle, w_iter := Suc (w_iter w)\<rparr>"

definition after_free :: "nat \<Rightarrow> worker \<Rightarrow> worker" where
  "after_free k w = (if w_iter w < MT_ITERATIONS then next_iter (w\<lparr>w_ptrs := butlast ((w_ptrs w)[k := last (w_ptrs w)])\<rparr>)
     else w\<lparr>w_pc := WIdle, w_ptrs := tl (w_ptrs w)\<rparr>)"

text \<open>\<open>mempool_free\<close> up to the increment of \<open>free_top\<close>, or its early return.\<close>

definition start_free :: "nat \<Rightarrow> worker \<Rightarrow> mempool \<Rightarrow> (worker \<times> mempool) option" where
  "start_free k w mp = (let p = w_ptrs w ! k; idx = object_index mp p in
     if p = 0 then Some (after_free k w, mp)
     else if object_size mp = 0 then None
     else if mp_capacity mp \<le> idx then Some (after_free k w, mp)
     else Some (w\<lparr>w_pc := WAdd k idx (free_top mp)\<rparr>, mp\<lparr>free_top := free_top mp + 1\<rparr>))"

definition worker_step :: "worker \<Rightarrow> mempool \<Rightarrow> (worker \<times> mempool) option" where
  "worker_step w mp = (case w_pc w of
     WIdle \<Rightarrow>
       if w_iter w < MT_ITERATIONS then
         let (alloc, r) = wants_alloc w; w = w\<lparr>w_prng := r\<rparr> in
         if alloc then
           (if length (w_ptrs w) < 16 then Some (w\<lparr>w_pc := WSub (free_top mp)\<rparr>, mp\<lparr>free_top := free_top mp - 1\<rparr>) else Some (next_iter w, mp))
         else let r = mt_xorshift32 r in start_free (unat (r mod of_nat (length (w_ptrs w)))) (w\<lparr>w_prng := r\<rparr>) mp
       else if w_ptrs w = [] then Some (w, mp) else start_free 0 w mp
   | WSub t \<Rightarrow> if t = 0 then Some (next_iter w, mp\<lparr>free_top := free_top mp + 1\<rparr>)
       else map_option (\<lambda>idx. (next_iter (w\<lparr>w_ptrs := w_ptrs w @ [object_address mp idx]\<rparr>), mp)) (load_index mp (t - 1))
   | WAdd k idx slot \<Rightarrow> if mp_capacity mp \<le> slot then Some (after_free k w, mp\<lparr>free_top := free_top mp - 1\<rparr>)
       else map_option (Pair (after_free k w)) (store_index slot idx mp))"

definition stress_step :: "nat \<Rightarrow> stress \<Rightarrow> stress option" where
  "stress_step t s = (if t < length (st_workers s)
     then map_option (\<lambda>(w, mp). s\<lparr>st_pool := mp, st_workers := (st_workers s)[t := w]\<rparr>) (worker_step (st_workers s ! t) (st_pool s)) else Some s)"

text \<open>A run under a schedule, which names the thread that moves; the threads as the test creates them.\<close>

fun stress_run :: "nat list \<Rightarrow> stress \<Rightarrow> stress option" where
  "stress_run [] s = Some s"
| "stress_run (t # ts) s = stress_step t s \<bind> stress_run ts"

definition mt_workers :: "worker list" where
  "mt_workers = map (\<lambda>i. \<lparr>w_iter = 0, w_prng = 2463534242 + of_nat (i * 7919), w_ptrs = [], w_pc = WIdle\<rparr>) [0..<MT_NUM_THREADS]"

definition joined :: "stress \<Rightarrow> bool" where
  "joined s \<longleftrightarrow> (\<forall>w \<in> set (st_workers s). w_pc w = WIdle \<and> \<not> w_iter w < MT_ITERATIONS \<and> w_ptrs w = [])"

text \<open>\<open>test_multi_threaded\<close> with a given schedule; \<open>None\<close> also when the threads have not all ended.\<close>

definition test_multi_threaded :: "bool \<Rightarrow> address \<Rightarrow> mempool \<Rightarrow> nat list \<Rightarrow> mempool option" where
  "test_multi_threaded nd base mp0 sched = do {
     let (ret, made) = mempool_init base True (Some mp0) 4 MT_POOL_SIZE;
     mp \<leftarrow> made;
     assert_that nd (ret = 0);
     s \<leftarrow> stress_run sched \<lparr>st_pool = mp, st_workers = mt_workers\<rparr>;
     mp \<leftarrow> (if joined s then Some (st_pool s) else None);
     assert_that nd (mempool_available (Some mp) = MT_POOL_SIZE);
     mp \<leftarrow> for_each (\<lambda>i mp. do { (p, mp) \<leftarrow> mempool_alloc mp; assert_that nd (p \<noteq> 0); mempool_free mp p }) [0..<100] mp;
     assert_that nd (mempool_available (Some mp) = MT_POOL_SIZE);
     Some mp
   }"

section \<open>The counter is exact\<close>

text \<open>\<open>weight\<close>: the objects that a thread has taken off the counter.\<close>

definition weight :: "worker \<Rightarrow> nat" where
  "weight w = (case w_pc w of WIdle \<Rightarrow> length (w_ptrs w) | WSub t \<Rightarrow> Suc (length (w_ptrs w)) | WAdd k idx slot \<Rightarrow> length (w_ptrs w) - 1)"

definition pc_ok :: "worker \<Rightarrow> bool" where
  "pc_ok w = (case w_pc w of WIdle \<Rightarrow> True | WSub t \<Rightarrow> 0 < unat t \<and> unat t \<le> 1024 \<and> length (w_ptrs w) < 16 \<and> w_iter w < MT_ITERATIONS
     | WAdd k idx slot \<Rightarrow> k < length (w_ptrs w) \<and> idx < 1024 \<and> slot < 1024)"

text \<open>The pool and an object in it, whatever the free list says about who owns it.\<close>

definition pool_ok :: "mempool \<Rightarrow> mempool \<Rightarrow> bool" where
  "pool_ok m mp \<longleftrightarrow> pool mp = pool m \<and> object_size mp = object_size m \<and> mp_capacity mp = 1024
     \<and> (\<exists>l. free_list mp = Some l \<and> length l = 1024 \<and> (\<forall>i \<in> set l. i < 1024))"

definition worker_ok :: "mempool \<Rightarrow> worker \<Rightarrow> bool" where
  "worker_ok m w \<longleftrightarrow> length (w_ptrs w) \<le> 16 \<and> pc_ok w \<and> set (w_ptrs w) \<subseteq> mp_slots m"

definition stress_inv :: "mempool \<Rightarrow> stress \<Rightarrow> bool" where
  "stress_inv m s \<longleftrightarrow> pool_ok m (st_pool s) \<and> length (st_workers s) = 4 \<and> unat (free_top (st_pool s)) + sum_list (map weight (st_workers s)) = 1024
     \<and> (\<forall>w \<in> set (st_workers s). worker_ok m w)"

text \<open>\<open>moves\<close>: a thread has made a step, and the counter has changed with its weight; \<open>rest\<close> is the weight of the others.\<close>

definition moves :: "mempool \<Rightarrow> nat \<Rightarrow> (worker \<times> mempool) option \<Rightarrow> bool" where
  "moves m rest r \<longleftrightarrow> (\<exists>w mp. r = Some (w, mp) \<and> pool_ok m mp \<and> worker_ok m w \<and> unat (free_top mp) + weight w + rest = 1024)"

lemma weight_bound: "worker_ok m w \<Longrightarrow> weight w \<le> 16"
  by (auto simp: worker_ok_def weight_def pc_ok_def split: worker_pc.splits)

lemma slot_index:
  assumes "mp_ok m" and "mp_capacity m = 1024" and "pool_ok m mp" and "p \<in> mp_slots m"
  shows "p \<noteq> 0" "object_index mp p < 1024" "object_size mp \<noteq> 0" "object_address mp (object_index mp p) = p"
proof -
  obtain i where i: "p = object_address m i" "i < 1024" using assms(2,4) by (auto simp: mp_slots_def)
  have eq: "object_index mp = object_index m" "object_address mp = object_address m" "object_size mp = object_size m"
    using assms(3) by (simp_all add: pool_ok_def object_index_def object_address_def fun_eq_iff)
  show "p \<noteq> 0" using assms(1,4) mp_ok_null by metis
  show "object_index mp p < 1024" "object_address mp (object_index mp p) = p" using i object_index_address [OF assms(1), of i] assms(2) by (simp_all add: eq)
  show "object_size mp \<noteq> 0" using assms(1) by (auto simp: eq(3) mp_ok_def)
qed

lemma start_free_moves:
  assumes m: "mp_ok m" "mp_capacity m = 1024" and "pool_ok m mp" and "worker_ok m w" and "w_pc w = WIdle" and "k < length (w_ptrs w)"
    and "unat (free_top mp) + weight w + rest = 1024"
  shows "moves m rest (start_free k w mp)"
proof -
  have p: "w_ptrs w ! k \<in> mp_slots m" using assms(4,6) by (auto simp: worker_ok_def)
  note S = slot_index [OF m assms(3) p]
  have c: "mp_capacity mp = 1024" using assms(3) by (simp add: pool_ok_def)
  have ft: "unat (free_top mp) < 1024" using assms(5-7) by (simp add: weight_def)
  then have u: "unat (free_top mp + 1) = Suc (unat (free_top mp))" by (subst unat_word_ariths(1)) simp
  have "start_free k w mp = Some (w\<lparr>w_pc := WAdd k (object_index mp (w_ptrs w ! k)) (free_top mp)\<rparr>, mp\<lparr>free_top := free_top mp + 1\<rparr>)"
    using S c by (simp add: start_free_def Let_def not_le)
  then show ?thesis using assms(3-7) S ft u by (auto simp: moves_def pool_ok_def worker_ok_def pc_ok_def weight_def word_less_nat_alt)
qed

lemma after_free_ok:
  assumes "worker_ok m w" and "k < length (w_ptrs w)"
  shows "worker_ok m (after_free k w)" "weight (after_free k w) = length (w_ptrs w) - 1"
proof -
  have "set (butlast ((w_ptrs w)[k := last (w_ptrs w)])) \<subseteq> set (w_ptrs w)"
    using set_update_subset_insert [of "w_ptrs w" k "last (w_ptrs w)"] last_in_set [of "w_ptrs w"] assms(2) in_set_butlastD by fastforce
  moreover have "set (tl (w_ptrs w)) \<subseteq> set (w_ptrs w)" by (cases "w_ptrs w") auto
  ultimately show "worker_ok m (after_free k w)" "weight (after_free k w) = length (w_ptrs w) - 1"
    using assms by (auto simp: worker_ok_def after_free_def next_iter_def pc_ok_def weight_def)
qed

lemma random_pick: "4 \<le> n \<Longrightarrow> n \<le> 16 \<Longrightarrow> unat (x mod of_nat n :: u32) < n"
  using mod_less_divisor [of n "unat x"] by (simp add: unat_mod unat_of_nat_u32)

lemma worker_step_moves:
  assumes m: "mp_ok m" "mp_capacity m = 1024" and P: "pool_ok m mp" and W: "worker_ok m w" and sum: "unat (free_top mp) + weight w + rest = 1024" and "rest \<le> 48"
  shows "moves m rest (worker_step w mp)"
proof (cases "w_pc w")
  case WIdle
  obtain alloc r where a: "wants_alloc w = (alloc, r)" by fastforce
  let ?w = "w\<lparr>w_prng := r\<rparr>" and ?w2 = "w\<lparr>w_prng := mt_xorshift32 r\<rparr>" and ?n = "length (w_ptrs w)"
  have W': "worker_ok m ?w" "worker_ok m ?w2" "weight ?w = weight w" "weight ?w2 = weight w" using W WIdle by (simp_all add: worker_ok_def weight_def pc_ok_def)
  consider (takes) "w_iter w < MT_ITERATIONS" "alloc" "?n < 16" | (skip) "w_iter w < MT_ITERATIONS" "alloc" "\<not> ?n < 16"
    | (give) "w_iter w < MT_ITERATIONS" "\<not> alloc" | (ended) "\<not> w_iter w < MT_ITERATIONS" "w_ptrs w = []" | (last) "\<not> w_iter w < MT_ITERATIONS" "w_ptrs w \<noteq> []" by blast
  then show ?thesis
  proof cases
    case takes
    have n: "0 < unat (free_top mp)" using sum assms(6) WIdle takes(3) by (simp add: weight_def)
    then have "unat (free_top mp - 1) = unat (free_top mp) - 1" by (intro unat_minus_one) auto
    then show ?thesis using takes a WIdle P W sum n by (auto simp: moves_def worker_step_def pool_ok_def worker_ok_def pc_ok_def weight_def)
  next
    case skip
    then show ?thesis using a WIdle P W sum by (simp add: moves_def worker_step_def worker_ok_def pc_ok_def weight_def next_iter_def)
  next
    case give
    then have n: "4 \<le> ?n" "?n \<le> 16" using a W by (auto simp: wants_alloc_def worker_ok_def Let_def split: if_splits)
    from start_free_moves [OF m P W'(2) _ _ sum [folded W'(4)]] random_pick [OF n] show ?thesis using give a WIdle by (simp add: worker_step_def Let_def)
  next
    case ended
    then show ?thesis using WIdle P W sum by (simp add: moves_def worker_step_def)
  next
    case last
    then show ?thesis using start_free_moves [OF m P W WIdle _ sum, of 0] WIdle by (simp add: worker_step_def)
  qed
next
  case (WSub t)
  then have t: "0 < unat t" "unat t \<le> 1024" "length (w_ptrs w) < 16" using W by (simp_all add: worker_ok_def pc_ok_def)
  then have "t \<noteq> 0" by auto
  then have u: "t \<noteq> 0" "unat (t - 1) < 1024" using unat_minus_one [of t] t(1,2) by simp_all
  obtain l where l: "free_list mp = Some l" "length l = 1024" "\<forall>i \<in> set l. i < 1024" using P by (auto simp: pool_ok_def)
  then have "l ! unat (t - 1) < 1024" using u(2) by simp
  moreover have "object_address mp i = object_address m i" for i using P by (simp add: pool_ok_def object_address_def)
  ultimately have "object_address mp (l ! unat (t - 1)) \<in> mp_slots m" using m(2) by (auto simp: mp_slots_def)
  then show ?thesis using WSub u l P W sum t(3)
    by (simp add: moves_def worker_step_def load_index_def next_iter_def worker_ok_def pc_ok_def weight_def)
next
  case (WAdd k idx slot)
  then have t: "k < length (w_ptrs w)" "idx < 1024" "slot < 1024" using W by (simp_all add: worker_ok_def pc_ok_def)
  obtain l where l: "free_list mp = Some l" "length l = 1024" "\<forall>i \<in> set l. i < 1024" "mp_capacity mp = 1024" using P by (auto simp: pool_ok_def)
  have s: "unat slot < 1024" using t(3) by (simp add: word_less_nat_alt)
  have "\<forall>i \<in> set (l[unat slot := idx]). i < 1024" using set_update_subset_insert [of l "unat slot" idx] l(3) t(2) by auto
  then have "pool_ok m (mp\<lparr>free_list := Some (l[unat slot := idx])\<rparr>)" using P l(2) by (simp add: pool_ok_def)
  moreover have "worker_step w mp = Some (after_free k w, mp\<lparr>free_list := Some (l[unat slot := idx])\<rparr>)"
    using WAdd l(1,2,4) t(3) s by (simp add: worker_step_def store_index_def not_le)
  moreover have "weight (after_free k w) = weight w" using after_free_ok(2) [OF W t(1)] WAdd by (simp add: weight_def)
  ultimately show ?thesis using after_free_ok(1) [OF W t(1)] sum by (simp add: moves_def)
qed

text \<open>The threads come to an end: what a thread still has to do.\<close>

definition ended :: "worker \<Rightarrow> bool" where
  "ended w \<longleftrightarrow> w_pc w = WIdle \<and> \<not> w_iter w < MT_ITERATIONS \<and> w_ptrs w = []"

definition work_left :: "worker \<Rightarrow> nat" where
  "work_left w = 40 * (MT_ITERATIONS - w_iter w) + 2 * length (w_ptrs w) - (if w_pc w = WIdle then 0 else 1)"

lemma start_free_works:
  assumes "start_free k w mp = Some (w', mp')" and "w_pc w = WIdle" and "k < length (w_ptrs w)"
  shows "work_left w' < work_left w"
  using assms by (auto simp: start_free_def Let_def work_left_def after_free_def next_iter_def split: if_splits)

lemma worker_step_works:
  assumes "worker_ok m w" and "\<not> ended w" and "worker_step w mp = Some (w', mp')"
  shows "work_left w' < work_left w"
proof (cases "w_pc w")
  case WIdle
  obtain alloc r where a: "wants_alloc w = (alloc, r)" by fastforce
  let ?n = "length (w_ptrs w)" and ?w = "w\<lparr>w_prng := mt_xorshift32 r\<rparr>"
  have n: "?n \<le> 16" using assms(1) by (simp add: worker_ok_def)
  show ?thesis
  proof (cases "w_iter w < MT_ITERATIONS \<and> \<not> alloc")
    case True
    then have "4 \<le> ?n" using a by (auto simp: wants_alloc_def Let_def split: if_splits)
    from random_pick [OF this n, of "mt_xorshift32 r"] show ?thesis using start_free_works [of "unat (mt_xorshift32 r mod of_nat ?n)" ?w mp w' mp'] True a WIdle assms(3)
      by (simp add: worker_step_def Let_def) (simp add: work_left_def)
  next
    case False
    then show ?thesis using a WIdle assms(2,3) n start_free_works [of 0 w mp w' mp']
      by (auto simp: worker_step_def ended_def work_left_def next_iter_def Let_def split: if_splits)
  qed
next
  case (WSub t)
  then show ?thesis using assms by (auto simp: worker_ok_def pc_ok_def worker_step_def work_left_def next_iter_def split: if_splits)
next
  case (WAdd k idx slot)
  then have "k < length (w_ptrs w)" using assms(1) by (simp add: worker_ok_def pc_ok_def)
  then show ?thesis using WAdd assms(3) by (auto simp: worker_step_def work_left_def after_free_def next_iter_def split: if_splits)
qed

lemma sum_list_split:
  assumes "t < length ws"
  defines "others \<equiv> take t ws @ drop (Suc t) ws"
  shows "sum_list (map f ws) = f (ws ! t) + sum_list (map f others)" "sum_list (map f (ws[t := w])) = (f w :: nat) + sum_list (map f others)"
proof -
  have "sum_list (map f (take t ws @ x # drop (Suc t) ws)) = f x + sum_list (map f others)" for x by (simp add: others_def)
  then show "sum_list (map f ws) = f (ws ! t) + sum_list (map f others)" "sum_list (map f (ws[t := w])) = f w + sum_list (map f others)"
    using id_take_nth_drop [OF assms(1)] upd_conv_take_nth_drop [OF assms(1), of w] by metis+
qed

lemma weights_bound: "\<forall>w \<in> set ws. worker_ok m w \<Longrightarrow> sum_list (map weight ws) \<le> 16 * length ws"
proof (induction ws)
  case (Cons w ws)
  then show ?case using weight_bound [of m w] by simp
qed simp

lemma stress_step_ok:
  assumes "mp_ok m" "mp_capacity m = 1024" and "stress_inv m s"
  shows "\<exists>s'. stress_step t s = Some s' \<and> stress_inv m s'
    \<and> (t < 4 \<and> \<not> ended (st_workers s ! t) \<longrightarrow> sum_list (map work_left (st_workers s')) < sum_list (map work_left (st_workers s)))"
proof (cases "t < 4")
  case True
  let ?ws = "st_workers s" and ?others = "take t (st_workers s) @ drop (Suc t) (st_workers s)"
  have I: "pool_ok m (st_pool s)" "length ?ws = 4" "unat (free_top (st_pool s)) + sum_list (map weight ?ws) = 1024" "\<forall>w \<in> set ?ws. worker_ok m w"
    using assms(3) by (simp_all add: stress_inv_def)
  have t: "t < length ?ws" using True I(2) by simp
  note split = sum_list_split [OF t]
  have W: "worker_ok m (?ws ! t)" using I(4) t by simp
  have "sum_list (map weight ?others) \<le> 16 * length ?others" by (rule weights_bound) (use I(4) in \<open>auto dest: in_set_takeD in_set_dropD\<close>)
  then have rest: "sum_list (map weight ?others) \<le> 48" using I(2) True by simp
  have "unat (free_top (st_pool s)) + weight (?ws ! t) + sum_list (map weight ?others) = 1024" using I(3) split(1) [of weight] by simp
  from worker_step_moves [OF assms(1,2) I(1) W this rest] obtain w mp where
    w: "worker_step (?ws ! t) (st_pool s) = Some (w, mp)" "pool_ok m mp" "worker_ok m w" "unat (free_top mp) + weight w + sum_list (map weight ?others) = 1024"
    by (auto simp: moves_def)
  let ?s = "s\<lparr>st_pool := mp, st_workers := ?ws[t := w]\<rparr>"
  have "stress_step t s = Some ?s" using w(1) t by (simp add: stress_step_def)
  moreover have "stress_inv m ?s" using w I split(2) [of weight w] set_update_subset_insert [of ?ws t w] by (auto simp: stress_inv_def)
  moreover have "sum_list (map work_left (?ws[t := w])) < sum_list (map work_left ?ws)" if "\<not> ended (?ws ! t)"
    using worker_step_works [OF W that w(1)] split [of work_left] by simp
  ultimately show ?thesis by auto
qed (use assms in \<open>simp add: stress_step_def stress_inv_def\<close>)

lemma stress_run_ok: "mp_ok m \<Longrightarrow> mp_capacity m = 1024 \<Longrightarrow> stress_inv m s \<Longrightarrow> \<exists>s'. stress_run sched s = Some s' \<and> stress_inv m s'"
proof (induction sched arbitrary: s)
  case (Cons t sched)
  from stress_step_ok [OF Cons.prems, of t] obtain s1 where "stress_step t s = Some s1" "stress_inv m s1" by blast
  with Cons.IH [OF Cons.prems(1,2)] show ?case by simp
qed simp

lemma stress_ends:
  assumes "mp_ok m" "mp_capacity m = 1024" and "stress_inv m s"
  shows "\<exists>sched s'. stress_run sched s = Some s' \<and> joined s'"
  using assms(3)
proof (induction "sum_list (map work_left (st_workers s))" arbitrary: s rule: less_induct)
  case less
  show ?case
  proof (cases "joined s")
    case True
    then show ?thesis by (intro exI [of _ "[]"]) simp
  next
    case False
    then obtain w where "w \<in> set (st_workers s)" "\<not> ended w" by (auto simp: joined_def ended_def)
    moreover have "length (st_workers s) = 4" using less.prems by (simp add: stress_inv_def)
    ultimately obtain t where t: "t < 4" "\<not> ended (st_workers s ! t)" by (auto simp: in_set_conv_nth)
    with stress_step_ok [OF assms(1,2) less.prems, of t] obtain s1 where
      1: "stress_step t s = Some s1" "stress_inv m s1" "sum_list (map work_left (st_workers s1)) < sum_list (map work_left (st_workers s))" by blast
    from less.hyps [OF 1(3,2)] obtain sched s' where "stress_run sched s1 = Some s'" "joined s'" by blast
    then show ?thesis using 1(1) by (intro exI [of _ "t # sched"]) simp
  qed
qed

section \<open>The test passes, and what it does not see\<close>

lemma stress_start:
  assumes "base \<noteq> 0" and "unat base + 4096 \<le> 2 ^ 64"
  shows "\<exists>m. mempool_init base True (Some mp0) 4 MT_POOL_SIZE = (0, Some m) \<and> mp_ok m \<and> mp_capacity m = 1024 \<and> free_top m = 1024
    \<and> rev (free_indices m) = map of_nat [0..<1024] \<and> stress_inv m \<lparr>st_pool = m, st_workers = mt_workers\<rparr>"
proof -
  from mempool_init_ok [of 4 1024 base mp0] assms obtain m where
    m: "mempool_init base True (Some mp0) 4 1024 = (0, Some m)" "mp_ok m" "mp_capacity m = 1024" "rev (free_indices m) = map of_nat [0..<1024]" by auto
  have f: "free_top m = 1024" "\<exists>l. free_list m = Some l \<and> length l = 1024 \<and> (\<forall>i \<in> set l. i < 1024)"
  proof -
    have "unat (free_top m) = card (mp_avail m)" using card_mp_avail [OF m(2)] by simp
    also have "\<dots> = 1024" using mempool_init_fresh [of 4 1024 base mp0] m(1) assms by auto
    finally show "free_top m = 1024" by (simp add: word_unat_eq_iff)
    then show "\<exists>l. free_list m = Some l \<and> length l = 1024 \<and> (\<forall>i \<in> set l. i < 1024)"
      using m(2,3) by (auto simp: mp_ok_def free_indices_def split: option.splits)
  qed
  have "stress_inv m \<lparr>st_pool = m, st_workers = mt_workers\<rparr>"
    using f m(3) by (auto simp: stress_inv_def pool_ok_def mt_workers_def MT_NUM_THREADS_def worker_ok_def pc_ok_def weight_def upt_rec)
  then show ?thesis using m f(1) unfolding MT_POOL_SIZE_def by blast
qed

text \<open>With a full counter an allocation followed by its release leaves the pool as it was.\<close>

lemma alloc_free_again:
  assumes "mp_ok m" "mp_capacity m = 1024" and "pool_ok m mp" and "free_top mp = 1024"
  shows "\<exists>p q. mempool_alloc mp = Some (p, q) \<and> p \<noteq> 0 \<and> mempool_free q p = Some mp"
proof -
  obtain l where l: "free_list mp = Some l" "length l = 1024" "\<forall>i \<in> set l. i < 1024" using assms(3) by (auto simp: pool_ok_def)
  let ?i = "l ! 1023" and ?q = "mp\<lparr>free_top := 1023\<rparr>"
  have i: "?i < 1024" using l(2,3) by simp
  then have ni: "\<not> 1024 \<le> ?i" by (simp only: not_le)
  have eq: "object_index mp = object_index m" "object_address mp = object_address m" "object_size mp = object_size m" and c: "mp_capacity mp = 1024"
    using assms(3) by (simp_all add: pool_ok_def object_index_def object_address_def fun_eq_iff)
  have s: "object_address mp ?i \<in> mp_slots m" using i assms(2) by (auto simp: mp_slots_def eq)
  have "pool_ok m ?q" using assms(3) by (simp add: pool_ok_def)
  note S = slot_index [OF assms(1,2) this s]
  have idx: "object_index ?q (object_address mp ?i) = ?i" using object_index_address [OF assms(1), of ?i] i assms(2) by (simp add: eq)
  have "mempool_alloc mp = Some (object_address mp ?i, ?q)" using l(1,2) assms(4) by (simp add: mempool_alloc_def load_index_def Let_def)
  moreover have "mempool_free ?q (object_address mp ?i) = Some (mp\<lparr>free_top := 1024, free_list := Some (l[1023 := ?i])\<rparr>)"
    using S(1,3) idx ni l(1,2) c by (simp add: mempool_free_def Let_def store_index_def)
  moreover have "mp\<lparr>free_top := 1024, free_list := Some (l[1023 := ?i])\<rparr> = mp" using l(1) assms(4) by simp
  ultimately show ?thesis using S(1) by auto
qed

text \<open>A schedule of the first steps: thread 0 takes four objects and starts to give back one of them; then thread 1 allocates.\<close>

definition early_steps :: "nat list" where
  "early_steps = [0, 0, 0, 0, 0, 0, 0, 0, 0, 1, 1]"

lemma first_draws: "mt_xorshift32 2463534242 = 723471715" "mt_xorshift32 723471715 = 2497366906"
  by (simp_all add: mt_xorshift32_def Let_def)

lemma first_objects:
  assumes "rev (free_indices m) = map of_nat [0..<1024]" and "free_top m = 1024" and "free_list m = Some l" and "length l = 1024"
  shows "l ! 1023 = 0" "l ! 1022 = 1" "l ! 1021 = 2" "l ! 1020 = 3"
proof -
  have r: "rev l = map of_nat [0..<1024]" using assms by (simp add: free_indices_def)
  have "l ! (1023 - j) = of_nat j" if "j < 1024" for j
  proof -
    have "l ! (1023 - j) = rev l ! j" using that assms(4) by (simp add: rev_nth)
    also have "\<dots> = of_nat j" using that unfolding r by (simp del: upt_Suc upt_rec_numeral)
    finally show ?thesis .
  qed
  from this [of 0] this [of 1] this [of 2] this [of 3] show "l ! 1023 = 0" "l ! 1022 = 1" "l ! 1021 = 2" "l ! 1020 = 3" by simp_all
qed

lemma early_steps_run:
  assumes "mp_ok m" "mp_capacity m = 1024" "free_top m = 1024" "free_list m = Some l" "length l = 1024" "l ! 1023 = 0" "l ! 1022 = 1" "l ! 1021 = 2" "l ! 1020 = 3"
  shows "\<exists>s. stress_run early_steps \<lparr>st_pool = m, st_workers = mt_workers\<rparr> = Some s
    \<and> w_ptrs (st_workers s ! 0) = map (object_address m) [0, 1, 2, 3] \<and> w_pc (st_workers s ! 0) = WAdd 2 2 1020
    \<and> w_ptrs (st_workers s ! 1) = [object_address m 3] \<and> w_pc (st_workers s ! 1) = WIdle"
proof -
  have i: "object_index m (object_address m 2) = 2" using object_index_address [OF assms(1), of 2] assms(2) by simp
  have "object_address m 2 \<in> mp_slots m" using assms(2) by (auto simp: mp_slots_def)
  then have n: "object_address m 2 \<noteq> 0" "object_size m \<noteq> 0" using assms(1) mp_ok_null [OF assms(1)] by (auto simp: mp_ok_def)
  show ?thesis
    using assms(2-) i n by (simp add: early_steps_def stress_step_def worker_step_def mt_workers_def MT_NUM_THREADS_def upt_rec MT_ITERATIONS_def wants_alloc_def
        next_iter_def start_free_def load_index_def first_draws Let_def)
qed

text \<open>C31: the stress test of the pool passes under every schedule of its four threads: no access is invalid, the threads can always be run to
  their end, and whenever they have ended both assertions on the count and the hundred allocations after them succeed. Yet the test does
  not see the pool's defect: there is a schedule after which thread 1 has been given the object \<open>ptrs[3]\<close> of thread 0, while
  thread 0, which is giving back \<open>ptrs[2]\<close>, still holds it.\<close>

theorem stress_test_blind:
  assumes "base \<noteq> 0" and "unat base + 4096 \<le> 2 ^ 64"
  shows "\<exists>m. mempool_init base True (Some mp0) 4 MT_POOL_SIZE = (0, Some m)
    \<and> (\<forall>sched. \<exists>s. stress_run sched \<lparr>st_pool = m, st_workers = mt_workers\<rparr> = Some s
         \<and> (joined s \<longrightarrow> test_multi_threaded nd base mp0 sched = Some (st_pool s)) \<and> (\<exists>more s'. stress_run more s = Some s' \<and> joined s'))
    \<and> (\<exists>s. stress_run early_steps \<lparr>st_pool = m, st_workers = mt_workers\<rparr> = Some s
         \<and> w_pc (st_workers s ! 0) = WAdd 2 2 1020 \<and> w_pc (st_workers s ! 1) = WIdle \<and> w_ptrs (st_workers s ! 1) = [w_ptrs (st_workers s ! 0) ! 3])"
proof -
  from stress_start [OF assms, of mp0] obtain m where
    m: "mempool_init base True (Some mp0) 4 MT_POOL_SIZE = (0, Some m)" "mp_ok m" "mp_capacity m = 1024" "free_top m = 1024"
      "rev (free_indices m) = map of_nat [0..<1024]" "stress_inv m \<lparr>st_pool = m, st_workers = mt_workers\<rparr>" by blast
  let ?s0 = "\<lparr>st_pool = m, st_workers = mt_workers\<rparr>"
  have "\<exists>s. stress_run sched ?s0 = Some s \<and> (joined s \<longrightarrow> test_multi_threaded nd base mp0 sched = Some (st_pool s)) \<and> (\<exists>more s'. stress_run more s = Some s' \<and> joined s')" for sched
  proof -
    from stress_run_ok [OF m(2,3,6), of sched] obtain s where s: "stress_run sched ?s0 = Some s" "stress_inv m s" by blast
    have "test_multi_threaded nd base mp0 sched = Some (st_pool s)" if j: "joined s"
    proof -
      have "sum_list (map weight (st_workers s)) = 0" using j by (auto simp: joined_def weight_def)
      moreover have "unat (free_top (st_pool s)) + sum_list (map weight (st_workers s)) = 1024" "pool_ok m (st_pool s)" using s(2) by (simp_all add: stress_inv_def)
      ultimately have "unat (free_top (st_pool s)) = 1024" "pool_ok m (st_pool s)" by linarith+
      then have f: "free_top (st_pool s) = 1024" "pool_ok m (st_pool s)" by (simp_all add: word_unat_eq_iff)
      from alloc_free_again [OF m(2,3) f(2,1)] obtain p q where
        pq: "mempool_alloc (st_pool s) = Some (p, q)" "p \<noteq> 0" "mempool_free q p = Some (st_pool s)" by blast
      have "for_each (\<lambda>i mp. do { (p, mp) \<leftarrow> mempool_alloc mp; assert_that nd (p \<noteq> 0); mempool_free mp p }) is (st_pool s) = Some (st_pool s)" for "is"
        by (induction "is") (simp_all add: pq assert_that_def)
      then show ?thesis using m(1) s(1) j f(1) by (simp add: test_multi_threaded_def assert_that_def mempool_available_def MT_POOL_SIZE_def)
    qed
    then show ?thesis using s(1) stress_ends [OF m(2,3) s(2)] by blast
  qed
  moreover obtain l where l: "free_list m = Some l" "length l = 1024" using m(6) by (auto simp: stress_inv_def pool_ok_def)
  from early_steps_run [OF m(2-4) l first_objects [OF m(5,4) l]] obtain s where
    "stress_run early_steps ?s0 = Some s" "w_ptrs (st_workers s ! 0) = map (object_address m) [0, 1, 2, 3]" "w_pc (st_workers s ! 0) = WAdd 2 2 1020"
    "w_ptrs (st_workers s ! 1) = [object_address m 3]" "w_pc (st_workers s ! 1) = WIdle" by blast
  then have "\<exists>s. stress_run early_steps ?s0 = Some s \<and> w_pc (st_workers s ! 0) = WAdd 2 2 1020 \<and> w_pc (st_workers s ! 1) = WIdle
      \<and> w_ptrs (st_workers s ! 1) = [w_ptrs (st_workers s ! 0) ! 3]" by (intro exI [of _ s]) simp
  ultimately show ?thesis using m(1) by blast
qed

theorem stress_test_blind_witness:
  "\<exists>m s. mempool_init 4096 True (Some ex_pool) 4 MT_POOL_SIZE = (0, Some m) \<and> stress_run early_steps \<lparr>st_pool = m, st_workers = mt_workers\<rparr> = Some s
    \<and> w_ptrs (st_workers s ! 1) = [w_ptrs (st_workers s ! 0) ! 3]"
  using stress_test_blind [of 4096 ex_pool False] by auto

end
