(* ===== verification/Spec2Isabelle.thy ===== *)
theory Spec2Isabelle
  imports Book_Properties Ring_Concurrent Memory_Pool Risk_Properties Journal_Properties Gateway_Properties Logger
    Feed_Receiver Pipeline_Properties Engine_Properties Main_Program Overlap Logger_Race Pool_Stress_Test
begin

text \<open>
  \<^bold>\<open>Verification of the Aspira trading engine\<close>

  \<^bold>\<open>The program.\<close> The engine is one process with four threads. A feed thread (\<open>src/feed_handler.c\<close>) makes or receives market
  data and puts messages, taken from a memory pool (\<open>src/memory_pool.c\<close>), into a ring buffer (\<open>src/ring_buffer.c\<close>). The hot path
  (\<open>EventPipeline::consumer_loop\<close> in \<open>src/event_pipeline.cpp\<close>) takes them out, lets a strategy make two orders of each, validates
  the orders in the risk engine (\<open>src/risk_engine.cpp\<close>), submits them to the order book (\<open>src/order_book.cpp\<close>) and hands the
  results over to the I/O thread as events. The I/O thread writes them to the journal (\<open>src/journal.c\<close>), to the logger
  (\<open>src/logger.c\<close>, with a thread of its own) and to the execution gateway (\<open>src/execution_gateway.c\<close>). \<open>src/main.cpp\<close> starts and
  stops all this.

  \<^bold>\<open>The theories.\<close> Each component is a group of definitions that follows its source file function by function: a record for the
  struct or class, a definition per function with its early returns, and lemmas.

  \<^item> \<open>Prelude\<close>: fixed-width types, signed 32-bit arithmetic (\<open>s32\<close>), C strings (\<open>cstr\<close>, \<open>strncpy\<close>), lists. \<open>Bytes\<close>: little-endian
    encoding. \<open>Printf\<close>: the conversions of the \<open>printf\<close> family in use, with readers that invert them.
  \<^item> \<open>Binary64\<close>: the \<open>double\<close> of the sources as IEEE 754 bit patterns with correctly rounded \<open>+ - * /\<close>, comparison and conversion,
    executable, with monotonicity of rounding. \<open>Double_Bounds\<close>: interval reasoning on top.
  \<^item> \<open>Orders\<close> (\<open>include/order.h\<close>); \<open>Price_Map\<close>: \<open>std::map\<close> with the comparators of the book, as a locale \<open>level_order\<close> over the
    ordering, interpreted for both sides.
  \<^item> \<open>Order_Book\<close> (\<open>order_book.cpp\<close>, every member function); \<open>Book_Matching\<close>: the price-time priority plan as specification and the
    refinement of the matching loops; \<open>Book_Invariants\<close>: the invariant (locale \<open>book_side\<close>) and its preservation by every
    operation; \<open>Book_Properties\<close>: what each operation does.
  \<^item> \<open>Ring_Buffer\<close> (\<open>ring_buffer.c/.h\<close>): the code on machine words against the locale \<open>bounded_queue\<close>, which all clients use;
    \<open>Ring_Concurrent\<close>: one producer and one consumer, interleaved at the granularity of loads and stores.
  \<^item> \<open>Memory_Pool\<close> (\<open>memory_pool.c/.h\<close>): locale \<open>object_pool\<close> for the sequential contract, and the atomic steps of concurrent
    allocation and release with two schedules that break it.
  \<^item> \<open>Risk_Engine\<close>, \<open>Risk_Properties\<close> (\<open>risk_engine.cpp/.h\<close>).
  \<^item> \<open>Journal\<close>, \<open>Journal_Properties\<close> (\<open>journal.c/.h\<close>): both modes of the file, checksum, layouts, replay (locale \<open>record_format\<close>).
  \<^item> \<open>Execution_Gateway\<close>, \<open>Gateway_Properties\<close> (\<open>execution_gateway.c/.h\<close>).
  \<^item> \<open>Message_Source\<close>: the contract of every queue of messages towards its consumer (locale \<open>message_queue\<close>), kept by the rings, the
    event channel and the feed, with the induction behind the loops that drain them.
  \<^item> \<open>Event_Channel\<close>: the pool with a free and a filled queue that logger and pipeline share, and its two threads; \<open>Logger\<close>
    (\<open>logger.c/.h\<close>); \<open>Logger_Race\<close>: two threads in \<open>logger_write\<close> at the same time.
  \<^item> \<open>Feed_Handler\<close>, \<open>Feed_Properties\<close>, \<open>Feed_Simulation\<close> (\<open>feed_handler.c/.h\<close>); \<open>Feed_Receiver\<close>: the receive thread as a whole, with
    \<open>epoll\<close>.
  \<^item> \<open>Event_Pipeline\<close>, \<open>Pipeline_Control\<close> (\<open>event_pipeline.cpp/.h\<close>): strategy, hot path, I/O path and loops; initialisation, start,
    stop and destruction, the latter also after a start that failed; the threads while they stop, as a step relation and as operations of a
    schedule, which \<open>pl_stop\<close> takes as an argument.
  \<^item> \<open>Pipeline_Hot_Path\<close>, \<open>Pipeline_IO_Path\<close>, \<open>Pipeline_Run\<close>, \<open>Pipeline_Properties\<close>: the specification of the hot path and its refinement,
    the I/O path, the invariant of the whole pipeline, and the properties of the engine.
  \<^item> \<open>Trading_Engine\<close>, \<open>Command_Line\<close>, \<open>Main_Program\<close> (\<open>main.cpp\<close>): settings, start-up, main loop, end and signal handler;
    a model of the C library's \<open>getopt_long\<close> with its diagnostics; the function \<open>main\<close> with all it prints and the files it leaves.
  \<^item> \<open>Engine_Spec\<close>: the engine as an abstract machine over lists of quotes and events, a book and positions, without rings, pools and
    addresses; \<open>Engine_Refinement\<close>: every iteration of every loop, start, and stop under every schedule implement it; \<open>Engine_Properties\<close>: what follows for runs,
    the journal file and the gateway's log.
  \<^item> \<open>Hot_Steps\<close>: the iterations of hot path and I/O thread taken apart into steps with at most one access to a shared queue each, with a lemma that together they are the iterations of \<open>Event_Pipeline\<close>;
    \<open>Overlap\<close>: all threads interleaved after every such step, against a sequential reference.
  \<^item> \<open>Unit_Tests\<close>, \<open>Pool_Stress_Test\<close> (\<open>tests/\<close>): the repository's own tests, translated and run on the model.

  \<^bold>\<open>Conventions.\<close> State is passed explicitly. An invalid memory access is the result \<open>None\<close>, so that a theorem with \<open>= Some ...\<close> says
  that there is none; error codes are the integers of the code or an option. Machine words wrap; signed 32-bit results are reduced by
  \<open>s32\<close>. Addresses are words (\<open>ptr\<close>), list iterators of the book are node numbers, a memory pool or an event pool maps addresses
  to contents. What comes from outside (allocation, files, sockets, threads, clocks) is an argument: a record of results or a
  function of the call's number. The loops that drain queues are \<open>partial_function\<close>s without fuel, and that they return is proved; a
  loop that runs as long as the engine is modelled by its iterations, which the theorems put in arbitrary order. Where threads meet inside
  an operation, a schedule or a step relation interleaves their accesses.

  \<^bold>\<open>What is shown.\<close> The engine as a whole: it comes up, runs every sequence of iterations without a fault, stops under every schedule of
  its ending threads, and its books balance (\<open>engine_lifecycle\<close>); in every run it is in step with the abstract machine (\<open>engine_refines_spec\<close>). The
  journal file read back is exactly the list of the machine's events that passed the I/O thread, and the gateway's log has a line for each of the
  orders among them that were sent on; what is missing was dropped on a full queue and counted, or was left in the queue by \<open>stop\<close>, which
  happens only when the I/O thread ends before the hot path (\<open>engine_audit_trail\<close>, \<open>engine_gateway_log\<close>). Whatever waits is
  dealt with once the threads have had their turns (\<open>engine_progress\<close>). The threads may even overlap inside their iterations: under every
  interleaving of the small steps the trading is that of a sequential hot path and the journal keeps its order (\<open>overlap_refines\<close>). \<open>main\<close> returns
  0 with these results for every command line that parses (\<open>main_completes\<close>), and 1, the journal's contents intact, when it cannot start, but then the logger is
  freed under its running thread (\<open>main_start_failure\<close>); a signal ends the trading and closes the journal, but does not end the program
  (\<open>main_interrupted\<close>). Positions stay within the configured limits and the book stays in order over all of it; the hot
  path refines a specification that decides orders on book and risk engine alone. The book: matching is price-time priority,
  quantity is conserved, prices respect limits, every operation has its exact effect and keeps the invariant. The ring buffer is
  linearizable for one producer and one consumer; the hand-over of events loses and reorders nothing. The risk engine accepts exactly
  what a table of rules allows and gives the text of the first rule broken. Journal, gateway lines and command line can be read back. Logger and feed account for every message; a logged message leaves the line its time, level and text call for.
  The repository's unit tests hold of the model. Where the code falls short, this is a theorem too: events lost by \<open>stop\<close> under some
  schedules, objects handed out twice by a contended memory pool, which its stress test does not notice (\<open>stress_test_blind\<close>), log messages lost when
  two threads log (\<open>logger_write_race\<close>), a mapped journal that starts at 256 MB, prices that are not numbers.

  \<^bold>\<open>Bounds.\<close> Statements about runs of the engine assume that the feed has made fewer than \<open>2\<^sup>3\<^sup>0\<close> messages (\<open>2\<^sup>2\<^sup>9\<close> before \<open>stop\<close> where
  the stopping threads may still make some), because every message uses two of the order ids, which are 32 bits wide and signed;
  at the feed's 2000 messages per second this is six days, after which the ids wrap. The loops may run \<open>2\<^sup>5\<^sup>5\<close> times. The journal file must be
  at most \<open>2\<^sup>6\<^sup>2\<close> bytes long at the start so that its size does not wrap. The sizes 4096, 888 and 528 are those of the sources' queues
  and of the compiled structs \<open>IOEvent\<close> and \<open>log_entry_t\<close>.

  \<^bold>\<open>Not modelled.\<close> The order of memory accesses weaker than sequential consistency (the ring buffer's theory states which accesses are
  release and acquire); the back-off counters of the polling loops, which only pace them; a signal that arrives outside the rounds of the main loop; messages the feed makes before a failing \<open>start\<close> stops it again; \<open>journal_sync\<close>, which changes no byte; the effect of two calls of \<open>logger_write\<close> at the same time on the rest of the engine (it is confined
  to the log); an allocation from the feed's message pool at the same moment as a release, whose possible outcome \<open>Memory_Pool\<close> shows; \<open>reserve\<close>
  on the book's containers; the build files and scripts.
\<close>

end
